(* ===== verification/Prelude.thy ===== *)
theory Prelude
  imports Main "HOL-Library.Word"
begin

text \<open>
  Shared vocabulary of the development: the machine integer types of types.h, the outcome
  of a kernel routine (a normal return, a call of panic, a wait that nobody ends, or an
  access outside an object), sequential composition of routines, little-endian fields inside
  byte arrays, and the generic list lemmas the components use.
\<close>

section \<open>Machine integers\<close>

type_synonym uchar = "8 word"
type_synonym ushort = "16 word"
type_synonym uint = "32 word"

named_theorems outcome_simps \<open>sequencing of kernel routines\<close>
named_theorems field_simps' \<open>reading and writing fields of byte arrays\<close>

section \<open>Outcomes of kernel routines\<close>

text \<open>
  \<open>Ok a s\<close>: the routine returns \<open>a\<close> in state \<open>s\<close>. \<open>Panic m\<close>: it called
  \<open>panic(m)\<close>. \<open>Hang\<close>: the calling process sleeps or spins and, in a run of that process
  alone, never returns. \<open>Fault\<close>: it follows a null pointer or leaves an array.
\<close>

datatype ('s, 'a) outcome = Ok 'a 's | Panic string | Hang | Fault

type_synonym ('s, 'a) routine = "'s \<Rightarrow> ('s, 'a) outcome"

definition kret :: "'a \<Rightarrow> ('s, 'a) routine" where
  "kret a s = Ok a s"

definition kbind :: "('s, 'a) routine \<Rightarrow> ('a \<Rightarrow> ('s, 'b) routine) \<Rightarrow> ('s, 'b) routine" where
  "kbind m f s =
     (case m s of Ok a s' \<Rightarrow> f a s' | Panic e \<Rightarrow> Panic e | Hang \<Rightarrow> Hang | Fault \<Rightarrow> Fault)"

definition kthen :: "('s, 'a) routine \<Rightarrow> ('s, 'b) routine \<Rightarrow> ('s, 'b) routine" where
  "kthen m n = kbind m (\<lambda>_. n)"

definition kpanic :: "string \<Rightarrow> ('s, 'a) routine" where
  "kpanic e s = Panic e"

definition kget :: "('s \<Rightarrow> 'a) \<Rightarrow> ('s, 'a) routine" where
  "kget f s = Ok (f s) s"

definition kmod :: "('s \<Rightarrow> 's) \<Rightarrow> ('s, unit) routine" where
  "kmod f s = Ok () (f s)"

fun returns :: "('s, 'a) outcome \<Rightarrow> bool" where
  "returns (Ok a s) = True"
| "returns _ = False"

lemma kret_apply [simp, outcome_simps]: "kret a s = Ok a s"
  by (simp add: kret_def)

lemma kpanic_apply [simp, outcome_simps]: "kpanic e s = Panic e"
  by (simp add: kpanic_def)

lemma kget_apply [simp, outcome_simps]: "kget f s = Ok (f s) s"
  by (simp add: kget_def)

lemma kmod_apply [simp, outcome_simps]: "kmod f s = Ok () (f s)"
  by (simp add: kmod_def)

lemma kbind_Ok [outcome_simps]: "m s = Ok a s' \<Longrightarrow> kbind m f s = f a s'"
  by (simp add: kbind_def)

lemma kthen_Ok [outcome_simps]: "m s = Ok a s' \<Longrightarrow> kthen m n s = n s'"
  by (simp add: kthen_def kbind_def)

lemma kbind_eq_Ok:
  "kbind m f s = Ok b t \<longleftrightarrow> (\<exists>a s'. m s = Ok a s' \<and> f a s' = Ok b t)"
  by (auto simp: kbind_def split: outcome.splits)

lemma kthen_eq_Ok:
  "kthen m n s = Ok b t \<longleftrightarrow> (\<exists>a s'. m s = Ok a s' \<and> n s' = Ok b t)"
  by (auto simp: kthen_def kbind_eq_Ok)

lemma kbind_assoc: "kbind (kbind m f) g = kbind m (\<lambda>a. kbind (f a) g)"
  by (rule ext) (auto simp: kbind_def split: outcome.splits)

lemma kbind_kret: "kbind m kret = m"
  by (rule ext) (auto simp: kbind_def split: outcome.splits)

section \<open>Searching a list\<close>

lemma find_SomeD: "find P xs = Some x \<Longrightarrow> x \<in> set xs \<and> P x"
  by (auto simp: find_Some_iff)

lemma find_append: "find P (xs @ ys) = (case find P xs of Some x \<Rightarrow> Some x | None \<Rightarrow> find P ys)"
  by (induction xs) auto

lemma find_upt_bound: "find P [m..<n] = Some i \<Longrightarrow> m \<le> i \<and> i < n \<and> P i"
  using find_SomeD by fastforce

section \<open>Overwriting part of an array\<close>

definition overwrite :: "nat \<Rightarrow> 'a list \<Rightarrow> 'a list \<Rightarrow> 'a list" where
  "overwrite off xs bs = take off bs @ xs @ drop (off + length xs) bs"

lemma length_overwrite [simp]:
  "off + length xs \<le> length bs \<Longrightarrow> length (overwrite off xs bs) = length bs"
  by (simp add: overwrite_def)

lemma take_drop_overwrite [field_simps']:
  "off + length xs \<le> length bs \<Longrightarrow> take (length xs) (drop off (overwrite off xs bs)) = xs"
  by (simp add: overwrite_def)

lemma nth_overwrite:
  assumes "off + length xs \<le> length bs" and "i < length bs"
  shows "overwrite off xs bs ! i =
    (if off \<le> i \<and> i < off + length xs then xs ! (i - off) else bs ! i)"
  using assms by (auto simp: overwrite_def nth_append min_def)

lemma take_drop_overwrite_other [field_simps']:
  assumes "off + length xs \<le> length bs" and "o2 + n \<le> off \<or> off + length xs \<le> o2"
    and "o2 + n \<le> length bs"
  shows "take n (drop o2 (overwrite off xs bs)) = take n (drop o2 bs)"
proof (rule nth_equalityI)
  show "length (take n (drop o2 (overwrite off xs bs))) = length (take n (drop o2 bs))"
    using assms by simp
next
  fix i
  assume "i < length (take n (drop o2 (overwrite off xs bs)))"
  then have i: "i < n" "o2 + i < length bs" using assms by auto
  then show "take n (drop o2 (overwrite off xs bs)) ! i = take n (drop o2 bs) ! i"
    using assms by (auto simp: nth_overwrite)
qed

section \<open>Little-endian fields\<close>

fun le_val :: "uchar list \<Rightarrow> nat" where
  "le_val [] = 0"
| "le_val (b # bs) = unat b + 256 * le_val bs"

fun le_bytes :: "nat \<Rightarrow> nat \<Rightarrow> uchar list" where
  "le_bytes 0 v = []"
| "le_bytes (Suc n) v = word_of_nat v # le_bytes n (v div 256)"

lemma length_le_bytes [simp]: "length (le_bytes n v) = n"
  by (induction n arbitrary: v) auto

lemma unat_byte_bound: "unat (b :: uchar) < 256"
  using unsigned_less [of b, where 'a = nat] by simp

lemma unat_short_bound: "unat (b :: ushort) < 65536"
  using unsigned_less [of b, where 'a = nat] by simp

lemma unat_uint_bound: "unat (b :: uint) < 4294967296"
  using unsigned_less [of b, where 'a = nat] by simp

lemma unat_byte_of_nat: "unat (word_of_nat v :: uchar) = v mod 256"
  by (simp add: unat_of_nat)

lemma le_val_le_bytes [field_simps']: "le_val (le_bytes n v) = v mod 256 ^ n"
proof (induction n arbitrary: v)
  case 0
  then show ?case by simp
next
  case (Suc n)
  then show ?case
    by (simp add: unat_byte_of_nat mod_mult2_eq)
qed

lemma le_val_bound: "le_val bs < 256 ^ length bs"
proof (induction bs)
  case Nil
  then show ?case by simp
next
  case (Cons b bs)
  have "unat b < 256" by (rule unat_byte_bound)
  with Cons show ?case by simp
qed

lemma le_bytes_le_val [field_simps']: "le_bytes (length bs) (le_val bs) = bs"
proof (induction bs)
  case Nil
  then show ?case by simp
next
  case (Cons b bs)
  have b: "unat b < 256" by (rule unat_byte_bound)
  then have "(unat b + 256 * le_val bs) div 256 = le_val bs" by simp
  moreover have "(word_of_nat (unat b + 256 * le_val bs) :: uchar) = b"
    by (simp only: word_unat_eq_iff unat_byte_of_nat) (simp add: b)
  ultimately show ?case using Cons by simp
qed

definition get32 :: "nat \<Rightarrow> uchar list \<Rightarrow> uint" where
  "get32 off bs = word_of_nat (le_val (take 4 (drop off bs)))"

definition put32 :: "nat \<Rightarrow> uint \<Rightarrow> uchar list \<Rightarrow> uchar list" where
  "put32 off v bs = overwrite off (le_bytes 4 (unat v)) bs"

definition get16 :: "nat \<Rightarrow> uchar list \<Rightarrow> ushort" where
  "get16 off bs = word_of_nat (le_val (take 2 (drop off bs)))"

definition put16 :: "nat \<Rightarrow> ushort \<Rightarrow> uchar list \<Rightarrow> uchar list" where
  "put16 off v bs = overwrite off (le_bytes 2 (unat v)) bs"

lemma length_put32 [simp]: "off + 4 \<le> length bs \<Longrightarrow> length (put32 off v bs) = length bs"
  by (simp add: put32_def)

lemma length_put16 [simp]: "off + 2 \<le> length bs \<Longrightarrow> length (put16 off v bs) = length bs"
  by (simp add: put16_def)

lemma get32_put32 [field_simps']:
  "off + 4 \<le> length bs \<Longrightarrow> get32 off (put32 off v bs) = v"
  using take_drop_overwrite [of off "le_bytes 4 (unat v)" bs] unat_uint_bound [of v]
  by (simp add: get32_def put32_def le_val_le_bytes)

lemma get16_put16 [field_simps']:
  "off + 2 \<le> length bs \<Longrightarrow> get16 off (put16 off v bs) = v"
  using take_drop_overwrite [of off "le_bytes 2 (unat v)" bs] unat_short_bound [of v]
  by (simp add: get16_def put16_def le_val_le_bytes)

lemma get32_put32_other [field_simps']:
  "off + 4 \<le> length bs \<Longrightarrow> o2 + 4 \<le> length bs \<Longrightarrow> o2 + 4 \<le> off \<or> off + 4 \<le> o2 \<Longrightarrow>
   get32 o2 (put32 off v bs) = get32 o2 bs"
  by (simp add: get32_def put32_def take_drop_overwrite_other)

end
