(* ===== verification/Spinlock.thy ===== *)
theory Spinlock
  imports Prelude
begin

text \<open>
  spinlock.c and the per-CPU part of proc.c: the interrupt nesting of pushcli and popcli, the
  spin lock with its owner field, the walk over saved frame pointers, and the search for the
  running CPU. The second half is a step relation in which any number of CPUs run acquire and
  release on one lock, each access to the lock word or to the owner field being a step of its
  own, with mutual exclusion as its invariant.
\<close>

section \<open>Per-CPU state (struct cpu)\<close>

text \<open>
  \<open>c_if\<close> is the interrupt flag of EFLAGS on that CPU. \<open>c_proc\<close> is the index in the process
  table of the process the CPU runs, or none.
\<close>

record cpu =
  c_apicid :: uchar
  c_if :: bool
  c_ncli :: int
  c_intena :: bool
  c_proc :: "nat option"

text \<open>
  \<open>mycpu\<close> takes what \<open>readeflags()\<close> and \<open>lapicid()\<close> return, and the first \<open>ncpu\<close> entries of
  the array \<open>cpus\<close>; it returns the index of the entry.
\<close>

fun mycpu_scan :: "uchar \<Rightarrow> nat \<Rightarrow> cpu list \<Rightarrow> nat option" where
  "mycpu_scan apicid i [] = None"
| "mycpu_scan apicid i (c # cs) =
     (if c_apicid c = apicid then Some i else mycpu_scan apicid (Suc i) cs)"

definition mycpu :: "bool \<Rightarrow> uchar \<Rightarrow> (cpu list, nat) routine" where
  "mycpu fl_if apicid cpus =
     (if fl_if then Panic ''mycpu called with interrupts enabled\<newline>''
      else case mycpu_scan apicid 0 cpus of
        Some i \<Rightarrow> Ok i cpus
      | None \<Rightarrow> Panic ''unknown apicid\<newline>'')"

lemma mycpu_scan_least:
  "mycpu_scan a k cs = Some i \<longleftrightarrow>
   (\<exists>j < length cs. i = k + j \<and> c_apicid (cs ! j) = a \<and> (\<forall>l < j. c_apicid (cs ! l) \<noteq> a))"
proof (induction cs arbitrary: k)
  case Nil
  then show ?case by simp
next
  case (Cons c cs)
  show ?case
  proof (cases "c_apicid c = a")
    case True
    then have "(\<exists>j < length (c # cs). i = k + j \<and> c_apicid ((c # cs) ! j) = a \<and>
        (\<forall>l < j. c_apicid ((c # cs) ! l) \<noteq> a)) \<longleftrightarrow> i = k"
      by (metis add_0_right length_greater_0_conv list.discI neq0_conv not_less0 nth_Cons_0)
    with True show ?thesis by auto
  next
    case False
    then show ?thesis
      by (simp add: Cons.IH Ex_less_Suc2 All_less_Suc2)
  qed
qed

lemma mycpu_index:
  assumes "i < length cpus" and "distinct (map c_apicid cpus)"
  shows "mycpu False (c_apicid (cpus ! i)) cpus = Ok i cpus"
proof -
  have "c_apicid (cpus ! l) \<noteq> c_apicid (cpus ! i)" if "l < i" for l
    using assms that by (auto simp: distinct_conv_nth)
  then have "mycpu_scan (c_apicid (cpus ! i)) 0 cpus = Some i"
    using assms(1) by (auto simp: mycpu_scan_least)
  then show ?thesis by (simp add: mycpu_def)
qed

section \<open>pushcli and popcli\<close>

definition pushcli :: "(cpu, unit) routine" where
  "pushcli c =
     (let eflags = c_if c;
          c = c\<lparr>c_if := False\<rparr>;
          c = (if c_ncli c = 0 then c\<lparr>c_intena := eflags\<rparr> else c)
      in Ok () (c\<lparr>c_ncli := c_ncli c + 1\<rparr>))"

definition popcli :: "(cpu, unit) routine" where
  "popcli c =
     (if c_if c then Panic ''popcli - interruptible''
      else let c = c\<lparr>c_ncli := c_ncli c - 1\<rparr>
        in if c_ncli c < 0 then Panic ''popcli''
           else if c_ncli c = 0 \<and> c_intena c then Ok () (c\<lparr>c_if := True\<rparr>)
           else Ok () c)"

text \<open>
  What pushcli and popcli keep: inside a nest interrupts are off, outside it nothing is counted.
\<close>

definition cli_ok :: "cpu \<Rightarrow> bool" where
  "cli_ok c \<longleftrightarrow> 0 \<le> c_ncli c \<and> (0 < c_ncli c \<longrightarrow> \<not> c_if c)"

lemma pushcli_cli_ok: "cli_ok c \<Longrightarrow> pushcli c = Ok () c' \<Longrightarrow> cli_ok c'"
  by (auto simp: cli_ok_def pushcli_def Let_def split: if_splits)

lemma popcli_cli_ok: "cli_ok c \<Longrightarrow> popcli c = Ok () c' \<Longrightarrow> cli_ok c'"
  by (auto simp: cli_ok_def popcli_def Let_def split: if_splits)

fun pushcli_n :: "nat \<Rightarrow> (cpu, unit) routine" where
  "pushcli_n 0 = kret ()"
| "pushcli_n (Suc n) = kthen pushcli (pushcli_n n)"

fun popcli_n :: "nat \<Rightarrow> (cpu, unit) routine" where
  "popcli_n 0 = kret ()"
| "popcli_n (Suc n) = kthen popcli (popcli_n n)"

lemma pushcli_n_inside:
  "0 < c_ncli c \<Longrightarrow> \<not> c_if c \<Longrightarrow>
   pushcli_n n c = Ok () (c\<lparr>c_ncli := c_ncli c + int n\<rparr>)"
proof (induction n arbitrary: c)
  case 0
  then show ?case by simp
next
  case (Suc n)
  have "pushcli c = Ok () (c\<lparr>c_ncli := c_ncli c + 1\<rparr>)"
    using Suc.prems by (simp add: pushcli_def Let_def)
  then show ?case
    using Suc.IH [of "c\<lparr>c_ncli := c_ncli c + 1\<rparr>"] Suc.prems by (simp add: kthen_Ok algebra_simps)
qed

lemma popcli_n_inside:
  "int n < c_ncli c \<Longrightarrow> \<not> c_if c \<Longrightarrow>
   popcli_n n c = Ok () (c\<lparr>c_ncli := c_ncli c - int n\<rparr>)"
proof (induction n arbitrary: c)
  case 0
  then show ?case by simp
next
  case (Suc n)
  have "popcli c = Ok () (c\<lparr>c_ncli := c_ncli c - 1\<rparr>)"
    using Suc.prems by (simp add: popcli_def Let_def)
  then show ?case
    using Suc.IH [of "c\<lparr>c_ncli := c_ncli c - 1\<rparr>"] Suc.prems by (simp add: kthen_Ok algebra_simps)
qed

lemma popcli_n_add: "popcli_n (m + n) c = kthen (popcli_n m) (popcli_n n) c"
proof (induction m arbitrary: c)
  case 0
  then show ?case by (simp add: kthen_def kbind_def)
next
  case (Suc m)
  then show ?case by (auto simp: kthen_def kbind_def split: outcome.splits)
qed

section \<open>The lock and the call stack it records\<close>

text \<open>
  \<open>lk_cpu\<close> is the index of the CPU recorded in \<open>lk->cpu\<close>, none for the null pointer.
  The walk of getcallerpcs reads the kernel stack as an array of words addressed by bytes.
\<close>

record spinlock =
  lk_locked :: bool
  lk_name :: string
  lk_cpu :: "nat option"
  lk_pcs :: "uint list"

definition initlock :: "string \<Rightarrow> spinlock \<Rightarrow> spinlock" where
  "initlock name lk = lk\<lparr>lk_name := name, lk_locked := False, lk_cpu := None\<rparr>"

definition KERNBASE :: uint where "KERNBASE = 0x80000000"

fun pcs_walk :: "(uint \<Rightarrow> uint) \<Rightarrow> nat \<Rightarrow> uint \<Rightarrow> uint list" where
  "pcs_walk mem 0 ebp = []"
| "pcs_walk mem (Suc n) ebp =
     (if ebp = 0 \<or> ebp < KERNBASE \<or> ebp = 0xffffffff then replicate (Suc n) 0
      else mem (ebp + 4) # pcs_walk mem n (mem ebp))"

definition getcallerpcs :: "(uint \<Rightarrow> uint) \<Rightarrow> uint \<Rightarrow> uint list" where
  "getcallerpcs mem v = pcs_walk mem 10 (v - 8)"

lemma length_pcs_walk: "length (pcs_walk mem n ebp) = n"
  by (induction n arbitrary: ebp) auto

lemma length_getcallerpcs: "length (getcallerpcs mem v) = 10"
  by (simp add: getcallerpcs_def length_pcs_walk)

text \<open>
  One CPU and one lock: the state of the sequential routines. \<open>self\<close> is the index mycpu
  returns and \<open>stk\<close>/\<open>v\<close> the stack and the address of the argument that getcallerpcs reads.
\<close>

record lockst =
  l_self :: nat
  l_cpu :: cpu
  l_lock :: spinlock

definition on_cpu :: "(cpu, 'a) routine \<Rightarrow> (lockst, 'a) routine" where
  "on_cpu m s =
     (case m (l_cpu s) of Ok a c \<Rightarrow> Ok a (s\<lparr>l_cpu := c\<rparr>)
      | Panic e \<Rightarrow> Panic e | Hang \<Rightarrow> Hang | Fault \<Rightarrow> Fault)"

definition lock_held_by_self :: "lockst \<Rightarrow> bool" where
  "lock_held_by_self s \<longleftrightarrow> lk_locked (l_lock s) \<and> lk_cpu (l_lock s) = Some (l_self s)"

definition holding :: "(lockst, bool) routine" where
  "holding =
     kthen (on_cpu pushcli)
     (kbind (kget lock_held_by_self) (\<lambda>r.
      kthen (on_cpu popcli)
     (kret r)))"

text \<open>The loop on xchg: with the lock word set by another CPU it spins, here \<open>Hang\<close>.\<close>

definition xchg_loop :: "(lockst, unit) routine" where
  "xchg_loop s =
     (if lk_locked (l_lock s) then Hang
      else Ok () (s\<lparr>l_lock := (l_lock s)\<lparr>lk_locked := True\<rparr>\<rparr>))"

definition acquire :: "(uint \<Rightarrow> uint) \<Rightarrow> uint \<Rightarrow> (lockst, unit) routine" where
  "acquire stk v =
     kthen (on_cpu pushcli)
     (kbind holding (\<lambda>h.
      if h then kpanic ''acquire''
      else kthen xchg_loop
        (kmod (\<lambda>s. s\<lparr>l_lock := (l_lock s)\<lparr>lk_cpu := Some (l_self s),
                                       lk_pcs := getcallerpcs stk v\<rparr>\<rparr>))))"

definition release :: "(lockst, unit) routine" where
  "release =
     kbind holding (\<lambda>h.
      if \<not> h then kpanic ''release''
      else kthen (kmod (\<lambda>s. s\<lparr>l_lock := (l_lock s)\<lparr>lk_pcs := (lk_pcs (l_lock s))[0 := 0],
                                                 lk_cpu := None\<rparr>\<rparr>))
          (kthen (kmod (\<lambda>s. s\<lparr>l_lock := (l_lock s)\<lparr>lk_locked := False\<rparr>\<rparr>))
          (on_cpu popcli)))"

lemma holding_result:
  assumes "cli_ok (l_cpu s)"
  shows "\<exists>c. holding s = Ok (lock_held_by_self s) (s\<lparr>l_cpu := c\<rparr>) \<and>
    c_if c = c_if (l_cpu s) \<and> c_ncli c = c_ncli (l_cpu s) \<and> cli_ok c \<and>
    (0 < c_ncli c \<longrightarrow> c = l_cpu s)"
  using assms
  by (auto simp: holding_def on_cpu_def pushcli_def popcli_def Let_def kthen_def kbind_def
      cli_ok_def lock_held_by_self_def)

text \<open>
  acquire on a free lock takes it and leaves interrupts off one level deeper; the matching
  release frees it and restores the interrupt flag.
\<close>

lemma acquire_free:
  assumes "cli_ok (l_cpu s)" and "\<not> lk_locked (l_lock s)"
  shows "\<exists>t. acquire stk v s = Ok () t \<and> lock_held_by_self t \<and> l_self t = l_self s \<and>
    c_ncli (l_cpu t) = c_ncli (l_cpu s) + 1 \<and> \<not> c_if (l_cpu t) \<and> cli_ok (l_cpu t) \<and>
    (c_ncli (l_cpu s) = 0 \<longrightarrow> c_intena (l_cpu t) = c_if (l_cpu s))"
  using assms
  by (auto simp: acquire_def holding_def on_cpu_def pushcli_def popcli_def Let_def kthen_def
      kbind_def cli_ok_def lock_held_by_self_def xchg_loop_def)

section \<open>Many CPUs on one lock\<close>

text \<open>
  Where a CPU is in acquire or release. \<open>Got\<close>: xchg returned 0, the owner field is not yet
  written. \<open>Rel\<close>: the owner field is cleared, the lock word not yet. \<open>Dead b\<close>: it called
  panic, with the lock held iff \<open>b\<close>.
\<close>

datatype lock_pc = Out | Spin | Got | In | Rel | Dead bool

record spinsys =
  ss_locked :: bool
  ss_cpu :: "nat option"
  ss_pc :: "nat \<Rightarrow> lock_pc"

definition ss_holding :: "spinsys \<Rightarrow> nat \<Rightarrow> bool" where
  "ss_holding s c \<longleftrightarrow> ss_locked s \<and> ss_cpu s = Some c"

definition ss_goto :: "nat \<Rightarrow> lock_pc \<Rightarrow> spinsys \<Rightarrow> spinsys" where
  "ss_goto c l s = s\<lparr>ss_pc := (ss_pc s)(c := l)\<rparr>"

inductive spin_step :: "spinsys \<Rightarrow> spinsys \<Rightarrow> bool" where
  acquire_enter: "ss_pc s c = Out \<Longrightarrow> \<not> ss_holding s c \<Longrightarrow> spin_step s (ss_goto c Spin s)"
| acquire_panic: "ss_pc s c \<in> {Out, In} \<Longrightarrow> ss_holding s c \<Longrightarrow>
     spin_step s (ss_goto c (Dead (ss_pc s c = In)) s)"
| xchg_busy: "ss_pc s c = Spin \<Longrightarrow> ss_locked s \<Longrightarrow> spin_step s (s\<lparr>ss_locked := True\<rparr>)"
| xchg_free: "ss_pc s c = Spin \<Longrightarrow> \<not> ss_locked s \<Longrightarrow>
     spin_step s (ss_goto c Got (s\<lparr>ss_locked := True\<rparr>))"
| acquire_record: "ss_pc s c = Got \<Longrightarrow> spin_step s (ss_goto c In (s\<lparr>ss_cpu := Some c\<rparr>))"
| release_enter: "ss_pc s c = In \<Longrightarrow> ss_holding s c \<Longrightarrow>
     spin_step s (ss_goto c Rel (s\<lparr>ss_cpu := None\<rparr>))"
| release_panic: "ss_pc s c \<in> {Out, In} \<Longrightarrow> \<not> ss_holding s c \<Longrightarrow>
     spin_step s (ss_goto c (Dead (ss_pc s c = In)) s)"
| release_clear: "ss_pc s c = Rel \<Longrightarrow> spin_step s (ss_goto c Out (s\<lparr>ss_locked := False\<rparr>))"

definition spin_init :: spinsys where
  "spin_init = \<lparr>ss_locked = False, ss_cpu = None, ss_pc = (\<lambda>_. Out)\<rparr>"

inductive spin_reachable :: "spinsys \<Rightarrow> bool" where
  spin_start: "spin_reachable spin_init"
| spin_next: "spin_reachable s \<Longrightarrow> spin_step s t \<Longrightarrow> spin_reachable t"

fun owns :: "lock_pc \<Rightarrow> bool" where
  "owns Got = True" | "owns In = True" | "owns Rel = True" | "owns (Dead b) = b"
| "owns Out = False" | "owns Spin = False"

definition spin_inv :: "spinsys \<Rightarrow> bool" where
  "spin_inv s \<longleftrightarrow>
     (\<forall>c d. owns (ss_pc s c) \<and> owns (ss_pc s d) \<longrightarrow> c = d) \<and>
     (\<forall>c. owns (ss_pc s c) \<longrightarrow> ss_locked s) \<and>
     (\<forall>c. ss_cpu s = Some c \<longleftrightarrow> ss_pc s c \<in> {In, Dead True})"

lemma spin_inv_init: "spin_inv spin_init"
  by (simp add: spin_inv_def spin_init_def)

lemma spin_step_inv: "spin_step s t \<Longrightarrow> spin_inv s \<Longrightarrow> spin_inv t"
proof (induction rule: spin_step.induct)
  case (xchg_busy s c)
  then show ?case by (simp add: spin_inv_def)
next
  case (acquire_panic s c)
  then show ?case
    by (auto simp: spin_inv_def ss_goto_def ss_holding_def split: if_splits)
next
  case (release_panic s c)
  then show ?case
    by (auto simp: spin_inv_def ss_goto_def ss_holding_def split: if_splits) (metis owns.simps)+
qed (auto simp: spin_inv_def ss_goto_def ss_holding_def split: if_splits,
     (metis owns.simps lock_pc.distinct option.inject option.distinct)+)

lemma spin_reachable_inv: "spin_reachable s \<Longrightarrow> spin_inv s"
  by (induction rule: spin_reachable.induct) (auto intro: spin_inv_init spin_step_inv)

section \<open>Properties\<close>

text \<open>pushcli and popcli nest. After n+1 pushcli interrupts are off and the depth has grown by
  n+1; as many popcli do not panic and restore the interrupt flag and the depth found before.\<close>

theorem cli_nesting:
  assumes "cli_ok c"
  shows "\<exists>d e. pushcli_n (Suc n) c = Ok () d \<and> \<not> c_if d \<and> c_ncli d = c_ncli c + int (Suc n) \<and>
    popcli_n (Suc n) d = Ok () e \<and> c_if e = c_if c \<and> c_ncli e = c_ncli c"
proof -
  obtain p where p: "pushcli c = Ok () p" "\<not> c_if p" "c_ncli p = c_ncli c + 1"
    "c_ncli c = 0 \<longrightarrow> c_intena p = c_if c"
    by (simp add: pushcli_def Let_def split: if_splits)
  let ?d = "p\<lparr>c_ncli := c_ncli p + int n\<rparr>"
  have pos: "0 < c_ncli p" using assms p(3) by (simp add: cli_ok_def)
  have d: "pushcli_n (Suc n) c = Ok () ?d"
    using p(1) pushcli_n_inside [OF pos p(2)] by (simp add: kthen_Ok)
  have m: "popcli_n n ?d = Ok () p"
    using popcli_n_inside [of n ?d] pos p(2) by simp
  have "popcli_n (Suc n) ?d = kthen (popcli_n n) (popcli_n 1) ?d"
    using popcli_n_add [of n 1 ?d] by simp
  also have "\<dots> = popcli_n 1 p" using m by (rule kthen_Ok)
  finally have e: "popcli_n (Suc n) ?d = popcli p" by (simp add: kthen_def kbind_def split: outcome.split)
  show ?thesis
    using d e p assms by (auto simp: popcli_def Let_def cli_ok_def)
qed

theorem cli_nesting_witness:
  "let c = \<lparr>c_apicid = 0, c_if = True, c_ncli = 0, c_intena = False, c_proc = None\<rparr> in
   \<exists>d e. pushcli_n (Suc 2) c = Ok () d \<and> \<not> c_if d \<and> c_ncli d = c_ncli c + int (Suc 2) \<and>
    popcli_n (Suc 2) d = Ok () e \<and> c_if e = c_if c \<and> c_ncli e = c_ncli c"
  unfolding Let_def by (rule cli_nesting) (simp add: cli_ok_def)

text \<open>acquire on a free lock takes it with interrupts off; a second acquire by the same CPU
  panics; the release that follows frees the lock and restores the interrupt flag and depth.\<close>

theorem acquire_release:
  assumes "cli_ok (l_cpu s)" and "\<not> lk_locked (l_lock s)"
  shows "\<exists>t u. acquire stk v s = Ok () t \<and> lock_held_by_self t \<and> \<not> c_if (l_cpu t) \<and>
    acquire stk v t = Panic ''acquire'' \<and> release t = Ok () u \<and> \<not> lk_locked (l_lock u) \<and>
    c_if (l_cpu u) = c_if (l_cpu s) \<and> c_ncli (l_cpu u) = c_ncli (l_cpu s) \<and>
    release u = Panic ''release''"
  using assms
  by (auto simp: acquire_def release_def holding_def on_cpu_def pushcli_def popcli_def Let_def kthen_def
      kbind_def cli_ok_def lock_held_by_self_def xchg_loop_def)

theorem acquire_release_witness:
  "let s = \<lparr>l_self = 1, l_cpu = \<lparr>c_apicid = 4, c_if = True, c_ncli = 0, c_intena = False, c_proc = None\<rparr>,
      l_lock = initlock ''ptable'' \<lparr>lk_locked = True, lk_name = [], lk_cpu = None, lk_pcs = replicate 10 0\<rparr>\<rparr> in
   \<exists>t u. acquire (\<lambda>_. 0) 12 s = Ok () t \<and> lock_held_by_self t \<and> \<not> c_if (l_cpu t) \<and>
    acquire (\<lambda>_. 0) 12 t = Panic ''acquire'' \<and> release t = Ok () u \<and> \<not> lk_locked (l_lock u) \<and>
    c_if (l_cpu u) = c_if (l_cpu s) \<and> c_ncli (l_cpu u) = c_ncli (l_cpu s) \<and>
    release u = Panic ''release''"
  unfolding Let_def by (rule acquire_release) (simp_all add: cli_ok_def initlock_def)

text \<open>C33: mutual exclusion at the granularity of single accesses to the lock. However the CPUs
  interleave the xchg loop, the writes of the owner field and the checks of holding(), at most one
  of them is past its acquire, holding() is true for it inside its critical section, so release
  does not panic there, and false for every CPU outside, so its acquire does not panic.\<close>

theorem spin_mutual_exclusion:
  assumes "spin_reachable s"
  shows "(owns (ss_pc s c) \<and> owns (ss_pc s d) \<longrightarrow> c = d) \<and>
    (ss_pc s c = In \<longrightarrow> ss_holding s c) \<and>
    (ss_pc s c \<in> {Out, Spin, Got} \<longrightarrow> \<not> ss_holding s c)"
proof -
  have "ss_pc s c = In \<Longrightarrow> ss_locked s"
    using spin_reachable_inv [OF assms] unfolding spin_inv_def by (metis owns.simps(2))
  then show ?thesis
    using spin_reachable_inv [OF assms] by (auto simp: spin_inv_def ss_holding_def)
qed

lemma spin_example: "spin_reachable (ss_goto 3 Spin (ss_goto 0 In (spin_init\<lparr>ss_locked := True, ss_cpu := Some 0\<rparr>)))"
proof -
  have 1: "spin_reachable (ss_goto 0 Spin spin_init)"
    by (rule spin_next [OF spin_start acquire_enter]) (simp_all add: spin_init_def ss_holding_def)
  have 2: "spin_reachable (ss_goto 0 Got ((ss_goto 0 Spin spin_init)\<lparr>ss_locked := True\<rparr>))"
    by (rule spin_next [OF 1 xchg_free]) (simp_all add: spin_init_def ss_goto_def)
  have 3: "spin_reachable (ss_goto 0 In ((ss_goto 0 Got ((ss_goto 0 Spin spin_init)\<lparr>ss_locked := True\<rparr>))\<lparr>ss_cpu := Some 0\<rparr>))"
    by (rule spin_next [OF 2 acquire_record]) (simp add: ss_goto_def)
  have e: "ss_goto 0 In ((ss_goto 0 Got ((ss_goto 0 Spin spin_init)\<lparr>ss_locked := True\<rparr>))\<lparr>ss_cpu := Some 0\<rparr>) =
      ss_goto 0 In (spin_init\<lparr>ss_locked := True, ss_cpu := Some 0\<rparr>)"
    by (simp add: ss_goto_def spin_init_def)
  show ?thesis
    by (rule spin_next [OF 3 [unfolded e] acquire_enter]) (simp_all add: ss_goto_def spin_init_def ss_holding_def)
qed

theorem spin_mutual_exclusion_witness:
  "let s = ss_goto 3 Spin (ss_goto 0 In (spin_init\<lparr>ss_locked := True, ss_cpu := Some 0\<rparr>)) in
   ss_holding s 0 \<and> \<not> ss_holding s 3"
  using spin_mutual_exclusion [OF spin_example, of 0 3] spin_mutual_exclusion [OF spin_example, of 3 0]
  by (simp add: ss_goto_def Let_def)

end
