(* ===== verification/Proc.thy ===== *)
theory Proc
  imports Spinlock
begin

unbundle bit_operations_syntax

text \<open>
  proc.c with the additions of this repository: the process table, the life cycle of a process
  from allocproc through fork, sleep, wakeup, kill and exit to wait and waitx, the round-robin
  scheduler, and the accounting of creation, run, queue and end times that waitx and getpinfo
  report. Process slots are named by their index in ptable.proc, and a null struct proc pointer
  is \<open>None\<close>. Each definition below is the body of a routine between acquire and release of
  ptable.lock (or a whole routine made of such parts), which the lock makes atomic.
\<close>

section \<open>Data (proc.h, proc_stat.h)\<close>

definition NPROC :: nat where "NPROC = 64"
definition NOFILE :: nat where "NOFILE = 16"

datatype procstate = UNUSED | EMBRYO | SLEEPING | RUNNABLE | RUNNING | ZOMBIE

text \<open>
  The address a process sleeps on: null, a slot of the process table (only wait and waitx use
  these), the tick counter, or any other kernel object.
\<close>

datatype chan = NullChan | ProcChan nat | TicksChan | ObjChan nat

text \<open>The saved user registers the kernel code writes, and where the process resumes.\<close>

record trapframe =
  tf_eax :: uint
  tf_eip :: uint
  tf_esp :: uint

datatype resume = AtForkret | AtSwtch

text \<open>Addresses (\<open>p_pgdir\<close>, \<open>p_kstack\<close>) are words, 0 the null pointer.\<close>

record proc =
  p_sz :: uint
  p_pgdir :: uint
  p_kstack :: uint
  p_state :: procstate
  p_pid :: int
  p_parent :: "nat option"
  p_tf :: trapframe
  p_context :: resume
  p_chan :: chan
  p_killed :: bool
  p_ofile :: "nat \<Rightarrow> nat option"
  p_cwd :: "nat option"
  p_name :: string
  p_ctime :: uint
  p_rtime :: uint
  p_etime :: uint
  p_num_run :: uint
  p_time_in_queues :: uint
  p_wait_time :: uint

record proc_stat =
  ps_pid :: int
  ps_num_run :: uint
  ps_runtime :: uint
  ps_time_in_queues :: uint

text \<open>
  The kernel around the process table: the allocator, the page tables, the file table and the
  inode cache are a state \<open>'x\<close> that proc.c reaches only through these calls.
\<close>

record 'x kops =
  k_kalloc :: "'x \<Rightarrow> uint \<times> 'x"
  k_kfree :: "uint \<Rightarrow> 'x \<Rightarrow> 'x"
  k_copyuvm :: "uint \<Rightarrow> uint \<Rightarrow> 'x \<Rightarrow> uint \<times> 'x"
  k_freevm :: "uint \<Rightarrow> 'x \<Rightarrow> 'x"
  k_allocuvm :: "uint \<Rightarrow> uint \<Rightarrow> uint \<Rightarrow> 'x \<Rightarrow> uint \<times> 'x"
  k_deallocuvm :: "uint \<Rightarrow> uint \<Rightarrow> uint \<Rightarrow> 'x \<Rightarrow> uint \<times> 'x"
  k_filedup :: "nat \<Rightarrow> 'x \<Rightarrow> 'x"
  k_fileclose :: "nat \<Rightarrow> 'x \<Rightarrow> 'x"
  k_idup :: "nat \<Rightarrow> 'x \<Rightarrow> 'x"
  k_iput :: "nat \<Rightarrow> 'x \<Rightarrow> 'x"
  k_begin_op :: "'x \<Rightarrow> 'x"
  k_end_op :: "'x \<Rightarrow> 'x"
  k_setupkvm :: "'x \<Rightarrow> uint \<times> 'x"
  k_inituvm :: "uint \<Rightarrow> 'x \<Rightarrow> 'x"
  k_namei_root :: "'x \<Rightarrow> nat option \<times> 'x"

text \<open>
  \<open>cpu_proc c\<close> is \<open>cpus[c].proc\<close>, \<open>cpu_pos c\<close> the loop variable of scheduler() on that CPU.
\<close>

record 'x pstate =
  ptable :: "nat \<Rightarrow> proc"
  nextpid :: int
  initproc :: "nat option"
  ticks :: uint
  cpu_proc :: "nat \<Rightarrow> nat option"
  cpu_pos :: "nat \<Rightarrow> nat"
  kx :: 'x

definition upd :: "nat \<Rightarrow> (proc \<Rightarrow> proc) \<Rightarrow> 'x pstate \<Rightarrow> 'x pstate" where
  "upd i f s = s\<lparr>ptable := (ptable s)(i := f (ptable s i))\<rparr>"

section \<open>Allocating a slot\<close>

definition find_slot :: "(proc \<Rightarrow> bool) \<Rightarrow> 'x pstate \<Rightarrow> nat option" where
  "find_slot P s = find (\<lambda>i. P (ptable s i)) [0..<NPROC]"

text \<open>allocproc up to the first release: pick the first UNUSED slot.\<close>

definition allocproc_slot :: "'x pstate \<Rightarrow> (nat option \<times> 'x pstate)" where
  "allocproc_slot s =
     (case find_slot (\<lambda>p. p_state p = UNUSED) s of
        None \<Rightarrow> (None, s)
      | Some i \<Rightarrow> (Some i, upd i (\<lambda>p. p\<lparr>p_state := EMBRYO, p_pid := nextpid s\<rparr>)
                            (s\<lparr>nextpid := nextpid s + 1\<rparr>)))"

text \<open>The rest of allocproc once kalloc returned the stack \<open>stk\<close>.\<close>

definition allocproc_init :: "nat \<Rightarrow> uint \<Rightarrow> 'x pstate \<Rightarrow> 'x pstate" where
  "allocproc_init i stk s =
     upd i (\<lambda>p. p\<lparr>p_kstack := stk, p_context := AtForkret,
                  p_ctime := ticks s, p_rtime := 0, p_etime := -1, p_num_run := 0,
                  p_time_in_queues := 0, p_wait_time := ticks s - ticks s\<rparr>) s"

definition allocproc_fail :: "nat \<Rightarrow> uint \<Rightarrow> 'x pstate \<Rightarrow> 'x pstate" where
  "allocproc_fail i stk s = upd i (\<lambda>p. p\<lparr>p_kstack := stk, p_state := UNUSED\<rparr>) s"

definition allocproc :: "'x kops \<Rightarrow> 'x pstate \<Rightarrow> (nat option \<times> 'x pstate)" where
  "allocproc ops s =
     (case allocproc_slot s of
        (None, s) \<Rightarrow> (None, s)
      | (Some i, s) \<Rightarrow>
          let (stk, x) = k_kalloc ops (kx s); s = s\<lparr>kx := x\<rparr>
          in if stk = 0 then (None, allocproc_fail i stk s)
             else (Some i, allocproc_init i stk s))"

section \<open>fork\<close>

definition safestrcpy :: "nat \<Rightarrow> string \<Rightarrow> string" where
  "safestrcpy n t = take (n - 1) t"

fun dup_files :: "'x kops \<Rightarrow> nat list \<Rightarrow> (nat \<Rightarrow> nat option) \<Rightarrow> 'x \<Rightarrow> 'x" where
  "dup_files ops [] ofile x = x"
| "dup_files ops (fd # fds) ofile x =
     dup_files ops fds ofile (case ofile fd of None \<Rightarrow> x | Some f \<Rightarrow> k_filedup ops f x)"

definition fork_nomem :: "'x kops \<Rightarrow> nat \<Rightarrow> 'x pstate \<Rightarrow> 'x pstate" where
  "fork_nomem ops i s =
     upd i (\<lambda>p. p\<lparr>p_pgdir := 0, p_kstack := 0, p_state := UNUSED\<rparr>)
       (s\<lparr>kx := k_kfree ops (p_kstack (ptable s i)) (kx s)\<rparr>)"

text \<open>
  From \<open>np->pgdir = copyuvm(...)\<close> to \<open>pid = np->pid\<close>. Entries of \<open>np->ofile\<close> whose parent
  entry is null are left alone, as in the loop.
\<close>

definition fork_copy :: "'x kops \<Rightarrow> nat \<Rightarrow> nat \<Rightarrow> uint \<Rightarrow> 'x pstate \<Rightarrow> 'x pstate" where
  "fork_copy ops cur i pgdir s =
     (let c = ptable s cur;
          x = dup_files ops [0..<NOFILE] (p_ofile c) (kx s);
          x = (case p_cwd c of None \<Rightarrow> x | Some ip \<Rightarrow> k_idup ops ip x)
      in upd i (\<lambda>p. p\<lparr>p_pgdir := pgdir, p_sz := p_sz c, p_parent := Some cur,
                      p_tf := (p_tf c)\<lparr>tf_eax := 0\<rparr>,
                      p_ofile := (\<lambda>fd. if fd < NOFILE \<and> p_ofile c fd \<noteq> None then p_ofile c fd
                                       else p_ofile p fd),
                      p_cwd := p_cwd c, p_name := safestrcpy 16 (p_name c)\<rparr>)
           (s\<lparr>kx := x\<rparr>))"

definition fork_publish :: "nat \<Rightarrow> 'x pstate \<Rightarrow> 'x pstate" where
  "fork_publish i s = upd i (\<lambda>p. p\<lparr>p_state := RUNNABLE\<rparr>) s"

definition fork :: "'x kops \<Rightarrow> nat \<Rightarrow> 'x pstate \<Rightarrow> (int \<times> 'x pstate)" where
  "fork ops cur s =
     (case allocproc ops s of
        (None, s) \<Rightarrow> (-1, s)
      | (Some i, s) \<Rightarrow>
          let c = ptable s cur; (pgdir, x) = k_copyuvm ops (p_pgdir c) (p_sz c) (kx s);
              s = s\<lparr>kx := x\<rparr>
          in if pgdir = 0 then (-1, fork_nomem ops i s)
             else let s = fork_copy ops cur i pgdir s; pid = p_pid (ptable s i)
               in (pid, fork_publish i s))"

section \<open>Sleeping, waking and killing\<close>

definition wakeup1 :: "chan \<Rightarrow> 'x pstate \<Rightarrow> 'x pstate" where
  "wakeup1 ch s =
     s\<lparr>ptable := (\<lambda>i. let p = ptable s i in
        if i < NPROC \<and> p_state p = SLEEPING \<and> p_chan p = ch then p\<lparr>p_state := RUNNABLE\<rparr> else p)\<rparr>"

text \<open>
  sched() checks its caller and switches to the scheduler of CPU \<open>c\<close>, whose first act is
  \<open>c->proc = 0\<close>. \<open>held\<close> is \<open>holding(&ptable.lock)\<close>.
\<close>

definition sched_check :: "bool \<Rightarrow> cpu \<Rightarrow> proc \<Rightarrow> string option" where
  "sched_check held c p =
     (if \<not> held then Some ''sched ptable.lock''
      else if c_ncli c \<noteq> 1 then Some ''sched locks''
      else if p_state p = RUNNING then Some ''sched running''
      else if c_if c then Some ''sched interruptible''
      else None)"

definition swtch_off :: "nat \<Rightarrow> nat \<Rightarrow> 'x pstate \<Rightarrow> 'x pstate" where
  "swtch_off c i s =
     upd i (\<lambda>p. p\<lparr>p_context := AtSwtch\<rparr>) (s\<lparr>cpu_proc := (cpu_proc s)(c := None)\<rparr>)"

definition yield :: "nat \<Rightarrow> nat \<Rightarrow> 'x pstate \<Rightarrow> 'x pstate" where
  "yield c i s = swtch_off c i (upd i (\<lambda>p. p\<lparr>p_state := RUNNABLE\<rparr>) s)"

definition sleep_on :: "nat \<Rightarrow> nat \<Rightarrow> chan \<Rightarrow> 'x pstate \<Rightarrow> 'x pstate" where
  "sleep_on c i ch s =
     swtch_off c i (upd i (\<lambda>p. p\<lparr>p_chan := ch, p_state := SLEEPING\<rparr>) s)"

definition sleep_woken :: "nat \<Rightarrow> 'x pstate \<Rightarrow> 'x pstate" where
  "sleep_woken i s = upd i (\<lambda>p. p\<lparr>p_chan := NullChan\<rparr>) s"

definition kill :: "int \<Rightarrow> 'x pstate \<Rightarrow> (int \<times> 'x pstate)" where
  "kill pid s =
     (case find_slot (\<lambda>p. p_pid p = pid) s of
        None \<Rightarrow> (-1, s)
      | Some i \<Rightarrow> (0, upd i (\<lambda>p. p\<lparr>p_killed := True,
            p_state := (if p_state p = SLEEPING then RUNNABLE else p_state p)\<rparr>) s))"

section \<open>exit\<close>

fun close_files :: "'x kops \<Rightarrow> nat \<Rightarrow> nat list \<Rightarrow> 'x pstate \<Rightarrow> 'x pstate" where
  "close_files ops cur [] s = s"
| "close_files ops cur (fd # fds) s =
     close_files ops cur fds
       (case p_ofile (ptable s cur) fd of
          None \<Rightarrow> s
        | Some f \<Rightarrow> upd cur (\<lambda>p. p\<lparr>p_ofile := (p_ofile p)(fd := None)\<rparr>)
                      (s\<lparr>kx := k_fileclose ops f (kx s)\<rparr>))"

text \<open>The first part of exit: open files and the current directory.\<close>

definition exit_files :: "'x kops \<Rightarrow> nat \<Rightarrow> 'x pstate \<Rightarrow> 'x pstate" where
  "exit_files ops cur s =
     (let s = close_files ops cur [0..<NOFILE] s;
          x = k_begin_op ops (kx s);
          x = (case p_cwd (ptable s cur) of None \<Rightarrow> x | Some ip \<Rightarrow> k_iput ops ip x);
          x = k_end_op ops x
      in upd cur (\<lambda>p. p\<lparr>p_cwd := None\<rparr>) (s\<lparr>kx := x\<rparr>))"

definition parent_chan :: "nat option \<Rightarrow> chan" where
  "parent_chan q = (case q of None \<Rightarrow> NullChan | Some i \<Rightarrow> ProcChan i)"

fun reparent :: "nat \<Rightarrow> nat list \<Rightarrow> 'x pstate \<Rightarrow> 'x pstate" where
  "reparent cur [] s = s"
| "reparent cur (i # is) s =
     reparent cur is
       (if p_parent (ptable s i) = Some cur then
          (let s' = upd i (\<lambda>p. p\<lparr>p_parent := initproc s\<rparr>) s
           in if p_state (ptable s' i) = ZOMBIE then wakeup1 (parent_chan (initproc s)) s' else s')
        else s)"

text \<open>
  The second part, from acquire(&ptable.lock) to the switch to the scheduler of CPU \<open>c\<close>, which
  does not come back.
\<close>

definition exit_zombie :: "nat \<Rightarrow> nat \<Rightarrow> 'x pstate \<Rightarrow> 'x pstate" where
  "exit_zombie c cur s =
     (let s = wakeup1 (parent_chan (p_parent (ptable s cur))) s;
          s = reparent cur [0..<NPROC] s;
          s = upd cur (\<lambda>p. p\<lparr>p_etime := ticks s\<rparr>) s;
          s = upd cur (\<lambda>p. p\<lparr>p_wait_time := p_etime p - p_ctime p - p_rtime p\<rparr>) s;
          s = upd cur (\<lambda>p. p\<lparr>p_state := ZOMBIE\<rparr>) s
      in swtch_off c cur s)"

definition exit :: "'x kops \<Rightarrow> nat \<Rightarrow> nat \<Rightarrow> ('x pstate, unit) routine" where
  "exit ops c cur s =
     (if initproc s = Some cur then Panic ''init exiting''
      else Ok () (exit_zombie c cur (exit_files ops cur s)))"

section \<open>wait and waitx\<close>

text \<open>
  One pass over the table and what follows it: a child was reaped, -1 is returned, or the
  process goes to sleep on its own slot and will scan again when it runs next.
\<close>

datatype 'a waited = Reaped 'a | NoChild | WentToSleep

definition reap :: "'x kops \<Rightarrow> nat \<Rightarrow> 'x pstate \<Rightarrow> 'x pstate" where
  "reap ops i s =
     (let p = ptable s i;
          x = k_kfree ops (p_kstack p) (kx s);
          x = k_freevm ops (p_pgdir p) x
      in upd i (\<lambda>p. p\<lparr>p_kstack := 0, p_pid := 0, p_parent := None, p_name := [],
                      p_killed := False, p_state := UNUSED\<rparr>) (s\<lparr>kx := x\<rparr>))"

fun wait_loop :: "'x kops \<Rightarrow> nat \<Rightarrow> nat list \<Rightarrow> bool \<Rightarrow> 'x pstate \<Rightarrow> (int + bool) \<times> 'x pstate" where
  "wait_loop ops cur [] havekids s = (Inr havekids, s)"
| "wait_loop ops cur (i # is) havekids s =
     (if p_parent (ptable s i) \<noteq> Some cur then wait_loop ops cur is havekids s
      else if p_state (ptable s i) = ZOMBIE then (Inl (p_pid (ptable s i)), reap ops i s)
      else wait_loop ops cur is True s)"

definition wait_scan :: "'x kops \<Rightarrow> nat \<Rightarrow> nat \<Rightarrow> 'x pstate \<Rightarrow> int waited \<times> 'x pstate" where
  "wait_scan ops c cur s =
     (case wait_loop ops cur [0..<NPROC] False s of
        (Inl pid, s) \<Rightarrow> (Reaped pid, s)
      | (Inr havekids, s) \<Rightarrow>
          if \<not> havekids \<or> p_killed (ptable s cur) then (NoChild, s)
          else (WentToSleep, sleep_on c cur (ProcChan cur) s))"

definition waitx_times :: "uint \<Rightarrow> proc \<Rightarrow> uint \<times> uint" where
  "waitx_times now p =
     (let wtime = (if p_etime p = -1 then now - p_ctime p - p_rtime p
                   else p_etime p - p_ctime p - p_rtime p)
      in (wtime, p_rtime p))"

fun waitx_loop ::
  "'x kops \<Rightarrow> nat \<Rightarrow> nat list \<Rightarrow> bool \<Rightarrow> 'x pstate \<Rightarrow> ((int \<times> uint \<times> uint) + bool) \<times> 'x pstate" where
  "waitx_loop ops cur [] havekids s = (Inr havekids, s)"
| "waitx_loop ops cur (i # is) havekids s =
     (if p_parent (ptable s i) \<noteq> Some cur then waitx_loop ops cur is havekids s
      else if p_state (ptable s i) = ZOMBIE then
        (Inl (p_pid (ptable s i), waitx_times (ticks s) (ptable s i)), reap ops i s)
      else waitx_loop ops cur is True s)"

definition waitx_scan ::
  "'x kops \<Rightarrow> nat \<Rightarrow> nat \<Rightarrow> 'x pstate \<Rightarrow> (int \<times> uint \<times> uint) waited \<times> 'x pstate" where
  "waitx_scan ops c cur s =
     (case waitx_loop ops cur [0..<NPROC] False s of
        (Inl r, s) \<Rightarrow> (Reaped r, s)
      | (Inr havekids, s) \<Rightarrow>
          if \<not> havekids \<or> p_killed (ptable s cur) then (NoChild, s)
          else (WentToSleep, sleep_on c cur (ProcChan cur) s))"

section \<open>The scheduler\<close>

text \<open>
  switchuvm as far as it concerns the process: its checks, and the ticks that pass between its
  first and last line (\<open>t0\<close>, \<open>t1\<close>), which it adds to the run time.
\<close>

definition switchuvm_check :: "proc \<Rightarrow> string option" where
  "switchuvm_check p =
     (if p_kstack p = 0 then Some ''switchuvm: no kstack''
      else if p_pgdir p = 0 then Some ''switchuvm: no pgdir''
      else None)"

definition switchuvm_time :: "uint \<Rightarrow> uint \<Rightarrow> proc \<Rightarrow> proc" where
  "switchuvm_time t0 t1 p = p\<lparr>p_rtime := p_rtime p + (t1 - t0)\<rparr>"

text \<open>
  One iteration of the loop over the table on CPU \<open>c\<close>: past the end, start over; a slot that is
  not RUNNABLE is passed; a RUNNABLE one is dispatched, and the loop goes on behind it when the
  process gives the CPU back.
\<close>

definition scheduler_iter :: "nat \<Rightarrow> ('x pstate, unit) routine" where
  "scheduler_iter c s =
     (let i = cpu_pos s c in
      if \<not> i < NPROC then Ok () (s\<lparr>cpu_pos := (cpu_pos s)(c := 0)\<rparr>)
      else if p_state (ptable s i) \<noteq> RUNNABLE then
        Ok () (s\<lparr>cpu_pos := (cpu_pos s)(c := Suc i)\<rparr>)
      else case switchuvm_check (ptable s i) of
        Some m \<Rightarrow> Panic m
      | None \<Rightarrow>
          Ok () (upd i (\<lambda>p. (switchuvm_time (ticks s) (ticks s) p)
                              \<lparr>p_state := RUNNING, p_num_run := p_num_run p + 1\<rparr>)
            (s\<lparr>cpu_proc := (cpu_proc s)(c := Some i), cpu_pos := (cpu_pos s)(c := Suc i)\<rparr>)))"

section \<open>Timer ticks and statistics\<close>

text \<open>
  The test \<open>p->state ==~ UNUSED\<close> compares with the complement of UNUSED, which is no state, so
  its \<open>continue\<close> is never taken.
\<close>

fun state_word :: "procstate \<Rightarrow> uint" where
  "state_word UNUSED = 0" | "state_word EMBRYO = 1" | "state_word SLEEPING = 2"
| "state_word RUNNABLE = 3" | "state_word RUNNING = 4" | "state_word ZOMBIE = 5"

definition increment_time :: "proc \<Rightarrow> proc" where
  "increment_time p =
     (if state_word (p_state p) = NOT (state_word UNUSED) then p
      else if p_state p = RUNNING then p\<lparr>p_rtime := p_rtime p + 1\<rparr>
      else if p_state p = RUNNABLE then p\<lparr>p_time_in_queues := p_time_in_queues p + 1\<rparr>
      else p)"

definition increment_times :: "'x pstate \<Rightarrow> 'x pstate" where
  "increment_times s =
     s\<lparr>ptable := (\<lambda>i. if i < NPROC then increment_time (ptable s i) else ptable s i)\<rparr>"

text \<open>The timer case of trap() on CPU 0.\<close>

definition timer_tick :: "'x pstate \<Rightarrow> 'x pstate" where
  "timer_tick s = wakeup1 TicksChan (increment_times (s\<lparr>ticks := ticks s + 1\<rparr>))"

fun getpinfo_loop :: "int \<Rightarrow> 'x pstate \<Rightarrow> nat list \<Rightarrow> proc_stat \<Rightarrow> proc_stat" where
  "getpinfo_loop pid s [] ps = ps"
| "getpinfo_loop pid s (i # is) ps =
     getpinfo_loop pid s is
       (if p_pid (ptable s i) = pid then
          ps\<lparr>ps_runtime := p_rtime (ptable s i), ps_num_run := p_num_run (ptable s i),
             ps_pid := p_pid (ptable s i)\<rparr>
        else ps)"

definition getpinfo :: "int \<Rightarrow> 'x pstate \<Rightarrow> proc_stat \<Rightarrow> int \<times> proc_stat" where
  "getpinfo pid s ps = (22, getpinfo_loop pid s [0..<NPROC] ps)"

text \<open>
  sys_sleep: what one evaluation of its loop decides. The comparison of the unsigned
  difference with the signed \<open>n\<close> is unsigned in C.
\<close>

datatype slept = SleepDone | SleepKilled | SleepMore

definition sys_sleep_test :: "uint \<Rightarrow> uint \<Rightarrow> nat \<Rightarrow> 'x pstate \<Rightarrow> slept" where
  "sys_sleep_test ticks0 n cur s =
     (if ticks s - ticks0 < n then
        (if p_killed (ptable s cur) then SleepKilled else SleepMore)
      else SleepDone)"

definition growproc :: "'x kops \<Rightarrow> nat \<Rightarrow> int \<Rightarrow> ('x pstate, int) routine" where
  "growproc ops cur n s =
     (let p = ptable s cur; sz = p_sz p;
          (sz', x) = (if n > 0 then k_allocuvm ops (p_pgdir p) sz (sz + word_of_int n) (kx s)
                      else if n < 0 then k_deallocuvm ops (p_pgdir p) sz (sz + word_of_int n) (kx s)
                      else (sz, kx s));
          s = s\<lparr>kx := x\<rparr>
      in if n \<noteq> 0 \<and> sz' = 0 then Ok (-1) s
         else let s = upd cur (\<lambda>p. p\<lparr>p_sz := sz'\<rparr>) s
           in case switchuvm_check (ptable s cur) of
                Some m \<Rightarrow> Panic m
              | None \<Rightarrow> Ok 0 (upd cur (switchuvm_time (ticks s) (ticks s)) s))"

section \<open>The first process\<close>

text \<open>
  userinit dereferences what allocproc returns before it tests anything. \<open>PGSIZE\<close> is 4096; the
  register values are those the code stores, the segment registers and flags are left out.
\<close>

definition userinit :: "'x kops \<Rightarrow> ('x pstate, unit) routine" where
  "userinit ops s =
     (case allocproc ops s of
        (None, s) \<Rightarrow> Fault
      | (Some i, s) \<Rightarrow>
          let s = s\<lparr>initproc := Some i\<rparr>; (pgdir, x) = k_setupkvm ops (kx s);
              s = upd i (\<lambda>p. p\<lparr>p_pgdir := pgdir\<rparr>) (s\<lparr>kx := x\<rparr>)
          in if pgdir = 0 then Panic ''userinit: out of memory?''
             else let s = s\<lparr>kx := k_inituvm ops pgdir (kx s)\<rparr>;
                      s = upd i (\<lambda>p. p\<lparr>p_sz := 4096,
                            p_tf := \<lparr>tf_eax = 0, tf_eip = 0, tf_esp = 4096\<rparr>,
                            p_name := safestrcpy 16 ''initcode''\<rparr>) s;
                      (ip, x) = k_namei_root ops (kx s);
                      s = upd i (\<lambda>p. p\<lparr>p_cwd := ip\<rparr>) (s\<lparr>kx := x\<rparr>)
                  in Ok () (upd i (\<lambda>p. p\<lparr>p_state := RUNNABLE\<rparr>) s))"

end
