(* ===== verification/ProcSteps.thy ===== *)
theory ProcSteps
  imports Proc
begin

text \<open>
  The processes as a concurrent system: one step is one critical section of ptable.lock executed
  by some CPU (a scheduler iteration, a system call of the process that CPU runs, a wakeup, a
  timer tick). Invariants of every reachable state: process ids are unique, each RUNNING process
  is on exactly one CPU, every process but init has a live parent, no parent sleeps in wait while
  a child is a zombie, and the times reported by waitx add up.
\<close>

section \<open>Steps\<close>

inductive pstep :: "'x kops \<Rightarrow> 'x pstate \<Rightarrow> 'x pstate \<Rightarrow> bool" for ops where
  st_scheduler: "cpu_proc s c = None \<Longrightarrow> scheduler_iter c s = Ok () t \<Longrightarrow> pstep ops s t"
| st_yield: "cpu_proc s c = Some i \<Longrightarrow> pstep ops s (yield c i s)"
| st_sleep: "cpu_proc s c = Some i \<Longrightarrow> (\<And>q. ch \<noteq> ProcChan q) \<Longrightarrow> pstep ops s (sleep_on c i ch s)"
| st_woken: "cpu_proc s c = Some i \<Longrightarrow> pstep ops s (sleep_woken i s)"
| st_wakeup: "pstep ops s (wakeup1 ch s)"
| st_kill: "pstep ops s (snd (kill pid s))"
| st_wait: "cpu_proc s c = Some i \<Longrightarrow> pstep ops s (snd (wait_scan ops c i s))"
| st_waitx: "cpu_proc s c = Some i \<Longrightarrow> pstep ops s (snd (waitx_scan ops c i s))"
| st_exit_files: "cpu_proc s c = Some i \<Longrightarrow> pstep ops s (exit_files ops i s)"
| st_exit: "cpu_proc s c = Some i \<Longrightarrow> initproc s \<noteq> Some i \<Longrightarrow> pstep ops s (exit_zombie c i s)"
| st_tick: "pstep ops s (timer_tick s)"
| st_alloc: "allocproc_slot s = (Some i, t) \<Longrightarrow> pstep ops s t"
| st_alloc_init: "i < NPROC \<Longrightarrow> p_state (ptable s i) = EMBRYO \<Longrightarrow> p_parent (ptable s i) = None \<Longrightarrow>
     k_kalloc ops (kx s) = (stk, x) \<Longrightarrow> stk \<noteq> 0 \<Longrightarrow>
     pstep ops s (allocproc_init i stk (s\<lparr>kx := x\<rparr>))"
| st_alloc_fail: "i < NPROC \<Longrightarrow> p_state (ptable s i) = EMBRYO \<Longrightarrow> p_parent (ptable s i) = None \<Longrightarrow>
     k_kalloc ops (kx s) = (stk, x) \<Longrightarrow> stk = 0 \<Longrightarrow>
     pstep ops s (allocproc_fail i stk (s\<lparr>kx := x\<rparr>))"
| st_fork_nomem: "i < NPROC \<Longrightarrow> p_state (ptable s i) = EMBRYO \<Longrightarrow> p_parent (ptable s i) = None \<Longrightarrow>
     pstep ops s (fork_nomem ops i (s\<lparr>kx := x\<rparr>))"
| st_fork_copy: "cpu_proc s c = Some cur \<Longrightarrow> i < NPROC \<Longrightarrow> p_state (ptable s i) = EMBRYO \<Longrightarrow>
     p_kstack (ptable s i) \<noteq> 0 \<Longrightarrow> pgdir \<noteq> 0 \<Longrightarrow> pstep ops s (fork_copy ops cur i pgdir (s\<lparr>kx := x\<rparr>))"
| st_fork_publish: "i < NPROC \<Longrightarrow> p_state (ptable s i) = EMBRYO \<Longrightarrow> p_parent (ptable s i) \<noteq> None \<Longrightarrow>
     p_kstack (ptable s i) \<noteq> 0 \<Longrightarrow> p_pgdir (ptable s i) \<noteq> 0 \<Longrightarrow> pstep ops s (fork_publish i s)"

section \<open>Invariants\<close>

definition live :: "procstate \<Rightarrow> bool" where
  "live st \<longleftrightarrow> st = SLEEPING \<or> st = RUNNABLE \<or> st = RUNNING"

definition pids_ok :: "'x pstate \<Rightarrow> bool" where
  "pids_ok s \<longleftrightarrow> 0 < nextpid s \<and>
     (\<forall>i<NPROC. 0 \<le> p_pid (ptable s i) \<and> p_pid (ptable s i) < nextpid s \<and>
        (p_state (ptable s i) \<noteq> UNUSED \<longrightarrow> 0 < p_pid (ptable s i))) \<and>
     (\<forall>i<NPROC. \<forall>j<NPROC. p_pid (ptable s i) = p_pid (ptable s j) \<and> p_pid (ptable s i) \<noteq> 0 \<longrightarrow> i = j)"

definition cpus_ok :: "'x pstate \<Rightarrow> bool" where
  "cpus_ok s \<longleftrightarrow>
     (\<forall>c i. cpu_proc s c = Some i \<longrightarrow> i < NPROC \<and> p_state (ptable s i) = RUNNING) \<and>
     (\<forall>c d i. cpu_proc s c = Some i \<and> cpu_proc s d = Some i \<longrightarrow> c = d) \<and>
     (\<forall>i<NPROC. p_state (ptable s i) = RUNNING \<longrightarrow> (\<exists>c. cpu_proc s c = Some i))"

definition init_ok :: "'x pstate \<Rightarrow> bool" where
  "init_ok s \<longleftrightarrow> (case initproc s of None \<Rightarrow> False
     | Some ip \<Rightarrow> ip < NPROC \<and> live (p_state (ptable s ip)) \<and> p_parent (ptable s ip) = None)"

definition tree_ok :: "'x pstate \<Rightarrow> bool" where
  "tree_ok s \<longleftrightarrow> init_ok s \<and> (\<forall>i<NPROC.
     (\<forall>q. p_parent (ptable s i) = Some q \<longrightarrow> q < NPROC \<and> q \<noteq> i \<and> live (p_state (ptable s q))) \<and>
     (p_state (ptable s i) = UNUSED \<longrightarrow> p_parent (ptable s i) = None) \<and>
     (p_state (ptable s i) \<notin> {UNUSED, EMBRYO} \<and> initproc s \<noteq> Some i \<longrightarrow> p_parent (ptable s i) \<noteq> None))"

definition mem_ok :: "'x pstate \<Rightarrow> bool" where
  "mem_ok s \<longleftrightarrow> (\<forall>i<NPROC. p_state (ptable s i) \<notin> {UNUSED, EMBRYO} \<longrightarrow>
     p_kstack (ptable s i) \<noteq> 0 \<and> p_pgdir (ptable s i) \<noteq> 0)"

text \<open>A process asleep in wait is asleep on its own slot and has no zombie child.\<close>

definition wake_ok :: "'x pstate \<Rightarrow> bool" where
  "wake_ok s \<longleftrightarrow> (\<forall>i<NPROC. \<forall>q. p_state (ptable s i) = SLEEPING \<and> p_chan (ptable s i) = ProcChan q \<longrightarrow>
     q = i \<and> \<not> (\<exists>j<NPROC. p_parent (ptable s j) = Some i \<and> p_state (ptable s j) = ZOMBIE))"

definition pt_inv :: "'x pstate \<Rightarrow> bool" where
  "pt_inv s \<longleftrightarrow> pids_ok s \<and> cpus_ok s \<and> tree_ok s \<and> mem_ok s \<and> wake_ok s"

section \<open>The steps as table updates\<close>

lemma find_slot_Some:
  "find_slot P s = Some i \<longleftrightarrow> i < NPROC \<and> P (ptable s i) \<and> (\<forall>j<i. \<not> P (ptable s j))"
  by (auto simp: find_slot_def find_Some_iff)

lemma find_slot_None: "find_slot P s = None \<longleftrightarrow> (\<forall>i<NPROC. \<not> P (ptable s i))"
  by (auto simp: find_slot_def find_None_iff)

lemma ptable_eqI: "(\<And>i. f i = g i) \<Longrightarrow> s\<lparr>ptable := f\<rparr> = s\<lparr>ptable := g\<rparr>"
  by presburger

lemma wakeup1_wakeup1: "wakeup1 ch (wakeup1 ch s) = wakeup1 ch s"
  by (auto simp: wakeup1_def Let_def fun_eq_iff)

lemma wakeup1_fields [simp]:
  "p_parent (ptable (wakeup1 ch s) i) = p_parent (ptable s i)"
  "initproc (wakeup1 ch s) = initproc s"
  "p_state (ptable (wakeup1 ch s) i) = ZOMBIE \<longleftrightarrow> p_state (ptable s i) = ZOMBIE"
  by (auto simp: wakeup1_def Let_def)

definition adopt :: "nat \<Rightarrow> nat set \<Rightarrow> 'x pstate \<Rightarrow> 'x pstate" where
  "adopt cur A s = s\<lparr>ptable := (\<lambda>j. if j \<in> A \<and> p_parent (ptable s j) = Some cur
     then (ptable s j)\<lparr>p_parent := initproc s\<rparr> else ptable s j)\<rparr>"

lemma wakeup1_adopt: "wakeup1 ch (adopt cur A s) = adopt cur A (wakeup1 ch s)"
  by (simp add: wakeup1_def adopt_def Let_def) (rule ptable_eqI, auto)

lemma adopt_upd:
  assumes "initproc s \<noteq> Some cur" and "p_parent (ptable s i) = Some cur"
  shows "adopt cur A (upd i (\<lambda>p. p\<lparr>p_parent := initproc s\<rparr>) s) = adopt cur (insert i A) s"
  using assms by (auto simp: adopt_def upd_def fun_eq_iff)

lemma adopt_skip:
  assumes "p_parent (ptable s i) \<noteq> Some cur"
  shows "adopt cur (insert i A) s = adopt cur A s"
  unfolding adopt_def using assms by (intro ptable_eqI) auto

lemma reparent_closed:
  assumes "initproc s \<noteq> Some cur"
  shows "reparent cur is s =
    (if \<exists>i\<in>set is. p_parent (ptable s i) = Some cur \<and> p_state (ptable s i) = ZOMBIE
     then wakeup1 (parent_chan (initproc s)) (adopt cur (set is) s)
     else adopt cur (set is) s)"
  using assms
proof (induction "is" arbitrary: s)
  case Nil
  then show ?case by (simp add: adopt_def)
next
  case (Cons i "is")
  let ?s = "upd i (\<lambda>p. p\<lparr>p_parent := initproc s\<rparr>) s"
  show ?case
  proof (cases "p_parent (ptable s i) = Some cur")
    case False
    then show ?thesis using Cons by (auto simp: adopt_skip)
  next
    case True
    have i: "initproc ?s = initproc s" by (simp add: upd_def)
    have ad: "adopt cur (set is) ?s = adopt cur (insert i (set is)) s"
      using Cons.prems True by (rule adopt_upd)
    have ex: "(\<exists>j\<in>set is. p_parent (ptable ?s j) = Some cur \<and> p_state (ptable ?s j) = ZOMBIE) \<longleftrightarrow>
      (\<exists>j\<in>set is - {i}. p_parent (ptable s j) = Some cur \<and> p_state (ptable s j) = ZOMBIE)"
      using Cons.prems by (auto simp: upd_def split: if_splits)
    have IH: "reparent cur is ?s = (if \<exists>j\<in>set is - {i}. p_parent (ptable s j) = Some cur \<and> p_state (ptable s j) = ZOMBIE
       then wakeup1 (parent_chan (initproc s)) (adopt cur (insert i (set is)) s)
       else adopt cur (insert i (set is)) s)"
      using Cons.IH [of ?s] Cons.prems by (simp only: i ad ex) simp
    have IH2: "reparent cur is (wakeup1 (parent_chan (initproc s)) ?s) =
       wakeup1 (parent_chan (initproc s)) (adopt cur (insert i (set is)) s)"
      using Cons.IH [of "wakeup1 (parent_chan (initproc s)) ?s"] Cons.prems
      by (simp add: i wakeup1_adopt [symmetric] ad wakeup1_wakeup1)
    show ?thesis
    proof (cases "p_state (ptable s i) = ZOMBIE")
      case z: True
      then have "p_state (ptable ?s i) = ZOMBIE" by (simp add: upd_def)
      with True z IH2 show ?thesis by (auto simp: Let_def)
    next
      case z: False
      then have "p_state (ptable ?s i) \<noteq> ZOMBIE" by (simp add: upd_def)
      with True z IH show ?thesis by (auto simp: Let_def)
    qed
  qed
qed

section \<open>Every step keeps the invariant\<close>

lemmas step_defs = upd_def swtch_off_def yield_def sleep_on_def sleep_woken_def
  allocproc_init_def allocproc_fail_def fork_nomem_def fork_copy_def fork_publish_def Let_def

lemmas inv_defs = pids_ok_def cpus_ok_def tree_ok_def init_ok_def mem_ok_def wake_ok_def live_def

lemma pids_ok_cong:
  assumes "pids_ok s" and "nextpid t = nextpid s"
    and "\<And>i. i < NPROC \<Longrightarrow> p_pid (ptable t i) = p_pid (ptable s i)"
    and "\<And>i. i < NPROC \<Longrightarrow> p_state (ptable t i) \<noteq> UNUSED \<Longrightarrow> p_state (ptable s i) \<noteq> UNUSED"
  shows "pids_ok t"
  using assms by (simp add: pids_ok_def)

lemma mem_ok_cong:
  assumes "mem_ok s"
    and "\<And>i. i < NPROC \<Longrightarrow> p_state (ptable t i) \<notin> {UNUSED, EMBRYO} \<Longrightarrow>
      p_state (ptable s i) \<notin> {UNUSED, EMBRYO} \<and> p_kstack (ptable t i) = p_kstack (ptable s i) \<and>
      p_pgdir (ptable t i) = p_pgdir (ptable s i)"
  shows "mem_ok t"
  using assms by (simp add: mem_ok_def)

lemma woken_state:
  assumes "b = a \<or> a = SLEEPING \<and> b = RUNNABLE"
  shows "b = ZOMBIE \<longleftrightarrow> a = ZOMBIE" "b = RUNNING \<longleftrightarrow> a = RUNNING" "b = UNUSED \<longleftrightarrow> a = UNUSED"
    "b = EMBRYO \<longleftrightarrow> a = EMBRYO" "live b \<longleftrightarrow> live a" "b = SLEEPING \<Longrightarrow> a = SLEEPING"
  using assms by (auto simp: live_def)

text \<open>A step that leaves ids, parents, memory and the process on each CPU alone.\<close>

lemma pt_inv_frame:
  assumes "pt_inv s" and "nextpid t = nextpid s" and "initproc t = initproc s"
    and "cpu_proc t = cpu_proc s"
    and same: "\<And>i. i < NPROC \<Longrightarrow> p_pid (ptable t i) = p_pid (ptable s i) \<and>
      p_parent (ptable t i) = p_parent (ptable s i) \<and>
      p_kstack (ptable t i) = p_kstack (ptable s i) \<and> p_pgdir (ptable t i) = p_pgdir (ptable s i)"
    and st: "\<And>i. i < NPROC \<Longrightarrow> p_state (ptable t i) = p_state (ptable s i) \<or>
      p_state (ptable s i) = SLEEPING \<and> p_state (ptable t i) = RUNNABLE"
    and ch: "\<And>i. i < NPROC \<Longrightarrow> p_state (ptable t i) = SLEEPING \<Longrightarrow> p_chan (ptable t i) = p_chan (ptable s i)"
  shows "pt_inv t"
proof -
  note z = woken_state [OF st]
  have pids: "pids_ok t"
    by (rule pids_ok_cong [of s]) (use assms(1,2) same z(3) in \<open>simp_all add: pt_inv_def\<close>)
  have cpus: "cpus_ok t"
    using assms(1) z(2) unfolding pt_inv_def cpus_ok_def assms(4) by blast
  have tree_s: "\<forall>i<NPROC. (\<forall>q. p_parent (ptable s i) = Some q \<longrightarrow> q < NPROC \<and> q \<noteq> i \<and> live (p_state (ptable s q))) \<and>
     (p_state (ptable s i) = UNUSED \<longrightarrow> p_parent (ptable s i) = None) \<and>
     (p_state (ptable s i) \<notin> {UNUSED, EMBRYO} \<and> initproc s \<noteq> Some i \<longrightarrow> p_parent (ptable s i) \<noteq> None)"
    using assms(1) unfolding pt_inv_def tree_ok_def by blast
  have "(\<forall>q. p_parent (ptable t i) = Some q \<longrightarrow> q < NPROC \<and> q \<noteq> i \<and> live (p_state (ptable t q))) \<and>
     (p_state (ptable t i) = UNUSED \<longrightarrow> p_parent (ptable t i) = None) \<and>
     (p_state (ptable t i) \<notin> {UNUSED, EMBRYO} \<and> initproc t \<noteq> Some i \<longrightarrow> p_parent (ptable t i) \<noteq> None)"
    if i: "i < NPROC" for i
    using tree_s [rule_format, OF i] same [OF i] z(3,4) [OF i] z(5) unfolding assms(3) by auto
  moreover have "init_ok t"
    using assms(1) same z(5) by (auto simp: pt_inv_def tree_ok_def init_ok_def assms(3) split: option.splits)
  ultimately have tree: "tree_ok t" unfolding tree_ok_def by blast
  have mem: "mem_ok t"
    by (rule mem_ok_cong [of s]) (use assms(1) same z(3,4) in \<open>auto simp: pt_inv_def\<close>)
  have "q = i \<and> \<not> (\<exists>j<NPROC. p_parent (ptable t j) = Some i \<and> p_state (ptable t j) = ZOMBIE)"
    if "i < NPROC" "p_state (ptable t i) = SLEEPING" "p_chan (ptable t i) = ProcChan q" for i q
  proof -
    have "p_state (ptable s i) = SLEEPING" "p_chan (ptable s i) = ProcChan q"
      using that z(6) ch [of i] by auto
    then have "q = i \<and> \<not> (\<exists>j<NPROC. p_parent (ptable s j) = Some i \<and> p_state (ptable s j) = ZOMBIE)"
      using assms(1) that(1) by (simp add: pt_inv_def wake_ok_def)
    then show ?thesis using same z(1) by auto
  qed
  then have wake: "wake_ok t" unfolding wake_ok_def by blast
  from pids cpus tree mem wake show ?thesis by (simp add: pt_inv_def)
qed

lemma wakeup1_inv: "pt_inv s \<Longrightarrow> pt_inv (wakeup1 ch s)"
  by (rule pt_inv_frame [of s]) (auto simp: wakeup1_def Let_def)

lemma kill_inv: "pt_inv s \<Longrightarrow> pt_inv (snd (kill pid s))"
  by (rule pt_inv_frame [of s]) (auto simp: kill_def upd_def split: option.splits)

lemma sleep_woken_inv: "pt_inv s \<Longrightarrow> cpu_proc s c = Some i \<Longrightarrow> pt_inv (sleep_woken i s)"
  by (rule pt_inv_frame [of s]) (auto simp: sleep_woken_def upd_def pt_inv_def cpus_ok_def)

lemma increment_time_fields [simp]:
  "p_state (increment_time p) = p_state p" "p_pid (increment_time p) = p_pid p"
  "p_parent (increment_time p) = p_parent p" "p_kstack (increment_time p) = p_kstack p"
  "p_pgdir (increment_time p) = p_pgdir p" "p_chan (increment_time p) = p_chan p"
  "p_ctime (increment_time p) = p_ctime p" "p_etime (increment_time p) = p_etime p"
  "p_wait_time (increment_time p) = p_wait_time p"
  by (auto simp: increment_time_def)

lemma timer_tick_inv: "pt_inv s \<Longrightarrow> pt_inv (timer_tick s)"
  unfolding timer_tick_def
  by (rule wakeup1_inv, rule pt_inv_frame [of s]) (auto simp: increment_times_def)

lemma close_files_frame:
  "\<exists>f x. close_files ops cur fds s = (upd cur (\<lambda>p. p\<lparr>p_ofile := f\<rparr>) s)\<lparr>kx := x\<rparr>"
proof (induction fds arbitrary: s)
  case Nil
  show ?case
    by (rule exI [of _ "p_ofile (ptable s cur)"], rule exI [of _ "kx s"]) (simp add: upd_def)
next
  case (Cons fd fds)
  show ?case
  proof (cases "p_ofile (ptable s cur) fd")
    case None
    then show ?thesis using Cons by simp
  next
    case (Some f)
    let ?s = "upd cur (\<lambda>p. p\<lparr>p_ofile := (p_ofile p)(fd := None)\<rparr>) (s\<lparr>kx := k_fileclose ops f (kx s)\<rparr>)"
    from Cons [of ?s] show ?thesis using Some by (auto simp: upd_def)
  qed
qed

lemma exit_files_frame:
  "\<exists>f x. exit_files ops cur s = upd cur (\<lambda>p. p\<lparr>p_ofile := f, p_cwd := None\<rparr>) (s\<lparr>kx := x\<rparr>)"
proof -
  obtain f x where "close_files ops cur [0..<NOFILE] s = (upd cur (\<lambda>p. p\<lparr>p_ofile := f\<rparr>) s)\<lparr>kx := x\<rparr>"
    using close_files_frame [of ops cur "[0..<NOFILE]" s] by blast
  then have "exit_files ops cur s = upd cur (\<lambda>p. p\<lparr>p_ofile := f, p_cwd := None\<rparr>)
      (s\<lparr>kx := kx (exit_files ops cur s)\<rparr>)"
    by (intro pstate.equality) (simp_all add: exit_files_def Let_def upd_def)
  then show ?thesis by blast
qed

lemma exit_files_inv: "pt_inv s \<Longrightarrow> pt_inv (exit_files ops cur s)"
proof -
  obtain f x where e: "exit_files ops cur s = upd cur (\<lambda>p. p\<lparr>p_ofile := f, p_cwd := None\<rparr>) (s\<lparr>kx := x\<rparr>)"
    using exit_files_frame [of ops cur s] by blast
  show "pt_inv s \<Longrightarrow> ?thesis"
    unfolding e by (rule pt_inv_frame [of s]) (auto simp: upd_def)
qed

text \<open>The invariant, clause by clause, as rules to use and to establish.\<close>

lemma pt_invI:
  assumes "pids_ok s" "cpus_ok s" "tree_ok s" "mem_ok s" "wake_ok s"
  shows "pt_inv s"
  using assms by (simp add: pt_inv_def)

lemma pt_invD:
  assumes "pt_inv s"
  shows "pids_ok s" "cpus_ok s" "tree_ok s" "mem_ok s" "wake_ok s" "init_ok s"
  using assms unfolding pt_inv_def tree_ok_def by blast+

lemma running_on_cpu:
  assumes "pt_inv s" and "cpu_proc s c = Some i"
  shows "i < NPROC" "p_state (ptable s i) = RUNNING"
  using assms by (auto simp: pt_inv_def cpus_ok_def)

lemma tree_okD:
  assumes "tree_ok s" and "i < NPROC"
  shows "p_parent (ptable s i) = Some q \<Longrightarrow> q < NPROC \<and> q \<noteq> i \<and> live (p_state (ptable s q))"
    and "p_state (ptable s i) = UNUSED \<Longrightarrow> p_parent (ptable s i) = None"
    and "p_state (ptable s i) \<noteq> UNUSED \<Longrightarrow> p_state (ptable s i) \<noteq> EMBRYO \<Longrightarrow>
      initproc s \<noteq> Some i \<Longrightarrow> p_parent (ptable s i) \<noteq> None"
  using assms unfolding tree_ok_def by blast+

lemma tree_okI:
  assumes "init_ok s"
    and "\<And>i q. i < NPROC \<Longrightarrow> p_parent (ptable s i) = Some q \<Longrightarrow>
      q < NPROC \<and> q \<noteq> i \<and> live (p_state (ptable s q))"
    and "\<And>i. i < NPROC \<Longrightarrow> p_state (ptable s i) = UNUSED \<Longrightarrow> p_parent (ptable s i) = None"
    and "\<And>i. i < NPROC \<Longrightarrow> p_state (ptable s i) \<noteq> UNUSED \<Longrightarrow> p_state (ptable s i) \<noteq> EMBRYO \<Longrightarrow>
      initproc s \<noteq> Some i \<Longrightarrow> p_parent (ptable s i) \<noteq> None"
  shows "tree_ok s"
  unfolding tree_ok_def
proof (intro conjI allI impI)
  fix i q
  assume i: "i < NPROC"
  show "p_parent (ptable s i) = Some q \<Longrightarrow> q < NPROC" "p_parent (ptable s i) = Some q \<Longrightarrow> q \<noteq> i"
    "p_parent (ptable s i) = Some q \<Longrightarrow> live (p_state (ptable s q))"
    using assms(2) [OF i] by auto
  show "p_state (ptable s i) = UNUSED \<Longrightarrow> p_parent (ptable s i) = None"
    by (rule assms(3) [OF i])
  show "p_state (ptable s i) \<notin> {UNUSED, EMBRYO} \<and> initproc s \<noteq> Some i \<Longrightarrow> p_parent (ptable s i) \<noteq> None"
    using assms(4) [OF i] by auto
qed (rule assms(1))

lemma wake_okD:
  assumes "wake_ok s" and "i < NPROC" and "p_state (ptable s i) = SLEEPING"
    and "p_chan (ptable s i) = ProcChan q"
  shows "q = i" and "j < NPROC \<Longrightarrow> p_parent (ptable s j) = Some i \<Longrightarrow> p_state (ptable s j) \<noteq> ZOMBIE"
  using assms unfolding wake_ok_def by blast+

lemma wake_okI:
  assumes "\<And>i q. i < NPROC \<Longrightarrow> p_state (ptable s i) = SLEEPING \<Longrightarrow> p_chan (ptable s i) = ProcChan q \<Longrightarrow>
     q = i \<and> (\<forall>j<NPROC. p_parent (ptable s j) = Some i \<longrightarrow> p_state (ptable s j) \<noteq> ZOMBIE)"
  shows "wake_ok s"
  using assms unfolding wake_ok_def by blast

lemma cpus_okD:
  assumes "cpus_ok s"
  shows "cpu_proc s c = Some i \<Longrightarrow> i < NPROC" "cpu_proc s c = Some i \<Longrightarrow> p_state (ptable s i) = RUNNING"
    and "cpu_proc s c = Some i \<Longrightarrow> cpu_proc s d = Some i \<Longrightarrow> c = d"
    and "i < NPROC \<Longrightarrow> p_state (ptable s i) = RUNNING \<Longrightarrow> \<exists>c. cpu_proc s c = Some i"
  using assms unfolding cpus_ok_def by blast+

lemma cpus_okI:
  assumes "\<And>c i. cpu_proc s c = Some i \<Longrightarrow> i < NPROC \<and> p_state (ptable s i) = RUNNING"
    and "\<And>c d i. cpu_proc s c = Some i \<Longrightarrow> cpu_proc s d = Some i \<Longrightarrow> c = d"
    and "\<And>i. i < NPROC \<Longrightarrow> p_state (ptable s i) = RUNNING \<Longrightarrow> \<exists>c. cpu_proc s c = Some i"
  shows "cpus_ok s"
  using assms unfolding cpus_ok_def by blast

text \<open>The running process gives up its CPU: yield, sleep and the sleep in wait.\<close>

lemma swtch_off_inv:
  assumes inv: "pt_inv s" and cpu: "cpu_proc s c = Some i"
    and f: "\<And>p. p_pid (f p) = p_pid p \<and> p_parent (f p) = p_parent p \<and>
      p_kstack (f p) = p_kstack p \<and> p_pgdir (f p) = p_pgdir p \<and> p_state (f p) \<in> {SLEEPING, RUNNABLE}"
    and w: "\<And>q. p_chan (f (ptable s i)) = ProcChan q \<Longrightarrow> p_state (f (ptable s i)) = SLEEPING \<Longrightarrow>
      q = i \<and> (\<forall>j<NPROC. p_parent (ptable s j) = Some i \<longrightarrow> p_state (ptable s j) \<noteq> ZOMBIE)"
  shows "pt_inv (swtch_off c i (upd i f s))"
proof -
  let ?t = "swtch_off c i (upd i f s)"
  note i = running_on_cpu [OF inv cpu]
  have t: "ptable ?t j = (if j = i then (f (ptable s i))\<lparr>p_context := AtSwtch\<rparr> else ptable s j)"
    "cpu_proc ?t = (cpu_proc s)(c := None)" "initproc ?t = initproc s" "nextpid ?t = nextpid s" for j
    by (simp_all add: swtch_off_def upd_def)
  have st: "p_state (f p) \<noteq> RUNNING" "p_state (f p) \<noteq> UNUSED" "p_state (f p) \<noteq> ZOMBIE"
    "p_state (f p) \<noteq> EMBRYO" "live (p_state (f p))" for p
    using f [of p] by (auto simp: live_def)
  have live_t: "live (p_state (ptable s j)) \<Longrightarrow> live (p_state (ptable ?t j))" for j
    using st by (simp add: t)
  show ?thesis
  proof (rule pt_invI)
    show "pids_ok ?t"
      by (rule pids_ok_cong [OF pt_invD(1) [OF inv]]) (use i f in \<open>auto simp: t split: if_splits\<close>)
    note cpus = cpus_okD [OF pt_invD(2) [OF inv]]
    show "cpus_ok ?t"
    proof (rule cpus_okI)
      fix d j
      assume d: "cpu_proc ?t d = Some j"
      then have s: "cpu_proc s d = Some j" "d \<noteq> c" by (auto simp: t split: if_splits)
      then have "j \<noteq> i" using cpus(3) cpu by blast
      then show "j < NPROC \<and> p_state (ptable ?t j) = RUNNING" using cpus(1,2) [OF s(1)] by (simp add: t)
      show "d' = d" if "cpu_proc ?t d' = Some j" for d'
        using cpus(3) [of d' j d] s(1) that by (auto simp: t split: if_splits)
    next
      fix j
      assume j: "j < NPROC" "p_state (ptable ?t j) = RUNNING"
      then have "j \<noteq> i" using st by (auto simp: t)
      with j cpus(4) [of j] obtain d where "cpu_proc s d = Some j" by (auto simp: t)
      with \<open>j \<noteq> i\<close> cpu have "cpu_proc ?t d = Some j" by (auto simp: t)
      then show "\<exists>d. cpu_proc ?t d = Some j" ..
    qed
    show "tree_ok ?t"
    proof (rule tree_okI)
      show "init_ok ?t"
        using pt_invD(6) [OF inv] st f by (auto simp: init_ok_def t split: option.splits)
      show "q < NPROC \<and> q \<noteq> j \<and> live (p_state (ptable ?t q))"
        if "j < NPROC" "p_parent (ptable ?t j) = Some q" for j q
        using tree_okD(1) [OF pt_invD(3) [OF inv] that(1)] that(2) f st by (auto simp: t split: if_splits)
      show "p_parent (ptable ?t j) = None" if "j < NPROC" "p_state (ptable ?t j) = UNUSED" for j
        using tree_okD(2) [OF pt_invD(3) [OF inv] that(1)] that(2) st by (auto simp: t split: if_splits)
      show "p_parent (ptable ?t j) \<noteq> None"
        if "j < NPROC" "p_state (ptable ?t j) \<noteq> UNUSED" "p_state (ptable ?t j) \<noteq> EMBRYO" "initproc ?t \<noteq> Some j" for j
        using tree_okD(3) [OF pt_invD(3) [OF inv] that(1)] that(2-4) i f by (auto simp: t split: if_splits)
    qed
    show "mem_ok ?t"
      by (rule mem_ok_cong [OF pt_invD(4) [OF inv]]) (use i f in \<open>auto simp: t split: if_splits\<close>)
    show "wake_ok ?t"
    proof (rule wake_okI)
      fix j q
      assume j: "j < NPROC" "p_state (ptable ?t j) = SLEEPING" "p_chan (ptable ?t j) = ProcChan q"
      have z: "p_state (ptable ?t k) = ZOMBIE \<Longrightarrow> p_state (ptable s k) = ZOMBIE"
        "p_parent (ptable ?t k) = p_parent (ptable s k)" for k
        using st f by (simp_all add: t split: if_splits)
      show "q = j \<and> (\<forall>k<NPROC. p_parent (ptable ?t k) = Some j \<longrightarrow> p_state (ptable ?t k) \<noteq> ZOMBIE)"
      proof (cases "j = i")
        case True
        then show ?thesis using w [of q] j z by (auto simp: t)
      next
        case False
        with j have sj: "p_state (ptable s j) = SLEEPING" "p_chan (ptable s j) = ProcChan q"
          by (simp_all add: t)
        show ?thesis using wake_okD [OF pt_invD(5) [OF inv] j(1) sj] z by metis
      qed
    qed
  qed
qed

lemma yield_inv: "pt_inv s \<Longrightarrow> cpu_proc s c = Some i \<Longrightarrow> pt_inv (yield c i s)"
  unfolding yield_def by (rule swtch_off_inv) auto

lemma sleep_on_inv:
  assumes "pt_inv s" and "cpu_proc s c = Some i"
    and "\<And>q. ch = ProcChan q \<Longrightarrow>
      q = i \<and> (\<forall>j<NPROC. p_parent (ptable s j) = Some i \<longrightarrow> p_state (ptable s j) \<noteq> ZOMBIE)"
  shows "pt_inv (sleep_on c i ch s)"
  unfolding sleep_on_def using assms by (intro swtch_off_inv) auto

text \<open>The scan of wait and waitx: it finds a zombie child, or learns whether there is a child.\<close>

lemma wait_loop_cases:
  "wait_loop ops cur is hk s =
     (case find (\<lambda>i. p_parent (ptable s i) = Some cur \<and> p_state (ptable s i) = ZOMBIE) is of
        Some i \<Rightarrow> (Inl (p_pid (ptable s i)), reap ops i s)
      | None \<Rightarrow> (Inr (hk \<or> (\<exists>i\<in>set is. p_parent (ptable s i) = Some cur)), s))"
  by (induction "is" arbitrary: hk) (auto split: option.splits)

lemma waitx_loop_cases:
  "waitx_loop ops cur is hk s =
     (case find (\<lambda>i. p_parent (ptable s i) = Some cur \<and> p_state (ptable s i) = ZOMBIE) is of
        Some i \<Rightarrow> (Inl (p_pid (ptable s i), waitx_times (ticks s) (ptable s i)), reap ops i s)
      | None \<Rightarrow> (Inr (hk \<or> (\<exists>i\<in>set is. p_parent (ptable s i) = Some cur)), s))"
  by (induction "is" arbitrary: hk) (auto split: option.splits)

definition zombie_child :: "nat \<Rightarrow> 'x pstate \<Rightarrow> nat option" where
  "zombie_child cur s = find_slot (\<lambda>p. p_parent p = Some cur \<and> p_state p = ZOMBIE) s"

lemma wait_scan_cases:
  "wait_scan ops c cur s =
     (case zombie_child cur s of
        Some i \<Rightarrow> (Reaped (p_pid (ptable s i)), reap ops i s)
      | None \<Rightarrow>
          if \<not> (\<exists>i<NPROC. p_parent (ptable s i) = Some cur) \<or> p_killed (ptable s cur) then (NoChild, s)
          else (WentToSleep, sleep_on c cur (ProcChan cur) s))"
  by (auto simp: wait_scan_def wait_loop_cases zombie_child_def find_slot_def split: option.splits)

lemma waitx_scan_cases:
  "waitx_scan ops c cur s =
     (case zombie_child cur s of
        Some i \<Rightarrow> (Reaped (p_pid (ptable s i), waitx_times (ticks s) (ptable s i)), reap ops i s)
      | None \<Rightarrow>
          if \<not> (\<exists>i<NPROC. p_parent (ptable s i) = Some cur) \<or> p_killed (ptable s cur) then (NoChild, s)
          else (WentToSleep, sleep_on c cur (ProcChan cur) s))"
  by (auto simp: waitx_scan_def waitx_loop_cases zombie_child_def find_slot_def split: option.splits)

text \<open>A slot that is not running changes hands: reaping, allocation, the steps of fork.\<close>

lemma slot_inv:
  assumes inv: "pt_inv s" and i: "i < NPROC" "\<not> live (p_state (ptable s i))"
    and t: "\<And>j. ptable t j = (if j = i then p else ptable s j)"
      "cpu_proc t = cpu_proc s" "initproc t = initproc s"
    and n: "nextpid s \<le> nextpid t"
    and pid: "p_pid p = p_pid (ptable s i) \<or> p_pid p = 0 \<or> p_pid p = nextpid s \<and> nextpid s < nextpid t"
      "p_state p \<noteq> UNUSED \<Longrightarrow> 0 < p_pid p"
    and st: "p_state p \<noteq> SLEEPING" "p_state p \<noteq> RUNNING"
    and par: "\<And>q. p_parent p = Some q \<Longrightarrow> q < NPROC \<and> live (p_state (ptable s q))"
      "p_state p = UNUSED \<Longrightarrow> p_parent p = None"
      "p_state p = RUNNABLE \<Longrightarrow> p_parent p \<noteq> None"
    and nz: "p_state p \<noteq> ZOMBIE"
    and mem: "p_state p = RUNNABLE \<Longrightarrow> p_kstack p \<noteq> 0 \<and> p_pgdir p \<noteq> 0"
  shows "pt_inv t"
proof (rule pt_invI)
  have old: "p_state (ptable s i) \<noteq> RUNNING" using i(2) by (auto simp: live_def)
  note pids = pt_invD(1) [OF inv, unfolded pids_ok_def]
  have fresh: "0 \<le> p_pid (ptable s j) \<and> p_pid (ptable s j) < nextpid s" if "j < NPROC" for j
    using pids that by blast
  have inj: "p_pid (ptable s j) = p_pid (ptable s k) \<Longrightarrow> p_pid (ptable s j) \<noteq> 0 \<Longrightarrow> j = k"
    if "j < NPROC" "k < NPROC" for j k
    using pids that by blast
  show "pids_ok t"
    unfolding pids_ok_def
  proof (intro conjI allI impI)
    show "0 < nextpid t" using pids n by linarith
  next
    fix j assume j: "j < NPROC"
    show "0 \<le> p_pid (ptable t j)" "p_pid (ptable t j) < nextpid t"
      using fresh [OF j] fresh [OF i(1)] pid n pids by (auto simp: t)
    show "0 < p_pid (ptable t j)" if "p_state (ptable t j) \<noteq> UNUSED"
      using that pid(2) pids j by (auto simp: t split: if_splits)
  next
    fix j k assume jk: "j < NPROC" "k < NPROC"
      "p_pid (ptable t j) = p_pid (ptable t k) \<and> p_pid (ptable t j) \<noteq> 0"
    then show "j = k"
      using inj fresh [OF jk(1)] fresh [OF jk(2)] pid(1) i(1) by (auto simp: t split: if_splits)
  qed
  note cpus = cpus_okD [OF pt_invD(2) [OF inv]]
  show "cpus_ok t"
  proof (rule cpus_okI)
    fix d j assume d: "cpu_proc t d = Some j"
    then show "j < NPROC \<and> p_state (ptable t j) = RUNNING"
      using cpus(1,2) [of d j] old by (auto simp: t)
    show "d' = d" if "cpu_proc t d' = Some j" for d'
      using cpus(3) [of d' j d] d that by (simp add: t)
  next
    fix j assume "j < NPROC" "p_state (ptable t j) = RUNNING"
    then show "\<exists>d. cpu_proc t d = Some j" using cpus(4) [of j] st by (auto simp: t split: if_splits)
  qed
  have live_t: "live (p_state (ptable t j))" if "live (p_state (ptable s j))" for j
    using that i(2) by (auto simp: t)
  show "tree_ok t"
  proof (rule tree_okI)
    have "initproc s \<noteq> Some i"
      using pt_invD(6) [OF inv] i(2) by (auto simp: init_ok_def split: option.splits)
    then show "init_ok t"
      using pt_invD(6) [OF inv] by (auto simp: init_ok_def t split: option.splits)
  next
    fix j q assume j: "j < NPROC" "p_parent (ptable t j) = Some q"
    show "q < NPROC \<and> q \<noteq> j \<and> live (p_state (ptable t q))"
    proof (cases "j = i")
      case True
      then have "q < NPROC \<and> live (p_state (ptable s q))" using par(1) j by (simp add: t)
      then show ?thesis using i(2) live_t True by auto
    next
      case False
      then have "q < NPROC \<and> q \<noteq> j \<and> live (p_state (ptable s q))"
        using tree_okD(1) [OF pt_invD(3) [OF inv] j(1)] j(2) by (simp add: t)
      then show ?thesis using live_t by auto
    qed
  next
    fix j assume "j < NPROC" "p_state (ptable t j) = UNUSED"
    then show "p_parent (ptable t j) = None"
      using tree_okD(2) [OF pt_invD(3) [OF inv]] par(2) by (auto simp: t split: if_splits)
  next
    fix j assume "j < NPROC" "p_state (ptable t j) \<noteq> UNUSED" "p_state (ptable t j) \<noteq> EMBRYO"
      "initproc t \<noteq> Some j"
    then show "p_parent (ptable t j) \<noteq> None"
      using tree_okD(3) [OF pt_invD(3) [OF inv]] par(3) st nz
      by (cases "p_state p") (auto simp: t split: if_splits)
  qed
  show "mem_ok t"
    using pt_invD(4) [OF inv] mem st nz unfolding mem_ok_def
    by (cases "p_state p") (auto simp: t)
  show "wake_ok t"
  proof (rule wake_okI)
    fix j q assume j: "j < NPROC" "p_state (ptable t j) = SLEEPING" "p_chan (ptable t j) = ProcChan q"
    then have "j \<noteq> i" using st by (auto simp: t)
    with j have sj: "p_state (ptable s j) = SLEEPING" "p_chan (ptable s j) = ProcChan q"
      by (simp_all add: t)
    have "p_state (ptable t k) \<noteq> ZOMBIE" if k: "k < NPROC" "p_parent (ptable t k) = Some j" for k
      using wake_okD(2) [OF pt_invD(5) [OF inv] j(1) sj k(1)] k(2) nz by (cases "k = i") (simp_all add: t)
    then show "q = j \<and> (\<forall>k<NPROC. p_parent (ptable t k) = Some j \<longrightarrow> p_state (ptable t k) \<noteq> ZOMBIE)"
      using wake_okD(1) [OF pt_invD(5) [OF inv] j(1) sj] by blast
  qed
qed

lemma embryo_not_live: "p_state p = EMBRYO \<Longrightarrow> \<not> live (p_state p)" "p_state p = UNUSED \<Longrightarrow> \<not> live (p_state p)"
  "p_state p = ZOMBIE \<Longrightarrow> \<not> live (p_state p)"
  by (auto simp: live_def)

lemma pid_pos: "pt_inv s \<Longrightarrow> i < NPROC \<Longrightarrow> p_state (ptable s i) \<noteq> UNUSED \<Longrightarrow> 0 < p_pid (ptable s i)"
  unfolding pt_inv_def pids_ok_def by blast

lemma nextpid_pos: "pt_inv s \<Longrightarrow> 0 < nextpid s"
  unfolding pt_inv_def pids_ok_def by blast

lemma parent_live:
  "pt_inv s \<Longrightarrow> i < NPROC \<Longrightarrow> p_parent (ptable s i) = Some q \<Longrightarrow> q < NPROC \<and> live (p_state (ptable s q))"
  using tree_okD(1) pt_invD(3) by blast

lemma allocproc_slot_inv:
  assumes inv: "pt_inv s" and a: "allocproc_slot s = (Some i, t)"
  shows "pt_inv t"
proof -
  from a have i: "i < NPROC" "p_state (ptable s i) = UNUSED"
    and t: "t = upd i (\<lambda>p. p\<lparr>p_state := EMBRYO, p_pid := nextpid s\<rparr>) (s\<lparr>nextpid := nextpid s + 1\<rparr>)"
    by (auto simp: allocproc_slot_def find_slot_Some split: option.splits)
  have "p_parent (ptable s i) = None"
    using tree_okD(2) [OF pt_invD(3) [OF inv] i(1)] i(2) by blast
  then show ?thesis
    using nextpid_pos [OF inv] i
    by (intro slot_inv [OF inv i(1), where p = "(ptable s i)\<lparr>p_state := EMBRYO, p_pid := nextpid s\<rparr>"])
       (auto simp: t upd_def live_def)
qed

lemma allocproc_init_inv:
  assumes inv: "pt_inv s" and i: "i < NPROC" "p_state (ptable s i) = EMBRYO"
  shows "pt_inv (allocproc_init i stk (s\<lparr>kx := x\<rparr>))"
  using i pid_pos [OF inv i(1)] parent_live [OF inv i(1)]
  by (intro slot_inv [OF inv i(1), where p = "ptable (allocproc_init i stk (s\<lparr>kx := x\<rparr>)) i"])
     (auto simp: allocproc_init_def upd_def live_def)

lemma allocproc_fail_inv:
  assumes inv: "pt_inv s" and i: "i < NPROC" "p_state (ptable s i) = EMBRYO" "p_parent (ptable s i) = None"
  shows "pt_inv (allocproc_fail i stk (s\<lparr>kx := x\<rparr>))"
  using i
  by (intro slot_inv [OF inv i(1), where p = "ptable (allocproc_fail i stk (s\<lparr>kx := x\<rparr>)) i"])
     (auto simp: allocproc_fail_def upd_def live_def)

lemma fork_nomem_inv:
  assumes inv: "pt_inv s" and i: "i < NPROC" "p_state (ptable s i) = EMBRYO" "p_parent (ptable s i) = None"
  shows "pt_inv (fork_nomem ops i (s\<lparr>kx := x\<rparr>))"
  using i
  by (intro slot_inv [OF inv i(1), where p = "ptable (fork_nomem ops i (s\<lparr>kx := x\<rparr>)) i"])
     (auto simp: fork_nomem_def upd_def live_def)

lemma fork_copy_inv:
  assumes inv: "pt_inv s" and cpu: "cpu_proc s c = Some cur"
    and i: "i < NPROC" "p_state (ptable s i) = EMBRYO"
  shows "pt_inv (fork_copy ops cur i pgdir (s\<lparr>kx := x\<rparr>))"
  using i pid_pos [OF inv i(1)] running_on_cpu [OF inv cpu]
  by (intro slot_inv [OF inv i(1), where p = "ptable (fork_copy ops cur i pgdir (s\<lparr>kx := x\<rparr>)) i"])
     (auto simp: fork_copy_def upd_def live_def Let_def)

lemma fork_publish_inv:
  assumes inv: "pt_inv s" and i: "i < NPROC" "p_state (ptable s i) = EMBRYO"
    "p_parent (ptable s i) \<noteq> None" "p_kstack (ptable s i) \<noteq> 0" "p_pgdir (ptable s i) \<noteq> 0"
  shows "pt_inv (fork_publish i s)"
  using i pid_pos [OF inv i(1)] parent_live [OF inv i(1)]
  by (intro slot_inv [OF inv i(1), where p = "ptable (fork_publish i s) i"])
     (auto simp: fork_publish_def upd_def live_def)

lemma reap_inv:
  assumes inv: "pt_inv s" and i: "i < NPROC" "p_state (ptable s i) = ZOMBIE"
  shows "pt_inv (reap ops i s)"
  using i
  by (intro slot_inv [OF inv i(1), where p = "ptable (reap ops i s) i"])
     (auto simp: reap_def upd_def live_def Let_def)

lemma zombie_child_Some:
  "zombie_child cur s = Some i \<Longrightarrow>
   i < NPROC \<and> p_parent (ptable s i) = Some cur \<and> p_state (ptable s i) = ZOMBIE"
  by (auto simp: zombie_child_def find_slot_Some)

lemma zombie_child_None:
  "zombie_child cur s = None \<Longrightarrow> j < NPROC \<Longrightarrow> p_parent (ptable s j) = Some cur \<Longrightarrow>
   p_state (ptable s j) \<noteq> ZOMBIE"
  by (auto simp: zombie_child_def find_slot_None)

lemma wait_sleep_inv:
  assumes "pt_inv s" and "cpu_proc s c = Some cur" and "zombie_child cur s = None"
  shows "pt_inv (sleep_on c cur (ProcChan cur) s)"
  using assms zombie_child_None [OF assms(3)] by (intro sleep_on_inv) auto

lemma zombie_reap_inv: "pt_inv s \<Longrightarrow> zombie_child cur s = Some i \<Longrightarrow> pt_inv (reap ops i s)"
  using reap_inv zombie_child_Some by blast

lemma wait_scan_inv:
  assumes "pt_inv s" and "cpu_proc s c = Some cur"
  shows "pt_inv (snd (wait_scan ops c cur s))"
  using assms by (auto simp: wait_scan_cases intro: zombie_reap_inv wait_sleep_inv split: option.splits)

lemma waitx_scan_inv:
  assumes "pt_inv s" and "cpu_proc s c = Some cur"
  shows "pt_inv (snd (waitx_scan ops c cur s))"
  using assms by (auto simp: waitx_scan_cases intro: zombie_reap_inv wait_sleep_inv split: option.splits)

lemma scheduler_iter_inv:
  assumes inv: "pt_inv s" and idle: "cpu_proc s c = None" and e: "scheduler_iter c s = Ok () t"
  shows "pt_inv t"
proof (cases "cpu_pos s c < NPROC \<and> p_state (ptable s (cpu_pos s c)) = RUNNABLE")
  case False
  then have "\<exists>f. t = s\<lparr>cpu_pos := f\<rparr>" using e by (auto simp: scheduler_iter_def Let_def split: if_splits)
  then show ?thesis by (auto intro: pt_inv_frame [OF inv])
next
  case True
  define i where "i = cpu_pos s c"
  have i: "i < NPROC" "p_state (ptable s i) = RUNNABLE" using True by (simp_all add: i_def)
  have t: "ptable t j = (if j = i then (ptable s i)\<lparr>p_rtime := p_rtime (ptable s i), p_state := RUNNING,
      p_num_run := p_num_run (ptable s i) + 1\<rparr> else ptable s j)"
    "cpu_proc t = (cpu_proc s)(c := Some i)" "initproc t = initproc s" "nextpid t = nextpid s" for j
    using e True by (auto simp: scheduler_iter_def Let_def upd_def switchuvm_time_def i_def split: option.splits)
  note cpus = cpus_okD [OF pt_invD(2) [OF inv]]
  have st: "p_state (ptable t j) = p_state (ptable s j) \<or> j = i \<and> p_state (ptable t j) = RUNNING"
    "live (p_state (ptable t j)) = live (p_state (ptable s j))"
    "p_parent (ptable t j) = p_parent (ptable s j)" for j
    using i by (auto simp: t live_def)
  show ?thesis
  proof (rule pt_invI)
    show "pids_ok t"
      by (rule pids_ok_cong [OF pt_invD(1) [OF inv]]) (use i in \<open>auto simp: t split: if_splits\<close>)
    show "cpus_ok t"
    proof (rule cpus_okI)
      have ni: "cpu_proc s d \<noteq> Some i" for d using cpus(2) [of d i] i(2) by auto
      fix d j assume d: "cpu_proc t d = Some j"
      then show "j < NPROC \<and> p_state (ptable t j) = RUNNING"
        using cpus(1,2) [of d j] i by (auto simp: t split: if_splits)
      show "d' = d" if "cpu_proc t d' = Some j" for d'
        using cpus(3) [of d' j d] ni d that by (auto simp: t split: if_splits)
    next
      fix j assume j: "j < NPROC" "p_state (ptable t j) = RUNNING"
      show "\<exists>d. cpu_proc t d = Some j"
      proof (cases "j = i")
        case True then show ?thesis by (auto simp: t)
      next
        case False
        with j cpus(4) [of j] obtain d where "cpu_proc s d = Some j" by (auto simp: t)
        with idle have "cpu_proc t d = Some j" by (auto simp: t)
        then show ?thesis ..
      qed
    qed
    show "tree_ok t"
    proof (rule tree_okI)
      show "init_ok t"
        using pt_invD(6) [OF inv] st(2,3) by (simp add: init_ok_def t(3) split: option.splits)
    next
      fix j q assume "j < NPROC" "p_parent (ptable t j) = Some q"
      then show "q < NPROC \<and> q \<noteq> j \<and> live (p_state (ptable t q))"
        using tree_okD(1) [OF pt_invD(3) [OF inv], of j q] by (simp add: st(2,3))
    next
      fix j assume "j < NPROC" "p_state (ptable t j) = UNUSED"
      then show "p_parent (ptable t j) = None"
        using tree_okD(2) [OF pt_invD(3) [OF inv]] by (auto simp: t split: if_splits)
    next
      fix j assume "j < NPROC" "p_state (ptable t j) \<noteq> UNUSED" "p_state (ptable t j) \<noteq> EMBRYO" "initproc t \<noteq> Some j"
      then show "p_parent (ptable t j) \<noteq> None"
        using tree_okD(3) [OF pt_invD(3) [OF inv]] i by (cases "j = i") (auto simp: t)
    qed
    show "mem_ok t"
      by (rule mem_ok_cong [OF pt_invD(4) [OF inv]]) (use i in \<open>auto simp: t split: if_splits\<close>)
    show "wake_ok t"
    proof (rule wake_okI)
      fix j q assume j: "j < NPROC" "p_state (ptable t j) = SLEEPING" "p_chan (ptable t j) = ProcChan q"
      have sj: "p_state (ptable s j) = SLEEPING" "p_chan (ptable s j) = ProcChan q"
        using j by (auto simp: t split: if_splits)
      have "p_state (ptable t k) \<noteq> ZOMBIE" if k: "k < NPROC" "p_parent (ptable t k) = Some j" for k
        using wake_okD(2) [OF pt_invD(5) [OF inv] j(1) sj k(1)] k(2) st [of k] by auto
      then show "q = j \<and> (\<forall>k<NPROC. p_parent (ptable t k) = Some j \<longrightarrow> p_state (ptable t k) \<noteq> ZOMBIE)"
        using wake_okD(1) [OF pt_invD(5) [OF inv] j(1) sj] by blast
    qed
  qed
qed

text \<open>exit: once the wakeups are done, the children are adopted and the process is a zombie.\<close>

lemma adopt_fields:
  "p_state (ptable (adopt cur A s) j) = p_state (ptable s j)"
  "p_pid (ptable (adopt cur A s) j) = p_pid (ptable s j)"
  "p_kstack (ptable (adopt cur A s) j) = p_kstack (ptable s j)"
  "p_pgdir (ptable (adopt cur A s) j) = p_pgdir (ptable s j)"
  "p_chan (ptable (adopt cur A s) j) = p_chan (ptable s j)"
  "p_parent (ptable (adopt cur A s) j) =
     (if j \<in> A \<and> p_parent (ptable s j) = Some cur then initproc s else p_parent (ptable s j))"
  "cpu_proc (adopt cur A s) = cpu_proc s" "initproc (adopt cur A s) = initproc s"
  "nextpid (adopt cur A s) = nextpid s" "ticks (adopt cur A s) = ticks s"
  by (simp_all add: adopt_def)

lemma exit_core_inv:
  assumes inv: "pt_inv s" and cpu: "cpu_proc s c = Some cur" and init: "initproc s \<noteq> Some cur"
    and f: "\<And>p. p_pid (f p) = p_pid p \<and> p_parent (f p) = p_parent p \<and>
      p_kstack (f p) = p_kstack p \<and> p_pgdir (f p) = p_pgdir p \<and> p_state (f p) = ZOMBIE"
    and w1: "\<And>q r. p_parent (ptable s cur) = Some q \<Longrightarrow> p_state (ptable s q) = SLEEPING \<Longrightarrow> p_chan (ptable s q) \<noteq> ProcChan r"
    and w2: "\<And>j q r. j < NPROC \<Longrightarrow> p_parent (ptable s j) = Some cur \<Longrightarrow> p_state (ptable s j) = ZOMBIE \<Longrightarrow>
      initproc s = Some q \<Longrightarrow> p_state (ptable s q) = SLEEPING \<Longrightarrow> p_chan (ptable s q) \<noteq> ProcChan r"
  shows "pt_inv (swtch_off c cur (upd cur f (adopt cur {..<NPROC} s)))"
    (is "pt_inv ?t")
proof -
  note i = running_on_cpu [OF inv cpu]
  have cur_par: "p_parent (ptable s cur) \<noteq> Some cur"
    using tree_okD(1) [OF pt_invD(3) [OF inv] i(1)] by blast
  obtain ip where ip: "initproc s = Some ip" "ip < NPROC" "live (p_state (ptable s ip))"
    "p_parent (ptable s ip) = None" "ip \<noteq> cur"
    using pt_invD(6) [OF inv] init by (auto simp: init_ok_def split: option.splits)
  have st: "p_state (ptable ?t j) = (if j = cur then ZOMBIE else p_state (ptable s j))"
    "p_chan (ptable ?t j) = p_chan (ptable s j) \<or> j = cur"
    "p_pid (ptable ?t j) = p_pid (ptable s j)" "p_kstack (ptable ?t j) = p_kstack (ptable s j)"
    "p_pgdir (ptable ?t j) = p_pgdir (ptable s j)"
    "cpu_proc ?t = (cpu_proc s)(c := None)" "initproc ?t = initproc s" "nextpid ?t = nextpid s" for j
    using f by (auto simp: swtch_off_def upd_def adopt_fields)
  have par: "p_parent (ptable ?t j) = (if p_parent (ptable s j) = Some cur then Some ip else p_parent (ptable s j))"
    if "j < NPROC" for j
    using f that i ip cur_par by (auto simp: swtch_off_def upd_def adopt_fields)
  show ?thesis
  proof (rule pt_invI)
    show "pids_ok ?t"
      by (rule pids_ok_cong [OF pt_invD(1) [OF inv]]) (use i in \<open>auto simp: st split: if_splits\<close>)
    note cpus = cpus_okD [OF pt_invD(2) [OF inv]]
    show "cpus_ok ?t"
    proof (rule cpus_okI)
      fix d j assume d: "cpu_proc ?t d = Some j"
      then have s: "cpu_proc s d = Some j" "d \<noteq> c" by (auto simp: st split: if_splits)
      then have "j \<noteq> cur" using cpus(3) cpu by blast
      then show "j < NPROC \<and> p_state (ptable ?t j) = RUNNING" using cpus(1,2) [OF s(1)] by (simp add: st)
      show "d' = d" if "cpu_proc ?t d' = Some j" for d'
        using cpus(3) [of d' j d] s(1) that by (auto simp: st split: if_splits)
    next
      fix j assume j: "j < NPROC" "p_state (ptable ?t j) = RUNNING"
      then have "j \<noteq> cur" by (auto simp: st)
      with j cpus(4) [of j] obtain d where "cpu_proc s d = Some j" by (auto simp: st)
      with \<open>j \<noteq> cur\<close> cpu have "cpu_proc ?t d = Some j" by (auto simp: st)
      then show "\<exists>d. cpu_proc ?t d = Some j" ..
    qed
    show "tree_ok ?t"
    proof (rule tree_okI)
      show "init_ok ?t" using ip by (simp add: init_ok_def st par)
    next
      fix j q assume j: "j < NPROC" "p_parent (ptable ?t j) = Some q"
      show "q < NPROC \<and> q \<noteq> j \<and> live (p_state (ptable ?t q))"
        using tree_okD(1) [OF pt_invD(3) [OF inv] j(1)] j(2) ip by (auto simp: st par [OF j(1)] split: if_splits)
    next
      fix j assume "j < NPROC" "p_state (ptable ?t j) = UNUSED"
      then show "p_parent (ptable ?t j) = None"
        using tree_okD(2) [OF pt_invD(3) [OF inv]] by (auto simp: st par split: if_splits)
    next
      fix j assume "j < NPROC" "p_state (ptable ?t j) \<noteq> UNUSED" "p_state (ptable ?t j) \<noteq> EMBRYO" "initproc ?t \<noteq> Some j"
      then show "p_parent (ptable ?t j) \<noteq> None"
        using tree_okD(3) [OF pt_invD(3) [OF inv], of j] i init by (cases "j = cur") (auto simp: st par)
    qed
    show "mem_ok ?t"
      by (rule mem_ok_cong [OF pt_invD(4) [OF inv]]) (use i in \<open>auto simp: st split: if_splits\<close>)
    show "wake_ok ?t"
    proof (rule wake_okI)
      fix j q assume j: "j < NPROC" "p_state (ptable ?t j) = SLEEPING" "p_chan (ptable ?t j) = ProcChan q"
      then have "j \<noteq> cur" by (auto simp: st)
      then have sj: "p_state (ptable s j) = SLEEPING" "p_chan (ptable s j) = ProcChan q"
        using j st(2) [of j] by (auto simp: st(1))
      have "p_state (ptable ?t k) \<noteq> ZOMBIE" if k: "k < NPROC" "p_parent (ptable ?t k) = Some j" for k
      proof (cases "k = cur")
        case True
        then have "p_parent (ptable s cur) = Some j" using par [OF k(1)] k(2) cur_par by simp
        then show ?thesis using w1 [of j q] sj by blast
      next
        case False
        show ?thesis
        proof (cases "p_parent (ptable s k) = Some cur")
          case True
          then have "j = ip" using par [OF k(1)] k(2) by simp
          then show ?thesis using w2 [OF k(1) True _ ip(1)] sj False by (auto simp: st)
        next
          case nc: False
          then have "p_parent (ptable s k) = Some j" using par [OF k(1)] k(2) by simp
          then show ?thesis
            using wake_okD(2) [OF pt_invD(5) [OF inv] j(1) sj k(1)] False by (simp add: st)
        qed
      qed
      then show "q = j \<and> (\<forall>k<NPROC. p_parent (ptable ?t k) = Some j \<longrightarrow> p_state (ptable ?t k) \<noteq> ZOMBIE)"
        using wake_okD(1) [OF pt_invD(5) [OF inv] j(1) sj] by blast
    qed
  qed
qed

definition exit_mark :: "uint \<Rightarrow> proc \<Rightarrow> proc" where
  "exit_mark now p = p\<lparr>p_etime := now, p_wait_time := now - p_ctime p - p_rtime p, p_state := ZOMBIE\<rparr>"

definition exit_wake :: "nat \<Rightarrow> 'x pstate \<Rightarrow> 'x pstate" where
  "exit_wake cur s =
     (let s1 = wakeup1 (parent_chan (p_parent (ptable s cur))) s
      in if \<exists>j<NPROC. p_parent (ptable s j) = Some cur \<and> p_state (ptable s j) = ZOMBIE
         then wakeup1 (parent_chan (initproc s)) s1 else s1)"

lemma exit_zombie_closed:
  assumes "initproc s \<noteq> Some cur"
  shows "exit_zombie c cur s =
    swtch_off c cur (upd cur (exit_mark (ticks s)) (adopt cur {..<NPROC} (exit_wake cur s)))"
proof -
  let ?s1 = "wakeup1 (parent_chan (p_parent (ptable s cur))) s"
  let ?z = "\<lambda>j. p_parent (ptable s j) = Some cur \<and> p_state (ptable s j) = ZOMBIE"
  have ex: "(\<exists>j\<in>{..<NPROC}. ?z j) = (\<exists>j<NPROC. ?z j)" by auto
  have r: "reparent cur [0..<NPROC] ?s1 = adopt cur {..<NPROC} (exit_wake cur s)"
    using reparent_closed [of ?s1 cur "[0..<NPROC]"] assms ex
    by (cases "\<exists>j<NPROC. ?z j")
       (simp_all only: exit_wake_def Let_def wakeup1_adopt wakeup1_fields set_upt atLeast0LessThan
          if_True if_False not_False_eq_True simp_thms)
  have tk: "ticks (adopt cur A (exit_wake cur s)) = ticks s" for A
    by (simp add: adopt_fields exit_wake_def Let_def wakeup1_def)
  show ?thesis
    by (simp add: exit_zombie_def Let_def r) (simp add: upd_def exit_mark_def tk)
qed

lemma exit_wake_inv: "pt_inv s \<Longrightarrow> pt_inv (exit_wake cur s)"
  by (simp add: exit_wake_def Let_def wakeup1_inv)

lemma exit_wake_fields [simp]:
  "p_parent (ptable (exit_wake cur s) i) = p_parent (ptable s i)"
  "p_state (ptable (exit_wake cur s) i) = ZOMBIE \<longleftrightarrow> p_state (ptable s i) = ZOMBIE"
  "initproc (exit_wake cur s) = initproc s" "cpu_proc (exit_wake cur s) = cpu_proc s"
  by (simp_all add: exit_wake_def Let_def) (simp add: wakeup1_def)

lemma wakeup1_no_sleeper:
  "i < NPROC \<Longrightarrow> p_state (ptable (wakeup1 ch s) i) = SLEEPING \<Longrightarrow> p_chan (ptable (wakeup1 ch s) i) \<noteq> ch"
  by (auto simp: wakeup1_def Let_def split: if_splits)

lemma wakeup1_keeps_no_sleeper:
  assumes "p_state (ptable s i) = SLEEPING \<Longrightarrow> p_chan (ptable s i) \<noteq> ch'"
    and "p_state (ptable (wakeup1 ch s) i) = SLEEPING"
  shows "p_chan (ptable (wakeup1 ch s) i) \<noteq> ch'"
  using assms by (auto simp: wakeup1_def Let_def split: if_splits)

lemma exit_wake_parent:
  assumes "p_parent (ptable s cur) = Some q" and "q < NPROC"
    and "p_state (ptable (exit_wake cur s) q) = SLEEPING"
  shows "p_chan (ptable (exit_wake cur s) q) \<noteq> ProcChan q"
proof -
  let ?s1 = "wakeup1 (ProcChan q) s"
  have e: "exit_wake cur s = ?s1 \<or> exit_wake cur s = wakeup1 (parent_chan (initproc s)) ?s1"
    using assms(1) by (simp add: exit_wake_def parent_chan_def Let_def)
  have "p_state (ptable ?s1 q) = SLEEPING \<Longrightarrow> p_chan (ptable ?s1 q) \<noteq> ProcChan q"
    by (rule wakeup1_no_sleeper [OF assms(2)])
  with e assms(3) show ?thesis
    using wakeup1_keeps_no_sleeper [of ?s1 q "ProcChan q" "parent_chan (initproc s)"] by presburger
qed

lemma exit_wake_init:
  assumes "initproc s = Some q" and "q < NPROC"
    and "j < NPROC" "p_parent (ptable s j) = Some cur" "p_state (ptable s j) = ZOMBIE"
    and "p_state (ptable (exit_wake cur s) q) = SLEEPING"
  shows "p_chan (ptable (exit_wake cur s) q) \<noteq> ProcChan q"
proof -
  let ?s1 = "wakeup1 (parent_chan (p_parent (ptable s cur))) s"
  have "\<exists>j<NPROC. p_parent (ptable s j) = Some cur \<and> p_state (ptable s j) = ZOMBIE"
    using assms(3-5) by blast
  then have "exit_wake cur s = wakeup1 (ProcChan q) ?s1"
    using assms(1) by (simp add: exit_wake_def parent_chan_def Let_def)
  with assms(2,6) show ?thesis using wakeup1_no_sleeper [of q "ProcChan q" ?s1] by simp
qed

lemma exit_zombie_inv:
  assumes inv: "pt_inv s" and cpu: "cpu_proc s c = Some cur" and init: "initproc s \<noteq> Some cur"
  shows "pt_inv (exit_zombie c cur s)"
proof -
  let ?w = "exit_wake cur s"
  have w: "pt_inv ?w" using inv by (rule exit_wake_inv)
  note wk = wake_okD(1) [OF pt_invD(5) [OF w]]
  show ?thesis
    unfolding exit_zombie_closed [OF init]
  proof (rule exit_core_inv [OF w])
    fix q r assume q: "p_parent (ptable ?w cur) = Some q" "p_state (ptable ?w q) = SLEEPING"
    have "q < NPROC"
      using parent_live [OF inv running_on_cpu(1) [OF inv cpu]] q(1) by simp
    then show "p_chan (ptable ?w q) \<noteq> ProcChan r"
      using exit_wake_parent [of s cur q] q wk [of q r] by auto
  next
    fix j q r
    assume q: "j < NPROC" "p_parent (ptable ?w j) = Some cur" "p_state (ptable ?w j) = ZOMBIE"
      "initproc ?w = Some q" "p_state (ptable ?w q) = SLEEPING"
    have "q < NPROC" using pt_invD(6) [OF inv] q(4) by (simp add: init_ok_def)
    then show "p_chan (ptable ?w q) \<noteq> ProcChan r"
      using exit_wake_init [of s q j cur] q wk [of q r] by auto
  qed (use cpu init in \<open>auto simp: exit_mark_def\<close>)
qed

theorem pstep_inv:
  assumes "pstep ops s t" and "pt_inv s"
  shows "pt_inv t"
  using assms
proof (induction rule: pstep.induct)
  case (st_fork_copy s c cur i pgdir x)
  then show ?case by (intro fork_copy_inv [of s c cur i])
qed (auto intro: scheduler_iter_inv yield_inv sleep_on_inv sleep_woken_inv wakeup1_inv kill_inv
  wait_scan_inv waitx_scan_inv exit_files_inv exit_zombie_inv timer_tick_inv allocproc_slot_inv
  allocproc_init_inv allocproc_fail_inv fork_nomem_inv fork_publish_inv)

end
