(* ===== verification/ProcTimes.thy ===== *)
theory ProcTimes
  imports ProcSteps
begin

text \<open>
  The runs of the process system from boot, and the times of a process: creation, run, queue,
  waiting and end times as allocproc, increment_times, exit and waitx keep them.
\<close>

section \<open>Boot and runs\<close>

text \<open>The process table as the loader leaves it (zeroes), and \<open>nextpid = 1\<close>.\<close>

definition booted :: "'x pstate \<Rightarrow> bool" where
  "booted s \<longleftrightarrow> nextpid s = 1 \<and> initproc s = None \<and> (\<forall>c. cpu_proc s c = None) \<and>
     (\<forall>i<NPROC. p_state (ptable s i) = UNUSED \<and> p_pid (ptable s i) = 0 \<and>
        p_parent (ptable s i) = None \<and> p_kstack (ptable s i) = 0)"

text \<open>Runs; with \<open>young\<close> those in which the 32-bit tick counter has not wrapped.\<close>

inductive pt_run :: "'x kops \<Rightarrow> bool \<Rightarrow> 'x pstate \<Rightarrow> bool" for ops young where
  run_boot: "booted s \<Longrightarrow> userinit ops s = Ok () t \<Longrightarrow> pt_run ops young t"
| run_step: "pt_run ops young s \<Longrightarrow> pstep ops s t \<Longrightarrow> (young \<Longrightarrow> ticks s \<le> ticks t) \<Longrightarrow>
     pt_run ops young t"

lemma find_slot_booted: "booted s \<Longrightarrow> find_slot (\<lambda>p. p_state p = UNUSED) s = Some 0"
  by (simp add: find_slot_Some booted_def NPROC_def)

lemma userinit_cases:
  assumes "booted s" and "userinit ops s = Ok () t"
  obtains stk :: uint and pg :: uint and wd :: "nat option" and x where "stk \<noteq> 0" "pg \<noteq> 0"
    "t = upd 0 (\<lambda>p. p\<lparr>p_pid := 1, p_kstack := stk, p_context := AtForkret,
        p_ctime := ticks s, p_rtime := 0, p_etime := -1, p_num_run := 0, p_time_in_queues := 0,
        p_wait_time := 0, p_pgdir := pg, p_sz := 4096,
        p_tf := \<lparr>tf_eax = 0, tf_eip = 0, tf_esp = 4096\<rparr>, p_name := ''initcode'', p_cwd := wd,
        p_state := RUNNABLE\<rparr>) (s\<lparr>nextpid := 2, initproc := Some 0, kx := x\<rparr>)"
proof -
  obtain stk x1 where k: "k_kalloc ops (kx s) = (stk, x1)" by (cases "k_kalloc ops (kx s)")
  obtain pg x2 where v: "k_setupkvm ops x1 = (pg, x2)" by (cases "k_setupkvm ops x1")
  obtain wd x3 where n: "k_namei_root ops (k_inituvm ops pg x2) = (wd, x3)"
    by (cases "k_namei_root ops (k_inituvm ops pg x2)")
  have nz: "stk \<noteq> 0" "pg \<noteq> 0"
    using assms(2) by (auto simp: userinit_def allocproc_def allocproc_slot_def Let_def k v
      find_slot_booted [OF assms(1)] upd_def allocproc_init_def split: if_splits)
  have b: "nextpid s = 1" using assms(1) by (simp add: booted_def)
  show ?thesis
    by (rule that [of stk pg wd x3, OF nz]) (use assms(2) nz in \<open>auto simp: userinit_def allocproc_def
      allocproc_slot_def Let_def k v n b find_slot_booted [OF assms(1)] upd_def allocproc_init_def
      safestrcpy_def\<close>)
qed

lemma userinit_inv:
  assumes b: "booted s" and u: "userinit ops s = Ok () t"
  shows "pt_inv t"
proof -
  obtain stk pg wd x where nz: "stk \<noteq> 0" "pg \<noteq> 0" and
    t: "t = upd 0 (\<lambda>p. p\<lparr>p_pid := 1, p_kstack := stk, p_context := AtForkret,
        p_ctime := ticks s, p_rtime := 0, p_etime := -1, p_num_run := 0, p_time_in_queues := 0,
        p_wait_time := 0, p_pgdir := pg, p_sz := 4096,
        p_tf := \<lparr>tf_eax = 0, tf_eip = 0, tf_esp = 4096\<rparr>, p_name := ''initcode'', p_cwd := wd,
        p_state := RUNNABLE\<rparr>) (s\<lparr>nextpid := 2, initproc := Some 0, kx := x\<rparr>)"
    by (rule userinit_cases [OF b u])
  have f: "p_state (ptable t i) = (if i = 0 then RUNNABLE else UNUSED)"
    "p_pid (ptable t i) = (if i = 0 then 1 else 0)" "p_parent (ptable t i) = None"
    "p_kstack (ptable t i) = (if i = 0 then stk else 0)" if "i < NPROC" for i
    using b that by (auto simp: t upd_def booted_def)
  have g: "nextpid t = 2" "initproc t = Some 0" "cpu_proc t c = None" "p_pgdir (ptable t 0) = pg" for c
    using b by (auto simp: t upd_def booted_def)
  have 0: "0 < NPROC" by (simp add: NPROC_def)
  show ?thesis
  proof (rule pt_invI)
    show "pids_ok t" by (simp add: pids_ok_def f g)
    show "cpus_ok t" by (rule cpus_okI) (auto simp: f g split: if_splits)
    show "tree_ok t" by (rule tree_okI) (auto simp: init_ok_def live_def f g 0 split: if_splits)
    show "mem_ok t" using nz by (auto simp: mem_ok_def f g split: if_splits)
    show "wake_ok t" by (rule wake_okI) (auto simp: f split: if_splits)
  qed
qed

theorem run_inv: "pt_run ops young s \<Longrightarrow> pt_inv s"
  by (induction rule: pt_run.induct) (auto intro: userinit_inv pstep_inv)

section \<open>Time accounting\<close>

text \<open>
  The claim on one slot at time \<open>now\<close>: a created process has not run and queued longer than it
  exists, and a zombie's waiting time is what its life leaves when the run time is taken away.
\<close>

definition time_p :: "uint \<Rightarrow> proc \<Rightarrow> bool" where
  "time_p now p \<longleftrightarrow>
     (p_state p = UNUSED \<longrightarrow> p_kstack p = 0) \<and>
     (p_kstack p \<noteq> 0 \<and> p_state p \<noteq> ZOMBIE \<longrightarrow>
        unat (p_ctime p) + unat (p_rtime p) + unat (p_time_in_queues p) \<le> unat now \<and> p_etime p = -1) \<and>
     (p_kstack p \<noteq> 0 \<and> p_state p = EMBRYO \<longrightarrow> p_rtime p = 0 \<and> p_time_in_queues p = 0) \<and>
     (p_state p = ZOMBIE \<longrightarrow>
        unat (p_ctime p) + unat (p_rtime p) + unat (p_time_in_queues p) \<le> unat (p_etime p) \<and>
        p_etime p \<le> now \<and>
        unat (p_wait_time p) = unat (p_etime p) - unat (p_ctime p) - unat (p_rtime p))"

definition time_ok :: "'x pstate \<Rightarrow> bool" where
  "time_ok s \<longleftrightarrow> (\<forall>i<NPROC. time_p (ticks s) (ptable s i))"

lemma time_okD: "time_ok s \<Longrightarrow> i < NPROC \<Longrightarrow> time_p (ticks s) (ptable s i)"
  by (simp add: time_ok_def)

lemma time_okI:
  assumes "time_ok s"
    and "\<And>i. i < NPROC \<Longrightarrow> time_p (ticks s) (ptable s i) \<Longrightarrow> time_p (ticks t) (ptable t i)"
  shows "time_ok t"
  using assms by (simp add: time_ok_def)

lemma time_p_cong:
  assumes "time_p now p" and "p_kstack q = p_kstack p" "p_ctime q = p_ctime p" "p_rtime q = p_rtime p"
    "p_etime q = p_etime p" "p_time_in_queues q = p_time_in_queues p" "p_wait_time q = p_wait_time p"
    and "p_state q = p_state p \<or> p_state p \<notin> {UNUSED, ZOMBIE} \<and> p_state q \<notin> {UNUSED, EMBRYO, ZOMBIE}"
  shows "time_p now q"
  using assms by (auto simp: time_p_def)

text \<open>A step that changes no time and moves no process into or out of the free and dead states.\<close>

lemma time_ok_frame:
  assumes "time_ok s" and "ticks t = ticks s"
    and "\<And>i. i < NPROC \<Longrightarrow> p_kstack (ptable t i) = p_kstack (ptable s i) \<and>
      p_ctime (ptable t i) = p_ctime (ptable s i) \<and> p_rtime (ptable t i) = p_rtime (ptable s i) \<and>
      p_etime (ptable t i) = p_etime (ptable s i) \<and> p_wait_time (ptable t i) = p_wait_time (ptable s i) \<and>
      p_time_in_queues (ptable t i) = p_time_in_queues (ptable s i)"
    and "\<And>i. i < NPROC \<Longrightarrow> p_state (ptable t i) = p_state (ptable s i) \<or>
      p_state (ptable s i) \<notin> {UNUSED, ZOMBIE} \<and> p_state (ptable t i) \<notin> {UNUSED, EMBRYO, ZOMBIE}"
  shows "time_ok t"
  using assms(1)
proof (rule time_okI)
  fix i assume i: "i < NPROC" "time_p (ticks s) (ptable s i)"
  show "time_p (ticks t) (ptable t i)"
    unfolding assms(2) using assms(3,4) [OF i(1)] by (intro time_p_cong [OF i(2)]) auto
qed

lemma wakeup1_time: "time_ok s \<Longrightarrow> time_ok (wakeup1 ch s)"
  by (erule time_ok_frame) (auto simp: wakeup1_def Let_def)

lemma increment_time_p:
  assumes "time_p now p" and "now \<le> now + 1"
  shows "time_p (now + 1) (increment_time p)"
proof -
  have inc: "unat (x + 1) \<le> unat x + 1" for x :: uint
    by (cases "1 + x = 0") (simp_all add: add.commute [of x 1] unatSuc)
  have "1 + now \<noteq> 0"
  proof
    assume z: "1 + now = 0"
    with assms(2) have "now = 0" by (simp add: add.commute)
    with z show False by simp
  qed
  then have n: "unat (now + 1) = unat now + 1" by (simp add: add.commute [of now 1] unatSuc)
  have le: "e \<le> now \<Longrightarrow> e \<le> now + 1" for e
    by (erule order_trans) (rule assms(2))
  show ?thesis
    using assms(1) inc [of "p_rtime p"] inc [of "p_time_in_queues p"] le [of "p_etime p"]
    by (auto simp: time_p_def increment_time_def n)
qed

lemma timer_tick_time:
  assumes "time_ok s" and "ticks s \<le> ticks (timer_tick s)"
  shows "time_ok (timer_tick s)"
proof -
  have "ticks s \<le> ticks s + 1" using assms(2) by (simp add: timer_tick_def wakeup1_def increment_times_def)
  then have "time_ok (increment_times (s\<lparr>ticks := ticks s + 1\<rparr>))"
    using assms(1) by (auto simp: time_ok_def increment_times_def intro: increment_time_p)
  then show ?thesis unfolding timer_tick_def by (rule wakeup1_time)
qed

lemma scheduler_iter_time:
  assumes "time_ok s" and e: "scheduler_iter c s = Ok () t"
  shows "time_ok t"
proof (rule time_ok_frame [OF assms(1)])
  show "ticks t = ticks s"
    using e by (auto simp: scheduler_iter_def Let_def upd_def split: if_splits option.splits)
qed (use e in \<open>auto simp: scheduler_iter_def Let_def upd_def switchuvm_time_def
  split: if_splits option.splits\<close>)

lemma swtch_off_time:
  assumes "time_ok s" and "p_state (ptable s i) = RUNNING"
    and "\<And>p. p_kstack (f p) = p_kstack p \<and> p_ctime (f p) = p_ctime p \<and> p_rtime (f p) = p_rtime p \<and>
      p_etime (f p) = p_etime p \<and> p_wait_time (f p) = p_wait_time p \<and>
      p_time_in_queues (f p) = p_time_in_queues p \<and> p_state (f p) \<in> {SLEEPING, RUNNABLE}"
  shows "time_ok (swtch_off c i (upd i f s))"
proof (rule time_ok_frame [OF assms(1)])
  fix j
  show "p_state (ptable (swtch_off c i (upd i f s)) j) = p_state (ptable s j) \<or>
      p_state (ptable s j) \<notin> {UNUSED, ZOMBIE} \<and>
      p_state (ptable (swtch_off c i (upd i f s)) j) \<notin> {UNUSED, EMBRYO, ZOMBIE}"
    using assms(2) assms(3) [of "ptable s j"] by (auto simp: swtch_off_def upd_def)
qed (use assms(3) in \<open>auto simp: swtch_off_def upd_def\<close>)

lemma reap_time: "time_ok s \<Longrightarrow> time_ok (reap ops i s)"
  by (auto simp: time_ok_def reap_def upd_def time_p_def Let_def)

lemma yield_time: "time_ok s \<Longrightarrow> p_state (ptable s i) = RUNNING \<Longrightarrow> time_ok (yield c i s)"
  unfolding yield_def by (rule swtch_off_time) auto

lemma sleep_on_time: "time_ok s \<Longrightarrow> p_state (ptable s i) = RUNNING \<Longrightarrow> time_ok (sleep_on c i ch s)"
  unfolding sleep_on_def by (rule swtch_off_time) auto

lemma wait_scan_time:
  assumes "time_ok s" and "p_state (ptable s i) = RUNNING"
  shows "time_ok (snd (wait_scan ops c i s))" "time_ok (snd (waitx_scan ops c i s))"
  using assms by (auto simp: wait_scan_cases waitx_scan_cases intro: reap_time sleep_on_time split: option.splits)

lemma exit_zombie_time:
  assumes tm: "time_ok s" and inv: "pt_inv s" and cpu: "cpu_proc s c = Some cur" and init: "initproc s \<noteq> Some cur"
  shows "time_ok (exit_zombie c cur s)"
proof -
  let ?w = "exit_wake cur s"
  note i = running_on_cpu [OF inv cpu]
  have w: "time_ok ?w" using tm by (simp add: exit_wake_def Let_def wakeup1_time)
  have wi: "p_state (ptable ?w cur) = RUNNING"
    using i by (simp add: exit_wake_def wakeup1_def Let_def)
  have tk: "ticks ?w = ticks s" by (simp add: exit_wake_def Let_def wakeup1_def)
  have kst: "p_kstack (ptable ?w cur) \<noteq> 0"
    using pt_invD(4) [OF exit_wake_inv [OF inv]] i wi by (simp add: mem_ok_def)
  show ?thesis
    unfolding exit_zombie_closed [OF init]
  proof (rule time_okI [OF w])
    fix j assume j: "j < NPROC" "time_p (ticks ?w) (ptable ?w j)"
    show "time_p (ticks (swtch_off c cur (upd cur (exit_mark (ticks s)) (adopt cur {..<NPROC} ?w))))
      (ptable (swtch_off c cur (upd cur (exit_mark (ticks s)) (adopt cur {..<NPROC} ?w))) j)"
    proof (cases "j = cur")
      case False
      then show ?thesis using j(2) by (auto simp: swtch_off_def upd_def adopt_def time_p_def)
    next
      case True
      let ?p = "ptable ?w cur"
      have le: "unat (p_ctime ?p) + unat (p_rtime ?p) + unat (p_time_in_queues ?p) \<le> unat (ticks s)"
        using j(2) True kst wi by (simp add: time_p_def tk)
      have le1: "p_ctime ?p \<le> ticks s" using le by (simp add: word_le_nat_alt)
      have s1: "unat (ticks s - p_ctime ?p) = unat (ticks s) - unat (p_ctime ?p)"
        using le1 by (rule unat_sub)
      have "unat (ticks s - p_ctime ?p - p_rtime ?p) = unat (ticks s) - unat (p_ctime ?p) - unat (p_rtime ?p)"
        using le s1 by (subst unat_sub) (simp_all add: word_le_nat_alt)
      then show ?thesis using True le kst
        by (auto simp: swtch_off_def upd_def adopt_def time_p_def exit_mark_def tk)
    qed
  qed
qed

lemma allocproc_slot_time:
  assumes "time_ok s" and "allocproc_slot s = (Some i, t)"
  shows "time_ok t"
  using assms(1)
proof (rule time_okI)
  fix j assume "j < NPROC" "time_p (ticks s) (ptable s j)"
  then show "time_p (ticks t) (ptable t j)"
    using assms(2) by (auto simp: allocproc_slot_def find_slot_Some upd_def time_p_def split: option.splits)
qed

lemma alloc_steps_time:
  assumes "time_ok s" and "p_state (ptable s i) = EMBRYO"
  shows "time_ok (allocproc_init i stk (s\<lparr>kx := x\<rparr>))" "time_ok (fork_nomem ops i (s\<lparr>kx := x\<rparr>))"
    "time_ok (fork_copy ops cur i pgdir (s\<lparr>kx := x\<rparr>))" "time_ok (allocproc_fail i 0 (s\<lparr>kx := x\<rparr>))"
    "p_kstack (ptable s i) \<noteq> 0 \<Longrightarrow> time_ok (fork_publish i s)"
  using assms
  by (auto simp: time_ok_def allocproc_init_def allocproc_fail_def fork_nomem_def fork_copy_def
     fork_publish_def upd_def time_p_def Let_def)

lemma frame_steps_time:
  assumes "time_ok s"
  shows "time_ok (snd (kill pid s))" "time_ok (sleep_woken i s)" "time_ok (exit_files ops i s)"
proof -
  show "time_ok (snd (kill pid s))"
    by (rule time_ok_frame [OF assms]) (auto simp: kill_def upd_def split: option.splits)
  show "time_ok (sleep_woken i s)"
    by (rule time_ok_frame [OF assms]) (auto simp: sleep_woken_def upd_def)
  obtain f x where e: "exit_files ops i s = upd i (\<lambda>p. p\<lparr>p_ofile := f, p_cwd := None\<rparr>) (s\<lparr>kx := x\<rparr>)"
    using exit_files_frame [of ops i s] by blast
  show "time_ok (exit_files ops i s)"
    by (rule time_ok_frame [OF assms]) (auto simp: e upd_def)
qed

lemma pstep_time:
  assumes "pstep ops s t" and "pt_inv s" and "time_ok s" and "ticks s \<le> ticks t"
  shows "time_ok t"
  using assms
proof (induction rule: pstep.induct)
  case st_fork_copy then show ?case by (intro alloc_steps_time)
next
  case st_exit then show ?case by (intro exit_zombie_time)
next
  case (st_yield s c i) then show ?case by (intro yield_time running_on_cpu(2))
next
  case (st_sleep s c i ch) then show ?case by (intro sleep_on_time running_on_cpu(2))
next
  case (st_wait s c i) then show ?case by (intro wait_scan_time running_on_cpu(2))
next
  case (st_waitx s c i) then show ?case by (intro wait_scan_time running_on_cpu(2))
qed (auto intro: scheduler_iter_time wakeup1_time frame_steps_time timer_tick_time
  allocproc_slot_time alloc_steps_time)

lemma userinit_time:
  assumes b: "booted s" and u: "userinit ops s = Ok () t"
  shows "time_ok t"
  by (rule userinit_cases [OF b u]) (use b in \<open>auto simp: time_ok_def time_p_def upd_def booted_def\<close>)

theorem run_time_ok: "pt_run ops young s \<Longrightarrow> young \<Longrightarrow> time_ok s"
  by (induction rule: pt_run.induct) (auto intro: userinit_time pstep_time run_inv)

end
