(* ===== verification/ProcProps.thy ===== *)
theory ProcProps
  imports ProcTimes
begin

text \<open>
  What the process table promises: the properties of every run, the behaviour of fork, exit,
  wait, waitx and the scheduler, and a concrete run (boot, fork, wait, exit, waitx) on which the
  statements are evaluated.
\<close>

section \<open>Runs are closed under whole system calls\<close>

lemma run_same_ticks: "pt_run ops y s \<Longrightarrow> pstep ops s t \<Longrightarrow> ticks t = ticks s \<Longrightarrow> pt_run ops y t"
  by (erule run_step) simp_all

lemma allocproc_slot_SomeD:
  assumes "allocproc_slot s = (Some i, t)"
  shows "i < NPROC" "p_state (ptable s i) = UNUSED" "t = upd i (\<lambda>p. p\<lparr>p_state := EMBRYO, p_pid := nextpid s\<rparr>)
    (s\<lparr>nextpid := nextpid s + 1\<rparr>)"
  using assms by (auto simp: allocproc_slot_def find_slot_Some split: option.splits)

lemma allocproc_run:
  assumes r: "pt_run ops y s" and e: "allocproc ops s = (r, t)"
  shows "pt_run ops y t"
    and "r = Some i \<Longrightarrow> i < NPROC \<and> p_state (ptable t i) = EMBRYO \<and> p_parent (ptable t i) = None \<and>
      p_kstack (ptable t i) \<noteq> 0"
    and "r = Some i \<Longrightarrow> cpu_proc t = cpu_proc s \<and> p_pid (ptable t i) = nextpid s \<and>
      (\<forall>j. j \<noteq> i \<longrightarrow> ptable t j = ptable s j) \<and> p_state (ptable s i) = UNUSED"
proof -
  have "pt_run ops y t \<and> (r = Some i \<longrightarrow> i < NPROC \<and> p_state (ptable t i) = EMBRYO \<and>
      p_parent (ptable t i) = None \<and> p_kstack (ptable t i) \<noteq> 0 \<and> cpu_proc t = cpu_proc s \<and> p_pid (ptable t i) = nextpid s \<and>
      (\<forall>j. j \<noteq> i \<longrightarrow> ptable t j = ptable s j) \<and> p_state (ptable s i) = UNUSED)"
  proof (cases "allocproc_slot s")
    case (Pair q s1)
    show ?thesis
    proof (cases q)
      case None
      then have "s1 = s" using Pair by (simp add: allocproc_slot_def split: option.splits)
      then show ?thesis using e r Pair None by (simp add: allocproc_def)
    next
      case (Some k)
      note k = allocproc_slot_SomeD [OF Pair [unfolded Some]]
      have r1: "pt_run ops y s1"
        by (rule run_same_ticks [OF r st_alloc [OF Pair [unfolded Some]]]) (simp add: k(3) upd_def)
      obtain stk x where ka: "k_kalloc ops (kx s1) = (stk, x)" by (cases "k_kalloc ops (kx s1)")
      have par: "p_parent (ptable s k) = None"
        using tree_okD(2) [OF pt_invD(3) [OF run_inv [OF r]] k(1)] k(2) .
      have s1: "p_state (ptable s1 k) = EMBRYO" "p_parent (ptable s1 k) = None"
        using par by (simp_all add: k(3) upd_def)
      show ?thesis
      proof (cases "stk = 0")
        case True
        then have "r = None" "t = allocproc_fail k stk (s1\<lparr>kx := x\<rparr>)"
          using e by (simp_all add: allocproc_def Pair Some ka)
        moreover have "pt_run ops y (allocproc_fail k stk (s1\<lparr>kx := x\<rparr>))"
          by (rule run_same_ticks [OF r1 st_alloc_fail [OF k(1) s1 ka True]]) (simp add: allocproc_fail_def upd_def)
        ultimately show ?thesis by simp
      next
        case False
        then have "r = Some k" "t = allocproc_init k stk (s1\<lparr>kx := x\<rparr>)"
          using e by (simp_all add: allocproc_def Pair Some ka)
        moreover have "pt_run ops y (allocproc_init k stk (s1\<lparr>kx := x\<rparr>))"
          by (rule run_same_ticks [OF r1 st_alloc_init [OF k(1) s1 ka False]]) (simp add: allocproc_init_def upd_def)
        ultimately show ?thesis using k s1 False by (auto simp: allocproc_init_def upd_def)
      qed
    qed
  qed
  then show "pt_run ops y t" "r = Some i \<Longrightarrow> i < NPROC \<and> p_state (ptable t i) = EMBRYO \<and> p_parent (ptable t i) = None \<and>
      p_kstack (ptable t i) \<noteq> 0" "r = Some i \<Longrightarrow> cpu_proc t = cpu_proc s \<and> p_pid (ptable t i) = nextpid s \<and>
      (\<forall>j. j \<noteq> i \<longrightarrow> ptable t j = ptable s j) \<and> p_state (ptable s i) = UNUSED" by blast+
qed

lemma fork_run:
  assumes r: "pt_run ops y s" and cpu: "cpu_proc s c = Some cur"
  shows "pt_run ops y (snd (fork ops cur s))"
proof (cases "allocproc ops s")
  case (Pair q s1)
  note a = allocproc_run [OF r Pair]
  show ?thesis
  proof (cases q)
    case None then show ?thesis using a(1) Pair by (simp add: fork_def)
  next
    case (Some i)
    obtain pg x where ka: "k_copyuvm ops (p_pgdir (ptable s1 cur)) (p_sz (ptable s1 cur)) (kx s1) = (pg, x)"
      by (cases "k_copyuvm ops (p_pgdir (ptable s1 cur)) (p_sz (ptable s1 cur)) (kx s1)")
    note i = a(2) [OF Some] and s1 = a(3) [OF Some]
    show ?thesis
    proof (cases "pg = 0")
      case True
      have "pt_run ops y (fork_nomem ops i (s1\<lparr>kx := x\<rparr>))"
        by (rule run_same_ticks [OF a(1) st_fork_nomem]) (use i in \<open>simp_all add: fork_nomem_def upd_def\<close>)
      then show ?thesis by (simp add: fork_def Pair Some ka True)
    next
      case False
      let ?s2 = "fork_copy ops cur i pg (s1\<lparr>kx := x\<rparr>)"
      have r2: "pt_run ops y ?s2"
        by (rule run_same_ticks [OF a(1) st_fork_copy [of s1 c cur i pg ops x]])
           (use i s1 cpu False in \<open>simp_all add: fork_copy_def upd_def Let_def\<close>)
      have "pt_run ops y (fork_publish i ?s2)"
        by (rule run_same_ticks [OF r2 st_fork_publish])
           (use i False in \<open>simp_all add: fork_copy_def fork_publish_def upd_def Let_def\<close>)
      then show ?thesis by (simp add: fork_def Pair Some ka False Let_def)
    qed
  qed
qed

section \<open>The scheduler loop\<close>

text \<open>The loop of scheduler() on CPU \<open>c\<close> until it has dispatched a process, or for \<open>n\<close> iterations.\<close>

fun sched_scan :: "nat \<Rightarrow> nat \<Rightarrow> ('x pstate, unit) routine" where
  "sched_scan c 0 s = Ok () s"
| "sched_scan c (Suc n) s =
     (if cpu_proc s c \<noteq> None then Ok () s else kbind (scheduler_iter c) (\<lambda>_. sched_scan c n) s)"

definition dispatch :: "nat \<Rightarrow> nat \<Rightarrow> 'x pstate \<Rightarrow> 'x pstate" where
  "dispatch c i s = upd i (\<lambda>p. p\<lparr>p_state := RUNNING, p_num_run := p_num_run p + 1\<rparr>)
     (s\<lparr>cpu_proc := (cpu_proc s)(c := Some i), cpu_pos := (cpu_pos s)(c := Suc i)\<rparr>)"

lemma scheduler_iter_dispatch:
  assumes "cpu_pos s c = i" "i < NPROC" "p_state (ptable s i) = RUNNABLE" "mem_ok s"
  shows "scheduler_iter c s = Ok () (dispatch c i s)"
proof -
  have "switchuvm_check (ptable s i) = None" using assms by (simp add: mem_ok_def switchuvm_check_def)
  then show ?thesis using assms by (simp add: scheduler_iter_def dispatch_def switchuvm_time_def)
qed

lemma sched_scan_found:
  assumes "find (\<lambda>i. p_state (ptable s i) = RUNNABLE) [cpu_pos s c..<NPROC] = Some i"
    and "mem_ok s" "cpu_proc s c = None" "i - cpu_pos s c < n"
  shows "sched_scan c n s = Ok () (dispatch c i s)"
  using assms
proof (induction n arbitrary: s)
  case (Suc n)
  let ?p = "cpu_pos s c"
  have p: "?p < NPROC" using Suc.prems(1) by (cases "?p < NPROC") auto
  then have u: "[?p..<NPROC] = ?p # [Suc ?p..<NPROC]" by (rule upt_conv_Cons)
  show ?case
  proof (cases "p_state (ptable s ?p) = RUNNABLE")
    case True
    then have i: "i = ?p" using Suc.prems(1) by (simp add: u)
    have "cpu_proc (dispatch c i s) c \<noteq> None" by (simp add: dispatch_def upd_def)
    then have "sched_scan c n (dispatch c i s) = Ok () (dispatch c i s)" by (cases n) simp_all
    then show ?thesis
      using scheduler_iter_dispatch [of s c i] True i p Suc.prems(2,3) by (simp add: kbind_def)
  next
    case False
    let ?s = "s\<lparr>cpu_pos := (cpu_pos s)(c := Suc ?p)\<rparr>"
    have f: "find (\<lambda>i. p_state (ptable s i) = RUNNABLE) [Suc ?p..<NPROC] = Some i"
      using Suc.prems(1) False by (simp add: u)
    then have "i \<in> set [Suc ?p..<NPROC]"
      unfolding find_Some_iff by (metis nth_mem)
    then have le: "Suc ?p \<le> i" by simp
    have "sched_scan c n ?s = Ok () (dispatch c i ?s)"
      using Suc.prems f le by (intro Suc.IH) (auto simp: mem_ok_def)
    moreover have "dispatch c i ?s = dispatch c i s" by (simp add: dispatch_def upd_def)
    moreover have "scheduler_iter c s = Ok () ?s" using p False by (simp add: scheduler_iter_def Let_def)
    ultimately show ?thesis using Suc.prems(3) by (simp add: kbind_def)
  qed
qed simp

lemma sched_scan_end:
  assumes "find (\<lambda>i. p_state (ptable s i) = RUNNABLE) [cpu_pos s c..<NPROC] = None"
    and "cpu_proc s c = None"
  shows "sched_scan c (NPROC - cpu_pos s c + Suc n) s = sched_scan c n (s\<lparr>cpu_pos := (cpu_pos s)(c := 0)\<rparr>)"
  using assms
proof (induction "NPROC - cpu_pos s c" arbitrary: s)
  case 0
  then show ?case by (simp add: scheduler_iter_def Let_def kbind_def fun_upd_def)
next
  case (Suc k)
  let ?p = "cpu_pos s c" and ?s = "s\<lparr>cpu_pos := (cpu_pos s)(c := Suc (cpu_pos s c))\<rparr>"
  have p: "?p < NPROC" using Suc.hyps(2) by simp
  then have u: "[?p..<NPROC] = ?p # [Suc ?p..<NPROC]" by (rule upt_conv_Cons)
  have nr: "p_state (ptable s ?p) \<noteq> RUNNABLE" using Suc.prems(1) by (auto simp: u split: if_splits)
  have d: "NPROC - ?p = Suc (NPROC - Suc ?p)" using p by simp
  have "sched_scan c (NPROC - cpu_pos ?s c + Suc n) ?s = sched_scan c n (?s\<lparr>cpu_pos := (cpu_pos ?s)(c := 0)\<rparr>)"
    using Suc nr d by (intro Suc.hyps(1)) (auto simp: u)
  moreover have "scheduler_iter c s = Ok () ?s" using p nr by (simp add: scheduler_iter_def Let_def)
  ultimately show ?case using Suc.prems(2) by (simp add: d kbind_def)
qed

section \<open>A concrete run\<close>

definition ex_ops :: "unit kops" where
  "ex_ops = \<lparr>k_kalloc = (\<lambda>x. (4096, x)), k_kfree = (\<lambda>_ x. x), k_copyuvm = (\<lambda>_ _ x. (8192, x)),
     k_freevm = (\<lambda>_ x. x), k_allocuvm = (\<lambda>_ _ n x. (n, x)), k_deallocuvm = (\<lambda>_ _ n x. (n, x)),
     k_filedup = (\<lambda>_ x. x), k_fileclose = (\<lambda>_ x. x), k_idup = (\<lambda>_ x. x), k_iput = (\<lambda>_ x. x),
     k_begin_op = (\<lambda>x. x), k_end_op = (\<lambda>x. x), k_setupkvm = (\<lambda>x. (8192, x)),
     k_inituvm = (\<lambda>_ x. x), k_namei_root = (\<lambda>x. (Some 0, x))\<rparr>"

definition ex_free :: proc where
  "ex_free = \<lparr>p_sz = 0, p_pgdir = 0, p_kstack = 0, p_state = UNUSED, p_pid = 0, p_parent = None,
     p_tf = \<lparr>tf_eax = 0, tf_eip = 0, tf_esp = 0\<rparr>, p_context = AtForkret, p_chan = NullChan,
     p_killed = False, p_ofile = (\<lambda>_. None), p_cwd = None, p_name = [], p_ctime = 0, p_rtime = 0,
     p_etime = 0, p_num_run = 0, p_time_in_queues = 0, p_wait_time = 0\<rparr>"

definition ex_boot :: "unit pstate" where
  "ex_boot = \<lparr>ptable = (\<lambda>_. ex_free), nextpid = 1, initproc = None, ticks = 7,
     cpu_proc = (\<lambda>_. None), cpu_pos = (\<lambda>_. 0), kx = ()\<rparr>"

definition ex_init :: proc where
  "ex_init = ex_free\<lparr>p_pid := 1, p_kstack := 4096, p_context := AtForkret, p_ctime := 7, p_rtime := 0,
     p_etime := -1, p_num_run := 0, p_time_in_queues := 0, p_wait_time := 0, p_pgdir := 8192, p_sz := 4096,
     p_tf := \<lparr>tf_eax = 0, tf_eip = 0, tf_esp = 4096\<rparr>, p_name := ''initcode'', p_cwd := Some 0,
     p_state := RUNNABLE\<rparr>"

text \<open>A state whose slots 0 and 1 hold \<open>a\<close> and \<open>b\<close>, with init in slot 0 and one CPU in use.\<close>

definition ex_st :: "uint \<Rightarrow> proc \<Rightarrow> proc \<Rightarrow> int \<Rightarrow> nat option \<Rightarrow> nat \<Rightarrow> unit pstate" where
  "ex_st tk a b np cp pos = \<lparr>ptable = (\<lambda>_. ex_free)(0 := a, 1 := b), nextpid = np, initproc = Some 0,
     ticks = tk, cpu_proc = (\<lambda>_. None)(0 := cp), cpu_pos = (\<lambda>_. 0)(0 := pos), kx = ()\<rparr>"

lemma ex_st_fields [simp]:
  "ptable (ex_st tk a b np cp pos) = (\<lambda>_. ex_free)(0 := a, Suc 0 := b)"
  "nextpid (ex_st tk a b np cp pos) = np" "initproc (ex_st tk a b np cp pos) = Some 0"
  "ticks (ex_st tk a b np cp pos) = tk" "cpu_proc (ex_st tk a b np cp pos) = (\<lambda>_. None)(0 := cp)"
  "cpu_pos (ex_st tk a b np cp pos) = (\<lambda>_. 0)(0 := pos)" "kx (ex_st tk a b np cp pos) = ()"
  by (simp_all add: ex_st_def)

lemma ex_st_update [simp]:
  "(ex_st tk a b np cp pos)\<lparr>ptable := (\<lambda>_. ex_free)(0 := a', Suc 0 := b')\<rparr> = ex_st tk a' b' np cp pos"
  "(ex_st tk a b np cp pos)\<lparr>nextpid := np'\<rparr> = ex_st tk a b np' cp pos"
  "(ex_st tk a b np cp pos)\<lparr>ticks := tk'\<rparr> = ex_st tk' a b np cp pos"
  "(ex_st tk a b np cp pos)\<lparr>cpu_proc := (\<lambda>_. None)(0 := cp')\<rparr> = ex_st tk a b np cp' pos"
  "(ex_st tk a b np cp pos)\<lparr>cpu_proc := (\<lambda>_. None)\<rparr> = ex_st tk a b np None pos"
  "(ex_st tk a b np cp pos)\<lparr>cpu_pos := (\<lambda>_. 0)(0 := pos')\<rparr> = ex_st tk a b np cp pos'"
  "(ex_st tk a b np cp pos)\<lparr>kx := x\<rparr> = ex_st tk a b np cp pos"
  "upd 0 f (ex_st tk a b np cp pos) = ex_st tk (f a) b np cp pos"
  "upd (Suc 0) f (ex_st tk a b np cp pos) = ex_st tk a (f b) np cp pos"
  by (simp_all add: ex_st_def upd_def fun_eq_iff)

definition ex0 :: "unit pstate" where "ex0 = ex_st 7 ex_init ex_free 2 None 0"

lemma ex0_boot: "userinit ex_ops ex_boot = Ok () ex0"
proof -
  have "find_slot (\<lambda>p. p_state p = UNUSED) ex_boot = Some 0"
    by (simp add: find_slot_Some NPROC_def ex_boot_def ex_free_def)
  then show ?thesis
    by (simp add: userinit_def allocproc_def allocproc_slot_def ex_boot_def ex_ops_def upd_def
      allocproc_init_def safestrcpy_def ex0_def ex_init_def ex_st_def ex_free_def fun_eq_iff)
qed

lemma ex0_run: "pt_run ex_ops True ex0"
  by (rule run_boot [OF _ ex0_boot]) (simp add: booted_def ex_boot_def ex_free_def)

definition ex_run1 :: proc where "ex_run1 = ex_init\<lparr>p_state := RUNNING, p_num_run := 1\<rparr>"

definition ex_child :: proc where
  "ex_child = ex_free\<lparr>p_state := RUNNABLE, p_pid := 2, p_kstack := 4096, p_pgdir := 8192, p_sz := 4096,
     p_parent := Some 0, p_tf := \<lparr>tf_eax = 0, tf_eip = 0, tf_esp = 4096\<rparr>, p_name := ''initcode'',
     p_cwd := Some 0, p_ctime := 7, p_etime := -1\<rparr>"

definition ex1 :: "unit pstate" where "ex1 = ex_st 7 ex_run1 ex_free 2 (Some 0) 1"
definition ex2 :: "unit pstate" where "ex2 = ex_st 7 ex_run1 ex_child 3 (Some 0) 1"
definition ex3 :: "unit pstate" where
  "ex3 = ex_st 8 (ex_run1\<lparr>p_rtime := 1\<rparr>) (ex_child\<lparr>p_time_in_queues := 1\<rparr>) 3 (Some 0) 1"
definition ex4 :: "unit pstate" where
  "ex4 = ex_st 8 (ex_run1\<lparr>p_rtime := 1, p_chan := ProcChan 0, p_state := SLEEPING, p_context := AtSwtch\<rparr>)
     (ex_child\<lparr>p_time_in_queues := 1\<rparr>) 3 None 1"
definition ex5 :: "unit pstate" where
  "ex5 = ex_st 8 (ex_run1\<lparr>p_rtime := 1, p_chan := ProcChan 0, p_state := SLEEPING, p_context := AtSwtch\<rparr>)
     (ex_child\<lparr>p_time_in_queues := 1, p_state := RUNNING, p_num_run := 1\<rparr>) 3 (Some 1) 2"
definition ex6 :: "unit pstate" where
  "ex6 = ex_st 9 (ex_run1\<lparr>p_rtime := 1, p_chan := ProcChan 0, p_state := SLEEPING, p_context := AtSwtch\<rparr>)
     (ex_child\<lparr>p_time_in_queues := 1, p_state := RUNNING, p_num_run := 1, p_rtime := 1\<rparr>) 3 (Some 1) 2"
definition ex7 :: "unit pstate" where
  "ex7 = ex_st 9 (ex_run1\<lparr>p_rtime := 1, p_chan := ProcChan 0, p_state := RUNNABLE, p_context := AtSwtch\<rparr>)
     (ex_child\<lparr>p_time_in_queues := 1, p_state := ZOMBIE, p_num_run := 1, p_rtime := 1, p_etime := 9,
        p_wait_time := 1, p_context := AtSwtch\<rparr>) 3 None 2"

lemmas ex_procs = ex_free_def ex_init_def ex_run1_def ex_child_def

lemma ex_wakeup1:
  "wakeup1 ch (ex_st tk a b np cp pos) =
     ex_st tk (if p_state a = SLEEPING \<and> p_chan a = ch then a\<lparr>p_state := RUNNABLE\<rparr> else a)
       (if p_state b = SLEEPING \<and> p_chan b = ch then b\<lparr>p_state := RUNNABLE\<rparr> else b) np cp pos"
  by (simp add: wakeup1_def ex_st_def Let_def NPROC_def fun_eq_iff ex_free_def)

lemma ex_increment:
  "increment_times (ex_st tk a b np cp pos) = ex_st tk (increment_time a) (increment_time b) np cp pos"
  by (simp add: increment_times_def ex_st_def NPROC_def fun_eq_iff ex_free_def increment_time_def)

lemma adopt_none: "(\<And>j. p_parent (ptable s j) \<noteq> Some cur) \<Longrightarrow> adopt cur A s = s"
  unfolding adopt_def by (intro pstate.equality) auto

lemma ex_run: "pt_run ex_ops True ex1" "pt_run ex_ops True ex2" "pt_run ex_ops True ex3"
  "pt_run ex_ops True ex4" "pt_run ex_ops True ex5" "pt_run ex_ops True ex6" "pt_run ex_ops True ex7"
proof -
  have "scheduler_iter 0 ex0 = Ok () ex1"
    by (simp add: scheduler_iter_def ex0_def ex1_def NPROC_def ex_procs switchuvm_check_def switchuvm_time_def)
  then show r1: "pt_run ex_ops True ex1"
    by (intro run_same_ticks [OF ex0_run] st_scheduler [of _ 0]) (simp_all add: ex0_def ex1_def)
  have "find_slot (\<lambda>p. p_state p = UNUSED) ex1 = Some (Suc 0)"
    by (auto simp: find_slot_Some ex1_def NPROC_def ex_procs)
  then have "snd (fork ex_ops 0 ex1) = ex2"
    by (simp add: fork_def allocproc_def allocproc_slot_def ex1_def ex2_def ex_ops_def Let_def fork_copy_def
      fork_publish_def allocproc_init_def ex_procs safestrcpy_def)
  then show r2: "pt_run ex_ops True ex2" using fork_run [OF r1, of 0 0] by (simp add: ex1_def)
  have "timer_tick ex2 = ex3"
    by (simp add: timer_tick_def ex2_def ex_increment ex_wakeup1 increment_time_def ex_procs ex3_def)
  then show r3: "pt_run ex_ops True ex3" using run_step [OF r2 st_tick] by (simp add: ex2_def ex3_def)
  have "zombie_child 0 ex3 = None" by (auto simp: zombie_child_def find_slot_None ex3_def ex_procs)
  moreover have "\<exists>i<NPROC. p_parent (ptable ex3 i) = Some 0"
    by (rule exI [of _ 1]) (simp add: NPROC_def ex3_def ex_procs)
  ultimately have "snd (wait_scan ex_ops 0 0 ex3) = ex4"
    by (simp add: wait_scan_cases) (simp add: ex3_def ex4_def sleep_on_def swtch_off_def ex_procs)
  then show r4: "pt_run ex_ops True ex4"
    using run_same_ticks [OF r3 st_wait [of ex3 0 0]] by (simp add: ex3_def ex4_def)
  have "scheduler_iter 0 ex4 = Ok () ex5"
    by (simp add: scheduler_iter_def ex4_def ex5_def NPROC_def ex_procs switchuvm_check_def
      switchuvm_time_def) (simp only: numeral_2_eq_2)
  then show r5: "pt_run ex_ops True ex5"
    by (intro run_same_ticks [OF r4] st_scheduler [of _ 0]) (simp_all add: ex4_def ex5_def)
  have "timer_tick ex5 = ex6"
    by (simp add: timer_tick_def ex5_def ex_increment ex_wakeup1 increment_time_def ex_procs ex6_def)
  then show r6: "pt_run ex_ops True ex6" using run_step [OF r5 st_tick] by (simp add: ex5_def ex6_def)
  have "exit_wake 1 ex6 = ex_st 9 (ex_run1\<lparr>p_rtime := 1, p_chan := ProcChan 0, p_state := RUNNABLE, p_context := AtSwtch\<rparr>)
     (ex_child\<lparr>p_time_in_queues := 1, p_state := RUNNING, p_num_run := 1, p_rtime := 1\<rparr>) 3 (Some 1) 2"
    by (simp add: exit_wake_def ex6_def ex_wakeup1 parent_chan_def ex_procs)
  note w = this
  have "exit_zombie 0 1 ex6 =
      swtch_off 0 1 (upd 1 (exit_mark (ticks ex6)) (adopt 1 {..<NPROC} (exit_wake 1 ex6)))"
    by (rule exit_zombie_closed) (simp add: ex6_def)
  also have "\<dots> = ex7"
    unfolding w by (subst adopt_none) (simp_all add: swtch_off_def exit_mark_def ex7_def ex6_def ex_procs)
  finally have "exit_zombie 0 1 ex6 = ex7" .
  then show "pt_run ex_ops True ex7"
    using run_same_ticks [OF r6 st_exit [of ex6 0 1]] by (simp add: ex6_def ex7_def)
qed

section \<open>Properties\<close>



text \<open>C20: no wakeup of wait or waitx is lost. A process asleep on a process slot sleeps on its
  own slot and has no zombie child, although exit, reparenting, kill and wait interleave freely.\<close>

theorem run_no_lost_wakeup:
  assumes "pt_run ops y s" and "i < NPROC" and "p_state (ptable s i) = SLEEPING"
    and "p_chan (ptable s i) = ProcChan q"
  shows "q = i \<and> zombie_child i s = None"
  using wake_okD [OF pt_invD(5) [OF run_inv [OF assms(1)]] assms(2-4)]
  by (auto simp: zombie_child_def find_slot_None)

theorem run_no_lost_wakeup_witness: "(0::nat) = 0 \<and> zombie_child 0 ex4 = None"
  by (rule run_no_lost_wakeup [OF ex_run(4), of 0 0]) (simp_all add: NPROC_def ex4_def)

text \<open>C22: the process tree. Init is alive and has no parent; every other slot that is in use and
  published has a parent that is alive, so exit hands every orphan to init.\<close>

theorem run_process_tree:
  assumes "pt_run ops y s"
  shows "\<exists>ip<NPROC. initproc s = Some ip \<and> live (p_state (ptable s ip)) \<and>
    (\<forall>i<NPROC. p_state (ptable s i) \<notin> {UNUSED, EMBRYO} \<and> i \<noteq> ip \<longrightarrow>
      (\<exists>q<NPROC. p_parent (ptable s i) = Some q \<and> q \<noteq> i \<and> live (p_state (ptable s q))))"
proof -
  note inv = run_inv [OF assms]
  obtain ip where ip: "initproc s = Some ip" "ip < NPROC" "live (p_state (ptable s ip))"
    using pt_invD(6) [OF inv] by (auto simp: init_ok_def split: option.splits)
  have "\<exists>q<NPROC. p_parent (ptable s i) = Some q \<and> q \<noteq> i \<and> live (p_state (ptable s q))"
    if "i < NPROC" "p_state (ptable s i) \<notin> {UNUSED, EMBRYO}" "i \<noteq> ip" for i
    using tree_okD(1,3) [OF pt_invD(3) [OF inv] that(1)] that(2,3) ip(1) by fastforce
  then show ?thesis using ip by blast
qed

theorem run_process_tree_witness:
  "\<exists>ip<NPROC. initproc ex7 = Some ip \<and> live (p_state (ptable ex7 ip)) \<and>
    (\<forall>i<NPROC. p_state (ptable ex7 i) \<notin> {UNUSED, EMBRYO} \<and> i \<noteq> ip \<longrightarrow>
      (\<exists>q<NPROC. p_parent (ptable ex7 i) = Some q \<and> q \<noteq> i \<and> live (p_state (ptable ex7 q))))"
  by (rule run_process_tree [OF ex_run(7)])

text \<open>C23: the scheduler takes the next RUNNABLE slot in cyclic order. Started from any state of a
  run, the loop of an idle CPU dispatches the first RUNNABLE slot at or behind its position, after
  the end of the table from its start, within two passes, without a panic; nothing but that slot,
  the CPU and its position changes.\<close>

theorem scheduler_round_robin:
  assumes "pt_run ops y s" and "cpu_proc s c = None"
    and "find (\<lambda>i. p_state (ptable s i) = RUNNABLE) ([cpu_pos s c..<NPROC] @ [0..<NPROC]) = Some i"
  shows "sched_scan c (2 * NPROC + 2) s = Ok () (dispatch c i s)"
proof -
  have m: "mem_ok s" using run_inv [OF assms(1)] by (rule pt_invD(4))
  show ?thesis
  proof (cases "find (\<lambda>i. p_state (ptable s i) = RUNNABLE) [cpu_pos s c..<NPROC]")
    case (Some k)
    then show ?thesis
      using assms(3) find_upt_bound [OF Some]
      by (intro sched_scan_found [OF _ m assms(2)]) (auto simp: find_append)
  next
    case None
    let ?s = "s\<lparr>cpu_pos := (cpu_pos s)(c := 0)\<rparr>" and ?n = "NPROC + 1 + (NPROC - (NPROC - cpu_pos s c))"
    have f: "find (\<lambda>i. p_state (ptable ?s i) = RUNNABLE) [cpu_pos ?s c..<NPROC] = Some i"
      using assms(3) None by (simp add: find_append)
    have "sched_scan c ?n ?s = Ok () (dispatch c i ?s)"
      using m assms(2) find_upt_bound [OF f] by (intro sched_scan_found [OF f]) (auto simp: mem_ok_def)
    moreover have "dispatch c i ?s = dispatch c i s" by (simp add: dispatch_def upd_def)
    ultimately show ?thesis using sched_scan_end [OF None assms(2), of ?n] by (simp add: mult_2)
  qed
qed

theorem scheduler_round_robin_witness:
  "sched_scan 0 (2 * NPROC + 2) ex7 = Ok () (dispatch 0 0 ex7)"
proof (rule scheduler_round_robin [OF ex_run(7)])
  have e: "[2..<NPROC] @ [0..<NPROC] = [2..<NPROC] @ 0 # [1..<NPROC]" by (simp add: NPROC_def upt_conv_Cons)
  have "find (\<lambda>i. p_state (ptable ex7 i) = RUNNABLE) [2..<NPROC] = None"
    by (auto simp: find_None_iff ex7_def ex_procs)
  then show "find (\<lambda>i. p_state (ptable ex7 i) = RUNNABLE) ([cpu_pos ex7 0..<NPROC] @ [0..<NPROC]) = Some 0"
    using e by (simp add: ex7_def find_append ex_procs)
qed (simp add: ex7_def)



text \<open>Wait and waitx are the same system call up to the two times: whatever waitx does to the
  process table, and whether it reaps, finds no child or goes to sleep, wait does too.\<close>

theorem wait_is_waitx:
  "wait_scan ops c cur s =
     (case waitx_scan ops c cur s of
        (Reaped r, t) \<Rightarrow> (Reaped (fst r), t)
      | (NoChild, t) \<Rightarrow> (NoChild, t)
      | (WentToSleep, t) \<Rightarrow> (WentToSleep, t))"
  by (simp add: wait_scan_cases waitx_scan_cases split: option.split)

text \<open>C25: fork. On success it returns the fresh id of a slot that was free, which is now RUNNABLE
  with the caller as parent, the caller's size, files, directory and registers (with 0 in eax),
  its copied memory and fresh times; on failure it returns -1 and no slot in use is touched and
  none is taken. No other slot changes.\<close>

theorem fork_spec:
  assumes "pt_run ops y s" and "cpu_proc s c = Some cur" and "fork ops cur s = (pid, t)"
  shows "if pid = -1 then \<forall>j<NPROC. p_state (ptable t j) = p_state (ptable s j) \<and>
            (p_state (ptable s j) \<noteq> UNUSED \<longrightarrow> ptable t j = ptable s j)
    else \<exists>i<NPROC. p_state (ptable s i) = UNUSED \<and> pid = nextpid s \<and> p_pid (ptable t i) = pid \<and>
       p_state (ptable t i) = RUNNABLE \<and> p_parent (ptable t i) = Some cur \<and>
       p_sz (ptable t i) = p_sz (ptable s cur) \<and> p_pgdir (ptable t i) \<noteq> 0 \<and>
       p_tf (ptable t i) = (p_tf (ptable s cur))\<lparr>tf_eax := 0\<rparr> \<and> p_cwd (ptable t i) = p_cwd (ptable s cur) \<and>
       (\<forall>fd<NOFILE. p_ofile (ptable s cur) fd \<noteq> None \<longrightarrow> p_ofile (ptable t i) fd = p_ofile (ptable s cur) fd) \<and>
       p_ctime (ptable t i) = ticks s \<and> p_rtime (ptable t i) = 0 \<and>
       (\<forall>j. j \<noteq> i \<longrightarrow> ptable t j = ptable s j)"
proof (cases "find_slot (\<lambda>p. p_state p = UNUSED) s")
  case None
  then show ?thesis using assms(3) by (auto simp: fork_def allocproc_def allocproc_slot_def)
next
  case (Some i)
  note i = Some [unfolded find_slot_Some]
  have "cur \<noteq> i" using running_on_cpu(2) [OF run_inv [OF assms(1)] assms(2)] i by auto
  have "nextpid s \<noteq> -1" using nextpid_pos [OF run_inv [OF assms(1)]] by simp
  note fork_defs = fork_def allocproc_def allocproc_slot_def Some Let_def upd_def fork_nomem_def
    allocproc_fail_def allocproc_init_def fork_copy_def fork_publish_def
  show ?thesis
  proof (cases "pid = -1")
    case True
    with assms(3) i \<open>nextpid s \<noteq> -1\<close> show ?thesis
      by (auto simp: fork_defs split: if_splits prod.splits)
  next
    case False
    show ?thesis
      unfolding if_not_P [OF False]
      by (rule exI [of _ i])
         (use False assms(3) i \<open>cur \<noteq> i\<close> in \<open>auto simp: fork_defs split: if_splits prod.splits\<close>)
  qed
qed

theorem fork_spec_witness:
  "fork ex_ops 0 ex1 = (2, ex2) \<and> (\<exists>i<NPROC. p_state (ptable ex2 i) = RUNNABLE \<and>
     p_parent (ptable ex2 i) = Some 0 \<and> p_pid (ptable ex2 i) = 2)"
proof -
  have "find_slot (\<lambda>p. p_state p = UNUSED) ex1 = Some (Suc 0)"
    by (auto simp: find_slot_Some ex1_def NPROC_def ex_procs)
  then have f: "fork ex_ops 0 ex1 = (2, ex2)"
    by (simp add: fork_def allocproc_def allocproc_slot_def ex1_def ex2_def ex_ops_def Let_def fork_copy_def
      fork_publish_def allocproc_init_def ex_procs safestrcpy_def)
  have "cpu_proc ex1 0 = Some 0" by (simp add: ex1_def)
  from fork_spec [OF ex_run(1) this f] f show ?thesis by auto
qed

text \<open>C26: the second half of exit. The process becomes a zombie with its end time and its waiting
  time set and leaves its CPU; its parent, if it sleeps in wait, is woken; every child gets init as
  parent, and init is woken if one of the children is a zombie; ids and other parents stay.\<close>

theorem exit_spec:
  assumes "pt_run ops y s" and "cpu_proc s c = Some cur" and "initproc s \<noteq> Some cur"
    and "t = exit_zombie c cur s" and "j < NPROC"
  shows "p_state (ptable t cur) = ZOMBIE \<and> p_etime (ptable t cur) = ticks s \<and>
    p_wait_time (ptable t cur) = ticks s - p_ctime (ptable s cur) - p_rtime (ptable s cur) \<and>
    cpu_proc t = (cpu_proc s)(c := None) \<and> p_pid (ptable t j) = p_pid (ptable s j) \<and>
    p_parent (ptable t j) = (if p_parent (ptable s j) = Some cur then initproc s else p_parent (ptable s j)) \<and>
    (p_parent (ptable s cur) = Some j \<and> p_state (ptable s j) = SLEEPING \<and> p_chan (ptable s j) = ProcChan j \<or>
     initproc s = Some j \<and> p_state (ptable s j) = SLEEPING \<and> p_chan (ptable s j) = ProcChan j \<and>
     zombie_child cur s \<noteq> None \<longrightarrow> p_state (ptable t j) = RUNNABLE)"
proof -
  note inv = run_inv [OF assms(1)]
  note i = running_on_cpu [OF inv assms(2)]
  have np: "p_parent (ptable s cur) \<noteq> Some cur"
    using tree_okD(1) [OF pt_invD(3) [OF inv] i(1)] by blast
  have z: "zombie_child cur s \<noteq> None \<longleftrightarrow> (\<exists>j<NPROC. p_parent (ptable s j) = Some cur \<and> p_state (ptable s j) = ZOMBIE)"
    by (auto simp: zombie_child_def find_slot_None)
  show ?thesis
    unfolding assms(4) exit_zombie_closed [OF assms(3)] z
    using assms(3,5) i np
    by (auto simp: swtch_off_def upd_def exit_mark_def adopt_def exit_wake_def wakeup1_def Let_def parent_chan_def)
qed

theorem exit_spec_witness:
  "p_state (ptable (exit_zombie 0 1 ex6) 1) = ZOMBIE \<and> p_state (ptable (exit_zombie 0 1 ex6) 0) = RUNNABLE"
  using exit_spec [OF ex_run(6), of 0 1 "exit_zombie 0 1 ex6" 0]
  by (simp add: ex6_def NPROC_def ex_procs)

text \<open>Kill does not skip free slots. While the first slot with process id 0 is the free slot that
  allocproc takes next, kill(0) reports success and the next process created is born killed,
  because allocproc never clears the flag.\<close>

theorem kill_marks_free_slot:
  assumes "find_slot (\<lambda>p. p_pid p = 0) s = Some i" and "find_slot (\<lambda>p. p_state p = UNUSED) s = Some i"
    and "fst (k_kalloc ops (kx s)) \<noteq> 0"
  shows "fst (kill 0 s) = 0 \<and> (\<exists>t. allocproc ops (snd (kill 0 s)) = (Some i, t) \<and>
    p_state (ptable t i) = EMBRYO \<and> p_killed (ptable t i))"
proof -
  let ?u = "upd i (\<lambda>p. p\<lparr>p_killed := True, p_state := (if p_state p = SLEEPING then RUNNABLE else p_state p)\<rparr>) s"
  have k: "kill 0 s = (0, ?u)" using assms(1) by (simp add: kill_def)
  have "find_slot (\<lambda>p. p_state p = UNUSED) ?u = Some i"
    using assms(2) by (auto simp: find_slot_Some upd_def)
  then show ?thesis
    using assms(3) unfolding k
    by (cases "k_kalloc ops (kx s)") (simp add: allocproc_def allocproc_slot_def allocproc_init_def upd_def)
qed

theorem kill_marks_free_slot_witness:
  "fst (kill 0 ex1) = 0 \<and> (\<exists>t. allocproc ex_ops (snd (kill 0 ex1)) = (Some 1, t) \<and>
    p_state (ptable t 1) = EMBRYO \<and> p_killed (ptable t 1))"
  by (rule kill_marks_free_slot) (auto simp: find_slot_Some ex1_def NPROC_def ex_procs ex_ops_def)

end
