(* ===== verification/Buf.thy ===== *)
theory Buf
  imports Prelude
begin

text \<open>
  buf.h, sleeplock.c and the state of the block layer: the buffers of the cache with the prev/next
  ring through them, the queue of the disk driver, and the disks as functions from block numbers
  to blocks. \<open>d_trace\<close> records the block writes that have reached a disk, in order; no routine
  reads it.
\<close>

section \<open>Sleep locks\<close>

text \<open>
  The inner spin lock makes each routine atomic. The routines run in the process with id \<open>pid\<close>;
  acquiresleep of a held lock is \<open>Hang\<close> in a run of that process alone.
\<close>

record sleeplock =
  sl_locked :: bool
  sl_name :: string
  sl_pid :: int

definition initsleeplock :: "string \<Rightarrow> sleeplock \<Rightarrow> sleeplock" where
  "initsleeplock name lk = lk\<lparr>sl_name := name, sl_locked := False, sl_pid := 0\<rparr>"

definition acquiresleep :: "int \<Rightarrow> (sleeplock, unit) routine" where
  "acquiresleep pid lk = (if sl_locked lk then Hang else Ok () (lk\<lparr>sl_locked := True, sl_pid := pid\<rparr>))"

definition releasesleep :: "sleeplock \<Rightarrow> sleeplock" where
  "releasesleep lk = lk\<lparr>sl_locked := False, sl_pid := 0\<rparr>"

definition holdingsleep :: "int \<Rightarrow> sleeplock \<Rightarrow> bool" where
  "holdingsleep pid lk \<longleftrightarrow> sl_locked lk \<and> sl_pid lk = pid"

section \<open>Buffers and the state of the block layer\<close>

definition BSIZE :: nat where "BSIZE = 512"
definition NBUF :: nat where "NBUF = 30"
definition FSSIZE :: uint where "FSSIZE = 1000"

type_synonym block = "uchar list"

text \<open>
  The two bits of \<open>flags\<close> are two Booleans. The links prev and next are kept per node beside the
  buffers, because the list head is a node of the ring too: node \<open>NBUF\<close>.
\<close>

record buf =
  b_valid :: bool
  b_dirty :: bool
  b_dev :: uint
  b_blockno :: uint
  b_lock :: sleeplock
  b_refcnt :: uint
  b_data :: block

definition HEAD :: nat where "HEAD = NBUF"

text \<open>
  \<open>d_queue\<close> is the chain from idequeue through qnext, \<open>d_cmd\<close> the command the drive works on
  (drive, block, write), \<open>d_memsize\<close> the disksize of memide.c, \<open>d_pid\<close> the running process.
\<close>

record dsk =
  d_buf :: "nat \<Rightarrow> buf"
  d_next :: "nat \<Rightarrow> nat"
  d_prev :: "nat \<Rightarrow> nat"
  d_disk :: "uint \<Rightarrow> uint \<Rightarrow> block"
  d_trace :: "(uint \<times> uint \<times> block) list"
  d_queue :: "nat list"
  d_cmd :: "(uint \<times> uint \<times> bool) option"
  d_havedisk1 :: bool
  d_memsize :: uint
  d_pid :: int

definition bupd :: "nat \<Rightarrow> (buf \<Rightarrow> buf) \<Rightarrow> 'z dsk_scheme \<Rightarrow> 'z dsk_scheme" where
  "bupd b f s = s\<lparr>d_buf := (d_buf s)(b := f (d_buf s b))\<rparr>"

definition disk_write :: "uint \<Rightarrow> uint \<Rightarrow> block \<Rightarrow> 'z dsk_scheme \<Rightarrow> 'z dsk_scheme" where
  "disk_write dev bn v s =
     s\<lparr>d_disk := (d_disk s)(dev := (d_disk s dev)(bn := v)), d_trace := d_trace s @ [(dev, bn, v)]\<rparr>"

definition holds :: "'z dsk_scheme \<Rightarrow> nat \<Rightarrow> bool" where
  "holds s b \<longleftrightarrow> holdingsleep (d_pid s) (b_lock (d_buf s b))"

lemma bupd_simps [simp]:
  "d_buf (bupd b f s) = (d_buf s)(b := f (d_buf s b))"
  "d_next (bupd b f s) = d_next s" "d_prev (bupd b f s) = d_prev s"
  "d_disk (bupd b f s) = d_disk s" "d_trace (bupd b f s) = d_trace s"
  "d_queue (bupd b f s) = d_queue s" "d_cmd (bupd b f s) = d_cmd s"
  "d_havedisk1 (bupd b f s) = d_havedisk1 s" "d_memsize (bupd b f s) = d_memsize s"
  "d_pid (bupd b f s) = d_pid s" "dsk.more (bupd b f s) = dsk.more s"
  by (simp_all add: bupd_def)

lemma disk_write_simps [simp]:
  "d_buf (disk_write dev bn v s) = d_buf s" "d_next (disk_write dev bn v s) = d_next s"
  "d_prev (disk_write dev bn v s) = d_prev s" "d_queue (disk_write dev bn v s) = d_queue s"
  "d_disk (disk_write dev bn v s) = (d_disk s)(dev := (d_disk s dev)(bn := v))"
  "d_trace (disk_write dev bn v s) = d_trace s @ [(dev, bn, v)]"
  "d_cmd (disk_write dev bn v s) = d_cmd s" "d_havedisk1 (disk_write dev bn v s) = d_havedisk1 s"
  "d_memsize (disk_write dev bn v s) = d_memsize s" "d_pid (disk_write dev bn v s) = d_pid s"
  "dsk.more (disk_write dev bn v s) = dsk.more s"
  by (simp_all add: disk_write_def)

text \<open>A drive that has not been touched since boot, all buffers empty: static zeroes.\<close>

definition buf0 :: buf where
  "buf0 = \<lparr>b_valid = False, b_dirty = False, b_dev = 0, b_blockno = 0,
     b_lock = \<lparr>sl_locked = False, sl_name = [], sl_pid = 0\<rparr>, b_refcnt = 0, b_data = replicate BSIZE 0\<rparr>"

text \<open>
  The contract of iderw, in one step: a dirty buffer is written to its block and becomes clean, a
  buffer that is not valid is read; either way it ends valid.
\<close>

definition rw_done :: "nat \<Rightarrow> 'z dsk_scheme \<Rightarrow> 'z dsk_scheme" where
  "rw_done b s =
     (let bf = d_buf s b in
      if b_dirty bf then
        bupd b (\<lambda>p. p\<lparr>b_dirty := False, b_valid := True\<rparr>) (disk_write (b_dev bf) (b_blockno bf) (b_data bf) s)
      else bupd b (\<lambda>p. p\<lparr>b_data := d_disk s (b_dev bf) (b_blockno bf), b_valid := True\<rparr>) s)"

text \<open>
  A block device as its clients see it: \<open>rw\<close> is the linked iderw, \<open>ready s d\<close> says that drive
  \<open>d\<close> can be used in \<open>s\<close>, \<open>has d n\<close> which blocks it has. Whether a drive is ready depends on
  neither the buffers nor the contents of the disks.
\<close>

locale block_device =
  fixes rw :: "nat \<Rightarrow> 'z dsk_scheme \<Rightarrow> ('z dsk_scheme, unit) outcome"
    and ready :: "'z dsk_scheme \<Rightarrow> uint \<Rightarrow> bool"
    and has :: "'z dsk_scheme \<Rightarrow> uint \<Rightarrow> bool"
  assumes rw_spec: "ready s (b_dev (d_buf s b)) \<Longrightarrow> has s (b_blockno (d_buf s b)) \<Longrightarrow> holds s b \<Longrightarrow>
      \<not> (b_valid (d_buf s b) \<and> \<not> b_dirty (d_buf s b)) \<Longrightarrow> length (b_data (d_buf s b)) = BSIZE \<Longrightarrow>
      rw b s = Ok () (rw_done b s)"
    and ready_cong: "d_queue t = d_queue s \<Longrightarrow> d_cmd t = d_cmd s \<Longrightarrow> d_havedisk1 t = d_havedisk1 s \<Longrightarrow>
      ready t d = ready s d"
    and has_cong: "d_memsize t = d_memsize s \<Longrightarrow> has t n = has s n"

end
