(* ===== verification/Ide.thy ===== *)
theory Ide
  imports Buf
begin

unbundle bit_operations_syntax

text \<open>
  The two disk drivers that can be linked behind the buffer cache: ide.c, a queue of requests
  served by interrupts, and memide.c, a disk in memory. The first is modelled twice: as iderw run
  by one process with the interrupts the drive raises, and as a step relation in which processes
  submit requests while interrupts arrive.
\<close>

section \<open>ide.c\<close>

definition IDE_BSY :: uchar where "IDE_BSY = 0x80"
definition IDE_DRDY :: uchar where "IDE_DRDY = 0x40"
definition IDE_DF :: uchar where "IDE_DF = 0x20"
definition IDE_ERR :: uchar where "IDE_ERR = 0x01"

text \<open>idewait on the sequence of status bytes the drive delivers; none left is a drive that stays busy.\<close>

fun idewait :: "bool \<Rightarrow> uchar list \<Rightarrow> int option" where
  "idewait checkerr [] = None"
| "idewait checkerr (r # rs) =
     (if r AND (IDE_BSY OR IDE_DRDY) \<noteq> IDE_DRDY then idewait checkerr rs
      else if checkerr \<and> r AND (IDE_DF OR IDE_ERR) \<noteq> 0 then Some (-1) else Some 0)"

text \<open>
  The task-file registers idestart writes for a block (one sector, as BSIZE is SECTOR_SIZE), and
  how the drive reads them.
\<close>

definition ide_regs :: "uint \<Rightarrow> uint \<Rightarrow> uchar \<times> uchar \<times> uchar \<times> uchar" where
  "ide_regs dev sector =
     (ucast (sector AND 0xff), ucast (drop_bit 8 sector AND 0xff), ucast (drop_bit 16 sector AND 0xff),
      0xe0 OR (push_bit 4 (ucast (dev AND 1)) OR ucast (drop_bit 24 sector AND 0x0f)))"

definition regs_dev :: "uchar \<times> uchar \<times> uchar \<times> uchar \<Rightarrow> uint" where
  "regs_dev = (\<lambda>(l, m, h, sel). ucast (drop_bit 4 sel) AND 1)"

definition regs_lba :: "uchar \<times> uchar \<times> uchar \<times> uchar \<Rightarrow> uint" where
  "regs_lba = (\<lambda>(l, m, h, sel). ucast l OR push_bit 8 (ucast m) OR push_bit 16 (ucast h) OR
     push_bit 24 (ucast (sel AND 0x0f)))"

text \<open>
  idestart hands the drive its command, for a write with the data. The panic on more than seven
  sectors per block cannot happen with one.
\<close>

definition idestart :: "nat \<Rightarrow> ('z dsk_scheme, unit) routine" where
  "idestart b s =
     (let bf = d_buf s b; regs = ide_regs (b_dev bf) (b_blockno bf); dev = regs_dev regs; bn = regs_lba regs in
      if b_blockno bf \<ge> FSSIZE then Panic ''incorrect blockno''
      else if b_dirty bf then Ok () (disk_write dev bn (b_data bf) (s\<lparr>d_cmd := Some (dev, bn, True)\<rparr>))
      else Ok () (s\<lparr>d_cmd := Some (dev, bn, False)\<rparr>))"

text \<open>
  The interrupt handler: \<open>err\<close> is what idewait(1) reports. With an error nothing is read, and the
  buffer is marked valid all the same.
\<close>

definition ideintr :: "bool \<Rightarrow> ('z dsk_scheme, unit) routine" where
  "ideintr err s =
     (case d_queue s of
        [] \<Rightarrow> Ok () s
      | b # q \<Rightarrow>
          let s = s\<lparr>d_queue := q\<rparr>;
              s = (if \<not> b_dirty (d_buf s b) \<and> \<not> err then
                     (case d_cmd s of None \<Rightarrow> s
                      | Some (dev, bn, w) \<Rightarrow> bupd b (\<lambda>p. p\<lparr>b_data := d_disk s dev bn\<rparr>) s)
                   else s);
              s = bupd b (\<lambda>p. p\<lparr>b_valid := True, b_dirty := False\<rparr>) (s\<lparr>d_cmd := None\<rparr>)
          in case q of [] \<Rightarrow> Ok () s | b' # _ \<Rightarrow> idestart b' s)"

definition ide_finished :: "nat \<Rightarrow> 'z dsk_scheme \<Rightarrow> bool" where
  "ide_finished b s \<longleftrightarrow> b_valid (d_buf s b) \<and> \<not> b_dirty (d_buf s b)"

text \<open>iderw up to its loop; the loop, in which only interrupts of the drive make progress.\<close>

definition iderw_submit :: "nat \<Rightarrow> ('z dsk_scheme, unit) routine" where
  "iderw_submit b s =
     (if \<not> holds s b then Panic ''iderw: buf not locked''
      else if ide_finished b s then Panic ''iderw: nothing to do''
      else if b_dev (d_buf s b) \<noteq> 0 \<and> \<not> d_havedisk1 s then Panic ''iderw: ide disk 1 not present''
      else let s' = s\<lparr>d_queue := d_queue s @ [b]\<rparr>
        in if hd (d_queue s') = b then idestart b s' else Ok () s')"

fun ide_loop :: "nat \<Rightarrow> nat \<Rightarrow> ('z dsk_scheme, unit) routine" where
  "ide_loop 0 b s = (if ide_finished b s then Ok () s else Hang)"
| "ide_loop (Suc n) b s =
     (if ide_finished b s then Ok () s
      else kthen (ideintr False) (ide_loop n b) s)"

definition iderw :: "nat \<Rightarrow> ('z dsk_scheme, unit) routine" where
  "iderw b s = kthen (iderw_submit b) (ide_loop (Suc (length (d_queue s))) b) s"

section \<open>memide.c\<close>

text \<open>The memory disk is drive 1; \<open>d_memsize\<close> is the number of its blocks.\<close>

definition mem_iderw :: "nat \<Rightarrow> ('z dsk_scheme, unit) routine" where
  "mem_iderw b s =
     (let bf = d_buf s b in
      if \<not> holds s b then Panic ''iderw: buf not locked''
      else if b_valid bf \<and> \<not> b_dirty bf then Panic ''iderw: nothing to do''
      else if b_dev bf \<noteq> 1 then Panic ''iderw: request not for disk 1''
      else if b_blockno bf \<ge> d_memsize s then Panic ''iderw: block out of range''
      else let s' = (if b_dirty bf then disk_write 1 (b_blockno bf) (b_data bf)
                       (bupd b (\<lambda>p. p\<lparr>b_dirty := False\<rparr>) s)
                     else bupd b (\<lambda>p. p\<lparr>b_data := d_disk s 1 (b_blockno bf)\<rparr>) s)
        in Ok () (bupd b (\<lambda>p. p\<lparr>b_valid := True\<rparr>) s'))"

section \<open>Both drivers meet the contract\<close>

lemma regs_dev_regs: "regs_dev (ide_regs dev sector) = dev AND 1"
  by (simp add: regs_dev_def ide_regs_def)
     (intro bit_word_eqI, auto simp: bit_simps)

lemma select_nibble:
  "((0xe0 :: uchar) OR (push_bit 4 (ucast d) OR (x AND 0x0f))) AND 0x0f = x AND 0x0f" for d :: uint
proof -
  have m: "(0x0f :: uchar) = mask 4" by (simp add: mask_eq_exp_minus_1)
  have z: "(0xe0 :: uchar) AND mask 4 = 0" by (simp add: mask_eq_exp_minus_1)
  have p: "push_bit 4 (y :: uchar) AND mask 4 = 0" for y
    by (rule bit_word_eqI) (auto simp: bit_simps)
  show ?thesis unfolding m by (simp add: bit.conj_disj_distrib2 z p)
qed

lemma regs_lba_bits: "regs_lba (ide_regs dev sector) = take_bit 28 sector"
proof -
  have m: "(0x0f :: uint) = mask 4" "(0xff :: uint) = mask 8" "(0x0f :: uchar) = mask 4"
    by (simp_all add: mask_eq_exp_minus_1)
  have u: "(ucast (drop_bit 24 sector AND 0x0f) :: uchar) = ucast (drop_bit 24 sector) AND 0x0f"
    unfolding m by (rule bit_word_eqI) (auto simp: bit_simps)
  have lba: "regs_lba (ide_regs dev sector) =
      ucast (ucast (sector AND mask 8) :: uchar) OR push_bit 8 (ucast (ucast (drop_bit 8 sector AND mask 8) :: uchar))
      OR push_bit 16 (ucast (ucast (drop_bit 16 sector AND mask 8) :: uchar))
      OR push_bit 24 (ucast (ucast (drop_bit 24 sector) AND mask 4 :: uchar))"
    unfolding regs_lba_def ide_regs_def prod.case u select_nibble by (simp only: m)
  show ?thesis
    unfolding lba
  proof (rule bit_word_eqI)
    fix n :: nat
    have "n < 8 \<or> (\<exists>k<8. n = 8 + k) \<or> (\<exists>k<8. n = 16 + k) \<or> (\<exists>k. n = 24 + k)" by presburger
    then consider "n < 8" | k where "n = 8 + k" "k < 8" | k where "n = 16 + k" "k < 8" | k where "n = 24 + k"
      by blast
    then show "bit (ucast (ucast (sector AND mask 8) :: uchar) OR
        push_bit 8 (ucast (ucast (drop_bit 8 sector AND mask 8) :: uchar))
        OR push_bit 16 (ucast (ucast (drop_bit 16 sector AND mask 8) :: uchar))
        OR push_bit 24 (ucast (ucast (drop_bit 24 sector) AND mask 4 :: uchar) :: uint)) n =
      bit (take_bit 28 sector) n"
      by cases (auto simp: bit_simps)
  qed
qed

lemma regs_lba_regs: "sector < 2 ^ 28 \<Longrightarrow> regs_lba (ide_regs dev sector) = sector"
  unfolding regs_lba_bits
  by (simp only: word_unat_eq_iff unsigned_take_bit_eq word_less_nat_alt) (simp add: take_bit_nat_eq_self)

lemma drive_bit: "dev \<in> {0, 1} \<Longrightarrow> dev AND 1 = dev" for dev :: uint
  by auto

text \<open>With an empty queue the one request is served by the first interrupt.\<close>

definition ide_ready :: "'z dsk_scheme \<Rightarrow> uint \<Rightarrow> bool" where
  "ide_ready s d \<longleftrightarrow> d_queue s = [] \<and> d_cmd s = None \<and> (d = 0 \<or> d = 1 \<and> d_havedisk1 s)"

lemma idestart_Ok:
  assumes "b_dev (d_buf s b) \<in> {0, 1}" and "b_blockno (d_buf s b) < FSSIZE"
  shows "idestart b s =
    (let bf = d_buf s b; t = s\<lparr>d_cmd := Some (b_dev bf, b_blockno bf, b_dirty bf)\<rparr>
     in Ok () (if b_dirty bf then disk_write (b_dev bf) (b_blockno bf) (b_data bf) t else t))"
proof -
  have "b_blockno (d_buf s b) < 2 ^ 28" using assms(2) by (simp add: FSSIZE_def word_less_nat_alt)
  then show ?thesis
    using assms by (simp add: idestart_def Let_def regs_dev_regs regs_lba_regs drive_bit not_le)
qed

lemma iderw_spec:
  assumes "ide_ready s (b_dev (d_buf s b))" and "b_blockno (d_buf s b) < FSSIZE" and "holds s b"
    and "\<not> (b_valid (d_buf s b) \<and> \<not> b_dirty (d_buf s b))"
  shows "iderw b s = Ok () (rw_done b s)"
proof -
  let ?bf = "d_buf s b"
  let ?t = "s\<lparr>d_queue := [b], d_cmd := Some (b_dev ?bf, b_blockno ?bf, b_dirty ?bf)\<rparr>"
  let ?u = "if b_dirty ?bf then disk_write (b_dev ?bf) (b_blockno ?bf) (b_data ?bf) ?t else ?t"
  have q: "d_queue s = []" "d_cmd s = None" "b_dev ?bf \<in> {0, 1}" "b_dev ?bf = 0 \<or> d_havedisk1 s"
    using assms(1) by (auto simp: ide_ready_def)
  have sub: "iderw_submit b s = Ok () ?u"
    using idestart_Ok [of "s\<lparr>d_queue := [b]\<rparr>" b] q assms(2-4)
    by (auto simp: iderw_submit_def ide_finished_def Let_def)
  have "ideintr False ?u = Ok () (rw_done b s)"
    by (cases "b_dirty ?bf")
       (auto simp: ideintr_def rw_done_def Let_def bupd_def disk_write_def q intro!: dsk.equality)
  moreover have "ide_finished b (rw_done b s)"
    by (simp add: ide_finished_def rw_done_def Let_def)
  moreover have "\<not> ide_finished b ?u" using assms(4) by (auto simp: ide_finished_def)
  ultimately have "ide_loop (Suc 0) b ?u = Ok () (rw_done b s)"
    by (simp add: kthen_Ok)
  then show ?thesis
    using kthen_Ok [of "iderw_submit b" s "()" ?u "ide_loop (Suc 0) b"] sub by (simp add: iderw_def q(1))
qed

lemma mem_iderw_spec:
  assumes "b_dev (d_buf s b) = 1" and "b_blockno (d_buf s b) < d_memsize s" and "holds s b"
    and "\<not> (b_valid (d_buf s b) \<and> \<not> b_dirty (d_buf s b))"
  shows "mem_iderw b s = Ok () (rw_done b s)"
  using assms
  by (auto simp: mem_iderw_def rw_done_def Let_def bupd_def disk_write_def not_le intro!: dsk.equality)

interpretation ide: block_device iderw ide_ready "\<lambda>s n. n < FSSIZE"
  by unfold_locales (auto intro: iderw_spec simp: ide_ready_def)

interpretation mem: block_device mem_iderw "\<lambda>s d. d = 1" "\<lambda>s n. n < d_memsize s"
  by unfold_locales (auto intro: mem_iderw_spec)

end
