(* ===== verification/Bio.thy ===== *)
theory Bio
  imports Ide
begin

text \<open>
  bio.c: the buffer cache. The definitions follow the links of the LRU ring as the code does; the
  ring refines a list of all buffers from the most to the least recently used. Under the cache
  invariant a block read through the cache is the one contents a client can know: the data of a
  pinned dirty buffer, and otherwise what the disk holds.
\<close>

section \<open>The operations\<close>

definition insert_front :: "nat \<Rightarrow> 'z dsk_scheme \<Rightarrow> 'z dsk_scheme" where
  "insert_front b s =
     (let s = s\<lparr>d_next := (d_next s)(b := d_next s HEAD)\<rparr>;
          s = s\<lparr>d_prev := (d_prev s)(b := HEAD)\<rparr>;
          s = s\<lparr>d_prev := (d_prev s)(d_next s HEAD := b)\<rparr>
      in s\<lparr>d_next := (d_next s)(HEAD := b)\<rparr>)"

definition unlink_buf :: "nat \<Rightarrow> 'z dsk_scheme \<Rightarrow> 'z dsk_scheme" where
  "unlink_buf b s =
     (let s = s\<lparr>d_prev := (d_prev s)(d_next s b := d_prev s b)\<rparr>
      in s\<lparr>d_next := (d_next s)(d_prev s b := d_next s b)\<rparr>)"

fun binit_loop :: "nat list \<Rightarrow> 'z dsk_scheme \<Rightarrow> 'z dsk_scheme" where
  "binit_loop [] s = s"
| "binit_loop (b # bs) s =
     binit_loop bs (insert_front b (bupd b (\<lambda>p. p\<lparr>b_lock := initsleeplock ''buffer'' (b_lock p)\<rparr>) s))"

definition binit :: "'z dsk_scheme \<Rightarrow> 'z dsk_scheme" where
  "binit s = binit_loop [0..<NBUF]
     (s\<lparr>d_prev := (d_prev s)(HEAD := HEAD), d_next := (d_next s)(HEAD := HEAD)\<rparr>)"

text \<open>
  The two searches of bget along the ring, with fuel for the nodes left; a ring of \<open>NBUF\<close> buffers
  is back at the head after \<open>NBUF\<close> steps.
\<close>

fun ring_find :: "nat \<Rightarrow> (nat \<Rightarrow> nat) \<Rightarrow> (buf \<Rightarrow> bool) \<Rightarrow> nat \<Rightarrow> ('z dsk_scheme, nat option) routine" where
  "ring_find 0 link P b s = (if b = HEAD then Ok None s else Hang)"
| "ring_find (Suc n) link P b s =
     (if b = HEAD then Ok None s
      else if P (d_buf s b) then Ok (Some b) s
      else ring_find n link P (link b) s)"

definition lock_buf :: "nat \<Rightarrow> ('z dsk_scheme, unit) routine" where
  "lock_buf b s =
     (case acquiresleep (d_pid s) (b_lock (d_buf s b)) of
        Ok u lk \<Rightarrow> Ok () (bupd b (\<lambda>p. p\<lparr>b_lock := lk\<rparr>) s)
      | Panic e \<Rightarrow> Panic e | Hang \<Rightarrow> Hang | Fault \<Rightarrow> Fault)"

definition is_block :: "uint \<Rightarrow> uint \<Rightarrow> buf \<Rightarrow> bool" where
  "is_block dev bn p \<longleftrightarrow> b_dev p = dev \<and> b_blockno p = bn"

definition recyclable :: "buf \<Rightarrow> bool" where
  "recyclable p \<longleftrightarrow> b_refcnt p = 0 \<and> \<not> b_dirty p"

definition bget :: "uint \<Rightarrow> uint \<Rightarrow> ('z dsk_scheme, nat) routine" where
  "bget dev bn s =
     (case ring_find NBUF (d_next s) (is_block dev bn) (d_next s HEAD) s of
        Ok (Some b) s \<Rightarrow> kthen (lock_buf b) (kret b) (bupd b (\<lambda>p. p\<lparr>b_refcnt := b_refcnt p + 1\<rparr>) s)
      | Ok None s \<Rightarrow>
          (case ring_find NBUF (d_prev s) recyclable (d_prev s HEAD) s of
             Ok (Some b) s \<Rightarrow> kthen (lock_buf b) (kret b)
               (bupd b (\<lambda>p. p\<lparr>b_dev := dev, b_blockno := bn, b_valid := False, b_dirty := False, b_refcnt := 1\<rparr>) s)
           | Ok None s \<Rightarrow> Panic ''bget: no buffers''
           | Panic e \<Rightarrow> Panic e | Hang \<Rightarrow> Hang | Fault \<Rightarrow> Fault)
      | Panic e \<Rightarrow> Panic e | Hang \<Rightarrow> Hang | Fault \<Rightarrow> Fault)"

text \<open>\<open>rw\<close> is the iderw of the disk driver linked into the kernel.\<close>

type_synonym 'z driver = "nat \<Rightarrow> ('z dsk_scheme, unit) routine"

definition bread :: "'z driver \<Rightarrow> uint \<Rightarrow> uint \<Rightarrow> ('z dsk_scheme, nat) routine" where
  "bread rw dev bn =
     kbind (bget dev bn) (\<lambda>b s.
       if \<not> b_valid (d_buf s b) then kthen (rw b) (kret b) s else Ok b s)"

definition bwrite :: "'z driver \<Rightarrow> nat \<Rightarrow> ('z dsk_scheme, unit) routine" where
  "bwrite rw b s =
     (if \<not> holds s b then Panic ''bwrite''
      else rw b (bupd b (\<lambda>p. p\<lparr>b_dirty := True\<rparr>) s))"

definition brelse :: "nat \<Rightarrow> ('z dsk_scheme, unit) routine" where
  "brelse b s =
     (if \<not> holds s b then Panic ''brelse''
      else let s = bupd b (\<lambda>p. p\<lparr>b_lock := releasesleep (b_lock p)\<rparr>) s;
               s = bupd b (\<lambda>p. p\<lparr>b_refcnt := b_refcnt p - 1\<rparr>) s
        in if b_refcnt (d_buf s b) = 0 then Ok () (insert_front b (unlink_buf b s)) else Ok () s)"

section \<open>The ring refines a list\<close>

fun chain :: "(nat \<Rightarrow> nat) \<Rightarrow> (nat \<Rightarrow> nat) \<Rightarrow> nat \<Rightarrow> nat list \<Rightarrow> nat \<Rightarrow> bool" where
  "chain nx pv a [] z \<longleftrightarrow> nx a = z \<and> pv z = a"
| "chain nx pv a (x # xs) z \<longleftrightarrow> nx a = x \<and> pv x = a \<and> chain nx pv x xs z"

lemma chain_append: "chain nx pv a (xs @ y # ys) z \<longleftrightarrow> chain nx pv a xs y \<and> chain nx pv y ys z"
  by (induction xs arbitrary: a) auto

lemma chain_cong:
  assumes "\<And>x. x \<in> set (a # xs) \<Longrightarrow> nx' x = nx x" and "\<And>x. x \<in> set (xs @ [z]) \<Longrightarrow> pv' x = pv x"
  shows "chain nx' pv' a xs z \<longleftrightarrow> chain nx pv a xs z"
  using assms by (induction xs arbitrary: a) auto

lemma chain_last: "chain nx pv a xs z \<Longrightarrow> pv z = last (a # xs)"
  by (induction xs arbitrary: a) auto

lemma chain_first: "chain nx pv a xs z \<Longrightarrow> nx a = hd (xs @ [z])"
  by (cases xs) auto

text \<open>\<open>ring s l\<close>: from the head along next the buffers are \<open>l\<close>, and prev is the way back.\<close>

definition ring :: "'z dsk_scheme \<Rightarrow> nat list \<Rightarrow> bool" where
  "ring s l \<longleftrightarrow> chain (d_next s) (d_prev s) HEAD l HEAD \<and> distinct l \<and> HEAD \<notin> set l"

lemma insert_front_ring:
  assumes "ring s l" and "b \<notin> set l" and "b \<noteq> HEAD"
  shows "ring (insert_front b s) (b # l)"
proof -
  have c: "chain (d_next s) (d_prev s) HEAD l HEAD" and d: "distinct l" "HEAD \<notin> set l"
    using assms(1) by (auto simp: ring_def)
  show ?thesis
  proof (cases l)
    case Nil
    then show ?thesis using c assms(3) by (simp add: ring_def insert_front_def Let_def)
  next
    case (Cons x xs)
    then have x: "d_next s HEAD = x" "chain (d_next s) (d_prev s) x xs HEAD" using c by auto
    have "chain ((d_next s)(b := x, HEAD := b)) ((d_prev s)(b := HEAD, x := b)) x xs HEAD"
      using assms(2,3) d x(2) Cons by (subst chain_cong [where nx = "d_next s" and pv = "d_prev s"]) auto
    then show ?thesis
      using Cons x assms d by (auto simp: ring_def insert_front_def Let_def fun_upd_twist)
  qed
qed

lemma unlink_ring:
  assumes "ring s (xs @ b # ys)"
  shows "ring (unlink_buf b s) (xs @ ys)"
proof -
  have c: "chain (d_next s) (d_prev s) HEAD xs b" "chain (d_next s) (d_prev s) b ys HEAD"
    and d: "distinct (xs @ b # ys)" "HEAD \<notin> set (xs @ b # ys)"
    using assms by (auto simp: ring_def chain_append)
  let ?a = "last (HEAD # xs)" and ?z = "hd (ys @ [HEAD])"
  have a: "d_prev s b = ?a" and z: "d_next s b = ?z" using c chain_last chain_first by blast+
  let ?nx = "(d_next s)(?a := ?z)" and ?pv = "(d_prev s)(?z := ?a)"
  have u: "d_next (unlink_buf b s) = ?nx" "d_prev (unlink_buf b s) = ?pv"
  proof -
    have "?z \<noteq> b" using d by (cases ys) auto
    then show "d_next (unlink_buf b s) = ?nx" "d_prev (unlink_buf b s) = ?pv"
      by (simp_all add: unlink_buf_def Let_def a z)
  qed
  have ch: "chain ((d_next s)(last (q # xs) := hd (ys @ [HEAD]))) ((d_prev s)(hd (ys @ [HEAD]) := last (q # xs))) q (xs @ ys) HEAD"
    if "chain (d_next s) (d_prev s) q xs b" "distinct (xs @ b # ys)" "q \<notin> set (xs @ b # ys)"
      "HEAD \<notin> set (xs @ b # ys)" for q
    using that
  proof (induction xs arbitrary: q)
    case Nil
    show ?case
    proof (cases ys)
      case Nil then show ?thesis by simp
    next
      case (Cons y zs)
      then have "chain (d_next s) (d_prev s) y zs HEAD" using c(2) by simp
      then have "chain ((d_next s)(q := y)) ((d_prev s)(y := q)) y zs HEAD"
        using Nil Cons by (subst chain_cong [where nx = "d_next s" and pv = "d_prev s"]) auto
      then show ?thesis using Cons by (simp add: fun_upd_def)
    qed
  next
    case (Cons x xs)
    have IH: "chain ((d_next s)(last (x # xs) := hd (ys @ [HEAD]))) ((d_prev s)(hd (ys @ [HEAD]) := last (x # xs)))
        x (xs @ ys) HEAD"
      using Cons.prems by (intro Cons.IH) auto
    have "hd (ys @ [HEAD]) \<noteq> x" using Cons.prems by (cases ys) auto
    moreover have "q \<noteq> last (x # xs)" using Cons.prems last_in_set [of "x # xs"] by (metis UnI1 list.distinct(1) set_append)
    ultimately show ?case using IH Cons.prems(1) by (auto simp: fun_upd_def)
  qed
  have "chain ?nx ?pv HEAD (xs @ ys) HEAD"
    using ch [OF c(1) d(1) d(2) d(2)] .
  then show ?thesis using d by (simp add: ring_def u)
qed

text \<open>brelse moves the buffer to the front; binit lines up all buffers.\<close>

lemma touch_ring:
  assumes "ring s l" and "b \<in> set l"
  shows "ring (insert_front b (unlink_buf b s)) (b # remove1 b l)"
proof -
  obtain xs ys where l: "l = xs @ b # ys" "b \<notin> set xs"
    using split_list_first [OF assms(2)] by blast
  have "distinct (xs @ b # ys)" "HEAD \<notin> set (xs @ b # ys)" using assms(1) l by (auto simp: ring_def)
  then have "ring (insert_front b (unlink_buf b s)) (b # xs @ ys)"
    using assms(1) l by (intro insert_front_ring unlink_ring) auto
  then show ?thesis using l by (simp add: remove1_append)
qed

lemma ring_bupd [simp]: "ring (bupd b f s) l = ring s l"
  by (simp add: ring_def)

lemma ring_disk_write [simp]: "ring (disk_write dev bn v s) l = ring s l"
  by (simp add: ring_def)

lemma binit_loop_ring:
  "ring s l \<Longrightarrow> distinct bs \<Longrightarrow> set bs \<inter> set l = {} \<Longrightarrow> HEAD \<notin> set bs \<Longrightarrow>
   ring (binit_loop bs s) (rev bs @ l)"
proof (induction bs arbitrary: s l)
  case Nil then show ?case by simp
next
  case (Cons b bs)
  let ?s = "bupd b (\<lambda>p. p\<lparr>b_lock := initsleeplock ''buffer'' (b_lock p)\<rparr>) s"
  have "ring (insert_front b ?s) (b # l)" using Cons.prems by (intro insert_front_ring) auto
  then have "ring (binit_loop bs (insert_front b ?s)) (rev bs @ (b # l))"
    using Cons.prems by (intro Cons.IH) auto
  then show ?case by simp
qed

lemma binit_ring: "ring (binit s) (rev [0..<NBUF])"
proof -
  have "ring (binit s) (rev [0..<NBUF] @ [])"
    unfolding binit_def by (rule binit_loop_ring) (auto simp: ring_def HEAD_def)
  then show ?thesis by simp
qed

lemma ring_find_chain:
  assumes "chain nx pv a l HEAD" and "HEAD \<notin> set l" and "length l \<le> n"
  shows "ring_find n nx P (nx a) s = Ok (find (\<lambda>b. P (d_buf s b)) l) s"
  using assms
proof (induction l arbitrary: a n)
  case Nil then show ?case by (cases n) auto
next
  case (Cons x xs)
  then show ?case by (cases n) auto
qed

lemma chain_rev: "chain nx pv a l z \<longleftrightarrow> chain pv nx z (rev l) a"
proof (induction l arbitrary: a)
  case (Cons x xs)
  show ?case by (simp add: Cons.IH chain_append) auto
qed auto

lemma ring_find_next:
  assumes "ring s l" and "length l \<le> NBUF"
  shows "ring_find NBUF (d_next s) P (d_next s HEAD) s = Ok (find (\<lambda>b. P (d_buf s b)) l) s"
  using assms by (intro ring_find_chain) (auto simp: ring_def)

lemma ring_find_prev:
  assumes "ring s l" and "length l \<le> NBUF"
  shows "ring_find NBUF (d_prev s) P (d_prev s HEAD) s = Ok (find (\<lambda>b. P (d_buf s b)) (rev l)) s"
proof (rule ring_find_chain)
  show "chain (d_prev s) (d_next s) HEAD (rev l) HEAD"
    using assms(1) chain_rev [of "d_next s" "d_prev s" HEAD l HEAD] by (simp add: ring_def)
qed (use assms in \<open>auto simp: ring_def\<close>)

section \<open>The cache invariant\<close>

text \<open>
  \<open>H\<close> is the set of buffers the running process holds (between bread and brelse). A buffer that
  nobody holds and that is not pinned by the log agrees with the disk; no block of a used drive
  has two buffers.
\<close>

definition buf_ok :: "nat set \<Rightarrow> 'z dsk_scheme \<Rightarrow> nat \<Rightarrow> bool" where
  "buf_ok H s i \<longleftrightarrow> (let p = d_buf s i in
     length (b_data p) = BSIZE \<and>
     (i \<in> H \<longrightarrow> holds s i \<and> b_refcnt p = 1 \<and> b_valid p \<and> b_dev p \<noteq> 0) \<and>
     (i \<notin> H \<longrightarrow> \<not> sl_locked (b_lock p) \<and> b_refcnt p = 0) \<and>
     (b_dirty p \<longrightarrow> b_valid p \<and> b_dev p \<noteq> 0) \<and>
     (i \<notin> H \<and> b_valid p \<and> \<not> b_dirty p \<longrightarrow> b_data p = d_disk s (b_dev p) (b_blockno p)))"

definition cache_inv :: "nat set \<Rightarrow> 'z dsk_scheme \<Rightarrow> bool" where
  "cache_inv H s \<longleftrightarrow>
     (\<exists>l. ring s l \<and> set l = {..<NBUF}) \<and> H \<subseteq> {..<NBUF} \<and> (\<forall>i<NBUF. buf_ok H s i) \<and>
     (\<forall>i<NBUF. \<forall>j<NBUF. b_dev (d_buf s i) \<noteq> 0 \<and> b_dev (d_buf s i) = b_dev (d_buf s j) \<and>
        b_blockno (d_buf s i) = b_blockno (d_buf s j) \<longrightarrow> i = j) \<and>
     (\<forall>d n. length (d_disk s d n) = BSIZE)"

definition dirty_set :: "'z dsk_scheme \<Rightarrow> (uint \<times> uint) set" where
  "dirty_set s = {(b_dev (d_buf s i), b_blockno (d_buf s i)) |i. i < NBUF \<and> b_dirty (d_buf s i)}"

text \<open>What a client can know of a block: the pinned data, or else the disk.\<close>

definition content :: "'z dsk_scheme \<Rightarrow> uint \<Rightarrow> uint \<Rightarrow> block" where
  "content s d n =
     (case find (\<lambda>i. b_dirty (d_buf s i) \<and> is_block d n (d_buf s i)) [0..<NBUF] of
        Some i \<Rightarrow> b_data (d_buf s i) | None \<Rightarrow> d_disk s d n)"

text \<open>What the block layer never changes.\<close>

definition same_env :: "'z dsk_scheme \<Rightarrow> 'z dsk_scheme \<Rightarrow> bool" where
  "same_env s t \<longleftrightarrow> d_queue t = d_queue s \<and> d_cmd t = d_cmd s \<and> d_havedisk1 t = d_havedisk1 s \<and>
     d_memsize t = d_memsize s \<and> d_pid t = d_pid s \<and> dsk.more t = dsk.more s"

lemma same_env_refl [simp]: "same_env s s"
  by (simp add: same_env_def)

lemma same_env_trans [trans]: "same_env s t \<Longrightarrow> same_env t u \<Longrightarrow> same_env s u"
  by (simp add: same_env_def)

lemma same_env_bupd [simp]: "same_env s (bupd b f t) = same_env s t"
  by (simp add: same_env_def)

lemma same_env_rw_done [simp]: "same_env s (rw_done b t) = same_env s t"
  by (simp add: same_env_def rw_done_def Let_def)

lemma cache_invD:
  assumes "cache_inv H s"
  shows "\<exists>l. ring s l \<and> set l = {..<NBUF}" "i \<in> H \<Longrightarrow> i < NBUF" "i < NBUF \<Longrightarrow> buf_ok H s i"
    "length (d_disk s d n) = BSIZE"
  using assms unfolding cache_inv_def by blast+

lemma cache_inv_unique:
  assumes "cache_inv H s" and "i < NBUF" "j < NBUF" "is_block d n (d_buf s i)" "is_block d n (d_buf s j)" "d \<noteq> 0"
  shows "i = j"
proof -
  have "\<forall>i<NBUF. \<forall>j<NBUF. b_dev (d_buf s i) \<noteq> 0 \<and> b_dev (d_buf s i) = b_dev (d_buf s j) \<and>
        b_blockno (d_buf s i) = b_blockno (d_buf s j) \<longrightarrow> i = j"
    using assms(1) unfolding cache_inv_def by (elim conjE)
  from this [rule_format, OF assms(2,3)] show ?thesis using assms(4-6) by (simp add: is_block_def)
qed

lemma dirty_setI: "i < NBUF \<Longrightarrow> b_dirty (d_buf s i) \<Longrightarrow> (b_dev (d_buf s i), b_blockno (d_buf s i)) \<in> dirty_set s"
  by (auto simp: dirty_set_def)

lemma content_dirty:
  assumes "cache_inv H s" and "i < NBUF" "b_dirty (d_buf s i)" "is_block d n (d_buf s i)"
  shows "content s d n = b_data (d_buf s i)"
proof -
  have d: "d \<noteq> 0"
    using cache_invD(3) [OF assms(1,2)] assms(3,4) by (auto simp: buf_ok_def is_block_def Let_def)
  have "find (\<lambda>i. b_dirty (d_buf s i) \<and> is_block d n (d_buf s i)) [0..<NBUF] \<noteq> None"
    using assms(2-4) unfolding find_None_iff by auto
  then obtain j where f: "find (\<lambda>i. b_dirty (d_buf s i) \<and> is_block d n (d_buf s i)) [0..<NBUF] = Some j"
    by blast
  then have "j < NBUF" "is_block d n (d_buf s j)" by (auto simp: find_Some_iff)
  then have "j = i" using cache_inv_unique [OF assms(1)] assms(2,4) d by blast
  with f show ?thesis by (simp add: content_def)
qed

lemma dirty_iff:
  assumes "cache_inv H s" and "b < NBUF" "is_block d n (d_buf s b)" "d \<noteq> 0"
  shows "b_dirty (d_buf s b) \<longleftrightarrow> (d, n) \<in> dirty_set s"
proof
  assume "b_dirty (d_buf s b)"
  from dirty_setI [of b s, OF assms(2) this] show "(d, n) \<in> dirty_set s" using assms(3) by (simp add: is_block_def)
next
  assume "(d, n) \<in> dirty_set s"
  then obtain j where j: "j < NBUF" "b_dirty (d_buf s j)" "is_block d n (d_buf s j)"
    by (auto simp: dirty_set_def is_block_def)
  then have "j = b" using cache_inv_unique [OF assms(1) j(1) assms(2) j(3) assms(3,4)] by simp
  with j show "b_dirty (d_buf s b)" by simp
qed

lemma content_clean:
  assumes "(d, n) \<notin> dirty_set s"
  shows "content s d n = d_disk s d n"
proof -
  have "find (\<lambda>i. b_dirty (d_buf s i) \<and> is_block d n (d_buf s i)) [0..<NBUF] = None"
    unfolding find_None_iff using assms dirty_setI [of _ s] by (auto simp: is_block_def)
  then show ?thesis by (simp add: content_def)
qed

lemma content_unheld:
  assumes "cache_inv H s" and "i < NBUF" "i \<notin> H" "b_valid (d_buf s i)" "is_block d n (d_buf s i)" "d \<noteq> 0"
  shows "b_data (d_buf s i) = content s d n"
proof (cases "b_dirty (d_buf s i)")
  case True
  then show ?thesis using content_dirty [OF assms(1,2) True assms(5)] by simp
next
  case False
  have nd: "(d, n) \<notin> dirty_set s"
  proof
    assume "(d, n) \<in> dirty_set s"
    then obtain j where "j < NBUF" "b_dirty (d_buf s j)" "is_block d n (d_buf s j)"
      by (auto simp: dirty_set_def is_block_def)
    then show False using cache_inv_unique [OF assms(1,2)] assms(5,6) False by blast
  qed
  then show ?thesis
    using content_clean [OF nd] cache_invD(3) [OF assms(1,2)] assms(3-5) False
    by (auto simp: buf_ok_def is_block_def Let_def)
qed

lemma length_content:
  assumes "cache_inv H s"
  shows "length (content s d n) = BSIZE"
proof (cases "find (\<lambda>i. b_dirty (d_buf s i) \<and> is_block d n (d_buf s i)) [0..<NBUF]")
  case (Some i)
  then have "i < NBUF" by (auto simp: find_Some_iff)
  then show ?thesis using cache_invD(3) [OF assms] Some by (simp add: content_def buf_ok_def Let_def)
next
  case None
  then show ?thesis using cache_invD(4) [OF assms] by (simp add: content_def)
qed

text \<open>There is a buffer to recycle as long as fewer than \<open>NBUF\<close> are pinned or held.\<close>

lemma free_buffer:
  assumes inv: "cache_inv H s" and room: "card (dirty_set s) + card H < NBUF"
  shows "\<exists>i<NBUF. i \<notin> H \<and> \<not> b_dirty (d_buf s i)"
proof (rule ccontr)
  assume "\<not> ?thesis"
  then have all: "{..<NBUF} \<subseteq> H \<union> {i. i < NBUF \<and> b_dirty (d_buf s i)}" (is "_ \<subseteq> H \<union> ?D") by auto
  have fin: "finite H" "finite ?D"
    using cache_invD(2) [OF inv] by (auto intro: finite_subset [of _ "{..<NBUF}"])
  let ?f = "\<lambda>i. (b_dev (d_buf s i), b_blockno (d_buf s i))"
  have "inj_on ?f ?D"
  proof (rule inj_onI)
    fix i j assume i: "i \<in> ?D" and j: "j \<in> ?D" and e: "?f i = ?f j"
    have "b_dev (d_buf s i) \<noteq> 0" using cache_invD(3) [OF inv, of i] i by (auto simp: buf_ok_def Let_def)
    then show "i = j"
      using cache_inv_unique [OF inv, of i j "b_dev (d_buf s i)" "b_blockno (d_buf s i)"] i j e
      by (simp add: is_block_def)
  qed
  then have "card ?D = card (?f ` ?D)" by (simp add: card_image)
  also have "?f ` ?D = dirty_set s" by (auto simp: dirty_set_def)
  finally have "card ?D = card (dirty_set s)" .
  moreover have "NBUF \<le> card (H \<union> ?D)" using card_mono [OF _ all] fin by simp
  moreover have "card (H \<union> ?D) \<le> card H + card ?D" by (rule card_Un_le)
  ultimately show False using room by simp
qed

section \<open>Taking, changing and giving back a buffer\<close>

text \<open>The state after bread: buffer \<open>b\<close> of the cache now is \<open>q\<close>, and the process holds it.\<close>

definition takes :: "nat set \<Rightarrow> uint \<Rightarrow> uint \<Rightarrow> nat \<Rightarrow> buf \<Rightarrow> 'z dsk_scheme \<Rightarrow> bool" where
  "takes H d n b q s \<longleftrightarrow> b < NBUF \<and> b \<notin> H \<and> is_block d n q \<and> d \<noteq> 0 \<and> b_valid q \<and> b_refcnt q = 1 \<and>
     holdingsleep (d_pid s) (b_lock q) \<and> b_data q = content s d n \<and> (b_dirty q \<longleftrightarrow> (d, n) \<in> dirty_set s) \<and>
     (is_block d n (d_buf s b) \<or>
      \<not> b_dirty (d_buf s b) \<and> (\<forall>i<NBUF. \<not> is_block d n (d_buf s i)))"

lemma takes_other_block:
  assumes "cache_inv H s" and "takes H d n b q s" and "i < NBUF" "i \<noteq> b"
  shows "\<not> is_block d n (d_buf s i)"
  using assms(2) cache_inv_unique [OF assms(1,3), of b d n] assms(3,4) by (auto simp: takes_def)

lemma takes_inv:
  assumes inv: "cache_inv H s" and tk: "takes H d n b q s"
  shows "cache_inv (insert b H) (bupd b (\<lambda>_. q) s)"
proof -
  let ?t = "bupd b (\<lambda>_. q) s"
  note b = tk [unfolded takes_def]
  have ok: "buf_ok (insert b H) ?t i" if i: "i < NBUF" for i
  proof (cases "i = b")
    case True
    then show ?thesis
      using b length_content [OF inv, of d n] by (auto simp: buf_ok_def Let_def holds_def is_block_def)
  next
    case False
    then show ?thesis using cache_invD(3) [OF inv i] by (auto simp: buf_ok_def Let_def holds_def)
  qed
  have uniq: "i = j" if ij: "i < NBUF" "j < NBUF" "b_dev (d_buf ?t i) \<noteq> 0 \<and> b_dev (d_buf ?t i) = b_dev (d_buf ?t j) \<and>
        b_blockno (d_buf ?t i) = b_blockno (d_buf ?t j)" for i j
  proof -
    have o: "k < NBUF \<Longrightarrow> k \<noteq> b \<Longrightarrow> \<not> is_block d n (d_buf s k)" for k
      by (rule takes_other_block [OF inv tk])
    show ?thesis
      using ij o [of i] o [of j] b cache_inv_unique [OF inv ij(1,2), of "b_dev (d_buf s i)" "b_blockno (d_buf s i)"]
      by (cases "i = b"; cases "j = b") (simp_all add: is_block_def)
  qed
  show ?thesis
    unfolding cache_inv_def
  proof (intro conjI allI impI)
    show "\<exists>l. ring ?t l \<and> set l = {..<NBUF}" using cache_invD(1) [OF inv] by simp
    show "insert b H \<subseteq> {..<NBUF}" using cache_invD(2) [OF inv] b by auto
    show "length (d_disk ?t d n) = BSIZE" for d n using cache_invD(4) [OF inv] by simp
  qed (use ok uniq in blast)+
qed

lemma takes_dirty_set:
  assumes inv: "cache_inv H s" and tk: "takes H d n b q s"
  shows "dirty_set (bupd b (\<lambda>_. q) s) = dirty_set s"
proof -
  note b = tk [unfolded takes_def]
  have o: "k < NBUF \<Longrightarrow> is_block d n (d_buf s k) \<Longrightarrow> k = b" for k
    using takes_other_block [OF inv tk] by blast
  show ?thesis
  proof (intro set_eqI iffI)
    fix x assume "x \<in> dirty_set (bupd b (\<lambda>_. q) s)"
    then obtain i where i: "i < NBUF" "b_dirty (if i = b then q else d_buf s i)"
      "x = (b_dev (if i = b then q else d_buf s i), b_blockno (if i = b then q else d_buf s i))"
      by (auto simp: dirty_set_def)
    show "x \<in> dirty_set s"
    proof (cases "i = b")
      case True
      then have "x = (d, n)" "b_dirty q" using i b by (auto simp: is_block_def)
      then show ?thesis using b by blast
    next
      case False
      then show ?thesis using i by (auto simp: dirty_set_def)
    qed
  next
    fix x assume "x \<in> dirty_set s"
    then obtain i where i: "i < NBUF" "b_dirty (d_buf s i)" "x = (b_dev (d_buf s i), b_blockno (d_buf s i))"
      by (auto simp: dirty_set_def)
    show "x \<in> dirty_set (bupd b (\<lambda>_. q) s)"
    proof (cases "i = b")
      case True
      then have "is_block d n (d_buf s b)" using b i(2) by auto
      then have "x = (d, n)" "(d, n) \<in> dirty_set s" using i True dirty_setI [OF i(1,2)] by (auto simp: is_block_def)
      then have "b_dirty q" "x = (b_dev q, b_blockno q)" using b by (auto simp: is_block_def)
      then show ?thesis using i(1) True unfolding dirty_set_def by (auto intro!: exI [of _ b])
    next
      case False
      then show ?thesis using i unfolding dirty_set_def by (auto intro!: exI [of _ i])
    qed
  qed
qed

lemma takes_content:
  assumes inv: "cache_inv H s" and tk: "takes H d n b q s"
  shows "content (bupd b (\<lambda>_. q) s) d' n' = content s d' n'"
proof -
  let ?t = "bupd b (\<lambda>_. q) s"
  note b = tk [unfolded takes_def] and ti = takes_inv [OF inv tk] and td = takes_dirty_set [OF inv tk]
  show ?thesis
  proof (cases "(d', n') \<in> dirty_set s")
    case False
    then show ?thesis using content_clean [of d' n' s] content_clean [of d' n' ?t] td by simp
  next
    case True
    then obtain i where i: "i < NBUF" "b_dirty (d_buf s i)" "is_block d' n' (d_buf s i)"
      by (auto simp: dirty_set_def is_block_def)
    show ?thesis
    proof (cases "i = b")
      case False
      then show ?thesis
        using content_dirty [OF inv i] content_dirty [OF ti i(1), of d' n'] i by simp
    next
      case eq: True
      then have "is_block d n (d_buf s b)" using b i(2) by auto
      then have dn: "d' = d" "n' = n" using i eq by (auto simp: is_block_def)
      then have "b_dirty q" using b True by simp
      then show ?thesis using content_dirty [OF ti, of b d n] b dn by simp
    qed
  qed
qed

definition locked_by :: "int \<Rightarrow> buf \<Rightarrow> buf" where
  "locked_by pid p = p\<lparr>b_refcnt := 1, b_lock := (b_lock p)\<lparr>sl_locked := True, sl_pid := pid\<rparr>\<rparr>"

definition recycled :: "uint \<Rightarrow> uint \<Rightarrow> buf \<Rightarrow> buf" where
  "recycled d n p = p\<lparr>b_dev := d, b_blockno := n, b_valid := False, b_dirty := False\<rparr>"

lemma locked_by_simps [simp]:
  "b_valid (locked_by pid p) = b_valid p" "b_dirty (locked_by pid p) = b_dirty p"
  "b_data (locked_by pid p) = b_data p" "is_block d n (locked_by pid p) = is_block d n p"
  "holdingsleep pid (b_lock (locked_by pid p))" "b_refcnt (locked_by pid p) = 1"
  by (simp_all add: locked_by_def is_block_def holdingsleep_def)

lemma recycled_simps [simp]:
  "\<not> b_valid (recycled d n p)" "\<not> b_dirty (recycled d n p)" "b_data (recycled d n p) = b_data p"
  "is_block d n (recycled d n p)"
  by (simp_all add: recycled_def is_block_def)

text \<open>The least recently used buffer that can be recycled, from the tail of the ring.\<close>

lemma bget_ring:
  assumes inv: "cache_inv H s" and d: "d \<noteq> 0" and nh: "\<forall>i\<in>H. \<not> is_block d n (d_buf s i)"
    and r: "ring s l" "set l = {..<NBUF}"
  shows "bget d n s =
    (case find (\<lambda>b. is_block d n (d_buf s b)) l of
       Some b \<Rightarrow> Ok b (bupd b (locked_by (d_pid s)) s)
     | None \<Rightarrow> (case find (\<lambda>b. recyclable (d_buf s b)) (rev l) of
         Some b \<Rightarrow> Ok b (bupd b (\<lambda>p. locked_by (d_pid s) (recycled d n p)) s)
       | None \<Rightarrow> Panic ''bget: no buffers''))"
proof -
  have len: "length l \<le> NBUF"
    using r distinct_card [of l] by (simp add: ring_def)
  have unl: "\<not> sl_locked (b_lock (d_buf s b)) \<and> b_refcnt (d_buf s b) = 0" if "b < NBUF" "b \<notin> H" for b
    using cache_invD(3) [OF inv that(1)] that(2) by (simp add: buf_ok_def Let_def)
  show ?thesis
  proof (cases "find (\<lambda>b. is_block d n (d_buf s b)) l")
    case (Some b)
    then have "b \<in> set l" "is_block d n (d_buf s b)" by (auto dest: find_SomeD)
    then have "b < NBUF" "b \<notin> H" using r nh by auto
    with unl [OF this] Some show ?thesis
      by (simp add: bget_def ring_find_next [OF r(1) len] kthen_def kbind_def kret_def lock_buf_def acquiresleep_def)
         (simp add: bupd_def locked_by_def)
  next
    case None
    show ?thesis
    proof (cases "find (\<lambda>b. recyclable (d_buf s b)) (rev l)")
      case (Some b)
      then have "b \<in> set (rev l)" "recyclable (d_buf s b)" by (auto dest: find_SomeD)
      moreover have "b \<notin> H"
        using calculation cache_invD(3) [OF inv, of b] r by (auto simp: recyclable_def buf_ok_def Let_def)
      ultimately have "b < NBUF" "b \<notin> H" using r by auto
      with unl [OF this] None Some show ?thesis
        by (simp add: bget_def ring_find_next [OF r(1) len] ring_find_prev [OF r(1) len] kthen_def kbind_def
              kret_def lock_buf_def acquiresleep_def)
           (simp add: bupd_def locked_by_def recycled_def)
    next
      case n2: None
      then show ?thesis
        using None by (simp add: bget_def ring_find_next [OF r(1) len] ring_find_prev [OF r(1) len])
    qed
  qed
qed

context block_device
begin

lemma bread_spec:
  assumes inv: "cache_inv H s" and d: "d \<noteq> 0" "ready s d" "has s n"
    and nh: "\<forall>i\<in>H. \<not> is_block d n (d_buf s i)"
    and room: "(d, n) \<in> dirty_set s \<or> card (dirty_set s) + card H < NBUF"
  shows "\<exists>b q. bread rw d n s = Ok b (bupd b (\<lambda>_. q) s) \<and> takes H d n b q s"
proof -
  obtain l where r: "ring s l" "set l = {..<NBUF}" using cache_invD(1) [OF inv] by blast
  note bg = bget_ring [OF inv d(1) nh r]
  have read: "rw b (bupd b f s) = Ok () (bupd b (\<lambda>_. (f (d_buf s b))\<lparr>b_data := d_disk s d n, b_valid := True\<rparr>) s)"
    if "is_block d n (f (d_buf s b))" "\<not> b_valid (f (d_buf s b))" "\<not> b_dirty (f (d_buf s b))"
      "holdingsleep (d_pid s) (b_lock (f (d_buf s b)))" "length (b_data (f (d_buf s b))) = BSIZE" for b f
  proof -
    have "rw b (bupd b f s) = Ok () (rw_done b (bupd b f s))"
      using that d
      by (intro rw_spec) (simp_all add: is_block_def holds_def ready_cong [of "bupd b f s" s] has_cong [of "bupd b f s" s])
    then show ?thesis using that by (simp add: rw_done_def Let_def is_block_def)
  qed
  show ?thesis
  proof (cases "find (\<lambda>b. is_block d n (d_buf s b)) l")
    case (Some b)
    then have "b \<in> set l" and blk: "is_block d n (d_buf s b)" by (auto dest: find_SomeD)
    then have b: "b < NBUF" "b \<notin> H" using r nh by auto
    let ?p = "locked_by (d_pid s) (d_buf s b)"
    have ok: "length (b_data (d_buf s b)) = BSIZE" "b_dirty (d_buf s b) \<Longrightarrow> b_valid (d_buf s b)"
      using cache_invD(3) [OF inv b(1)] by (auto simp: buf_ok_def Let_def)
    have dirty: "b_dirty (d_buf s b) \<longleftrightarrow> (d, n) \<in> dirty_set s"
      by (rule dirty_iff [OF inv b(1) blk d(1)])
    show ?thesis
    proof (cases "b_valid (d_buf s b)")
      case True
      have e: "bread rw d n s = Ok b (bupd b (\<lambda>_. ?p) s)"
        using True by (simp add: bread_def kbind_def bg Some locked_by_def bupd_def)
      have "takes H d n b ?p s"
        using b blk True d(1) dirty content_unheld [OF inv b True blk d(1)]
        by (simp add: takes_def locked_by_def is_block_def holdingsleep_def)
      with e show ?thesis by blast
    next
      case False
      let ?q = "?p\<lparr>b_data := d_disk s d n, b_valid := True\<rparr>"
      have nd: "\<not> b_dirty (d_buf s b)" using False ok(2) by blast
      have g: "bget d n s = Ok b (bupd b (locked_by (d_pid s)) s)" by (simp add: bg Some)
      have e: "bread rw d n s = Ok b (bupd b (\<lambda>_. ?q) s)"
        using False read [of "locked_by (d_pid s)" b] blk nd ok(1)
        by (simp add: bread_def kbind_def kthen_def kret_def g)
      have "takes H d n b ?q s"
        using b blk d(1) dirty nd content_clean [of d n s]
        by (simp add: takes_def locked_by_def is_block_def holdingsleep_def)
      with e show ?thesis by blast
    qed
  next
    case None
    then have nb: "\<forall>i<NBUF. \<not> is_block d n (d_buf s i)" using r(2) by (auto simp: find_None_iff)
    then have nd: "(d, n) \<notin> dirty_set s" by (auto simp: dirty_set_def is_block_def)
    then obtain i where i: "i < NBUF" "i \<notin> H" "\<not> b_dirty (d_buf s i)" using free_buffer [OF inv] room by blast
    then have "recyclable (d_buf s i)" using cache_invD(3) [OF inv i(1)] by (auto simp: recyclable_def buf_ok_def Let_def)
    then have "find (\<lambda>b. recyclable (d_buf s b)) (rev l) \<noteq> None" using i(1) r(2) unfolding find_None_iff by auto
    then obtain b where f: "find (\<lambda>b. recyclable (d_buf s b)) (rev l) = Some b" by blast
    then have "b \<in> set (rev l)" and rc: "recyclable (d_buf s b)" by (auto dest: find_SomeD)
    then have b: "b < NBUF" using r by auto
    have bH: "b \<notin> H" and ok: "length (b_data (d_buf s b)) = BSIZE"
      using cache_invD(3) [OF inv b] rc by (auto simp: recyclable_def buf_ok_def Let_def)
    let ?q = "(locked_by (d_pid s) (recycled d n (d_buf s b)))\<lparr>b_data := d_disk s d n, b_valid := True\<rparr>"
    have g: "bget d n s = Ok b (bupd b (\<lambda>p. locked_by (d_pid s) (recycled d n p)) s)" by (simp add: bg None f)
    have e: "bread rw d n s = Ok b (bupd b (\<lambda>_. ?q) s)"
      using read [of "\<lambda>p. locked_by (d_pid s) (recycled d n p)" b] ok
      by (simp add: bread_def kbind_def kthen_def kret_def g)
    have "takes H d n b ?q s"
      using b bH d(1) nb nd rc content_clean [OF nd]
      by (simp add: takes_def locked_by_def recycled_def is_block_def holdingsleep_def recyclable_def)
    with e show ?thesis by blast
  qed
qed

lemma bwrite_spec:
  assumes inv: "cache_inv H s" and b: "b \<in> H"
    and d: "ready s (b_dev (d_buf s b))" "has s (b_blockno (d_buf s b))"
  shows "bwrite rw b s = Ok () (bupd b (\<lambda>p. p\<lparr>b_dirty := False\<rparr>)
    (disk_write (b_dev (d_buf s b)) (b_blockno (d_buf s b)) (b_data (d_buf s b)) s))"
proof -
  note ok = cache_invD(3) [OF inv cache_invD(2) [OF inv b], unfolded buf_ok_def Let_def]
  let ?s = "bupd b (\<lambda>p. p\<lparr>b_dirty := True\<rparr>) s"
  have "rw b ?s = Ok () (rw_done b ?s)"
    using ok b d by (intro rw_spec) (simp_all add: holds_def ready_cong [of ?s s] has_cong [of ?s s])
  moreover have "rw_done b ?s = bupd b (\<lambda>p. p\<lparr>b_dirty := False\<rparr>)
    (disk_write (b_dev (d_buf s b)) (b_blockno (d_buf s b)) (b_data (d_buf s b)) s)"
    using ok b by (simp add: rw_done_def Let_def bupd_def disk_write_def fun_upd_def fun_eq_iff)
  ultimately show ?thesis using ok b by (simp add: bwrite_def)
qed

end

lemma cache_inv_cong:
  assumes inv: "cache_inv H s"
    and r: "\<exists>l. ring t l \<and> set l = {..<NBUF}" and H: "H' \<subseteq> {..<NBUF}"
    and id: "\<And>i. i < NBUF \<Longrightarrow> b_dev (d_buf t i) = b_dev (d_buf s i) \<and> b_blockno (d_buf t i) = b_blockno (d_buf s i)"
    and ok: "\<And>i. i < NBUF \<Longrightarrow> buf_ok H s i \<Longrightarrow> buf_ok H' t i"
    and len: "\<And>d n. length (d_disk t d n) = BSIZE"
  shows "cache_inv H' t"
  unfolding cache_inv_def
proof (intro conjI allI impI)
  fix i j assume ij: "i < NBUF" "j < NBUF" "b_dev (d_buf t i) \<noteq> 0 \<and> b_dev (d_buf t i) = b_dev (d_buf t j) \<and>
    b_blockno (d_buf t i) = b_blockno (d_buf t j)"
  then show "i = j"
    using cache_inv_unique [OF inv ij(1,2), of "b_dev (d_buf s i)" "b_blockno (d_buf s i)"] id [OF ij(1)] id [OF ij(2)]
    by (auto simp: is_block_def)
next
  fix i assume "i < NBUF" then show "buf_ok H' t i" using ok cache_invD(3) [OF inv] by blast
qed (use r H len in auto)

text \<open>The holder may change the data and pin the buffer.\<close>

lemma modify_inv:
  assumes inv: "cache_inv H s" and b: "b \<in> H" and v: "length v = BSIZE"
  shows "cache_inv H (bupd b (\<lambda>p. p\<lparr>b_data := v, b_dirty := x\<rparr>) s)"
  using cache_invD(1,2,4) [OF inv] b v
  by (intro cache_inv_cong [OF inv]) (auto simp: buf_ok_def holds_def Let_def)

lemma bwrite_inv:
  assumes inv: "cache_inv H s" and b: "b \<in> H"
  shows "cache_inv H (bupd b (\<lambda>p. p\<lparr>b_dirty := False\<rparr>)
    (disk_write (b_dev (d_buf s b)) (b_blockno (d_buf s b)) (b_data (d_buf s b)) s))" (is "cache_inv H ?t")
proof (rule cache_inv_cong [OF inv])
  note bN = cache_invD(2) [OF inv b]
  note okb = cache_invD(3) [OF inv bN, unfolded buf_ok_def Let_def]
  show "\<exists>l. ring ?t l \<and> set l = {..<NBUF}" using cache_invD(1) [OF inv] by simp
  show "H \<subseteq> {..<NBUF}" using cache_invD(2) [OF inv] by blast
  show "length (d_disk ?t d n) = BSIZE" for d n using cache_invD(4) [OF inv] okb by simp
  show "b_dev (d_buf ?t i) = b_dev (d_buf s i) \<and> b_blockno (d_buf ?t i) = b_blockno (d_buf s i)" for i by simp
  fix i assume i: "i < NBUF" "buf_ok H s i"
  show "buf_ok H ?t i"
  proof (cases "i = b")
    case True then show ?thesis using i b by (simp add: buf_ok_def Let_def holds_def)
  next
    case False
    then have "\<not> (b_dev (d_buf s i) = b_dev (d_buf s b) \<and> b_blockno (d_buf s i) = b_blockno (d_buf s b))"
      using cache_inv_unique [OF inv i(1) bN, of "b_dev (d_buf s b)" "b_blockno (d_buf s b)"] okb b
      by (auto simp: is_block_def)
    then show ?thesis using i False by (auto simp: buf_ok_def Let_def holds_def)
  qed
qed

text \<open>brelse of a buffer that is pinned or agrees with the disk.\<close>

definition released :: "buf \<Rightarrow> buf" where
  "released p = p\<lparr>b_lock := releasesleep (b_lock p), b_refcnt := 0\<rparr>"

definition brelse_state :: "nat \<Rightarrow> 'z dsk_scheme \<Rightarrow> 'z dsk_scheme" where
  "brelse_state b s = insert_front b (unlink_buf b (bupd b released s))"

lemma brelse_state_simps [simp]:
  "d_buf (brelse_state b s) = (d_buf s)(b := released (d_buf s b))"
  "d_disk (brelse_state b s) = d_disk s" "d_trace (brelse_state b s) = d_trace s"
  "same_env r (brelse_state b s) = same_env r s" "dsk.more (brelse_state b s) = dsk.more s"
  "d_pid (brelse_state b s) = d_pid s" "d_queue (brelse_state b s) = d_queue s"
  "d_cmd (brelse_state b s) = d_cmd s" "d_havedisk1 (brelse_state b s) = d_havedisk1 s"
  "d_memsize (brelse_state b s) = d_memsize s"
  by (simp_all add: brelse_state_def insert_front_def unlink_buf_def Let_def same_env_def)

lemma brelse_spec:
  assumes inv: "cache_inv H s" and b: "b \<in> H"
  shows "brelse b s = Ok () (brelse_state b s)"
proof -
  note ok = cache_invD(3) [OF inv cache_invD(2) [OF inv b], unfolded buf_ok_def Let_def]
  then show ?thesis
    using b by (simp add: brelse_def Let_def brelse_state_def) (simp add: bupd_def released_def)
qed

lemma brelse_inv:
  assumes inv: "cache_inv H s" and b: "b \<in> H"
    and c: "b_dirty (d_buf s b) \<or> b_data (d_buf s b) = d_disk s (b_dev (d_buf s b)) (b_blockno (d_buf s b))"
  shows "cache_inv (H - {b}) (brelse_state b s)"
proof (rule cache_inv_cong [OF inv])
  note bN = cache_invD(2) [OF inv b]
  obtain l where l: "ring s l" "set l = {..<NBUF}" using cache_invD(1) [OF inv] by blast
  have "ring (brelse_state b s) (b # remove1 b l)"
    using l bN by (simp add: brelse_state_def touch_ring)
  moreover have "set (b # remove1 b l) = {..<NBUF}"
    using l bN by (auto simp: ring_def)
  ultimately show "\<exists>l. ring (brelse_state b s) l \<and> set l = {..<NBUF}" by blast
  show "H - {b} \<subseteq> {..<NBUF}" using cache_invD(2) [OF inv] by blast
  show "length (d_disk (brelse_state b s) d n) = BSIZE" for d n using cache_invD(4) [OF inv] by simp
qed (use b c in \<open>auto simp: buf_ok_def Let_def holds_def released_def releasesleep_def\<close>)

section \<open>Pinned blocks and contents across the steps of a holder\<close>

abbreviation blk_of :: "'z dsk_scheme \<Rightarrow> nat \<Rightarrow> uint \<times> uint" where
  "blk_of s b \<equiv> (b_dev (d_buf s b), b_blockno (d_buf s b))"

lemma held:
  assumes "cache_inv H s" and "b \<in> H"
  shows "b < NBUF" "holds s b" "b_dev (d_buf s b) \<noteq> 0" "length (b_data (d_buf s b)) = BSIZE" "b_valid (d_buf s b)"
  using cache_invD(2,3) [OF assms(1)] assms(2) by (auto simp: buf_ok_def Let_def)

lemma modify_dirty_set:
  assumes inv: "cache_inv H s" and b: "b \<in> H"
  shows "dirty_set (bupd b (\<lambda>p. p\<lparr>b_data := v, b_dirty := x\<rparr>) s) =
    (if x then insert (blk_of s b) (dirty_set s) else dirty_set s - {blk_of s b})" (is "dirty_set ?t = _")
proof -
  note h = held [OF inv b]
  have o: "blk_of s i \<noteq> blk_of s b" if "i < NBUF" "i \<noteq> b" for i
    using cache_inv_unique [OF inv that(1) h(1), of "b_dev (d_buf s b)" "b_blockno (d_buf s b)"] that(2) h(3)
    by (auto simp: is_block_def)
  have bd: "dirty_set ?t = {blk_of s i |i. i < NBUF \<and> (if i = b then x else b_dirty (d_buf s i))}"
    unfolding dirty_set_def by (intro Collect_cong) (auto split: if_splits)
  show ?thesis
  proof (intro set_eqI iffI)
    fix z assume "z \<in> dirty_set ?t"
    then obtain i where i: "i < NBUF" "if i = b then x else b_dirty (d_buf s i)" "z = blk_of s i"
      unfolding bd by blast
    then show "z \<in> (if x then insert (blk_of s b) (dirty_set s) else dirty_set s - {blk_of s b})"
      using o [of i] dirty_setI [of i s] by (cases "i = b") auto
  next
    fix z assume z: "z \<in> (if x then insert (blk_of s b) (dirty_set s) else dirty_set s - {blk_of s b})"
    show "z \<in> dirty_set ?t"
    proof (cases "x \<and> z = blk_of s b")
      case True then show ?thesis unfolding bd using h(1) by auto
    next
      case False
      then have zs: "z \<in> dirty_set s" and zb: "z \<noteq> blk_of s b" using z by (auto split: if_splits)
      from zs obtain i where "i < NBUF" "b_dirty (d_buf s i)" "z = blk_of s i" by (auto simp: dirty_set_def)
      with zb show ?thesis unfolding bd by (auto intro!: exI [of _ i])
    qed
  qed
qed

lemma modify_content:
  assumes inv: "cache_inv H s" and b: "b \<in> H" and v: "length v = BSIZE"
  shows "content (bupd b (\<lambda>p. p\<lparr>b_data := v, b_dirty := x\<rparr>) s) d n =
    (if (d, n) = blk_of s b then if x then v else d_disk s d n else content s d n)" (is "content ?t d n = _")
proof -
  note h = held [OF inv b] and ti = modify_inv [OF inv b v, of x] and td = modify_dirty_set [OF inv b, where v = v and x = x]
  show ?thesis
  proof (cases "(d, n) = blk_of s b")
    case True
    show ?thesis
    proof (cases x)
      case x: True
      have "content ?t d n = b_data (d_buf ?t b)"
        by (rule content_dirty [OF ti h(1)]) (use True x in \<open>auto simp: is_block_def\<close>)
      then show ?thesis using True x by simp
    next
      case False
      then have "(d, n) \<notin> dirty_set ?t" using td True by simp
      then show ?thesis using content_clean [of d n ?t] True False by simp
    qed
  next
    case ne: False
    show ?thesis
    proof (cases "(d, n) \<in> dirty_set s")
      case True
      then obtain i where i: "i < NBUF" "b_dirty (d_buf s i)" "is_block d n (d_buf s i)"
        by (auto simp: dirty_set_def is_block_def)
      then have "i \<noteq> b" using ne by (auto simp: is_block_def)
      then show ?thesis using content_dirty [OF inv i] content_dirty [OF ti i(1), of d n] i ne by auto
    next
      case False
      then have "(d, n) \<notin> dirty_set ?t" using td ne by auto
      then show ?thesis using content_clean [of d n ?t] content_clean [of d n s] False ne by auto
    qed
  qed
qed

lemma disk_write_dirty_set [simp]: "dirty_set (disk_write d n v s) = dirty_set s"
  by (simp add: dirty_set_def)

lemma same_env_disk_write [simp]: "same_env r (disk_write d n v s) = same_env r s"
  by (simp add: same_env_def)

lemma bwrite_content:
  assumes inv: "cache_inv H s" and b: "b \<in> H"
  defines "t \<equiv> bupd b (\<lambda>p. p\<lparr>b_dirty := False\<rparr>)
    (disk_write (b_dev (d_buf s b)) (b_blockno (d_buf s b)) (b_data (d_buf s b)) s)"
  shows "dirty_set t = dirty_set s - {blk_of s b}"
    and "content t d n = (if (d, n) = blk_of s b then b_data (d_buf s b) else content s d n)"
proof -
  let ?c = "bupd b (\<lambda>p. p\<lparr>b_data := b_data (d_buf s b), b_dirty := False\<rparr>) s"
  note h = held [OF inv b]
  have t: "d_buf t = d_buf ?c" by (simp add: t_def fun_eq_iff)
  then have ds: "dirty_set t = dirty_set ?c" by (simp add: dirty_set_def)
  then show td: "dirty_set t = dirty_set s - {blk_of s b}" using modify_dirty_set [OF inv b, where x = False] by simp
  note cc = modify_content [OF inv b h(4), of False d n]
  have ti: "cache_inv H t" unfolding t_def by (rule bwrite_inv [OF inv b])
  show "content t d n = (if (d, n) = blk_of s b then b_data (d_buf s b) else content s d n)"
  proof (cases "(d, n) \<in> dirty_set t")
    case True
    then obtain i where i: "i < NBUF" "b_dirty (d_buf t i)" "is_block d n (d_buf t i)"
      by (auto simp: dirty_set_def is_block_def)
    have "content t d n = content ?c d n"
      using content_dirty [OF ti i] content_dirty [OF modify_inv [OF inv b h(4), of False] i(1)] i t by simp
    then show ?thesis using cc True td by auto
  next
    case False
    have dk: "d_disk t d n = (if (d, n) = blk_of s b then b_data (d_buf s b) else d_disk s d n)"
      by (simp add: t_def)
    show ?thesis
    proof (cases "(d, n) = blk_of s b")
      case True
      then show ?thesis using content_clean [OF False] dk by simp
    next
      case ne: False
      then have "(d, n) \<notin> dirty_set s" using False td by simp
      then show ?thesis using content_clean [OF False] content_clean [of d n s] dk ne by auto
    qed
  qed
qed

lemma brelse_content:
  shows "dirty_set (brelse_state b s) = dirty_set s"
    and "content (brelse_state b s) d n = content s d n"
proof -
  have e: "b_dirty (d_buf (brelse_state b s) i) = b_dirty (d_buf s i)"
    "b_dev (d_buf (brelse_state b s) i) = b_dev (d_buf s i)"
    "b_blockno (d_buf (brelse_state b s) i) = b_blockno (d_buf s i)"
    "b_data (d_buf (brelse_state b s) i) = b_data (d_buf s i)" for i
    by (simp_all add: released_def)
  show "dirty_set (brelse_state b s) = dirty_set s" by (simp only: dirty_set_def e)
  show "content (brelse_state b s) d n = content s d n"
    by (simp only: content_def is_block_def e brelse_state_simps(2) split: option.split)
qed

end
