(* ===== verification/Log.thy ===== *)
theory Log
  imports Bio
begin

text \<open>
  log.c: the redo log under all file system operations. The operations are those of the code over
  the buffer cache; \<open>d_trace\<close> tells in which order blocks reach the disk, so that a crash is a
  prefix of the trace. The theorems: what commit writes and in which order, that recovery after a
  crash at any point yields the state before or after the whole transaction, and that the
  admission test of begin_op bounds the space an operation can use.
\<close>

section \<open>State and on-disk formats\<close>

definition LOGSIZE :: nat where "LOGSIZE = 30"
definition MAXOPBLOCKS :: nat where "MAXOPBLOCKS = 10"

text \<open>\<open>lg_block\<close> is the array lh.block; \<open>lg_start\<close> and \<open>lg_dev\<close> as the words bread gets.\<close>

record log_st = dsk +
  lg_start :: uint
  lg_size :: int
  lg_outstanding :: int
  lg_committing :: bool
  lg_dev :: uint
  lg_n :: int
  lg_block :: "uint list"

record superblock =
  sb_size :: uint
  sb_nblocks :: uint
  sb_ninodes :: uint
  sb_nlog :: uint
  sb_logstart :: uint
  sb_inodestart :: uint
  sb_bmapstart :: uint

definition superblock_of :: "block \<Rightarrow> superblock" where
  "superblock_of v = \<lparr>sb_size = get32 0 v, sb_nblocks = get32 4 v, sb_ninodes = get32 8 v,
     sb_nlog = get32 12 v, sb_logstart = get32 16 v, sb_inodestart = get32 20 v, sb_bmapstart = get32 24 v\<rparr>"

section \<open>Operations\<close>

fun for_each :: "(nat \<Rightarrow> ('s, unit) routine) \<Rightarrow> nat list \<Rightarrow> ('s, unit) routine" where
  "for_each f [] = kret ()"
| "for_each f (i # is) = kthen (f i) (for_each f is)"

definition readsb :: "'z driver \<Rightarrow> uint \<Rightarrow> ('z dsk_scheme, superblock) routine" where
  "readsb rw dev =
     kbind (bread rw dev 1) (\<lambda>b s.
       let sb = superblock_of (b_data (d_buf s b)) in kthen (brelse b) (kret sb) s)"

text \<open>One round of the loop of install_trans: log block \<open>tail\<close> to its home. Reading lh.block out of bounds is a fault.\<close>

definition install_one :: "('z log_st_ext) driver \<Rightarrow> nat \<Rightarrow> ('z log_st_scheme, unit) routine" where
  "install_one rw tail =
     kbind (\<lambda>s. bread rw (lg_dev s) (lg_start s + of_nat tail + 1) s) (\<lambda>lbuf.
     kbind (\<lambda>s. if tail < LOGSIZE then bread rw (lg_dev s) (lg_block s ! tail) s else Fault) (\<lambda>dbuf.
     kthen (kmod (\<lambda>s. bupd dbuf (\<lambda>p. p\<lparr>b_data := b_data (d_buf s lbuf)\<rparr>) s))
     (kthen (bwrite rw dbuf)
     (kthen (brelse lbuf)
     (brelse dbuf)))))"

definition install_trans :: "('z log_st_ext) driver \<Rightarrow> ('z log_st_scheme, unit) routine" where
  "install_trans rw s = for_each (install_one rw) [0..<nat (lg_n s)] s"

fun read_blocks :: "nat list \<Rightarrow> block \<Rightarrow> uint list \<Rightarrow> uint list option" where
  "read_blocks [] v bs = Some bs"
| "read_blocks (i # is) v bs =
     (if i < LOGSIZE then read_blocks is v (bs[i := get32 (4 + 4 * i) v]) else None)"

definition read_head :: "('z log_st_ext) driver \<Rightarrow> ('z log_st_scheme, unit) routine" where
  "read_head rw =
     kbind (\<lambda>s. bread rw (lg_dev s) (lg_start s) s) (\<lambda>b s.
       let v = b_data (d_buf s b); n = sint (get32 0 v) in
       case read_blocks [0..<nat n] v (lg_block s) of
         None \<Rightarrow> Fault
       | Some bs \<Rightarrow> brelse b (s\<lparr>lg_n := n, lg_block := bs\<rparr>))"

fun head_blocks :: "nat list \<Rightarrow> uint list \<Rightarrow> block \<Rightarrow> block" where
  "head_blocks [] bs v = v"
| "head_blocks (i # is) bs v = head_blocks is bs (put32 (4 + 4 * i) (bs ! i) v)"

definition head_of :: "int \<Rightarrow> uint list \<Rightarrow> block \<Rightarrow> block" where
  "head_of n bs v = head_blocks [0..<nat n] bs (put32 0 (word_of_int n) v)"

definition write_head :: "('z log_st_ext) driver \<Rightarrow> ('z log_st_scheme, unit) routine" where
  "write_head rw =
     kbind (\<lambda>s. bread rw (lg_dev s) (lg_start s) s) (\<lambda>b.
     kthen (kmod (\<lambda>s. bupd b (\<lambda>p. p\<lparr>b_data := head_of (lg_n s) (lg_block s) (b_data p)\<rparr>) s))
     (kthen (bwrite rw b)
     (brelse b)))"

definition recover_from_log :: "('z log_st_ext) driver \<Rightarrow> ('z log_st_scheme, unit) routine" where
  "recover_from_log rw =
     kthen (read_head rw)
     (kthen (install_trans rw)
     (kthen (kmod (\<lambda>s. s\<lparr>lg_n := 0\<rparr>))
     (write_head rw)))"

text \<open>initlog; a log header has 124 bytes and fits into a block.\<close>

definition initlog :: "('z log_st_ext) driver \<Rightarrow> uint \<Rightarrow> ('z log_st_scheme, unit) routine" where
  "initlog rw dev =
     kbind (readsb rw dev) (\<lambda>sb.
     kthen (kmod (\<lambda>s. s\<lparr>lg_start := sb_logstart sb, lg_size := sint (sb_nlog sb), lg_dev := dev\<rparr>))
     (recover_from_log rw))"

definition begin_op :: "('z log_st_scheme, unit) routine" where
  "begin_op s =
     (if lg_committing s then Hang
      else if lg_n s + (lg_outstanding s + 1) * int MAXOPBLOCKS > int LOGSIZE then Hang
      else Ok () (s\<lparr>lg_outstanding := lg_outstanding s + 1\<rparr>))"

definition write_log_one :: "('z log_st_ext) driver \<Rightarrow> nat \<Rightarrow> ('z log_st_scheme, unit) routine" where
  "write_log_one rw tail =
     kbind (\<lambda>s. bread rw (lg_dev s) (lg_start s + of_nat tail + 1) s) (\<lambda>to.
     kbind (\<lambda>s. if tail < LOGSIZE then bread rw (lg_dev s) (lg_block s ! tail) s else Fault) (\<lambda>frm.
     kthen (kmod (\<lambda>s. bupd to (\<lambda>p. p\<lparr>b_data := b_data (d_buf s frm)\<rparr>) s))
     (kthen (bwrite rw to)
     (kthen (brelse frm)
     (brelse to)))))"

definition write_log :: "('z log_st_ext) driver \<Rightarrow> ('z log_st_scheme, unit) routine" where
  "write_log rw s = for_each (write_log_one rw) [0..<nat (lg_n s)] s"

definition commit :: "('z log_st_ext) driver \<Rightarrow> ('z log_st_scheme, unit) routine" where
  "commit rw s =
     (if lg_n s > 0 then
        kthen (write_log rw)
        (kthen (write_head rw)
        (kthen (install_trans rw)
        (kthen (kmod (\<lambda>s. s\<lparr>lg_n := 0\<rparr>))
        (write_head rw)))) s
      else Ok () s)"

definition end_op :: "('z log_st_ext) driver \<Rightarrow> ('z log_st_scheme, unit) routine" where
  "end_op rw s =
     (let s = s\<lparr>lg_outstanding := lg_outstanding s - 1\<rparr> in
      if lg_committing s then Panic ''log.committing''
      else if lg_outstanding s = 0 then
        kthen (commit rw) (kmod (\<lambda>s. s\<lparr>lg_committing := False\<rparr>)) (s\<lparr>lg_committing := True\<rparr>)
      else Ok () s)"

text \<open>The search of log_write for the block in the first \<open>n\<close> entries: the index where it stops.\<close>

fun absorb :: "nat \<Rightarrow> nat \<Rightarrow> uint list \<Rightarrow> uint \<Rightarrow> nat" where
  "absorb 0 i bs bn = i"
| "absorb (Suc k) i bs bn = (if bs ! i = bn then i else absorb k (Suc i) bs bn)"

definition log_write :: "nat \<Rightarrow> ('z log_st_scheme, unit) routine" where
  "log_write b s =
     (if lg_n s \<ge> int LOGSIZE \<or> lg_n s \<ge> lg_size s - 1 then Panic ''too big a transaction''
      else if lg_outstanding s < 1 then Panic ''log_write outside of trans''
      else let bn = b_blockno (d_buf s b); i = absorb (nat (lg_n s)) 0 (lg_block s) bn;
               s = s\<lparr>lg_block := (lg_block s)[i := bn]\<rparr>;
               s = (if int i = lg_n s then s\<lparr>lg_n := lg_n s + 1\<rparr> else s)
        in Ok () (bupd b (\<lambda>p. p\<lparr>b_dirty := True\<rparr>) s))"

section \<open>Whole transfers through the cache\<close>

text \<open>What a process knows after bread returned \<open>b\<close>, and after the buffers it took are given back.\<close>

definition got :: "nat set \<Rightarrow> uint \<Rightarrow> uint \<Rightarrow> nat \<Rightarrow> 'z dsk_scheme \<Rightarrow> 'z dsk_scheme \<Rightarrow> bool" where
  "got H d n b s t \<longleftrightarrow> b \<notin> H \<and> cache_inv (insert b H) t \<and> is_block d n (d_buf t b) \<and>
     b_data (d_buf t b) = content s d n \<and> dirty_set t = dirty_set s \<and> content t = content s \<and>
     d_disk t = d_disk s \<and> d_trace t = d_trace s \<and> same_env s t \<and> (\<forall>j. j \<noteq> b \<longrightarrow> d_buf t j = d_buf s j)"

text \<open>One block has been written: \<open>v\<close> to block \<open>(d, n)\<close>; nobody holds a buffer.\<close>

definition wrote :: "uint \<Rightarrow> uint \<Rightarrow> block \<Rightarrow> 'z dsk_scheme \<Rightarrow> 'z dsk_scheme \<Rightarrow> bool" where
  "wrote d n v s t \<longleftrightarrow> cache_inv {} t \<and> d_disk t = (d_disk s)(d := (d_disk s d)(n := v)) \<and>
     d_trace t = d_trace s @ [(d, n, v)] \<and> dirty_set t = dirty_set s - {(d, n)} \<and>
     (\<forall>d' n'. content t d' n' = (if (d', n') = (d, n) then v else content s d' n')) \<and> same_env s t"

lemma modify_data:
  assumes inv: "cache_inv H s" and b: "b \<in> H" and v: "length v = BSIZE"
  defines "t \<equiv> bupd b (\<lambda>p. p\<lparr>b_data := v\<rparr>) s"
  shows "cache_inv H t" and "dirty_set t = dirty_set s"
    and "(d, n) \<noteq> blk_of s b \<Longrightarrow> content t d n = content s d n"
proof -
  let ?x = "b_dirty (d_buf s b)"
  have t: "t = bupd b (\<lambda>p. p\<lparr>b_data := v, b_dirty := ?x\<rparr>) s"
    by (simp add: t_def bupd_def)
  show "cache_inv H t" unfolding t by (rule modify_inv [OF inv b v])
  have "?x \<longleftrightarrow> blk_of s b \<in> dirty_set s"
    using held(1,3) [OF inv b] by (intro dirty_iff [OF inv]) (simp_all add: is_block_def)
  then show "dirty_set t = dirty_set s"
    unfolding t modify_dirty_set [OF inv b] by auto
  show "content t d n = content s d n" if "(d, n) \<noteq> blk_of s b"
    unfolding t modify_content [OF inv b v] if_not_P [OF that] ..
qed

context block_device
begin

lemma bread_got:
  assumes inv: "cache_inv H s" and d: "d \<noteq> 0" "ready s d" "has s n"
    and nh: "\<forall>i\<in>H. \<not> is_block d n (d_buf s i)"
    and room: "(d, n) \<in> dirty_set s \<or> card (dirty_set s) + card H < NBUF"
  obtains b t where "bread rw d n s = Ok b t" "got H d n b s t"
proof -
  obtain b q where e: "bread rw d n s = Ok b (bupd b (\<lambda>_. q) s)" and t: "takes H d n b q s"
    using bread_spec [OF inv d nh room] by blast
  have "got H d n b s (bupd b (\<lambda>_. q) s)"
    using t takes_inv [OF inv t] takes_dirty_set [OF inv t] takes_content [OF inv t]
    by (simp add: got_def takes_def fun_eq_iff)
  with e that show ?thesis by blast
qed

text \<open>Write a held buffer and give it back.\<close>

lemma write_release:
  assumes inv: "cache_inv H s" and y: "y \<in> H" and d: "ready s (b_dev (d_buf s y))" "has s (b_blockno (d_buf s y))"
    and v: "length v = BSIZE"
  defines "t \<equiv> bupd y (\<lambda>p. p\<lparr>b_dirty := False\<rparr>)
    (disk_write (b_dev (d_buf s y)) (b_blockno (d_buf s y)) v (bupd y (\<lambda>p. p\<lparr>b_data := v\<rparr>) s))"
  shows "bwrite rw y (bupd y (\<lambda>p. p\<lparr>b_data := v\<rparr>) s) = Ok () t" and "cache_inv H t"
    and "dirty_set t = dirty_set s - {blk_of s y}"
    and "content t d n = (if (d, n) = blk_of s y then v else content s d n)"
proof -
  let ?s = "bupd y (\<lambda>p. p\<lparr>b_data := v\<rparr>) s"
  note m = modify_data [OF inv y v]
  have "ready ?s (b_dev (d_buf s y))" "has ?s (b_blockno (d_buf s y))"
    using d ready_cong [of ?s s] has_cong [of ?s s] by simp_all
  then show "bwrite rw y ?s = Ok () t"
    using bwrite_spec [OF m(1) y] by (simp add: t_def)
  show "cache_inv H t" using bwrite_inv [OF m(1) y] by (simp add: t_def)
  show "dirty_set t = dirty_set s - {blk_of s y}"
    using bwrite_content(1) [OF m(1) y] m(2) by (simp add: t_def)
  have "content t d n = (if (d, n) = blk_of s y then v else content ?s d n)"
    using bwrite_content(2) [OF m(1) y, of d n] by (simp add: t_def)
  then show "content t d n = (if (d, n) = blk_of s y then v else content s d n)"
    using m(3) [of d n] by (cases "(d, n) = blk_of s y") auto
qed

lemma move_block:
  assumes inv: "cache_inv {x, y} s" and xy: "x \<noteq> y"
    and d: "ready s (b_dev (d_buf s y))" "has s (b_blockno (d_buf s y))"
    and c: "b_data (d_buf s x) = content s (b_dev (d_buf s x)) (b_blockno (d_buf s x))"
  shows "\<exists>t. kthen (kmod (\<lambda>s. bupd y (\<lambda>p. p\<lparr>b_data := b_data (d_buf s x)\<rparr>) s))
      (kthen (bwrite rw y) (kthen (brelse x) (brelse y))) s = Ok () t \<and>
    wrote (b_dev (d_buf s y)) (b_blockno (d_buf s y)) (b_data (d_buf s x)) s t"
proof -
  let ?v = "b_data (d_buf s x)"
  let ?s1 = "bupd y (\<lambda>p. p\<lparr>b_data := ?v\<rparr>) s"
  let ?s2 = "bupd y (\<lambda>p. p\<lparr>b_dirty := False\<rparr>)
    (disk_write (b_dev (d_buf s y)) (b_blockno (d_buf s y)) ?v ?s1)"
  let ?s3 = "brelse_state x ?s2" and ?s4 = "brelse_state y (brelse_state x ?s2)"
  have xin: "x \<in> {x, y}" and yin: "y \<in> {x, y}" by simp_all
  note hx = held [OF inv xin] and hy = held [OF inv yin]
  note w = write_release [OF inv yin d hx(4)]
  have nb: "blk_of s x \<noteq> blk_of s y"
    using cache_inv_unique [OF inv hx(1) hy(1), of "b_dev (d_buf s y)" "b_blockno (d_buf s y)"] hy(3) xy
    by (auto simp: is_block_def)
  have rx: "b_dirty (d_buf s x) \<or> ?v = d_disk s (b_dev (d_buf s x)) (b_blockno (d_buf s x))"
    using c content_clean dirty_iff [OF inv hx(1), of "b_dev (d_buf s x)" "b_blockno (d_buf s x)"] hx(3)
    by (auto simp: is_block_def)
  have i3: "cache_inv ({x, y} - {x}) ?s3"
    using brelse_inv [OF w(2) xin] rx nb xy by auto
  have i3': "{x, y} - {x} = {y}" using xy by blast
  have i4: "cache_inv ({y} - {y}) ?s4"
    using brelse_inv [OF i3 [unfolded i3'], of y] xy by simp
  have b3: "brelse x ?s2 = Ok () ?s3" by (rule brelse_spec [OF w(2) xin])
  have b4: "brelse y ?s3 = Ok () ?s4" by (rule brelse_spec [OF i3 [unfolded i3']]) simp
  have e: "kthen (kmod (\<lambda>s. bupd y (\<lambda>p. p\<lparr>b_data := b_data (d_buf s x)\<rparr>) s))
      (kthen (bwrite rw y) (kthen (brelse x) (brelse y))) s = Ok () ?s4"
    by (simp add: kthen_def kbind_def w(1) b3 b4)
  have "wrote (b_dev (d_buf s y)) (b_blockno (d_buf s y)) ?v s ?s4"
    unfolding wrote_def using i4 w(3,4) by (simp add: brelse_content)
  with e show ?thesis by blast
qed

end

section \<open>Sequences of block writes\<close>

type_synonym wr = "uint \<times> uint \<times> block"

fun apply_write :: "wr \<Rightarrow> (uint \<Rightarrow> uint \<Rightarrow> block) \<Rightarrow> (uint \<Rightarrow> uint \<Rightarrow> block)" where
  "apply_write (d, n, v) D = D(d := (D d)(n := v))"

definition apply_writes :: "wr list \<Rightarrow> (uint \<Rightarrow> uint \<Rightarrow> block) \<Rightarrow> (uint \<Rightarrow> uint \<Rightarrow> block)" where
  "apply_writes ws D = fold apply_write ws D"

definition wr_blk :: "wr \<Rightarrow> uint \<times> uint" where
  "wr_blk w = (fst w, fst (snd w))"

lemma apply_writes_simps [simp]:
  "apply_writes [] D = D" "apply_writes (ws @ vs) D = apply_writes vs (apply_writes ws D)"
  "apply_writes [(d, n, v)] D = D(d := (D d)(n := v))"
  by (simp_all add: apply_writes_def)

lemma apply_writes_other: "(d, n) \<notin> wr_blk ` set ws \<Longrightarrow> apply_writes ws D d n = D d n"
proof (induction ws arbitrary: D)
  case (Cons w ws)
  obtain d' n' v where w: "w = (d', n', v)" by (cases w)
  have "apply_writes (w # ws) D = apply_writes ws (apply_write w D)" by (simp add: apply_writes_def)
  then show ?case using Cons by (auto simp: w wr_blk_def)
qed simp

lemma apply_writes_nth:
  assumes "k < length ws" and "distinct (map wr_blk ws)" and "ws ! k = (d, n, v)"
  shows "apply_writes ws D d n = v"
proof -
  have ws: "ws = take k ws @ [(d, n, v)] @ drop (Suc k) ws"
    using assms(1,3) id_take_nth_drop [OF assms(1)] by simp
  have "(d, n) \<notin> wr_blk ` set (drop (Suc k) ws)"
  proof
    assume "(d, n) \<in> wr_blk ` set (drop (Suc k) ws)"
    then obtain i where i: "i < length (drop (Suc k) ws)" "wr_blk (drop (Suc k) ws ! i) = (d, n)"
      by (auto simp: in_set_conv_nth)
    then have "Suc k + i < length ws" "map wr_blk ws ! (Suc k + i) = map wr_blk ws ! k"
      using assms(1,3) by (auto simp: wr_blk_def)
    then show False using nth_eq_iff_index_eq [OF assms(2), of "Suc k + i" k] assms(1) by simp
  qed
  then have "apply_writes (drop (Suc k) ws) (apply_writes [(d, n, v)] (apply_writes (take k ws) D)) d n = v"
    by (subst apply_writes_other) simp_all
  then show ?thesis by (metis apply_writes_simps(2) ws)
qed

text \<open>The blocks \<open>ws\<close> have been written in that order, through the cache; nobody holds a buffer.\<close>

definition same_hw :: "'z dsk_scheme \<Rightarrow> 'z dsk_scheme \<Rightarrow> bool" where
  "same_hw s t \<longleftrightarrow> d_queue t = d_queue s \<and> d_cmd t = d_cmd s \<and> d_havedisk1 t = d_havedisk1 s \<and>
     d_memsize t = d_memsize s \<and> d_pid t = d_pid s"

definition wrotes :: "wr list \<Rightarrow> 'z dsk_scheme \<Rightarrow> 'z dsk_scheme \<Rightarrow> bool" where
  "wrotes ws s t \<longleftrightarrow> cache_inv {} t \<and> d_disk t = apply_writes ws (d_disk s) \<and>
     content t = apply_writes ws (content s) \<and> d_trace t = d_trace s @ ws \<and>
     dirty_set t = dirty_set s - wr_blk ` set ws \<and> same_hw s t"

lemma wrote_wrotes: "wrote d n v s t \<Longrightarrow> wrotes [(d, n, v)] s t \<and> dsk.more t = dsk.more s"
  by (auto simp: wrote_def wrotes_def wr_blk_def same_hw_def same_env_def fun_eq_iff)

lemma wrotes_Nil: "cache_inv {} s \<Longrightarrow> wrotes [] s s"
  by (simp add: wrotes_def same_hw_def)

lemma wrotes_append: "wrotes ws s t \<Longrightarrow> wrotes vs t u \<Longrightarrow> wrotes (ws @ vs) s u"
  by (auto simp: wrotes_def same_hw_def)

lemma for_each_upt:
  assumes "P 0 s" and "\<And>k s. k < n \<Longrightarrow> P k s \<Longrightarrow> \<exists>t. f k s = Ok () t \<and> P (Suc k) t"
  shows "\<exists>t. for_each f [0..<n] s = Ok () t \<and> P n t"
proof -
  have "\<exists>t. for_each f [m..<n] s = Ok () t \<and> P n t" if "P m s" "m \<le> n" for m s
    using that
  proof (induction "n - m" arbitrary: m s)
    case 0
    then show ?case by (simp add: kret_def)
  next
    case (Suc k)
    then have m: "m < n" by simp
    obtain t where t: "f m s = Ok () t" "P (Suc m) t" using assms(2) [OF m Suc.prems(1)] by blast
    have "\<exists>u. for_each f [Suc m..<n] t = Ok () u \<and> P n u" using t(2) m Suc.hyps by (intro Suc.hyps(1)) auto
    then show ?case using t(1) m by (simp add: upt_conv_Cons kthen_Ok)
  qed
  from this [OF assms(1)] show ?thesis by simp
qed

text \<open>The log state is behind the block layer: the routines below it do not change it.\<close>

lemma bupd_log_fields [simp]:
  "lg_start (bupd b f s) = lg_start s" "lg_size (bupd b f s) = lg_size s"
  "lg_outstanding (bupd b f s) = lg_outstanding s" "lg_committing (bupd b f s) = lg_committing s"
  "lg_dev (bupd b f s) = lg_dev s" "lg_n (bupd b f s) = lg_n s" "lg_block (bupd b f s) = lg_block s"
  by (simp_all add: bupd_def)

lemma more_fields:
  fixes s t :: "'z log_st_scheme"
  assumes "dsk.more t = dsk.more s"
  shows "lg_start t = lg_start s" "lg_size t = lg_size s" "lg_outstanding t = lg_outstanding s"
    "lg_committing t = lg_committing s" "lg_dev t = lg_dev s" "lg_n t = lg_n s" "lg_block t = lg_block s"
    "log_st.more t = log_st.more s"
  using assms by (cases s; cases t; simp)+

context block_device
begin

lemma env_ready: "same_hw s t \<Longrightarrow> ready t d = ready s d" "same_hw s t \<Longrightarrow> has t n = has s n"
  using ready_cong [of t s d] has_cong [of t s n] by (simp_all add: same_hw_def)

lemma bread2:
  assumes inv: "cache_inv {} s" and d: "d \<noteq> 0" "ready s d" "has s a" "has s b" and ab: "a \<noteq> b"
    and room: "(d, a) \<in> dirty_set s \<or> card (dirty_set s) < NBUF"
      "(d, b) \<in> dirty_set s \<or> card (dirty_set s) + 1 < NBUF"
  obtains x y t1 t2 where "bread rw d a s = Ok x t1" "bread rw d b t1 = Ok y t2" "x \<noteq> y"
    "cache_inv {x, y} t2" "is_block d a (d_buf t2 x)" "is_block d b (d_buf t2 y)"
    "b_data (d_buf t2 x) = content s d a" "b_data (d_buf t2 y) = content s d b"
    "dirty_set t2 = dirty_set s" "content t2 = content s" "d_disk t2 = d_disk s" "d_trace t2 = d_trace s"
    "same_env s t1" "same_env s t2"
proof -
  obtain x t1 where 1: "bread rw d a s = Ok x t1" "got {} d a x s t1"
    by (rule bread_got [OF inv d(1-3)]) (use room in auto)
  have hw: "same_hw s t1" using 1(2) by (simp add: got_def same_env_def same_hw_def)
  have inv1: "cache_inv {x} t1" using 1(2) by (simp add: got_def)
  obtain y t2 where 2: "bread rw d b t1 = Ok y t2" "got {x} d b y t1 t2"
  proof (rule bread_got [OF inv1 d(1)])
    show "ready t1 d" "has t1 b" using d env_ready [OF hw] by simp_all
    show "\<forall>i\<in>{x}. \<not> is_block d b (d_buf t1 i)" using 1(2) ab by (auto simp: got_def is_block_def)
    show "(d, b) \<in> dirty_set t1 \<or> card (dirty_set t1) + card {x} < NBUF" using room(2) 1(2) by (simp add: got_def)
  qed
  have i2: "cache_inv {x, y} t2" using 2(2) by (simp add: got_def insert_commute)
  show ?thesis
    by (rule that [OF 1(1) 2(1)]) (use 1(2) 2(2) i2 in \<open>auto simp: got_def intro: same_env_trans\<close>)
qed

end

locale log_device = block_device rw ready has
  for rw :: "nat \<Rightarrow> 'z log_st_scheme \<Rightarrow> ('z log_st_scheme, unit) outcome"
    and ready :: "'z log_st_scheme \<Rightarrow> uint \<Rightarrow> bool"
    and has :: "'z log_st_scheme \<Rightarrow> uint \<Rightarrow> bool"

text \<open>
  The log in memory names the blocks \<open>bs\<close>, none of them a block of the log itself; the drive has
  all of them.
\<close>

definition log_area :: "'z log_st_scheme \<Rightarrow> uint set" where
  "log_area s = (\<lambda>k. lg_start s + of_nat k) ` {..LOGSIZE}"

definition log_names :: "('z log_st_scheme \<Rightarrow> uint \<Rightarrow> bool) \<Rightarrow> ('z log_st_scheme \<Rightarrow> uint \<Rightarrow> bool) \<Rightarrow>
    'z log_st_scheme \<Rightarrow> uint list \<Rightarrow> bool" where
  "log_names ready has s bs \<longleftrightarrow> lg_dev s \<noteq> 0 \<and> ready s (lg_dev s) \<and> (\<forall>n\<in>log_area s. has s n) \<and>
     lg_n s = int (length bs) \<and> length bs < LOGSIZE \<and> length (lg_block s) = LOGSIZE \<and>
     take (length bs) (lg_block s) = bs \<and> distinct bs \<and> (\<forall>b\<in>set bs. has s b \<and> b \<notin> log_area s)"

definition install_writes :: "uint \<Rightarrow> uint list \<Rightarrow> (nat \<Rightarrow> block) \<Rightarrow> nat \<Rightarrow> wr list" where
  "install_writes d bs v k = map (\<lambda>j. (d, bs ! j, v j)) [0..<k]"

definition log_writes :: "uint \<Rightarrow> uint \<Rightarrow> (nat \<Rightarrow> block) \<Rightarrow> nat \<Rightarrow> wr list" where
  "log_writes d start v k = map (\<lambda>j. (d, start + of_nat j + 1, v j)) [0..<k]"

lemma install_writes_Suc: "install_writes d bs v (Suc k) = install_writes d bs v k @ [(d, bs ! k, v k)]"
  by (simp add: install_writes_def)

lemma log_writes_Suc: "log_writes d start v (Suc k) = log_writes d start v k @ [(d, start + of_nat k + 1, v k)]"
  by (simp add: log_writes_def)

lemma log_area_mem: "k < LOGSIZE \<Longrightarrow> lg_start s + of_nat k + 1 \<in> log_area s" "lg_start s \<in> log_area s"
proof -
  show "lg_start s \<in> log_area s" by (auto simp: log_area_def intro!: image_eqI [of _ _ 0])
  show "k < LOGSIZE \<Longrightarrow> lg_start s + of_nat k + 1 \<in> log_area s"
    by (auto simp: log_area_def intro!: image_eqI [of _ _ "Suc k"])
qed

context log_device
begin

lemma log_names_cong:
  assumes "same_hw s t" and "dsk.more t = dsk.more s"
  shows "log_names ready has t bs = log_names ready has s bs"
  using env_ready [OF assms(1)] more_fields [OF assms(2)] by (simp add: log_names_def log_area_def)

lemma names_nth:
  assumes "log_names ready has s bs" and "k < length bs"
  shows "lg_block s ! k = bs ! k" "k < LOGSIZE" "has s (bs ! k)" "bs ! k \<notin> log_area s"
    "lg_start s + of_nat k + 1 \<noteq> bs ! k" "has s (lg_start s + of_nat k + 1)"
proof -
  show *: "k < LOGSIZE" using assms by (simp add: log_names_def)
  have "take (length bs) (lg_block s) ! k = bs ! k" using assms by (simp add: log_names_def)
  then show "lg_block s ! k = bs ! k" using assms(2) by simp
  show "has s (bs ! k)" and na: "bs ! k \<notin> log_area s" using assms by (auto simp: log_names_def)
  show "lg_start s + of_nat k + 1 \<noteq> bs ! k" using na log_area_mem(1) [OF *, of s] by metis
  show "has s (lg_start s + of_nat k + 1)" using assms(1) log_area_mem(1) [OF *, of s] by (auto simp: log_names_def)
qed

lemma install_one_spec:
  assumes inv: "cache_inv {} s" and nm: "log_names ready has s bs" and k: "k < length bs"
    and room: "card (dirty_set s) < NBUF"
      "(lg_dev s, bs ! k) \<in> dirty_set s \<or> card (dirty_set s) + 1 < NBUF"
  shows "\<exists>t. install_one rw k s = Ok () t \<and> dsk.more t = dsk.more s \<and>
    wrotes [(lg_dev s, bs ! k, content s (lg_dev s) (lg_start s + of_nat k + 1))] s t"
proof -
  note nn = names_nth [OF nm k]
  have d: "lg_dev s \<noteq> 0" "ready s (lg_dev s)" using nm by (auto simp: log_names_def)
  obtain x y t1 t2 where b: "bread rw (lg_dev s) (lg_start s + of_nat k + 1) s = Ok x t1"
    "bread rw (lg_dev s) (bs ! k) t1 = Ok y t2" "x \<noteq> y" "cache_inv {x, y} t2"
    "is_block (lg_dev s) (lg_start s + of_nat k + 1) (d_buf t2 x)" "is_block (lg_dev s) (bs ! k) (d_buf t2 y)"
    "b_data (d_buf t2 x) = content s (lg_dev s) (lg_start s + of_nat k + 1)"
    "dirty_set t2 = dirty_set s" "content t2 = content s" "d_disk t2 = d_disk s" "d_trace t2 = d_trace s"
    "same_env s t1" "same_env s t2"
    by (rule bread2 [OF inv d nn(6,3,5)]) (use room in auto)
  have m1: "dsk.more t1 = dsk.more s" using b(12) by (simp add: same_env_def)
  have hw: "same_hw s t2" using b(13) by (simp add: same_env_def same_hw_def)
  have mv: "\<exists>t. kthen (kmod (\<lambda>s. bupd y (\<lambda>p. p\<lparr>b_data := b_data (d_buf s x)\<rparr>) s))
      (kthen (bwrite rw y) (kthen (brelse x) (brelse y))) t2 = Ok () t \<and>
      wrote (b_dev (d_buf t2 y)) (b_blockno (d_buf t2 y)) (b_data (d_buf t2 x)) t2 t"
    by (rule move_block [OF b(4,3)]) (use b(5-9) d nn(3) env_ready [OF hw] in \<open>simp_all add: is_block_def\<close>)
  then obtain t where t: "kthen (kmod (\<lambda>s. bupd y (\<lambda>p. p\<lparr>b_data := b_data (d_buf s x)\<rparr>) s))
      (kthen (bwrite rw y) (kthen (brelse x) (brelse y))) t2 = Ok () t"
      "wrote (lg_dev s) (bs ! k) (content s (lg_dev s) (lg_start s + of_nat k + 1)) t2 t"
    using b(6,7) by (auto simp: is_block_def)
  have "install_one rw k s = Ok () t"
    using nn(1,2) more_fields [OF m1]
    by (simp add: install_one_def kbind_Ok [of "\<lambda>s. bread rw (lg_dev s) (lg_start s + of_nat k + 1) s", OF b(1)]
      kbind_def b(1,2) t(1))
  moreover have "wrotes [(lg_dev s, bs ! k, content s (lg_dev s) (lg_start s + of_nat k + 1))] s t"
    using wrote_wrotes [OF t(2)] b(8-11) hw by (auto simp: wrotes_def same_hw_def)
  moreover have "dsk.more t = dsk.more s"
    using wrote_wrotes [OF t(2)] b(13) by (simp add: same_env_def)
  ultimately show ?thesis by blast
qed

end

lemma length_head_blocks:
  "(\<And>i. i \<in> set is \<Longrightarrow> 8 + 4 * i \<le> length v) \<Longrightarrow> length (head_blocks is bs v) = length v"
  by (induction "is" arbitrary: v) auto

lemma length_head_of: "n \<le> int LOGSIZE \<Longrightarrow> length v = BSIZE \<Longrightarrow> length (head_of n bs v) = BSIZE"
  unfolding head_of_def by (subst length_head_blocks) (auto simp: BSIZE_def LOGSIZE_def)

lemma wr_blk_log: "n \<notin> log_area s \<Longrightarrow> k \<le> LOGSIZE \<Longrightarrow> (d, n) \<notin> wr_blk ` set (log_writes d' (lg_start s) v k)"
  using log_area_mem(1) [of _ s] by (auto simp: log_writes_def wr_blk_def)

lemma wr_blk_install: "n \<notin> set bs \<Longrightarrow> k \<le> length bs \<Longrightarrow> (d, n) \<notin> wr_blk ` set (install_writes d' bs v k)"
  by (auto simp: install_writes_def wr_blk_def)

context log_device
begin

lemma install_spec:
  assumes inv: "cache_inv {} s" and nm: "log_names ready has s bs" and len: "length bs < NBUF"
    and dirty: "dirty_set s = {} \<or> dirty_set s = Pair (lg_dev s) ` set bs"
  shows "\<exists>t. install_trans rw s = Ok () t \<and> dsk.more t = dsk.more s \<and>
    wrotes (install_writes (lg_dev s) bs (\<lambda>k. content s (lg_dev s) (lg_start s + of_nat k + 1)) (length bs)) s t"
proof -
  let ?v = "\<lambda>k. content s (lg_dev s) (lg_start s + of_nat k + 1)"
  let ?P = "\<lambda>k t. dsk.more t = dsk.more s \<and> wrotes (install_writes (lg_dev s) bs ?v k) s t"
  have dist: "distinct bs" using nm by (simp add: log_names_def)
  have step: "\<exists>u. install_one rw k t = Ok () u \<and> ?P (Suc k) u" if k: "k < length bs" and P: "?P k t" for k t
  proof -
    from P have m: "dsk.more t = dsk.more s" and w: "wrotes (install_writes (lg_dev s) bs ?v k) s t" by blast+
    have hw: "same_hw s t" and it: "cache_inv {} t"
      and dt: "dirty_set t = dirty_set s - wr_blk ` set (install_writes (lg_dev s) bs ?v k)"
      using w by (auto simp: wrotes_def)
    note mf = more_fields [OF m]
    have nt: "log_names ready has t bs" using nm log_names_cong [OF hw m] by simp
    have sub: "dirty_set t \<subseteq> Pair (lg_dev s) ` set bs" using dirty dt by auto
    have c: "card (dirty_set t) < NBUF"
      using card_mono [OF _ sub] card_image_le [of "set bs" "Pair (lg_dev s)"] card_length [of bs] len by simp
    have "(lg_dev s, bs ! k) \<in> dirty_set t \<or> card (dirty_set t) + 1 < NBUF"
    proof (cases "dirty_set s = {}")
      case True
      then show ?thesis using dt by (simp add: NBUF_def)
    next
      case False
      have "bs ! k \<noteq> bs ! j" if "j < k" for j using dist k that by (auto simp: nth_eq_iff_index_eq)
      then have "(lg_dev s, bs ! k) \<notin> wr_blk ` set (install_writes (lg_dev s) bs ?v k)"
        by (fastforce simp: install_writes_def wr_blk_def)
      then show ?thesis using False dirty dt k by auto
    qed
    then obtain u where u: "install_one rw k t = Ok () u" "dsk.more u = dsk.more t"
      "wrotes [(lg_dev t, bs ! k, content t (lg_dev t) (lg_start t + of_nat k + 1))] t u"
      using install_one_spec [OF it nt k c] mf by auto
    have lm: "lg_start s + of_nat k + 1 \<notin> set bs"
      using names_nth(2) [OF nm k] log_area_mem(1) [of k s] nm by (auto simp: log_names_def)
    have "content t (lg_dev s) (lg_start s + of_nat k + 1) = ?v k"
      using w apply_writes_other [OF wr_blk_install [OF lm, of k]] k by (simp add: wrotes_def)
    then have "wrotes (install_writes (lg_dev s) bs ?v (Suc k)) s u"
      using wrotes_append [OF w] u(3) mf by (simp add: install_writes_Suc)
    then show ?thesis using u m by auto
  qed
  have "?P 0 s" using wrotes_Nil [OF inv] by (simp add: install_writes_def)
  then have "\<exists>t. for_each (install_one rw) [0..<length bs] s = Ok () t \<and> ?P (length bs) t"
    by (rule for_each_upt [where P = ?P]) (rule step)
  then show ?thesis using nm by (simp add: install_trans_def log_names_def)
qed

lemma write_log_one_spec:
  assumes inv: "cache_inv {} s" and nm: "log_names ready has s bs" and k: "k < length bs"
    and room: "card (dirty_set s) < NBUF" "(lg_dev s, bs ! k) \<in> dirty_set s"
  shows "\<exists>t. write_log_one rw k s = Ok () t \<and> dsk.more t = dsk.more s \<and>
    wrotes [(lg_dev s, lg_start s + of_nat k + 1, content s (lg_dev s) (bs ! k))] s t"
proof -
  note nn = names_nth [OF nm k]
  have d: "lg_dev s \<noteq> 0" "ready s (lg_dev s)" using nm by (auto simp: log_names_def)
  obtain x y t1 t2 where b: "bread rw (lg_dev s) (lg_start s + of_nat k + 1) s = Ok x t1"
    "bread rw (lg_dev s) (bs ! k) t1 = Ok y t2" "x \<noteq> y" "cache_inv {x, y} t2"
    "is_block (lg_dev s) (lg_start s + of_nat k + 1) (d_buf t2 x)" "is_block (lg_dev s) (bs ! k) (d_buf t2 y)"
    "b_data (d_buf t2 y) = content s (lg_dev s) (bs ! k)"
    "dirty_set t2 = dirty_set s" "content t2 = content s" "d_disk t2 = d_disk s" "d_trace t2 = d_trace s"
    "same_env s t1" "same_env s t2"
    by (rule bread2 [OF inv d nn(6,3,5)]) (use room in auto)
  have m1: "dsk.more t1 = dsk.more s" using b(12) by (simp add: same_env_def)
  have hw: "same_hw s t2" using b(13) by (simp add: same_env_def same_hw_def)
  have i2: "cache_inv {y, x} t2" using b(4) by (simp add: insert_commute)
  have mv: "\<exists>t. kthen (kmod (\<lambda>s. bupd x (\<lambda>p. p\<lparr>b_data := b_data (d_buf s y)\<rparr>) s))
      (kthen (bwrite rw x) (kthen (brelse y) (brelse x))) t2 = Ok () t \<and>
      wrote (b_dev (d_buf t2 x)) (b_blockno (d_buf t2 x)) (b_data (d_buf t2 y)) t2 t"
    by (rule move_block [OF i2 b(3) [symmetric]])
       (use b(5-9) d nn(6) env_ready [OF hw] in \<open>simp_all add: is_block_def\<close>)
  then obtain t where t: "kthen (kmod (\<lambda>s. bupd x (\<lambda>p. p\<lparr>b_data := b_data (d_buf s y)\<rparr>) s))
      (kthen (bwrite rw x) (kthen (brelse y) (brelse x))) t2 = Ok () t"
      "wrote (lg_dev s) (lg_start s + of_nat k + 1) (content s (lg_dev s) (bs ! k)) t2 t"
    using b(5,7) by (auto simp: is_block_def)
  have "write_log_one rw k s = Ok () t"
    using nn(1,2) more_fields [OF m1] by (simp add: write_log_one_def kbind_def b(1,2) t(1))
  moreover have "wrotes [(lg_dev s, lg_start s + of_nat k + 1, content s (lg_dev s) (bs ! k))] s t"
    using wrote_wrotes [OF t(2)] b(8-11) hw by (auto simp: wrotes_def same_hw_def)
  moreover have "dsk.more t = dsk.more s"
    using wrote_wrotes [OF t(2)] b(13) by (simp add: same_env_def)
  ultimately show ?thesis by blast
qed

lemma write_log_spec:
  assumes inv: "cache_inv {} s" and nm: "log_names ready has s bs" and len: "length bs < NBUF"
    and dirty: "dirty_set s = Pair (lg_dev s) ` set bs"
  shows "\<exists>t. write_log rw s = Ok () t \<and> dsk.more t = dsk.more s \<and>
    wrotes (log_writes (lg_dev s) (lg_start s) (\<lambda>k. content s (lg_dev s) (bs ! k)) (length bs)) s t"
proof -
  let ?v = "\<lambda>k. content s (lg_dev s) (bs ! k)" and ?lw = "log_writes (lg_dev s) (lg_start s)"
  let ?P = "\<lambda>k t. dsk.more t = dsk.more s \<and> wrotes (?lw ?v k) s t"
  have ls: "length bs \<le> LOGSIZE" using nm by (simp add: log_names_def)
  have step: "\<exists>u. write_log_one rw k t = Ok () u \<and> ?P (Suc k) u" if k: "k < length bs" and P: "?P k t" for k t
  proof -
    from P have m: "dsk.more t = dsk.more s" and w: "wrotes (?lw ?v k) s t" by blast+
    have hw: "same_hw s t" and it: "cache_inv {} t" using w by (auto simp: wrotes_def)
    note mf = more_fields [OF m]
    have nt: "log_names ready has t bs" using nm log_names_cong [OF hw m] by simp
    have na: "b \<notin> log_area s" if "b \<in> set bs" for b using nm that by (simp add: log_names_def)
    have out: "(d, b) \<notin> wr_blk ` set (?lw ?v k)" if "b \<in> set bs" for d b
      using wr_blk_log [OF na [OF that]] k ls by simp
    have dt: "dirty_set t = Pair (lg_dev s) ` set bs"
      using w dirty out by (auto simp: wrotes_def)
    have c: "card (dirty_set t) < NBUF"
      using card_image_le [of "set bs" "Pair (lg_dev s)"] card_length [of bs] len by (simp add: dt)
    have "(lg_dev t, bs ! k) \<in> dirty_set t" using k by (simp add: dt mf)
    then obtain u where u: "write_log_one rw k t = Ok () u" "dsk.more u = dsk.more t"
      "wrotes [(lg_dev t, lg_start t + of_nat k + 1, content t (lg_dev t) (bs ! k))] t u"
      using write_log_one_spec [OF it nt k c] by blast
    have "content t (lg_dev s) (bs ! k) = ?v k"
      using w apply_writes_other [OF out [OF nth_mem [OF k]]] by (simp add: wrotes_def)
    then have "wrotes (?lw ?v (Suc k)) s u"
      using wrotes_append [OF w] u(3) mf by (simp add: log_writes_Suc)
    then show ?thesis using u m by auto
  qed
  have "?P 0 s" using wrotes_Nil [OF inv] by (simp add: log_writes_def)
  then have "\<exists>t. for_each (write_log_one rw) [0..<length bs] s = Ok () t \<and> ?P (length bs) t"
    by (rule for_each_upt [where P = ?P]) (rule step)
  then show ?thesis using nm by (simp add: write_log_def log_names_def)
qed

lemma write_head_spec:
  assumes inv: "cache_inv {} s" and d: "lg_dev s \<noteq> 0" "ready s (lg_dev s)" "has s (lg_start s)"
    and room: "card (dirty_set s) < NBUF" and n: "lg_n s \<le> int LOGSIZE"
  shows "\<exists>t. write_head rw s = Ok () t \<and> dsk.more t = dsk.more s \<and>
    wrotes [(lg_dev s, lg_start s, head_of (lg_n s) (lg_block s) (content s (lg_dev s) (lg_start s)))] s t"
proof -
  obtain b t1 where b: "bread rw (lg_dev s) (lg_start s) s = Ok b t1" "got {} (lg_dev s) (lg_start s) b s t1"
    by (rule bread_got [OF inv d]) (use room in auto)
  let ?v = "head_of (lg_n s) (lg_block s) (content s (lg_dev s) (lg_start s))"
  have hw: "same_hw s t1" and m1: "dsk.more t1 = dsk.more s" and inv1: "cache_inv {b} t1"
    and blk: "blk_of t1 b = (lg_dev s, lg_start s)" and dt: "b_data (d_buf t1 b) = content s (lg_dev s) (lg_start s)"
    using b(2) by (auto simp: got_def same_env_def same_hw_def is_block_def)
  note mf = more_fields [OF m1]
  have v: "length ?v = BSIZE" using n length_content [OF inv] by (simp add: length_head_of)
  have bb: "b \<in> {b}" by simp
  have rd: "ready t1 (b_dev (d_buf t1 b))" "has t1 (b_blockno (d_buf t1 b))"
    using d blk env_ready [OF hw] by simp_all
  note w = write_release [OF inv1 bb rd v]
  let ?t2 = "bupd b (\<lambda>p. p\<lparr>b_dirty := False\<rparr>) (disk_write (b_dev (d_buf t1 b)) (b_blockno (d_buf t1 b)) ?v
    (bupd b (\<lambda>p. p\<lparr>b_data := ?v\<rparr>) t1))"
  let ?t3 = "brelse_state b ?t2"
  have r: "brelse b ?t2 = Ok () ?t3" by (rule brelse_spec [OF w(2) bb])
  have i3: "cache_inv {} ?t3" using brelse_inv [OF w(2) bb] by simp
  have e: "bupd b (\<lambda>p. p\<lparr>b_data := head_of (lg_n s) (lg_block s) (b_data p)\<rparr>) t1 =
      bupd b (\<lambda>p. p\<lparr>b_data := ?v\<rparr>) t1"
    by (simp add: bupd_def dt)
  have "write_head rw s = Ok () ?t3"
    by (simp add: write_head_def kbind_def kthen_def b(1) mf e w(1) r)
  moreover have "wrote (lg_dev s) (lg_start s) ?v s ?t3"
    using i3 w(3,4) blk b(2) by (auto simp: wrote_def got_def brelse_content)
  ultimately show ?thesis using wrote_wrotes by blast
qed

end

text \<open>The header block: what head_of writes is what read_head finds.\<close>

definition head_n :: "block \<Rightarrow> int" where
  "head_n v = sint (get32 0 v)"

definition head_list :: "block \<Rightarrow> uint list" where
  "head_list v = map (\<lambda>i. get32 (4 + 4 * i) v) [0..<nat (head_n v)]"

lemma head_blocks_other:
  "(\<And>i. i \<in> set is \<Longrightarrow> 8 + 4 * i \<le> length v) \<Longrightarrow> o2 + 4 \<le> length v \<Longrightarrow>
   (\<And>i. i \<in> set is \<Longrightarrow> o2 + 4 \<le> 4 + 4 * i \<or> 8 + 4 * i \<le> o2) \<Longrightarrow>
   get32 o2 (head_blocks is bs v) = get32 o2 v"
proof (induction "is" arbitrary: v)
  case (Cons i "is")
  have "get32 o2 (put32 (4 + 4 * i) (bs ! i) v) = get32 o2 v"
    using Cons.prems(1) [of i] Cons.prems(2) Cons.prems(3) [of i] by (intro get32_put32_other) auto
  then show ?case using Cons.prems by (subst head_blocks.simps, subst Cons.IH) auto
qed simp

lemma head_blocks_at:
  "(\<And>i. i \<in> set is \<Longrightarrow> 8 + 4 * i \<le> length v) \<Longrightarrow> distinct is \<Longrightarrow> i \<in> set is \<Longrightarrow>
   get32 (4 + 4 * i) (head_blocks is bs v) = bs ! i"
proof (induction "is" arbitrary: v)
  case (Cons j "is")
  show ?case
  proof (cases "i = j")
    case True
    have j: "8 + 4 * j \<le> length v" using Cons.prems(1) [of j] by simp
    then have l: "length (put32 (4 + 4 * j) (bs ! j) v) = length v" by simp
    have "get32 (4 + 4 * i) (head_blocks is bs (put32 (4 + 4 * j) (bs ! j) v)) =
        get32 (4 + 4 * i) (put32 (4 + 4 * j) (bs ! j) v)"
    proof (rule head_blocks_other)
      fix k assume k: "k \<in> set is"
      then show "8 + 4 * k \<le> length (put32 (4 + 4 * j) (bs ! j) v)" using Cons.prems(1) [of k] l by simp
      have "k \<noteq> i" using k True Cons.prems(2) by auto
      then show "4 + 4 * i + 4 \<le> 4 + 4 * k \<or> 8 + 4 * k \<le> 4 + 4 * i" by presburger
    qed (use j l True in simp)
    then show ?thesis using True Cons.prems(1) [of j] by (simp add: get32_put32)
  next
    case False
    then show ?thesis using Cons.prems by (auto intro: Cons.IH)
  qed
qed simp

lemma sint_small: "0 \<le> n \<Longrightarrow> n \<le> int LOGSIZE \<Longrightarrow> sint (word_of_int n :: uint) = n"
  by (simp add: LOGSIZE_def signed_of_int signed_take_bit_int_eq_self)

lemma head_round_trip:
  assumes "0 \<le> n" "n \<le> int LOGSIZE" and "length v = BSIZE" and "nat n \<le> length bs"
  shows "head_n (head_of n bs v) = n \<and> head_list (head_of n bs v) = take (nat n) bs"
proof -
  let ?w = "put32 0 (word_of_int n) v"
  have len: "length ?w = BSIZE" using assms(3) by (simp add: BSIZE_def)
  have small: "8 + 4 * i \<le> length ?w" if "i \<in> set [0..<nat n]" for i
    using that assms(2) by (simp add: len) (simp add: BSIZE_def LOGSIZE_def)
  have "get32 0 (head_of n bs v) = get32 0 ?w"
    unfolding head_of_def by (rule head_blocks_other) (use small in \<open>auto simp: len BSIZE_def\<close>)
  then have n: "head_n (head_of n bs v) = n"
    using assms by (simp add: head_n_def get32_put32 BSIZE_def sint_small)
  have "get32 (4 + 4 * i) (head_of n bs v) = bs ! i" if "i < nat n" for i
    unfolding head_of_def by (rule head_blocks_at) (use small that in auto)
  then have "head_list (head_of n bs v) = take (nat n) bs"
    unfolding head_list_def n using assms(4) by (intro nth_equalityI) auto
  with n show ?thesis by simp
qed

lemma read_blocks_Some:
  "(\<And>i. i \<in> set is \<Longrightarrow> i < LOGSIZE) \<Longrightarrow> \<exists>cs. read_blocks is v bs = Some cs \<and> length cs = length bs \<and>
   (\<forall>j<length bs. cs ! j = (if j \<in> set is then get32 (4 + 4 * j) v else bs ! j))"
proof (induction "is" arbitrary: bs)
  case (Cons i "is")
  obtain cs where cs: "read_blocks is v (bs[i := get32 (4 + 4 * i) v]) = Some cs" "length cs = length bs"
    "\<forall>j<length bs. cs ! j = (if j \<in> set is then get32 (4 + 4 * j) v else bs[i := get32 (4 + 4 * i) v] ! j)"
    using Cons.IH [of "bs[i := get32 (4 + 4 * i) v]"] Cons.prems by auto
  have "i < LOGSIZE" using Cons.prems by simp
  then show ?case using cs by (auto simp: nth_list_update)
qed simp

lemma read_blocks_take:
  assumes "length bs = LOGSIZE" and "0 \<le> head_n v" "head_n v \<le> int LOGSIZE"
  obtains cs where "read_blocks [0..<nat (head_n v)] v bs = Some cs" "length cs = LOGSIZE"
    "take (length (head_list v)) cs = head_list v"
proof -
  obtain cs where cs: "read_blocks [0..<nat (head_n v)] v bs = Some cs" "length cs = length bs"
    "\<forall>j<length bs. cs ! j = (if j \<in> set [0..<nat (head_n v)] then get32 (4 + 4 * j) v else bs ! j)"
  proof -
    have "nat (head_n v) \<le> LOGSIZE" using assms(3) by simp
    then have "\<And>i. i \<in> set [0..<nat (head_n v)] \<Longrightarrow> i < LOGSIZE" by simp
    from read_blocks_Some [OF this] that show ?thesis by blast
  qed
  have "take (length (head_list v)) cs = head_list v"
    using cs(2,3) assms by (intro nth_equalityI) (auto simp: head_list_def)
  with cs that assms show ?thesis by simp
qed

section \<open>commit and recovery\<close>

lemma lg_upd_cache [simp]:
  "cache_inv H (s\<lparr>lg_n := n\<rparr>) = cache_inv H s" "dirty_set (s\<lparr>lg_n := n\<rparr>) = dirty_set s"
  "content (s\<lparr>lg_n := n\<rparr>) = content s"
  "cache_inv H (s\<lparr>lg_n := n, lg_block := bs\<rparr>) = cache_inv H s"
  "dirty_set (s\<lparr>lg_n := n, lg_block := bs\<rparr>) = dirty_set s"
  "content (s\<lparr>lg_n := n, lg_block := bs\<rparr>) = content s"
  "same_hw s (t\<lparr>lg_n := n\<rparr>) = same_hw s t" "same_hw s (t\<lparr>lg_n := n, lg_block := bs\<rparr>) = same_hw s t"
  by (simp_all add: cache_inv_def ring_def buf_ok_def holds_def dirty_set_def content_def same_hw_def
      Let_def fun_eq_iff split: option.splits)

text \<open>Everything commit writes, in order: the log, the header, the home blocks, the empty header.\<close>

definition commit_trace :: "'z log_st_scheme \<Rightarrow> wr list" where
  "commit_trace s =
     (let n = nat (lg_n s); d = lg_dev s; bs = lg_block s; v = (\<lambda>k. content s d (bs ! k));
          h = head_of (lg_n s) bs (content s d (lg_start s))
      in log_writes d (lg_start s) v n @ [(d, lg_start s, h)] @ install_writes d bs v n @
         [(d, lg_start s, head_of 0 bs h)])"

lemma unat_small: "j < 100 \<Longrightarrow> unat (of_nat j :: uint) = j" for j :: nat
  by (simp add: unat_of_nat take_bit_nat_eq_self)

lemma of_nat_small: "j < 100 \<Longrightarrow> k < 100 \<Longrightarrow> (of_nat j :: uint) = of_nat k \<longleftrightarrow> j = k" for j k :: nat
  using unat_small by metis

lemma log_block_inj:
  "j < LOGSIZE \<Longrightarrow> k < LOGSIZE \<Longrightarrow> (start :: uint) + of_nat j + 1 = start + of_nat k + 1 \<longleftrightarrow> j = k"
  using of_nat_small [of j k] by (simp add: LOGSIZE_def)

lemma log_block_start: "k < LOGSIZE \<Longrightarrow> (start :: uint) + of_nat k + 1 \<noteq> start"
proof
  assume k: "k < LOGSIZE" and "start + of_nat k + 1 = start"
  then have "(of_nat (k + 1) :: uint) = of_nat 0" by (simp add: add.assoc) (metis add.commute)
  then show False using of_nat_small [of "k + 1" 0] k by (simp add: LOGSIZE_def)
qed

lemma distinct_log_writes:
  assumes "k \<le> LOGSIZE"
  shows "distinct (map wr_blk (log_writes d start v k))"
proof -
  have "(start :: uint) + of_nat i + 1 \<noteq> start + of_nat j + 1" if "i < k" "j < k" "i \<noteq> j" for i j
    using log_block_inj [of i j start] that assms by simp
  then show ?thesis by (simp only: log_writes_def distinct_conv_nth) (simp add: wr_blk_def)
qed

lemma distinct_install_writes:
  "distinct bs \<Longrightarrow> k \<le> length bs \<Longrightarrow> distinct (map wr_blk (install_writes d bs v k))"
  by (auto simp: install_writes_def wr_blk_def distinct_conv_nth)

lemma install_covers: "wr_blk ` set (install_writes d bs v (length bs)) = Pair d ` set bs"
proof -
  have "wr_blk ` set (install_writes d bs v (length bs)) = (\<lambda>j. (d, bs ! j)) ` {0..<length bs}"
    by (simp add: install_writes_def wr_blk_def image_image)
  also have "\<dots> = Pair d ` ((\<lambda>j. bs ! j) ` {0..<length bs})" by (simp add: image_image)
  also have "(\<lambda>j. bs ! j) ` {0..<length bs} = set bs"
    by (metis atLeast0LessThan lessThan_iff list.set_map map_nth set_upt)
  finally show ?thesis .
qed

lemma log_read_back:
  assumes "k < n" "n \<le> LOGSIZE"
  shows "apply_writes (log_writes d start v n @ [(d, start, h)]) D d (start + of_nat k + 1) = v k"
proof -
  have "apply_writes (log_writes d start v n) D d (start + of_nat k + 1) = v k"
    by (rule apply_writes_nth [OF _ distinct_log_writes, of k])
       (use assms in \<open>auto simp: log_writes_def\<close>)
  then show ?thesis using log_block_start [of k start] assms by simp
qed

lemma install_read_back:
  assumes "distinct bs" "k < length bs"
  shows "apply_writes (install_writes d bs v (length bs)) D d (bs ! k) = v k"
  by (rule apply_writes_nth [OF _ distinct_install_writes, of k]) (use assms in \<open>auto simp: install_writes_def\<close>)

context log_device
begin

lemma names_content:
  assumes "log_names ready has s bs" and "dirty_set s \<subseteq> Pair (lg_dev s) ` set bs" and "n \<in> log_area s"
  shows "content s d n = d_disk s d n"
  using assms by (intro content_clean) (auto simp: log_names_def)

lemma commit_spec:
  assumes inv: "cache_inv {} s" and nm: "log_names ready has s bs" and ne: "bs \<noteq> []"
    and dirty: "dirty_set s = Pair (lg_dev s) ` set bs"
  shows "\<exists>t. commit rw s = Ok () t \<and> cache_inv {} t \<and> dirty_set t = {} \<and> lg_n t = 0 \<and>
    d_disk t = apply_writes (commit_trace s) (d_disk s) \<and> d_trace t = d_trace s @ commit_trace s \<and>
    same_hw s t \<and> dsk.more t = dsk.more (s\<lparr>lg_n := 0\<rparr>) \<and> head_n (d_disk t (lg_dev s) (lg_start s)) = 0"
proof -
  let ?d = "lg_dev s" and ?start = "lg_start s" and ?n = "length bs"
  let ?v = "\<lambda>k. content s ?d (bs ! k)" and ?v' = "\<lambda>k. content s ?d (lg_block s ! k)"
  let ?h = "head_of (lg_n s) (lg_block s) (content s ?d ?start)"
  let ?W1 = "log_writes ?d ?start ?v ?n" and ?W2 = "install_writes ?d bs ?v ?n"
  have len: "?n < NBUF" "?n \<le> LOGSIZE" and n: "lg_n s = int ?n" and dist: "distinct bs"
    and hw_d: "lg_dev s \<noteq> 0" "ready s (lg_dev s)" "has s (lg_start s)"
    using nm log_area_mem(2) [of s] by (auto simp: log_names_def NBUF_def LOGSIZE_def)
  have bn: "lg_block s ! k = bs ! k" if "k < ?n" for k using names_nth(1) [OF nm that] .
  have na: "b \<in> set bs \<Longrightarrow> b \<notin> log_area s" for b using nm by (simp add: log_names_def)
  have cardn: "card (Pair ?d ` set bs) < NBUF"
    using card_image_le [of "set bs" "Pair ?d"] card_length [of bs] len by simp
  obtain t1 where t1: "write_log rw s = Ok () t1" "dsk.more t1 = dsk.more s" "wrotes ?W1 s t1"
    using write_log_spec [OF inv nm len(1) dirty] by blast
  note m1 = more_fields [OF t1(2)]
  have hw1: "same_hw s t1" and i1: "cache_inv {} t1" using t1(3) by (auto simp: wrotes_def)
  have out: "(?d, b) \<notin> wr_blk ` set ?W1" if "b \<in> set bs" for b
    using wr_blk_log [OF na [OF that] len(2)] .
  have d1: "dirty_set t1 = Pair ?d ` set bs"
    using t1(3) dirty out unfolding wrotes_def by blast
  have "(?d, ?start) \<notin> wr_blk ` set ?W1"
    using log_block_start [of _ ?start] len by (fastforce simp: log_writes_def wr_blk_def)
  then have c1: "content t1 ?d ?start = content s ?d ?start"
    using t1(3) apply_writes_other by (simp add: wrotes_def)
  have n1: "lg_n t1 \<le> int LOGSIZE" and cd1: "card (dirty_set t1) < NBUF"
    using m1 n len cardn by (simp_all add: d1)
  have dev1: "lg_dev t1 \<noteq> 0" "ready t1 (lg_dev t1)" "has t1 (lg_start t1)"
    using hw_d env_ready [OF hw1] m1 by simp_all
  obtain t2 where t2: "write_head rw t1 = Ok () t2" "dsk.more t2 = dsk.more t1" "wrotes [(?d, ?start, ?h)] t1 t2"
    using write_head_spec [OF i1 dev1 cd1 n1] m1 c1 by auto
  have w2: "wrotes (?W1 @ [(?d, ?start, ?h)]) s t2" by (rule wrotes_append [OF t1(3) t2(3)])
  have m2': "dsk.more t2 = dsk.more s" using t1(2) t2(2) by simp
  note m2 = more_fields [OF m2']
  have hw2: "same_hw s t2" and i2: "cache_inv {} t2" using w2 by (auto simp: wrotes_def)
  have nm2: "log_names ready has t2 bs" using nm log_names_cong [OF hw2 m2'] by simp
  have d2: "dirty_set t2 = Pair (lg_dev t2) ` set bs"
    using t2(3) d1 na log_area_mem(2) [of s] m2 by (auto simp: wrotes_def wr_blk_def)
  obtain t3 where t3: "install_trans rw t2 = Ok () t3" "dsk.more t3 = dsk.more t2"
    "wrotes (install_writes ?d bs (\<lambda>k. content t2 ?d (?start + of_nat k + 1)) ?n) t2 t3"
    using install_spec [OF i2 nm2 len(1)] d2 m2 by auto
  have "content t2 ?d (?start + of_nat k + 1) = ?v k" if "k < ?n" for k
    using w2 log_read_back [OF that len(2)] by (simp add: wrotes_def)
  then have W2: "install_writes ?d bs (\<lambda>k. content t2 ?d (?start + of_nat k + 1)) ?n = ?W2"
    by (auto simp: install_writes_def)
  have w3: "wrotes ((?W1 @ [(?d, ?start, ?h)]) @ ?W2) s t3"
    using wrotes_append [OF w2 t3(3)] by (simp only: W2)
  have m3': "dsk.more t3 = dsk.more s" using m2' t3(2) by simp
  let ?t3 = "t3\<lparr>lg_n := 0\<rparr>"
  note m3 = more_fields [OF m3']
  have hw3: "same_hw s t3" and i3: "cache_inv {} t3" using w3 by (auto simp: wrotes_def)
  have d3: "dirty_set t3 = {}"
    using t3(3) d2 m2 by (simp add: wrotes_def install_covers)
  have sn: "?start \<notin> set bs" using na log_area_mem(2) [of s] by blast
  have c3: "content t3 ?d ?start = ?h"
  proof -
    have "content t3 = apply_writes ?W2 (apply_writes (?W1 @ [(?d, ?start, ?h)]) (content s))"
      using w3 unfolding wrotes_def apply_writes_simps(2) by blast
    then have "content t3 ?d ?start = apply_writes (?W1 @ [(?d, ?start, ?h)]) (content s) ?d ?start"
      using apply_writes_other [OF wr_blk_install [OF sn, of ?n]] by simp
    then show ?thesis by simp
  qed
  have dev3: "lg_dev ?t3 \<noteq> 0" "ready ?t3 (lg_dev ?t3)" "has ?t3 (lg_start ?t3)"
    using hw_d env_ready [of s ?t3] hw3 m3 by simp_all
  have "card (dirty_set ?t3) < NBUF" using d3 by (simp add: NBUF_def)
  then obtain t4 where t4: "write_head rw ?t3 = Ok () t4" "dsk.more t4 = dsk.more ?t3"
    "wrotes [(?d, ?start, head_of 0 (lg_block s) ?h)] ?t3 t4"
    using write_head_spec [of ?t3, OF _ dev3] i3 m3 c3 by (auto simp: LOGSIZE_def)
  have ct: "commit_trace s = ((?W1 @ [(?d, ?start, ?h)]) @ ?W2) @ [(?d, ?start, head_of 0 (lg_block s) ?h)]"
    using bn by (auto simp: commit_trace_def Let_def n log_writes_def install_writes_def)
  have "commit rw s = Ok () t4"
    using ne n t1(1) t2(1) t3(1) t4(1) by (simp add: commit_def kthen_def kbind_def)
  moreover have "lg_n t4 = 0" using more_fields(6) [OF t4(2)] by simp
  moreover have "d_disk t4 = apply_writes (commit_trace s) (d_disk s)" "d_trace t4 = d_trace s @ commit_trace s"
  proof -
    have "d_disk t4 = apply_writes [(?d, ?start, head_of 0 (lg_block s) ?h)] (d_disk t3)"
      "d_trace t4 = d_trace t3 @ [(?d, ?start, head_of 0 (lg_block s) ?h)]"
      using t4(3) by (simp_all add: wrotes_def)
    then show "d_disk t4 = apply_writes (commit_trace s) (d_disk s)" "d_trace t4 = d_trace s @ commit_trace s"
      using w3 unfolding ct wrotes_def apply_writes_simps(2) [of _ "[_]"] by simp_all
  qed
  moreover have "cache_inv {} t4" "dirty_set t4 = {}" using t4(3) d3 by (auto simp: wrotes_def)
  moreover have "same_hw s t4" using hw3 t4(3) by (simp add: wrotes_def same_hw_def)
  moreover have "dsk.more t4 = dsk.more (s\<lparr>lg_n := 0\<rparr>)" using t4(2) m3' by (cases s; cases t3; simp)
  moreover have "head_n (d_disk t4 ?d ?start) = 0"
  proof -
    have "length ?h = BSIZE" using length_content [OF i3, of ?d ?start] unfolding c3 .
    then have "head_n (head_of 0 (lg_block s) ?h) = 0" using head_round_trip [of 0 ?h "lg_block s"] by (simp add: LOGSIZE_def)
    moreover have "d_disk t4 ?d ?start = head_of 0 (lg_block s) ?h" using t4(3) by (simp add: wrotes_def)
    ultimately show ?thesis by simp
  qed
  ultimately show ?thesis by blast
qed

end

text \<open>What recovery writes to a disk \<open>D\<close>: the blocks its header names, and an empty header.\<close>

definition recovery_writes :: "uint \<Rightarrow> uint \<Rightarrow> (uint \<Rightarrow> uint \<Rightarrow> block) \<Rightarrow> wr list" where
  "recovery_writes d start D =
     (let h = D d start; bs = head_list h
      in install_writes d bs (\<lambda>k. D d (start + of_nat k + 1)) (length bs) @ [(d, start, put32 0 0 h)])"

lemma head_of_0: "head_of 0 bs v = put32 0 0 v"
  by (simp add: head_of_def)

context log_device
begin

lemma read_head_spec:
  assumes inv: "cache_inv {} s" and dirty: "dirty_set s = {}" and d: "lg_dev s \<noteq> 0" "ready s (lg_dev s)" "has s (lg_start s)"
    and v: "v = d_disk s (lg_dev s) (lg_start s)" "0 \<le> head_n v" "head_n v \<le> int LOGSIZE"
    and len: "length (lg_block s) = LOGSIZE"
  shows "\<exists>t. read_head rw s = Ok () t \<and> wrotes [] s t \<and> lg_n t = head_n v \<and> length (lg_block t) = LOGSIZE \<and>
    take (length (head_list v)) (lg_block t) = head_list v \<and> lg_start t = lg_start s \<and> lg_dev t = lg_dev s"
proof -
  have room: "(lg_dev s, lg_start s) \<in> dirty_set s \<or> card (dirty_set s) + card ({} :: nat set) < NBUF"
    by (simp add: dirty NBUF_def)
  obtain b t1 where b: "bread rw (lg_dev s) (lg_start s) s = Ok b t1" "got {} (lg_dev s) (lg_start s) b s t1"
    by (rule bread_got [OF inv d _ room]) auto
  have hw: "same_hw s t1" and m1: "dsk.more t1 = dsk.more s" and inv1: "cache_inv {b} t1"
    and blk: "blk_of t1 b = (lg_dev s, lg_start s)" and dt: "b_data (d_buf t1 b) = v"
    and dk: "d_disk t1 = d_disk s" "d_trace t1 = d_trace s" "dirty_set t1 = {}" "content t1 = content s"
    using b(2) content_clean [of "lg_dev s" "lg_start s" s] dirty v(1)
    by (auto simp: got_def same_env_def same_hw_def is_block_def)
  note mf = more_fields [OF m1]
  obtain cs where cs: "read_blocks [0..<nat (head_n v)] v (lg_block t1) = Some cs" "length cs = LOGSIZE"
    "take (length (head_list v)) cs = head_list v"
    using read_blocks_take [of "lg_block t1" v] len mf v by auto
  let ?t2 = "t1\<lparr>lg_n := head_n v, lg_block := cs\<rparr>"
  have i2: "cache_inv {b} ?t2" using inv1 by simp
  let ?t3 = "brelse_state b ?t2"
  have r: "brelse b ?t2 = Ok () ?t3" by (rule brelse_spec [OF i2]) simp
  have e: "read_head rw s = Ok () ?t3"
    using cs(1) r by (simp add: read_head_def kbind_def b(1) dt Let_def head_n_def [symmetric])
  have "b_data (d_buf ?t2 b) = d_disk ?t2 (b_dev (d_buf ?t2 b)) (b_blockno (d_buf ?t2 b))"
    using blk dt dk v(1) by simp
  then have i3: "cache_inv {} ?t3" using brelse_inv [OF i2, of b] by simp
  have m3: "dsk.more ?t3 = dsk.more ?t2" by simp
  have "wrotes [] s ?t3"
    using i3 dk hw dirty by (simp add: wrotes_def brelse_content fun_eq_iff same_hw_def)
  moreover have "lg_n ?t3 = head_n v" "lg_block ?t3 = cs" "lg_start ?t3 = lg_start s" "lg_dev ?t3 = lg_dev s"
    using more_fields [OF m3] mf by simp_all
  ultimately show ?thesis using e cs(2,3) by metis
qed

text \<open>A log on disk that recovery can work with.\<close>

definition log_disk_ok :: "'z log_st_scheme \<Rightarrow> (uint \<Rightarrow> uint \<Rightarrow> block) \<Rightarrow> bool" where
  "log_disk_ok s D \<longleftrightarrow> (let h = D (lg_dev s) (lg_start s) in
     0 \<le> head_n h \<and> head_n h < int LOGSIZE \<and> distinct (head_list h) \<and>
     (\<forall>b\<in>set (head_list h). has s b \<and> b \<notin> log_area s))"

lemma recover_spec:
  assumes inv: "cache_inv {} s" and dirty: "dirty_set s = {}"
    and d: "lg_dev s \<noteq> 0" "ready s (lg_dev s)" "\<forall>n\<in>log_area s. has s n"
    and len: "length (lg_block s) = LOGSIZE" and ok: "log_disk_ok s (d_disk s)"
  shows "\<exists>t. recover_from_log rw s = Ok () t \<and> cache_inv {} t \<and> dirty_set t = {} \<and> lg_n t = 0 \<and>
    d_disk t = apply_writes (recovery_writes (lg_dev s) (lg_start s) (d_disk s)) (d_disk s) \<and>
    d_trace t = d_trace s @ recovery_writes (lg_dev s) (lg_start s) (d_disk s)"
proof -
  define v where "v = d_disk s (lg_dev s) (lg_start s)"
  let ?d = "lg_dev s" and ?start = "lg_start s" and ?bs = "head_list v"
  have v: "0 \<le> head_n v" "head_n v < int LOGSIZE" "distinct ?bs" "\<forall>b\<in>set ?bs. has s b \<and> b \<notin> log_area s"
    using ok by (auto simp: log_disk_ok_def v_def Let_def)
  have hs: "has s ?start" using d(3) log_area_mem(2) [of s] by blast
  have cl: "content u e n = d_disk u e n" if "dirty_set u = {}" for u :: "'z log_st_scheme" and e n
    using content_clean [of e n u] that by simp
  obtain t1 where t1: "read_head rw s = Ok () t1" "wrotes [] s t1" "lg_n t1 = head_n v"
    "length (lg_block t1) = LOGSIZE" "take (length ?bs) (lg_block t1) = ?bs" "lg_start t1 = ?start" "lg_dev t1 = ?d"
    using read_head_spec [OF inv dirty d(1,2) hs v_def v(1)] v(2) len by auto
  have hw1: "same_hw s t1" and i1: "cache_inv {} t1" and d1: "dirty_set t1 = {}" and dk1: "d_disk t1 = d_disk s"
    using t1(2) dirty by (auto simp: wrotes_def)
  have lb: "length ?bs = nat (head_n v)" by (simp add: head_list_def)
  have nm: "log_names ready has t1 ?bs"
    using t1(3-7) d v env_ready [OF hw1] lb by (simp add: log_names_def log_area_def)
  have "length ?bs < NBUF" using lb v(2) by (simp add: NBUF_def LOGSIZE_def)
  then obtain t2 where t2: "install_trans rw t1 = Ok () t2" "dsk.more t2 = dsk.more t1"
    "wrotes (install_writes ?d ?bs (\<lambda>k. d_disk s ?d (?start + of_nat k + 1)) (length ?bs)) t1 t2"
    using install_spec [OF i1 nm] d1 t1(6,7) cl [OF d1] dk1 by auto
  let ?W = "install_writes ?d ?bs (\<lambda>k. d_disk s ?d (?start + of_nat k + 1)) (length ?bs)"
  have w2: "wrotes ?W s t2" using wrotes_append [OF t1(2) t2(3)] by simp
  have hw2: "same_hw s t2" and i2: "cache_inv {} t2" and d2: "dirty_set t2 = {}" using w2 dirty by (auto simp: wrotes_def)
  let ?t2 = "t2\<lparr>lg_n := 0\<rparr>"
  note m2 = more_fields [OF t2(2)]
  have sn: "?start \<notin> set ?bs" using v(4) log_area_mem(2) [of s] by blast
  have c2: "content t2 ?d ?start = v"
    using w2 apply_writes_other [OF wr_blk_install [OF sn, of "length ?bs"]] cl [OF dirty]
    by (simp add: wrotes_def v_def)
  have dev2: "lg_dev ?t2 \<noteq> 0" "ready ?t2 (lg_dev ?t2)" "has ?t2 (lg_start ?t2)"
    using d hs env_ready [of s ?t2] hw2 m2 t1(6,7) by simp_all
  have room: "card (dirty_set ?t2) < NBUF" using d2 by (simp add: NBUF_def)
  then obtain t3 where t3: "write_head rw ?t2 = Ok () t3" "dsk.more t3 = dsk.more ?t2"
    "wrotes [(?d, ?start, put32 0 0 v)] ?t2 t3"
    using write_head_spec [of ?t2, OF _ dev2 room] i2 m2 c2 t1(6,7) by (auto simp: LOGSIZE_def head_of_0)
  have rw: "recovery_writes ?d ?start (d_disk s) = ?W @ [(?d, ?start, put32 0 0 v)]"
    by (simp add: recovery_writes_def Let_def v_def)
  have "recover_from_log rw s = Ok () t3"
    using t1(1) t2(1) t3(1) by (simp add: recover_from_log_def kthen_def kbind_def)
  moreover have "lg_n t3 = 0" using more_fields(6) [OF t3(2)] by simp
  moreover have "d_disk t3 = apply_writes (recovery_writes ?d ?start (d_disk s)) (d_disk s)"
    "d_trace t3 = d_trace s @ recovery_writes ?d ?start (d_disk s)"
  proof -
    have "d_disk t3 = apply_writes [(?d, ?start, put32 0 0 v)] (d_disk t2)"
      "d_trace t3 = d_trace t2 @ [(?d, ?start, put32 0 0 v)]"
      using t3(3) by (simp_all add: wrotes_def)
    then show "d_disk t3 = apply_writes (recovery_writes ?d ?start (d_disk s)) (d_disk s)"
      "d_trace t3 = d_trace s @ recovery_writes ?d ?start (d_disk s)"
      using w2 unfolding rw wrotes_def apply_writes_simps(2) [of _ "[_]"] by simp_all
  qed
  moreover have "cache_inv {} t3" "dirty_set t3 = {}" using t3(3) d2 by (auto simp: wrotes_def)
  ultimately show ?thesis by blast
qed

end

end
