(* ===== verification/LogCrash.thy ===== *)
theory LogCrash
  imports Log
begin

text \<open>
  Crash safety of the log, and the life of a transaction: what log_write adds to it, what commit
  makes of it, and what recovery makes of a commit that was cut off. The two disk drivers give two
  instances of every statement.
\<close>

section \<open>Crash safety\<close>

text \<open>
  The disks a crash can leave: a prefix of what commit writes, then any number of recoveries, each
  cut off at any write.
\<close>

inductive crashed :: "'z log_st_scheme \<Rightarrow> (uint \<Rightarrow> uint \<Rightarrow> block) \<Rightarrow> bool" for s where
  crash_commit: "crashed s (apply_writes (take k (commit_trace s)) (d_disk s))"
| crash_recovery: "crashed s D \<Longrightarrow>
     crashed s (apply_writes (take k (recovery_writes (lg_dev s) (lg_start s) D)) D)"

text \<open>All blocks of the drive outside the log are as in \<open>C\<close>.\<close>

definition agrees :: "'z log_st_scheme \<Rightarrow> (uint \<Rightarrow> uint \<Rightarrow> block) \<Rightarrow> (uint \<Rightarrow> uint \<Rightarrow> block) \<Rightarrow> bool" where
  "agrees s D C \<longleftrightarrow> (\<forall>n. n \<notin> log_area s \<longrightarrow> D (lg_dev s) n = C (lg_dev s) n)"

text \<open>
  Between the two header writes of commit the log holds the whole transaction, and only its home
  blocks may differ from the old state.
\<close>

definition crash_inv :: "'z log_st_scheme \<Rightarrow> uint list \<Rightarrow> (uint \<Rightarrow> uint \<Rightarrow> block) \<Rightarrow> bool" where
  "crash_inv s bs D \<longleftrightarrow> (let d = lg_dev s; h = D d (lg_start s) in length h = BSIZE \<and>
     (head_n h = 0 \<and> (agrees s D (d_disk s) \<or> agrees s D (content s)) \<or>
      head_list h = bs \<and> head_n h = int (length bs) \<and>
      (\<forall>k<length bs. D d (lg_start s + of_nat k + 1) = content s d (bs ! k)) \<and>
      (\<forall>n. n \<notin> log_area s \<and> n \<notin> set bs \<longrightarrow> D d n = d_disk s d n)))"

lemma head_n_clear: "length v = BSIZE \<Longrightarrow> head_n (put32 0 0 v) = 0"
  by (simp add: head_n_def get32_put32 BSIZE_def)

lemma agrees_other:
  assumes "\<And>n d. n \<notin> log_area s \<Longrightarrow> (d, n) \<notin> wr_blk ` set ws"
  shows "agrees s (apply_writes ws D) C = agrees s D C"
  using assms by (simp add: agrees_def apply_writes_other)

lemma start_writes: "n \<notin> log_area s \<Longrightarrow> (d, n) \<notin> wr_blk ` set [(d', lg_start s, h)]"
  using log_area_mem(2) [of s] by (auto simp: wr_blk_def)

lemma take_log_writes: "take k (log_writes d start v n) = log_writes d start v (min k n)"
  by (cases "k \<le> n") (simp_all add: log_writes_def take_map min_def)

lemma take_install_writes: "take k (install_writes d bs v n) = install_writes d bs v (min k n)"
  by (cases "k \<le> n") (simp_all add: install_writes_def take_map min_def)

lemma install_keeps_log:
  assumes "\<And>b. b \<in> set bs \<Longrightarrow> b \<notin> log_area s" and "k \<le> length bs" and "n \<in> log_area s"
  shows "apply_writes (install_writes d' bs v k) D d n = D d n"
  using assms by (intro apply_writes_other wr_blk_install) auto

lemma install_other:
  "n \<notin> set bs \<Longrightarrow> k \<le> length bs \<Longrightarrow> apply_writes (install_writes d' bs v k) D d n = D d n"
  by (intro apply_writes_other wr_blk_install)

text \<open>With the transaction in the log, installing it completes the new state.\<close>

lemma install_all_new:
  assumes dist: "distinct bs" and v: "\<And>k. k < length bs \<Longrightarrow> v k = content s (lg_dev s) (bs ! k)"
    and old: "\<And>n. n \<notin> log_area s \<Longrightarrow> n \<notin> set bs \<Longrightarrow> D (lg_dev s) n = d_disk s (lg_dev s) n"
    and pin: "\<And>n. n \<notin> set bs \<Longrightarrow> content s (lg_dev s) n = d_disk s (lg_dev s) n"
  shows "agrees s (apply_writes (install_writes (lg_dev s) bs v (length bs)) D) (content s)"
  unfolding agrees_def
proof (intro allI impI)
  fix n assume n: "n \<notin> log_area s"
  show "apply_writes (install_writes (lg_dev s) bs v (length bs)) D (lg_dev s) n = content s (lg_dev s) n"
  proof (cases "n \<in> set bs")
    case True
    then obtain k where "k < length bs" "n = bs ! k" by (auto simp: in_set_conv_nth)
    then show ?thesis using install_read_back [OF dist, of k] v by simp
  next
    case False
    then show ?thesis using old [OF n False] pin [OF False] by (simp add: install_other)
  qed
qed

lemma recovery_keeps_inv:
  assumes inv: "crash_inv s bs D" and dist: "distinct bs" and na: "\<And>b. b \<in> set bs \<Longrightarrow> b \<notin> log_area s"
    and len: "length bs < LOGSIZE"
    and pin: "\<And>n. n \<notin> set bs \<Longrightarrow> content s (lg_dev s) n = d_disk s (lg_dev s) n"
  shows "crash_inv s bs (apply_writes (take k (recovery_writes (lg_dev s) (lg_start s) D)) D)"
    and "D' = apply_writes (recovery_writes (lg_dev s) (lg_start s) D) D \<Longrightarrow>
      head_n (D' (lg_dev s) (lg_start s)) = 0 \<and> (agrees s D' (d_disk s) \<or> agrees s D' (content s))"
proof -
  let ?d = "lg_dev s" and ?start = "lg_start s"
  let ?h = "D ?d ?start" and ?R = "recovery_writes ?d ?start D"
  have l: "length ?h = BSIZE" using inv by (simp add: crash_inv_def Let_def)
  have cl: "head_n (put32 0 0 ?h) = 0" "length (put32 0 0 ?h) = BSIZE"
    using l head_n_clear by (simp_all add: BSIZE_def)
  consider (empty) "head_n ?h = 0" "agrees s D (d_disk s) \<or> agrees s D (content s)"
    | (mid) "head_list ?h = bs" "head_n ?h = int (length bs)"
      "\<forall>k<length bs. D ?d (?start + of_nat k + 1) = content s ?d (bs ! k)"
      "\<forall>n. n \<notin> log_area s \<and> n \<notin> set bs \<longrightarrow> D ?d n = d_disk s ?d n"
    using inv by (auto simp: crash_inv_def Let_def)
  then have *: "crash_inv s bs (apply_writes (take k ?R) D) \<and> (let D' = apply_writes ?R D in
      head_n (D' ?d ?start) = 0 \<and> (agrees s D' (d_disk s) \<or> agrees s D' (content s)))"
  proof cases
    case empty
    have R: "?R = [(?d, ?start, put32 0 0 ?h)]"
      using empty(1) by (simp add: recovery_writes_def Let_def head_list_def install_writes_def)
    have full: "agrees s (apply_writes ?R D) C = agrees s D C" for C
      unfolding R by (rule agrees_other) (rule start_writes)
    have "take k ?R = [] \<or> take k ?R = ?R" by (cases k) (simp_all add: R)
    then have "crash_inv s bs (apply_writes (take k ?R) D)"
      using empty l cl full inv by (auto simp: crash_inv_def Let_def R)
    then show ?thesis using empty(2) full cl by (simp add: R Let_def)
  next
    case mid
    let ?I = "install_writes ?d bs (\<lambda>k. D ?d (?start + of_nat k + 1))"
    have R: "?R = ?I (length bs) @ [(?d, ?start, put32 0 0 ?h)]"
      using mid(1) by (simp add: recovery_writes_def Let_def)
    have kept: "crash_inv s bs (apply_writes (?I j) D)" if "j \<le> length bs" for j
    proof -
      have area: "apply_writes (?I j) D ?d n = D ?d n" if "n \<in> log_area s" for n
        by (rule install_keeps_log [OF na \<open>j \<le> length bs\<close> that])
      show ?thesis
        using mid l area [OF log_area_mem(2)] area [OF log_area_mem(1)] len that
        by (simp add: crash_inv_def Let_def install_other)
    qed
    have new: "agrees s (apply_writes (?I (length bs)) D) (content s)"
      by (rule install_all_new [OF dist]) (use mid pin in auto)
    have full: "agrees s (apply_writes ?R D) (content s)"
      unfolding R apply_writes_simps(2) using new by (subst agrees_other) (auto dest: start_writes)
    have hd: "apply_writes ?R D ?d ?start = put32 0 0 ?h" by (simp add: R)
    have "take k ?R = ?I (min k (length bs)) \<or> take k ?R = ?R"
      by (cases "k \<le> length bs") (simp_all add: R take_install_writes, simp_all add: install_writes_def)
    then have "crash_inv s bs (apply_writes (take k ?R) D)"
    proof
      assume "take k ?R = ?I (min k (length bs))"
      then show ?thesis using kept by simp
    next
      assume "take k ?R = ?R"
      then show ?thesis using full hd cl by (simp add: crash_inv_def Let_def)
    qed
    then show ?thesis using full hd cl by (simp add: Let_def)
  qed
  then show "crash_inv s bs (apply_writes (take k ?R) D)" by blast
  show "head_n (D' ?d ?start) = 0 \<and> (agrees s D' (d_disk s) \<or> agrees s D' (content s))"
    if "D' = apply_writes ?R D"
    using * unfolding that Let_def by blast
qed

text \<open>A transaction ready to commit: the pinned blocks are the logged ones, the log on disk is empty.\<close>

definition ready_to_commit :: "('z log_st_scheme \<Rightarrow> uint \<Rightarrow> bool) \<Rightarrow> ('z log_st_scheme \<Rightarrow> uint \<Rightarrow> bool) \<Rightarrow>
    'z log_st_scheme \<Rightarrow> uint list \<Rightarrow> bool" where
  "ready_to_commit ready has s bs \<longleftrightarrow> cache_inv {} s \<and> log_names ready has s bs \<and>
     dirty_set s = Pair (lg_dev s) ` set bs \<and> head_n (d_disk s (lg_dev s) (lg_start s)) = 0"

text \<open>Every prefix of commit is covered: before the header write the old state is intact, after it
  the log is complete.\<close>

lemma commit_all_new:
  assumes dist: "distinct bs" and na: "\<And>b. b \<in> set bs \<Longrightarrow> b \<notin> log_area s" and len: "length bs < LOGSIZE"
    and pin: "\<And>n. n \<notin> set bs \<Longrightarrow> content s (lg_dev s) n = d_disk s (lg_dev s) n"
    and n: "lg_n s = int (length bs)" and lb: "take (length bs) (lg_block s) = bs"
  shows "agrees s (apply_writes (commit_trace s) (d_disk s)) (content s)"
proof -
  let ?d = "lg_dev s" and ?start = "lg_start s" and ?n = "length bs" and ?D = "d_disk s"
  let ?v = "\<lambda>k. content s ?d (bs ! k)" and ?h = "head_of (lg_n s) (lg_block s) (content s ?d ?start)"
  let ?W1 = "log_writes ?d ?start ?v ?n" and ?W2 = "install_writes ?d bs ?v ?n"
  have bn: "lg_block s ! j = bs ! j" if "j < ?n" for j
  proof -
    have "take ?n (lg_block s) ! j = bs ! j" by (simp add: lb)
    then show ?thesis using that by simp
  qed
  have ct: "commit_trace s = ((?W1 @ [(?d, ?start, ?h)]) @ ?W2) @ [(?d, ?start, head_of 0 (lg_block s) ?h)]"
    using bn by (auto simp: commit_trace_def Let_def n log_writes_def install_writes_def)
  have "apply_writes (?W1 @ [(?d, ?start, ?h)]) ?D ?d m = ?D ?d m" if "m \<notin> log_area s" for m
    using wr_blk_log [OF that, of ?n] start_writes [OF that] len
    by (intro apply_writes_other) (auto simp: wr_blk_def)
  then have "agrees s (apply_writes ?W2 (apply_writes (?W1 @ [(?d, ?start, ?h)]) ?D)) (content s)"
    by (intro install_all_new [OF dist]) (use pin in auto)
  then show ?thesis
    unfolding ct apply_writes_simps(2) [of _ "[_]"] apply_writes_simps(2) [of _ ?W2]
    by (subst agrees_other) (auto dest: start_writes)
qed

lemma commit_crash_inv:
  assumes dist: "distinct bs" and na: "\<And>b. b \<in> set bs \<Longrightarrow> b \<notin> log_area s" and len: "length bs < LOGSIZE"
    and pin: "\<And>n. n \<notin> set bs \<Longrightarrow> content s (lg_dev s) n = d_disk s (lg_dev s) n"
    and n: "lg_n s = int (length bs)" and lb: "length (lg_block s) = LOGSIZE" "take (length bs) (lg_block s) = bs"
    and h: "length (d_disk s (lg_dev s) (lg_start s)) = BSIZE" "head_n (d_disk s (lg_dev s) (lg_start s)) = 0"
  shows "crash_inv s bs (apply_writes (take k (commit_trace s)) (d_disk s))"
proof -
  let ?d = "lg_dev s" and ?start = "lg_start s" and ?n = "length bs" and ?D = "d_disk s"
  let ?v = "\<lambda>k. content s ?d (bs ! k)" and ?old = "?D ?d ?start"
  let ?h = "head_of (lg_n s) (lg_block s) ?old"
  let ?W1 = "log_writes ?d ?start ?v" and ?W2 = "install_writes ?d bs ?v"
  have sn: "?start \<notin> set bs" using na log_area_mem(2) [of s] by blast
  have bn: "lg_block s ! j = bs ! j" if "j < ?n" for j
  proof -
    have "take ?n (lg_block s) ! j = bs ! j" by (simp add: lb(2))
    then show ?thesis using that by simp
  qed
  have ct: "commit_trace s = ((?W1 ?n @ [(?d, ?start, ?h)]) @ ?W2 ?n) @ [(?d, ?start, put32 0 0 ?h)]"
    using bn by (auto simp: commit_trace_def Let_def n log_writes_def install_writes_def head_of_0 pin [OF sn])
  have hh: "head_n ?h = int ?n" "head_list ?h = bs" "length ?h = BSIZE"
    using head_round_trip [of "lg_n s" ?old "lg_block s"] h(1) lb len n length_head_of [of "lg_n s" ?old] by auto
  have W1: "crash_inv s bs (apply_writes (?W1 j) ?D)" if "j \<le> ?n" for j
  proof -
    have "(?d, ?start) \<notin> wr_blk ` set (?W1 j)"
      using log_block_start [of _ ?start] that len by (fastforce simp: log_writes_def wr_blk_def)
    then have st: "apply_writes (?W1 j) ?D ?d ?start = ?old" by (rule apply_writes_other)
    have "agrees s (apply_writes (?W1 j) ?D) C = agrees s ?D C" for C
      by (rule agrees_other) (rule wr_blk_log, use that len in auto)
    then show ?thesis using st h by (auto simp: crash_inv_def Let_def agrees_def)
  qed
  let ?E = "apply_writes (?W1 ?n @ [(?d, ?start, ?h)]) ?D"
  have E: "?E ?d ?start = ?h" by simp
  have Elog: "?E ?d (?start + of_nat j + 1) = ?v j" if "j < ?n" for j
    by (rule log_read_back [OF that]) (use len in simp)
  have Eold: "?E ?d m = ?D ?d m" if "m \<notin> log_area s" for m
    using wr_blk_log [OF that, of ?n] start_writes [OF that] len
    by (intro apply_writes_other) (auto simp: wr_blk_def)
  have W2: "crash_inv s bs (apply_writes (?W2 j) ?E)" if "j \<le> ?n" for j
  proof -
    have area: "apply_writes (?W2 j) ?E ?d m = ?E ?d m" if "m \<in> log_area s" for m
      by (rule install_keeps_log [OF na \<open>j \<le> ?n\<close> that])
    have "apply_writes (?W2 j) ?E ?d (?start + of_nat i + 1) = ?v i" if "i < ?n" for i
      using area [OF log_area_mem(1) [of i s]] Elog [OF that] that len by simp
    moreover have "apply_writes (?W2 j) ?E ?d ?start = ?h" using area [OF log_area_mem(2)] E by simp
    moreover have "apply_writes (?W2 j) ?E ?d m = ?D ?d m" if "m \<notin> log_area s" "m \<notin> set bs" for m
      using install_other [OF that(2) \<open>j \<le> ?n\<close>] Eold [OF that(1)] by simp
    ultimately show ?thesis using hh by (simp add: crash_inv_def Let_def)
  qed
  have fin: "crash_inv s bs (apply_writes (commit_trace s) ?D)"
  proof -
    have "agrees s (apply_writes (commit_trace s) ?D) (content s)"
      by (rule commit_all_new [OF dist na len pin n lb(2)])
    moreover have "apply_writes (commit_trace s) ?D ?d ?start = put32 0 0 ?h"
      unfolding ct apply_writes_simps(2) [of _ "[_]"] by simp
    ultimately show ?thesis using head_n_clear [OF hh(3)] hh(3) by (simp add: crash_inv_def Let_def BSIZE_def)
  qed
  have lenW: "length (?W1 ?n) = ?n" "length (?W2 ?n) = ?n" by (simp_all add: log_writes_def install_writes_def)
  have "k \<le> ?n \<or> (\<exists>j\<le>?n. k = ?n + 1 + j) \<or> 2 * ?n + 1 < k" by presburger
  then consider "k \<le> ?n" | j where "k = ?n + 1 + j" "j \<le> ?n" | "2 * ?n + 1 < k" by blast
  then show ?thesis
  proof cases
    case 1
    then have "take k (commit_trace s) = ?W1 k" by (simp add: ct lenW take_log_writes)
    then show ?thesis using W1 [OF 1] by simp
  next
    case 2
    then have "take k (commit_trace s) = (?W1 ?n @ [(?d, ?start, ?h)]) @ ?W2 j"
      by (simp add: ct lenW take_install_writes)
    then show ?thesis using W2 [OF 2(2)] by (simp only: apply_writes_simps(2))
  next
    case 3
    then have "take k (commit_trace s) = commit_trace s" by (simp add: ct lenW)
    then show ?thesis using fin by simp
  qed
qed

context log_device
begin

lemma crashed_inv:
  assumes rc: "ready_to_commit ready has s bs" and c: "crashed s D"
  shows "crash_inv s bs D"
proof -
  have nm: "log_names ready has s bs" and inv: "cache_inv {} s" and ds: "dirty_set s = Pair (lg_dev s) ` set bs"
    and h: "head_n (d_disk s (lg_dev s) (lg_start s)) = 0"
    using rc by (auto simp: ready_to_commit_def)
  have pin: "content s (lg_dev s) n = d_disk s (lg_dev s) n" if "n \<notin> set bs" for n
    using that ds by (intro content_clean) auto
  note facts = nm [unfolded log_names_def]
  have na: "b \<notin> log_area s" if "b \<in> set bs" for b using facts that by blast
  from c show ?thesis
  proof induction
    case (crash_commit k)
    show ?case
      by (rule commit_crash_inv) (use facts pin h cache_invD(4) [OF inv] in auto)
  next
    case (crash_recovery D k)
    show ?case
      by (rule recovery_keeps_inv(1) [OF crash_recovery.IH]) (use facts pin na in auto)
  qed
qed

lemma crash_recovers:
  assumes rc: "ready_to_commit ready has s bs" and c: "crashed s (d_disk r)"
    and inv: "cache_inv {} r" and dirty: "dirty_set r = {}" and len: "length (lg_block r) = LOGSIZE"
    and same: "lg_dev r = lg_dev s" "lg_start r = lg_start s"
    and hw: "ready r (lg_dev r)" "\<And>n. has r n = has s n"
  shows "\<exists>t. recover_from_log rw r = Ok () t \<and> cache_inv {} t \<and> head_n (d_disk t (lg_dev s) (lg_start s)) = 0 \<and>
    (agrees s (d_disk t) (d_disk s) \<or> agrees s (d_disk t) (content s))"
proof -
  have nm: "log_names ready has s bs" and ds: "dirty_set s = Pair (lg_dev s) ` set bs"
    using rc by (auto simp: ready_to_commit_def)
  note facts = nm [unfolded log_names_def]
  have ci: "crash_inv s bs (d_disk r)" by (rule crashed_inv [OF rc c])
  have area: "log_area r = log_area s" by (simp add: log_area_def same)
  have pin: "content s (lg_dev s) n = d_disk s (lg_dev s) n" if "n \<notin> set bs" for n
    using that ds by (intro content_clean) auto
  let ?h = "d_disk r (lg_dev s) (lg_start s)"
  have "head_n ?h = 0 \<and> head_list ?h = [] \<or> head_n ?h = int (length bs) \<and> head_list ?h = bs"
    using ci unfolding crash_inv_def Let_def head_list_def by fastforce
  moreover have "distinct bs" "length bs < LOGSIZE" "\<forall>b\<in>set bs. has s b \<and> b \<notin> log_area s"
    using facts by blast+
  ultimately have ok: "log_disk_ok r (d_disk r)"
    unfolding log_disk_ok_def Let_def area same hw(2) by (elim disjE conjE) (simp_all add: LOGSIZE_def)
  have "\<forall>n\<in>log_area r. has r n" using facts area hw(2) by simp
  then obtain t where t: "recover_from_log rw r = Ok () t" "cache_inv {} t"
    "d_disk t = apply_writes (recovery_writes (lg_dev s) (lg_start s) (d_disk r)) (d_disk r)"
    using recover_spec [OF inv dirty _ hw(1) _ len ok] facts same by auto
  have "head_n (d_disk t (lg_dev s) (lg_start s)) = 0 \<and> (agrees s (d_disk t) (d_disk s) \<or> agrees s (d_disk t) (content s))"
    by (rule recovery_keeps_inv(2) [OF ci _ _ _ _ t(3)]) (use facts pin in auto)
  with t show ?thesis by blast
qed

end

section \<open>Building a transaction\<close>

lemma absorb_less:
  "i + k \<le> length bs \<Longrightarrow> absorb k i bs bn =
    (case find (\<lambda>j. bs ! j = bn) [i..<i + k] of Some j \<Rightarrow> j | None \<Rightarrow> i + k)"
proof (induction k arbitrary: i)
  case (Suc k)
  have u: "[i..<Suc (i + k)] = i # [Suc i..<Suc (i + k)]" by (simp add: upt_rec del: upt_Suc)
  show ?case using Suc.IH [of "Suc i"] Suc.prems by (simp add: u del: upt_Suc split: option.split)
qed simp

lemma absorb_result:
  assumes "length bs \<le> length arr" and "take (length bs) arr = bs"
  shows "bn \<in> set bs \<Longrightarrow> absorb (length bs) 0 arr bn < length bs \<and> arr ! absorb (length bs) 0 arr bn = bn"
    and "bn \<notin> set bs \<Longrightarrow> absorb (length bs) 0 arr bn = length bs"
proof -
  have nth: "arr ! j = bs ! j" if "j < length bs" for j
  proof -
    have "take (length bs) arr ! j = bs ! j" by (simp add: assms(2))
    then show ?thesis using that by simp
  qed
  note a = absorb_less [of 0 "length bs" arr bn]
  show "absorb (length bs) 0 arr bn < length bs \<and> arr ! absorb (length bs) 0 arr bn = bn" if mem: "bn \<in> set bs"
  proof -
    obtain j where "j < length bs" "bs ! j = bn" using mem by (auto simp: in_set_conv_nth)
    then have "find (\<lambda>j. arr ! j = bn) [0..<length bs] \<noteq> None" using nth by (auto simp: find_None_iff)
    then obtain k where "find (\<lambda>j. arr ! j = bn) [0..<length bs] = Some k" by blast
    with find_upt_bound [OF this] show ?thesis using a assms(1) by simp
  qed
  show "absorb (length bs) 0 arr bn = length bs" if "bn \<notin> set bs"
  proof -
    have "find (\<lambda>j. arr ! j = bn) [0..<length bs] = None"
      using that nth by (auto simp: find_None_iff in_set_conv_nth)
    then show ?thesis using a assms(1) by simp
  qed
qed

text \<open>The blocks in the log after one more log_write: an update of a logged block is absorbed.\<close>

definition logged :: "uint list \<Rightarrow> uint \<Rightarrow> uint list" where
  "logged bs n = (if n \<in> set bs then bs else bs @ [n])"

text \<open>
  The use every file system routine makes of the log: read a block, change it, log_write it and
  release it.
\<close>

definition log_update :: "('z log_st_ext) driver \<Rightarrow> uint \<Rightarrow> (block \<Rightarrow> block) \<Rightarrow> ('z log_st_scheme, unit) routine" where
  "log_update rw n f =
     kbind (\<lambda>s. bread rw (lg_dev s) n s) (\<lambda>b.
     kthen (kmod (\<lambda>s. bupd b (\<lambda>p. p\<lparr>b_data := f (b_data p)\<rparr>) s))
     (kthen (log_write b)
     (brelse b)))"

text \<open>Inside a transaction: as ready to commit, with room in the log and an operation going on.\<close>

definition in_transaction ::
    "('z log_st_scheme \<Rightarrow> uint \<Rightarrow> bool) \<Rightarrow> ('z log_st_scheme \<Rightarrow> uint \<Rightarrow> bool) \<Rightarrow> 'z log_st_scheme \<Rightarrow> uint list \<Rightarrow> bool" where
  "in_transaction ready has s bs \<longleftrightarrow> ready_to_commit ready has s bs \<and> lg_outstanding s \<ge> 1 \<and>
     lg_size s = int LOGSIZE"

definition log_entry :: "uint \<Rightarrow> 'z log_st_scheme \<Rightarrow> 'z log_st_scheme" where
  "log_entry n s =
     (let i = absorb (nat (lg_n s)) 0 (lg_block s) n; s' = s\<lparr>lg_block := (lg_block s)[i := n]\<rparr>
      in if int i = lg_n s then s'\<lparr>lg_n := lg_n s + 1\<rparr> else s')"

lemma log_entry_fields [simp]:
  "d_buf (log_entry n s) = d_buf s" "d_disk (log_entry n s) = d_disk s" "d_trace (log_entry n s) = d_trace s"
  "lg_dev (log_entry n s) = lg_dev s" "lg_start (log_entry n s) = lg_start s"
  "lg_outstanding (log_entry n s) = lg_outstanding s" "lg_size (log_entry n s) = lg_size s"
  "cache_inv H (log_entry n s) = cache_inv H s" "dirty_set (log_entry n s) = dirty_set s"
  "content (log_entry n s) = content s" "same_hw r (log_entry n s) = same_hw r s"
  by (simp_all add: log_entry_def Let_def cache_inv_def ring_def buf_ok_def holds_def dirty_set_def content_def
      same_hw_def fun_eq_iff split: option.splits)

lemma log_entry_more: "dsk.more t = dsk.more s \<Longrightarrow> dsk.more (log_entry n t) = dsk.more (log_entry n s)"
  by (cases s; cases t) (simp add: log_entry_def Let_def)

lemma log_entry_names:
  assumes n: "lg_n s = int (length bs)" "length bs < 29" "length (lg_block s) = LOGSIZE" "take (length bs) (lg_block s) = bs"
  shows "lg_n (log_entry bn s) = int (length (logged bs bn)) \<and> length (lg_block (log_entry bn s)) = LOGSIZE \<and>
    take (length (logged bs bn)) (lg_block (log_entry bn s)) = logged bs bn"
proof (cases "bn \<in> set bs")
  case True
  then have "absorb (length bs) 0 (lg_block s) bn < length bs \<and> lg_block s ! absorb (length bs) 0 (lg_block s) bn = bn"
    using absorb_result(1) n by (simp add: LOGSIZE_def)
  moreover have "(lg_block s)[i := bn] = lg_block s" if "lg_block s ! i = bn" for i
    using that list_update_id [of "lg_block s" i] by simp
  ultimately show ?thesis using True n by (auto simp: log_entry_def Let_def logged_def)
next
  case False
  then have "absorb (length bs) 0 (lg_block s) bn = length bs"
    using absorb_result(2) n by (simp add: LOGSIZE_def)
  moreover have "take (Suc (length bs)) ((lg_block s)[length bs := bn]) = bs @ [bn]"
    using n by (simp add: take_Suc_conv_app_nth LOGSIZE_def)
  ultimately show ?thesis using False n by (simp add: log_entry_def Let_def logged_def)
qed

context log_device
begin

lemma log_update_spec:
  assumes tr: "in_transaction ready has s bs" and room: "length bs < 29"
    and n: "has s n" "n \<notin> log_area s" and f: "\<And>v. length v = BSIZE \<Longrightarrow> length (f v) = BSIZE"
  shows "\<exists>t. log_update rw n f s = Ok () t \<and> in_transaction ready has t (logged bs n) \<and> same_hw s t \<and>
    lg_dev t = lg_dev s \<and> lg_start t = lg_start s \<and> d_disk t = d_disk s \<and> d_trace t = d_trace s \<and>
    (\<forall>m. content t (lg_dev s) m = (if m = n then f (content s (lg_dev s) n) else content s (lg_dev s) m))"
proof -
  let ?d = "lg_dev s"
  have inv: "cache_inv {} s" and nm: "log_names ready has s bs" and ds: "dirty_set s = Pair ?d ` set bs"
    and h0: "head_n (d_disk s ?d (lg_start s)) = 0" and out: "lg_outstanding s \<ge> 1" and size: "lg_size s = int LOGSIZE"
    using tr by (auto simp: in_transaction_def ready_to_commit_def)
  note facts = nm [unfolded log_names_def]
  have d: "?d \<noteq> 0" "ready s ?d" using facts by auto
  have "card (dirty_set s) \<le> length bs"
    unfolding ds using card_image_le [of "set bs" "Pair ?d"] card_length [of bs] by simp
  then have rm: "(?d, n) \<in> dirty_set s \<or> card (dirty_set s) + card ({} :: nat set) < NBUF"
    using room by (simp add: NBUF_def)
  obtain b t1 where b: "bread rw ?d n s = Ok b t1" "got {} ?d n b s t1"
    by (rule bread_got [OF inv d n(1) _ rm]) auto
  have hw: "same_hw s t1" and m1: "dsk.more t1 = dsk.more s" and inv1: "cache_inv {b} t1"
    and blk: "blk_of t1 b = (?d, n)" and dt: "b_data (d_buf t1 b) = content s ?d n"
    and dk: "d_disk t1 = d_disk s" "d_trace t1 = d_trace s" "dirty_set t1 = dirty_set s" "content t1 = content s"
    using b(2) by (auto simp: got_def same_env_def same_hw_def is_block_def)
  note mf = more_fields [OF m1]
  let ?v = "f (content s ?d n)"
  have v: "length ?v = BSIZE" using f length_content [OF inv] by blast
  let ?t2 = "bupd b (\<lambda>p. p\<lparr>b_data := ?v\<rparr>) t1"
  let ?t3 = "bupd b (\<lambda>p. p\<lparr>b_dirty := True\<rparr>) (log_entry n ?t2)"
  let ?t4 = "brelse_state b ?t3"
  have t3: "?t3 = log_entry n (bupd b (\<lambda>p. p\<lparr>b_data := ?v, b_dirty := True\<rparr>) t1)"
    by (simp add: log_entry_def Let_def bupd_def)
  have bb: "b \<in> {b}" by simp
  have i3: "cache_inv {b} ?t3" unfolding t3 using modify_inv [OF inv1 bb v] by simp
  have d3: "dirty_set ?t3 = insert (?d, n) (dirty_set s)"
    unfolding t3 using modify_dirty_set [OF inv1 bb, where v = ?v and x = True] blk dk by simp
  have c3: "content ?t3 e m = (if (e, m) = (?d, n) then ?v else content s e m)" for e m
    unfolding t3 using modify_content [OF inv1 bb v, of True e m] blk dk by simp
  have lw: "log_write b ?t2 = Ok () ?t3"
    using facts out size room blk mf by (simp add: log_write_def log_entry_def Let_def LOGSIZE_def)
  have r: "brelse b ?t3 = Ok () ?t4" by (rule brelse_spec [OF i3 bb])
  have i4: "cache_inv {} ?t4" using brelse_inv [OF i3 bb] by simp
  have "bupd b (\<lambda>p. p\<lparr>b_data := f (b_data p)\<rparr>) t1 = ?t2" by (simp add: bupd_def dt)
  then have e: "log_update rw n f s = Ok () ?t4"
    by (simp add: log_update_def kbind_def kthen_def b(1) lw r)
  have more4: "dsk.more ?t4 = dsk.more (log_entry n t1)"
    using log_entry_more [of ?t2 t1 n] by simp
  note m4 = more_fields [OF more4]
  have hw4: "same_hw s ?t4" using hw by (simp add: same_hw_def log_entry_def Let_def)
  have en: "lg_n ?t4 = int (length (logged bs n)) \<and> length (lg_block ?t4) = LOGSIZE \<and>
      take (length (logged bs n)) (lg_block ?t4) = logged bs n"
    using log_entry_names [of t1 bs n] facts room mf m4 by simp
  have area: "log_area ?t4 = log_area s" using m4 mf by (simp add: log_area_def)
  have "log_names ready has ?t4 (logged bs n)"
    unfolding log_names_def area using en facts m4 mf env_ready [OF hw4] n room
    by (auto simp: logged_def LOGSIZE_def)
  moreover have "dirty_set ?t4 = Pair ?d ` set (logged bs n)"
    using d3 ds by (auto simp: brelse_content logged_def)
  ultimately have "in_transaction ready has ?t4 (logged bs n)"
    using i4 h0 out size m4 mf dk by (simp add: in_transaction_def ready_to_commit_def)
  moreover have "content ?t4 ?d m = (if m = n then ?v else content s ?d m)" for m
    using c3 by (simp add: brelse_content)
  ultimately show ?thesis using e hw4 m4 mf dk by (intro exI [of _ ?t4]) simp
qed

end

interpretation ide_log: log_device iderw ide_ready "\<lambda>s n. n < FSSIZE"
  by unfold_locales (auto intro: iderw_spec simp: ide_ready_def)

interpretation mem_log: log_device mem_iderw "\<lambda>s d. d = 1" "\<lambda>s n. n < d_memsize s"
  by unfold_locales (auto intro: mem_iderw_spec)

section \<open>The cache at boot\<close>

text \<open>All buffers empty, as the zeroed static array that binit is given.\<close>

definition all_empty :: "'z dsk_scheme \<Rightarrow> bool" where
  "all_empty s \<longleftrightarrow> (\<forall>i. \<not> b_valid (d_buf s i) \<and> \<not> b_dirty (d_buf s i) \<and> b_dev (d_buf s i) = 0 \<and>
     b_refcnt (d_buf s i) = 0 \<and> \<not> sl_locked (b_lock (d_buf s i)) \<and> length (b_data (d_buf s i)) = BSIZE)"

lemma binit_loop_frame:
  "all_empty s \<Longrightarrow> all_empty (binit_loop bs s) \<and> d_disk (binit_loop bs s) = d_disk s \<and>
   d_trace (binit_loop bs s) = d_trace s \<and> same_hw s (binit_loop bs s) \<and> dsk.more (binit_loop bs s) = dsk.more s"
proof (induction bs arbitrary: s)
  case (Cons b bs)
  let ?s = "insert_front b (bupd b (\<lambda>p. p\<lparr>b_lock := initsleeplock ''buffer'' (b_lock p)\<rparr>) s)"
  have f: "d_buf ?s = (d_buf s)(b := (d_buf s b)\<lparr>b_lock := initsleeplock ''buffer'' (b_lock (d_buf s b))\<rparr>)"
    "d_disk ?s = d_disk s" "d_trace ?s = d_trace s" "same_hw s ?s" "dsk.more ?s = dsk.more s"
    by (simp_all add: insert_front_def Let_def same_hw_def)
  have "all_empty ?s" using Cons.prems unfolding all_empty_def f by (simp add: initsleeplock_def)
  from Cons.IH [OF this] f show ?case by (simp add: same_hw_def)
qed (simp add: same_hw_def)

lemma binit_inv:
  assumes e: "all_empty s" and d: "\<And>d n. length (d_disk s d n) = BSIZE"
  shows "cache_inv {} (binit s)" and "dirty_set (binit s) = {}" and "d_disk (binit s) = d_disk s"
    and "same_hw s (binit s)" and "dsk.more (binit s) = dsk.more s" and "content (binit s) = d_disk s"
proof -
  let ?s = "s\<lparr>d_prev := (d_prev s)(HEAD := HEAD), d_next := (d_next s)(HEAD := HEAD)\<rparr>"
  have es: "all_empty ?s" using e by (simp add: all_empty_def)
  note f = binit_loop_frame [OF es, of "[0..<NBUF]", folded binit_def]
  have b: "\<not> b_valid (d_buf (binit s) i)" "\<not> b_dirty (d_buf (binit s) i)" "b_dev (d_buf (binit s) i) = 0"
    "b_refcnt (d_buf (binit s) i) = 0" "\<not> sl_locked (b_lock (d_buf (binit s) i))"
    "length (b_data (d_buf (binit s) i)) = BSIZE" for i
    using f by (auto simp: all_empty_def)
  show dk: "d_disk (binit s) = d_disk s" and "same_hw s (binit s)" and "dsk.more (binit s) = dsk.more s"
    using f by (auto simp: same_hw_def)
  show ds: "dirty_set (binit s) = {}" by (simp add: dirty_set_def b)
  show "content (binit s) = d_disk s"
    using content_clean [of _ _ "binit s"] ds dk by (simp add: fun_eq_iff)
  have "set (rev [0..<NBUF]) = {..<NBUF}" by auto
  then show "cache_inv {} (binit s)"
    unfolding cache_inv_def buf_ok_def Let_def using binit_ring [of s] b d dk by auto
qed

definition ex_dsk :: "(uint \<Rightarrow> uint \<Rightarrow> block) \<Rightarrow> log_st" where
  "ex_dsk D = binit \<lparr>d_buf = (\<lambda>_. buf0), d_next = (\<lambda>_. 0), d_prev = (\<lambda>_. 0), d_disk = D, d_trace = [],
     d_queue = [], d_cmd = None, d_havedisk1 = True, d_memsize = 1000, d_pid = 1, lg_start = 2,
     lg_size = 30, lg_outstanding = 1, lg_committing = False, lg_dev = 1, lg_n = 0, lg_block = replicate 30 0\<rparr>"

definition ex_zero :: "uint \<Rightarrow> uint \<Rightarrow> block" where
  "ex_zero = (\<lambda>_ _. replicate BSIZE 0)"

lemma ex_dsk_facts:
  assumes "\<And>d n. length (D d n) = BSIZE"
  shows "cache_inv {} (ex_dsk D)" "dirty_set (ex_dsk D) = {}" "d_disk (ex_dsk D) = D" "content (ex_dsk D) = D"
    "d_queue (ex_dsk D) = []" "d_cmd (ex_dsk D) = None" "d_havedisk1 (ex_dsk D)"
    "lg_start (ex_dsk D) = 2" "lg_size (ex_dsk D) = 30" "lg_outstanding (ex_dsk D) = 1" "lg_dev (ex_dsk D) = 1"
    "lg_n (ex_dsk D) = 0" "lg_block (ex_dsk D) = replicate 30 0" "\<not> lg_committing (ex_dsk D)"
proof -
  let ?s = "\<lparr>d_buf = (\<lambda>_. buf0), d_next = (\<lambda>_. 0), d_prev = (\<lambda>_. 0), d_disk = D, d_trace = [],
     d_queue = [], d_cmd = None, d_havedisk1 = True, d_memsize = 1000, d_pid = 1, lg_start = 2,
     lg_size = 30, lg_outstanding = 1, lg_committing = False, lg_dev = 1, lg_n = 0, lg_block = replicate 30 0\<rparr> :: log_st"
  have e: "all_empty ?s" by (simp add: all_empty_def buf0_def)
  note b = binit_inv [OF e, folded ex_dsk_def]
  show "cache_inv {} (ex_dsk D)" "dirty_set (ex_dsk D) = {}" "d_disk (ex_dsk D) = D" "content (ex_dsk D) = D"
    using b assms by simp_all
  have hw: "same_hw ?s (ex_dsk D)" and m: "dsk.more (ex_dsk D) = dsk.more ?s" using b assms by simp_all
  show "d_queue (ex_dsk D) = []" "d_cmd (ex_dsk D) = None" "d_havedisk1 (ex_dsk D)"
    using hw by (simp_all add: same_hw_def)
  show "lg_start (ex_dsk D) = 2" "lg_size (ex_dsk D) = 30" "lg_outstanding (ex_dsk D) = 1" "lg_dev (ex_dsk D) = 1"
    "lg_n (ex_dsk D) = 0" "lg_block (ex_dsk D) = replicate 30 0" "\<not> lg_committing (ex_dsk D)"
    using more_fields [OF m] by simp_all
qed

lemma ex_area: "lg_start s = 2 \<Longrightarrow> n \<in> log_area s \<longleftrightarrow> (\<exists>k\<le>30. n = 2 + of_nat k)"
  by (auto simp: log_area_def LOGSIZE_def)

lemma ex_area_less: "lg_start s = 2 \<Longrightarrow> n \<in> log_area s \<Longrightarrow> n < 33"
proof -
  assume "lg_start s = 2" "n \<in> log_area s"
  then obtain k where "k \<le> 30" "n = of_nat (k + 2)" by (auto simp: ex_area)
  then show "n < 33" using unat_small [of "k + 2"] by (simp add: word_less_nat_alt)
qed

lemma ex_in_transaction: "in_transaction ide_ready (\<lambda>s n. n < FSSIZE) (ex_dsk ex_zero) []"
proof -
  have l: "\<And>d n. length (ex_zero d n) = BSIZE" by (simp add: ex_zero_def)
  note f = ex_dsk_facts [of ex_zero, OF l]
  have "n < FSSIZE" if "n \<in> log_area (ex_dsk ex_zero)" for n
    using ex_area_less [OF f(8) that] by (simp add: FSSIZE_def word_less_nat_alt)
  moreover have "head_n (ex_zero 1 2) = 0"
    by (simp add: head_n_def get32_def ex_zero_def BSIZE_def numeral_eq_Suc)
  ultimately show ?thesis
    by (simp add: in_transaction_def ready_to_commit_def log_names_def ide_ready_def f LOGSIZE_def)
qed

text \<open>Block 100 filled with sevens, pinned and logged, not yet on disk.\<close>

lemma ex_pending:
  "\<exists>s :: log_st. ready_to_commit ide_ready (\<lambda>s n. n < FSSIZE) s [100] \<and> lg_dev s = 1 \<and> lg_start s = 2 \<and>
    d_disk s = ex_zero \<and> content s 1 100 = replicate BSIZE 7"
proof -
  let ?s = "ex_dsk ex_zero"
  have l: "\<And>d n. length (ex_zero d n) = BSIZE" by (simp add: ex_zero_def)
  note f = ex_dsk_facts [of ex_zero, OF l]
  have na: "100 \<notin> log_area ?s" using ex_area_less [OF f(8), of 100] by auto
  have "\<exists>t. log_update iderw 100 (\<lambda>_. replicate BSIZE 7) ?s = Ok () t \<and>
      in_transaction ide_ready (\<lambda>s n. n < FSSIZE) t (logged [] 100) \<and> same_hw ?s t \<and> lg_dev t = lg_dev ?s \<and>
      lg_start t = lg_start ?s \<and> d_disk t = d_disk ?s \<and> d_trace t = d_trace ?s \<and>
      (\<forall>m. content t (lg_dev ?s) m = (if m = 100 then replicate BSIZE 7 else content ?s (lg_dev ?s) m))"
    by (rule ide_log.log_update_spec [OF ex_in_transaction]) (simp_all add: FSSIZE_def na)
  then show ?thesis by (auto simp: logged_def f in_transaction_def)
qed

section \<open>Properties\<close>



text \<open>C2: what commit does when nothing goes wrong. It returns; the disk then holds the contents every
  reader saw before; no block stays pinned and the log is empty; and its writes reach the disk in
  write-ahead order: the log blocks, the header naming them, the home blocks, the empty header.\<close>

theorem commit_writes_through:
  assumes "ready_to_commit ide_ready (\<lambda>s n. n < FSSIZE) s bs" and "bs \<noteq> []"
  shows "\<exists>t. commit iderw s = Ok () t \<and> cache_inv {} t \<and> dirty_set t = {} \<and> lg_n t = 0 \<and>
    agrees s (d_disk t) (content s) \<and> d_trace t = d_trace s @ commit_trace s"
proof -
  have nm: "log_names ide_ready (\<lambda>s n. n < FSSIZE) s bs" and inv: "cache_inv {} s"
    and ds: "dirty_set s = Pair (lg_dev s) ` set bs"
    using assms(1) by (auto simp: ready_to_commit_def)
  note facts = nm [unfolded log_names_def]
  obtain t where t: "commit iderw s = Ok () t" "cache_inv {} t" "dirty_set t = {}" "lg_n t = 0"
    "d_disk t = apply_writes (commit_trace s) (d_disk s)" "d_trace t = d_trace s @ commit_trace s"
    using ide_log.commit_spec [OF inv nm assms(2) ds] by blast
  have pin: "content s (lg_dev s) n = d_disk s (lg_dev s) n" if "n \<notin> set bs" for n
    using that ds by (intro content_clean) auto
  have new: "agrees s (apply_writes (commit_trace s) (d_disk s)) (content s)"
    by (rule commit_all_new) (use facts pin in auto)
  then show ?thesis using t by auto
qed

theorem commit_writes_through_witness:
  "\<exists>(s :: log_st) (t :: log_st). content s 1 100 \<noteq> d_disk s 1 100 \<and> commit iderw s = Ok () t \<and> d_disk t 1 100 = content s 1 100"
proof -
  obtain s :: log_st where s: "ready_to_commit ide_ready (\<lambda>s n. n < FSSIZE) s [100]" "lg_dev s = 1" "lg_start s = 2"
    "d_disk s = ex_zero" "content s 1 100 = replicate BSIZE 7"
    using ex_pending by blast
  obtain t where t: "commit iderw s = Ok () t" "agrees s (d_disk t) (content s)"
    using commit_writes_through [OF s(1)] by auto
  have "100 \<notin> log_area s" using ex_area_less [OF s(3), of 100] by auto
  then have "d_disk t 1 100 = content s 1 100" using t(2) s(2) by (simp add: agrees_def)
  moreover have "content s 1 100 ! 0 \<noteq> d_disk s 1 100 ! 0" by (simp add: s ex_zero_def BSIZE_def)
  then have "content s 1 100 \<noteq> d_disk s 1 100" by metis
  ultimately show ?thesis using t(1) by blast
qed

text \<open>C3: an update inside a transaction. Reading a block, changing it, log_write and brelse succeed
  while fewer than 29 blocks are logged; every later reader sees the change and no other, the disk
  is untouched, the block is pinned and logged once however often it is updated.\<close>

theorem update_in_transaction:
  assumes "in_transaction ide_ready (\<lambda>s n. n < FSSIZE) s bs" and "length bs < 29" and "n < FSSIZE"
    and "n \<notin> log_area s" and "\<And>v. length v = BSIZE \<Longrightarrow> length (f v) = BSIZE"
  shows "\<exists>t. log_update iderw n f s = Ok () t \<and> in_transaction ide_ready (\<lambda>s n. n < FSSIZE) t (logged bs n) \<and>
    d_disk t = d_disk s \<and> d_trace t = d_trace s \<and>
    (\<forall>m. content t (lg_dev s) m = (if m = n then f (content s (lg_dev s) n) else content s (lg_dev s) m))"
  using ide_log.log_update_spec [OF assms(1,2) _ assms(4), of f] assms(3,5) by blast

theorem update_in_transaction_witness:
  "\<exists>t. log_update iderw 100 (\<lambda>_. replicate BSIZE 7) (ex_dsk ex_zero) = Ok () t \<and>
    in_transaction ide_ready (\<lambda>s n. n < FSSIZE) t [100] \<and> content t 1 100 = replicate BSIZE 7"
proof -
  have l: "\<And>d n. length (ex_zero d n) = BSIZE" by (simp add: ex_zero_def)
  note f = ex_dsk_facts [of ex_zero, OF l]
  have "100 \<notin> log_area (ex_dsk ex_zero)" using ex_area_less [OF f(8), of 100] by auto
  then show ?thesis
    using update_in_transaction [OF ex_in_transaction, of 100 "\<lambda>_. replicate BSIZE 7"]
    by (auto simp: FSSIZE_def logged_def f)
qed



end
