(* ===== verification/BlockProps.thy ===== *)
theory BlockProps
  imports LogCrash
begin

text \<open>
  The contracts of the block layer: the two disk drivers are interchangeable, the ring of bio.c is
  an LRU cache, and the request queue of ide.c serves interleaved requests in order.
\<close>

section \<open>The cache as an LRU list\<close>

text \<open>
  The abstract cache is the list of cached blocks, most recently used first, each with whether it is
  pinned. An access moves its block to the front; a miss evicts the last block that is not pinned.
\<close>

type_synonym lru_entry = "(uint \<times> uint) \<times> bool"

definition lru_entry :: "buf \<Rightarrow> lru_entry" where
  "lru_entry p = ((b_dev p, b_blockno p), b_dirty p)"

definition lru_rel :: "'z dsk_scheme \<Rightarrow> lru_entry list \<Rightarrow> bool" where
  "lru_rel s L \<longleftrightarrow> (\<exists>l. ring s l \<and> set l = {..<NBUF} \<and> L = map (\<lambda>i. lru_entry (d_buf s i)) l)"

definition lru_access :: "uint \<times> uint \<Rightarrow> lru_entry list \<Rightarrow> lru_entry list option" where
  "lru_access k L =
     (case find (\<lambda>e. fst e = k) L of
        Some e \<Rightarrow> Some (e # remove1 e L)
      | None \<Rightarrow> (case find (\<lambda>e. \<not> snd e) (rev L) of
          Some e \<Rightarrow> Some ((k, False) # rev (remove1 e (rev L)))
        | None \<Rightarrow> None))"

lemma find_map: "find P (map f l) = map_option f (find (P \<circ> f) l)"
  by (induction l) auto

lemma map_remove1_find:
  "find (P \<circ> f) l = Some b \<Longrightarrow> map f (remove1 b l) = remove1 (f b) (map f l)"
  by (induction l) (auto split: if_splits dest: find_SomeD)

lemma remove1_rev: "distinct l \<Longrightarrow> remove1 b (rev l) = rev (remove1 b l)"
  by (simp add: distinct_remove1_removeAll removeAll_filter_not_eq rev_filter)

lemma lru_entry_released [simp]: "lru_entry (released p) = lru_entry p"
  by (simp add: lru_entry_def released_def)

lemma lru_rel_release:
  assumes "ring s l" and "set l = {..<NBUF}" and "b < NBUF"
  shows "lru_rel (brelse_state b (bupd b (\<lambda>_. q) s))
    (lru_entry q # map (\<lambda>i. lru_entry (d_buf s i)) (remove1 b l))"
proof -
  let ?t = "bupd b (\<lambda>_. q) s"
  have r: "ring (brelse_state b ?t) (b # remove1 b l)"
    unfolding brelse_state_def by (rule touch_ring) (use assms in simp_all)
  have d: "distinct l" using assms(1) by (simp add: ring_def)
  have rs: "set (remove1 b l) = {..<NBUF} - {b}" using d assms(2) by (simp add: set_remove1_eq)
  then have "set (b # remove1 b l) = {..<NBUF}" using assms(3) by auto
  moreover have "map (\<lambda>i. lru_entry (d_buf s i)) (remove1 b l) =
      map (\<lambda>i. lru_entry (d_buf (brelse_state b ?t) i)) (remove1 b l)"
    by (rule map_cong) (simp_all add: rs)
  then have "lru_entry q # map (\<lambda>i. lru_entry (d_buf s i)) (remove1 b l) =
      map (\<lambda>i. lru_entry (d_buf (brelse_state b ?t) i)) (b # remove1 b l)"
    by simp
  ultimately show ?thesis unfolding lru_rel_def by (intro exI [of _ "b # remove1 b l"] conjI r)
qed

lemma bread_bget: "bread rw d n s = Ok b t \<Longrightarrow> \<exists>u. bget d n s = Ok b u"
  by (auto simp: bread_def kbind_eq_Ok kthen_eq_Ok split: if_splits)

lemma clean_room:
  assumes "i < NBUF" and "\<not> b_dirty (d_buf s i)"
  shows "card (dirty_set s) < NBUF"
proof -
  have "dirty_set s \<subseteq> (\<lambda>j. (b_dev (d_buf s j), b_blockno (d_buf s j))) ` ({..<NBUF} - {i})"
    using assms(2) by (auto simp: dirty_set_def)
  then have "card (dirty_set s) \<le> card ({..<NBUF} - {i})" using surj_card_le by blast
  also have "\<dots> < NBUF" using assms(1) by simp
  finally show ?thesis .
qed

context block_device
begin

lemma bread_brelse:
  assumes inv: "cache_inv {} s" and d: "d \<noteq> 0" "ready s d" "has s n"
    and room: "(d, n) \<in> dirty_set s \<or> card (dirty_set s) < NBUF"
  shows "\<exists>b q. bread rw d n s = Ok b (bupd b (\<lambda>_. q) s) \<and> takes {} d n b q s \<and>
    brelse b (bupd b (\<lambda>_. q) s) = Ok () (brelse_state b (bupd b (\<lambda>_. q) s)) \<and>
    cache_inv {} (brelse_state b (bupd b (\<lambda>_. q) s)) \<and> content (brelse_state b (bupd b (\<lambda>_. q) s)) = content s"
proof -
  obtain b q where e: "bread rw d n s = Ok b (bupd b (\<lambda>_. q) s)" and t: "takes {} d n b q s"
    using bread_spec [OF inv d] room by auto
  let ?t = "bupd b (\<lambda>_. q) s"
  have i: "cache_inv {b} ?t" using takes_inv [OF inv t] by simp
  have "b_dirty q \<or> b_data q = d_disk s d n"
    using t content_clean [of d n s] by (auto simp: takes_def)
  then have "b_dirty (d_buf ?t b) \<or> b_data (d_buf ?t b) = d_disk ?t (b_dev (d_buf ?t b)) (b_blockno (d_buf ?t b))"
    using t by (simp add: takes_def is_block_def)
  then have "cache_inv {} (brelse_state b ?t)" using brelse_inv [OF i, of b] by simp
  moreover have "content (brelse_state b ?t) = content s"
    using brelse_content(2) [of b ?t] takes_content [OF inv t] by (simp add: fun_eq_iff)
  ultimately show ?thesis using e t brelse_spec [OF i, of b] by auto
qed

lemma refines_lru:
  assumes inv: "cache_inv {} s" and L: "lru_rel s L" and d: "d \<noteq> 0" "ready s d" "has s n"
  shows "case lru_access (d, n) L of
      None \<Rightarrow> bread rw d n s = Panic ''bget: no buffers''
    | Some L' \<Rightarrow> \<exists>b t u. bread rw d n s = Ok b t \<and> b_data (d_buf t b) = content s d n \<and>
        brelse b t = Ok () u \<and> cache_inv {} u \<and> content u = content s \<and> lru_rel u L'"
proof -
  obtain l where r: "ring s l" "set l = {..<NBUF}" and Lm: "L = map (\<lambda>i. lru_entry (d_buf s i)) l"
    using L unfolding lru_rel_def by blast
  have dl: "distinct l" using r(1) by (simp add: ring_def)
  note bg = bget_ring [OF inv d(1) _ r, of n, simplified]
  let ?e = "\<lambda>i. lru_entry (d_buf s i)"
  have f1: "find (\<lambda>e. fst e = (d, n)) L = map_option ?e (find (\<lambda>b. is_block d n (d_buf s b)) l)"
    by (simp add: Lm find_map o_def lru_entry_def is_block_def)
  have rc: "recyclable (d_buf s i) \<longleftrightarrow> \<not> b_dirty (d_buf s i)" if "i \<in> set (rev l)" for i
    using cache_invD(3) [OF inv, of i] that r(2) by (auto simp: recyclable_def buf_ok_def Let_def)
  have f2: "find (\<lambda>e. \<not> snd e) (rev L) = map_option ?e (find (\<lambda>b. recyclable (d_buf s b)) (rev l))"
    unfolding Lm rev_map find_map o_def
    by (rule arg_cong [where f = "map_option ?e"], rule find_cong) (simp_all add: rc lru_entry_def)
  have step: "\<exists>b t u. bread rw d n s = Ok b t \<and> b_data (d_buf t b) = content s d n \<and>
        brelse b t = Ok () u \<and> cache_inv {} u \<and> content u = content s \<and>
        (bget d n s = Ok b v \<longrightarrow> lru_rel u (((d, n), (d, n) \<in> dirty_set s) # map ?e (remove1 b l)))"
    if room: "(d, n) \<in> dirty_set s \<or> card (dirty_set s) < NBUF" for v
  proof -
    obtain b q where b: "bread rw d n s = Ok b (bupd b (\<lambda>_. q) s)" "takes {} d n b q s"
      "brelse b (bupd b (\<lambda>_. q) s) = Ok () (brelse_state b (bupd b (\<lambda>_. q) s))"
      "cache_inv {} (brelse_state b (bupd b (\<lambda>_. q) s))" "content (brelse_state b (bupd b (\<lambda>_. q) s)) = content s"
      using bread_brelse [OF inv d room] by blast
    have "lru_entry q = ((d, n), (d, n) \<in> dirty_set s)" and "b < NBUF"
      using b(2) by (auto simp: takes_def lru_entry_def is_block_def)
    then have "lru_rel (brelse_state b (bupd b (\<lambda>_. q) s)) (((d, n), (d, n) \<in> dirty_set s) # map ?e (remove1 b l))"
      using lru_rel_release [OF r, of b q] by simp
    moreover have "b_data (d_buf (bupd b (\<lambda>_. q) s) b) = content s d n" using b(2) by (simp add: takes_def)
    ultimately show ?thesis using b by blast
  qed
  show ?thesis
  proof (cases "find (\<lambda>b. is_block d n (d_buf s b)) l")
    case (Some b)
    then have b: "b < NBUF" "is_block d n (d_buf s b)" using r(2) by (auto dest: find_SomeD)
    have dirty: "b_dirty (d_buf s b) \<longleftrightarrow> (d, n) \<in> dirty_set s" by (rule dirty_iff [OF inv b d(1)])
    have room: "(d, n) \<in> dirty_set s \<or> card (dirty_set s) < NBUF"
      using clean_room [OF b(1)] dirty by blast
    have m: "map ?e (remove1 b l) = remove1 (?e b) L"
      unfolding Lm by (rule map_remove1_find [where P = "\<lambda>e. fst e = (d, n)"])
        (use Some in \<open>simp add: o_def lru_entry_def is_block_def\<close>)
    have e: "?e b = ((d, n), (d, n) \<in> dirty_set s)" using b(2) dirty by (simp add: lru_entry_def is_block_def)
    have a: "lru_access (d, n) L = Some (?e b # remove1 (?e b) L)"
      by (simp add: lru_access_def f1 Some)
    obtain b' t u where u: "bread rw d n s = Ok b' t" "b_data (d_buf t b') = content s d n"
        "brelse b' t = Ok () u" "cache_inv {} u" "content u = content s"
        "bget d n s = Ok b' (bupd b (locked_by (d_pid s)) s) \<longrightarrow> lru_rel u (((d, n), (d, n) \<in> dirty_set s) # map ?e (remove1 b' l))"
      using step [OF room] by blast
    have "b' = b" using bread_bget [OF u(1)] bg Some by auto
    then have "lru_rel u (?e b # remove1 (?e b) L)" using u(6) bg Some m e by simp
    then show ?thesis using u(1-5) unfolding a by auto
  next
    case None
    then have nd: "(d, n) \<notin> dirty_set s" using r(2) by (auto simp: dirty_set_def is_block_def find_None_iff)
    show ?thesis
    proof (cases "find (\<lambda>b. recyclable (d_buf s b)) (rev l)")
      case N2: None
      then have "lru_access (d, n) L = None" by (simp add: lru_access_def f1 f2 None)
      moreover have "bread rw d n s = Panic ''bget: no buffers''"
        by (simp add: bread_def kbind_def bg None N2)
      ultimately show ?thesis by simp
    next
      case (Some b)
      have "b \<in> set (rev l) \<and> recyclable (d_buf s b)" by (rule find_SomeD [OF Some])
      then have b: "b < NBUF" "\<not> b_dirty (d_buf s b)" using r(2) rc [of b] by auto
      have room: "(d, n) \<in> dirty_set s \<or> card (dirty_set s) < NBUF" using clean_room [OF b] by blast
      have "find ((\<lambda>e. \<not> snd e) \<circ> ?e) (rev l) = Some b"
        unfolding o_def Some [symmetric] by (rule find_cong) (simp_all add: rc lru_entry_def)
      from map_remove1_find [OF this] have "rev (map ?e (rev (remove1 b l))) = rev (remove1 (?e b) (rev L))"
        by (simp add: remove1_rev [OF dl] Lm rev_map)
      then have m: "map ?e (remove1 b l) = rev (remove1 (?e b) (rev L))" by (simp add: rev_map)
      have a: "lru_access (d, n) L = Some (((d, n), False) # rev (remove1 (?e b) (rev L)))"
        by (simp add: lru_access_def f1 f2 None Some)
      obtain b' t u where u: "bread rw d n s = Ok b' t" "b_data (d_buf t b') = content s d n"
          "brelse b' t = Ok () u" "cache_inv {} u" "content u = content s"
          "bget d n s = Ok b' (bupd b (\<lambda>p. locked_by (d_pid s) (recycled d n p)) s) \<longrightarrow>
             lru_rel u (((d, n), (d, n) \<in> dirty_set s) # map ?e (remove1 b' l))"
        using step [OF room] by blast
      have "b' = b" using bread_bget [OF u(1)] bg None Some by auto
      then have "lru_rel u (((d, n), False) # rev (remove1 (?e b) (rev L)))" using u(6) bg None Some m nd by simp
      then show ?thesis using u(1-5) unfolding a by auto
    qed
  qed
qed

end

section \<open>The request queue\<close>

text \<open>
  Processes submit requests for buffers they hold, change buffers they hold that are not queued, and
  the drive raises interrupts, in any order.
\<close>

datatype ide_event = Submit nat | Modify nat block bool | Interrupt

definition ide_event :: "ide_event \<Rightarrow> ('z dsk_scheme, unit) routine" where
  "ide_event e =
     (case e of
        Submit b \<Rightarrow> iderw_submit b
      | Modify b v x \<Rightarrow> kmod (bupd b (\<lambda>p. p\<lparr>b_data := v, b_dirty := x\<rparr>))
      | Interrupt \<Rightarrow> ideintr False)"

inductive ide_run :: "'z dsk_scheme \<Rightarrow> ide_event list \<Rightarrow> 'z dsk_scheme \<Rightarrow> bool" for s where
  start: "ide_run s [] s"
| submit: "ide_run s es t \<Longrightarrow> b \<notin> set (d_queue t) \<Longrightarrow> \<not> ide_finished b t \<Longrightarrow> ide_event (Submit b) t = Ok () u \<Longrightarrow>
    ide_run s (es @ [Submit b]) u"
| modify: "ide_run s es t \<Longrightarrow> b \<notin> set (d_queue t) \<Longrightarrow> length v = BSIZE \<Longrightarrow>
    ide_event (Modify b v x) t = Ok () u \<Longrightarrow> ide_run s (es @ [Modify b v x]) u"
| interrupt: "ide_run s es t \<Longrightarrow> ide_event Interrupt t = Ok () u \<Longrightarrow> ide_run s (es @ [Interrupt]) u"

inductive_cases ide_run_emptyE: "ide_run s [] t"

text \<open>
  The abstract driver: a queue of requests and a state in which none of them has begun; serving a
  request is one step, the contract of iderw.
\<close>

fun ide_spec_step :: "ide_event \<Rightarrow> 'z dsk_scheme \<times> nat list \<Rightarrow> 'z dsk_scheme \<times> nat list" where
  "ide_spec_step (Submit b) (s, q) = (s, q @ [b])"
| "ide_spec_step (Modify b v x) (s, q) = (bupd b (\<lambda>p. p\<lparr>b_data := v, b_dirty := x\<rparr>) s, q)"
| "ide_spec_step Interrupt (s, []) = (s, [])"
| "ide_spec_step Interrupt (s, b # q) = (rw_done b s, q)"

definition ide_spec :: "ide_event list \<Rightarrow> 'z dsk_scheme \<Rightarrow> 'z dsk_scheme \<times> nat list" where
  "ide_spec es s = fold ide_spec_step es (s, [])"

text \<open>The concrete state for an abstract one: the first request of the queue has been started.\<close>

definition started :: "'z dsk_scheme \<times> nat list \<Rightarrow> 'z dsk_scheme" where
  "started = (\<lambda>(s, q). case q of [] \<Rightarrow> s
     | b # _ \<Rightarrow> (let bf = d_buf s b; t = s\<lparr>d_queue := q, d_cmd := Some (b_dev bf, b_blockno bf, b_dirty bf)\<rparr>
                 in if b_dirty bf then disk_write (b_dev bf) (b_blockno bf) (b_data bf) t else t))"

definition ide_spec_ok :: "'z dsk_scheme \<times> nat list \<Rightarrow> bool" where
  "ide_spec_ok = (\<lambda>(s, q). d_queue s = [] \<and> d_cmd s = None \<and>
     (\<forall>b\<in>set q. b_dev (d_buf s b) \<in> {0, 1} \<and> b_blockno (d_buf s b) < FSSIZE))"

lemma started_simps [simp]:
  "ide_spec_ok (s, q) \<Longrightarrow> d_queue (started (s, q)) = q"
  "d_buf (started (s, q)) = d_buf s" "d_havedisk1 (started (s, q)) = d_havedisk1 s"
  "d_pid (started (s, q)) = d_pid s"
  by (auto simp: started_def ide_spec_ok_def Let_def split: list.splits)

lemma idestart_started:
  assumes "ide_spec_ok (s, b # q)"
  shows "idestart b (s\<lparr>d_queue := b # q\<rparr>) = Ok () (started (s, b # q))"
  using assms idestart_Ok [of "s\<lparr>d_queue := b # q\<rparr>" b]
  by (simp add: ide_spec_ok_def started_def Let_def)

lemma submit_started:
  assumes ok: "ide_spec_ok (s, q)" and n: "b \<notin> set q"
    and b: "b_dev (d_buf s b) \<in> {0, 1}" "b_blockno (d_buf s b) < FSSIZE"
    and e: "iderw_submit b (started (s, q)) = Ok () u"
  shows "u = started (s, q @ [b])"
proof (cases q)
  case Nil
  have "ide_spec_ok (s, [b])" using ok b by (simp add: ide_spec_ok_def)
  from idestart_started [OF this] show ?thesis
    using e Nil ok by (auto simp: iderw_submit_def started_def ide_spec_ok_def split: if_splits)
next
  case (Cons a q')
  then have "a \<noteq> b" using n by auto
  then have "u = (started (s, q))\<lparr>d_queue := q @ [b]\<rparr>"
    using e Cons ok by (auto simp: iderw_submit_def Let_def split: if_splits)
  then show ?thesis by (simp add: started_def Cons Let_def disk_write_def)
qed

lemma modify_started:
  assumes "b \<notin> set q"
  shows "bupd b f (started (s, q)) = started (bupd b f s, q)"
proof (cases q)
  case (Cons a q')
  then have "a \<noteq> b" using assms by auto
  then show ?thesis by (simp add: started_def Cons Let_def disk_write_def bupd_def)
qed (simp add: started_def)

lemma intr_started:
  assumes ok: "ide_spec_ok (s, q)" and d: "distinct q"
  shows "ideintr False (started (s, q)) = Ok () (started (ide_spec_step Interrupt (s, q)))"
    and "ide_spec_ok (ide_spec_step Interrupt (s, q))"
proof -
  show "ide_spec_ok (ide_spec_step Interrupt (s, q))"
    using ok d by (cases q) (auto simp: ide_spec_ok_def rw_done_def Let_def)
  then show "ideintr False (started (s, q)) = Ok () (started (ide_spec_step Interrupt (s, q)))"
  proof (cases q)
    case Nil
    then show ?thesis using ok by (simp add: ideintr_def started_def ide_spec_ok_def)
  next
    case (Cons b q')
    let ?r = "rw_done b s"
    have okr: "ide_spec_ok (?r, q')" using \<open>ide_spec_ok (ide_spec_step Interrupt (s, q))\<close> Cons by simp
    have s: "d_queue s = []" "d_cmd s = None" using ok by (auto simp: ide_spec_ok_def)
    let ?fin = "?r\<lparr>d_queue := q'\<rparr>"
    have "ideintr False (started (s, q)) = (case q' of [] \<Rightarrow> Ok () ?fin | b' # _ \<Rightarrow> idestart b' ?fin)"
      by (cases "b_dirty (d_buf s b)")
        (auto simp: ideintr_def Cons started_def Let_def rw_done_def bupd_def disk_write_def s fun_upd_def
           intro!: arg_cong [where f = "\<lambda>x. case q' of [] \<Rightarrow> Ok () x | b' # _ \<Rightarrow> idestart b' x"] dsk.equality)
    moreover have "?fin = ?r" if "q' = []" using that s by (intro dsk.equality) (simp_all add: rw_done_def Let_def)
    ultimately show ?thesis
      using idestart_started [of ?r] okr Cons by (cases q') (auto simp: started_def)
  qed
qed

lemma ide_spec_frame:
  "b_dev (d_buf (fst (ide_spec_step e (s, q))) b) = b_dev (d_buf s b)"
  "b_blockno (d_buf (fst (ide_spec_step e (s, q))) b) = b_blockno (d_buf s b)"
  by (cases e; cases q; auto simp: rw_done_def Let_def)+

lemma ide_spec_snoc: "ide_spec (es @ [e]) s = ide_spec_step e (ide_spec es s)"
  by (simp add: ide_spec_def)

lemma ide_spec_dev:
  "b_dev (d_buf (fst (ide_spec es s)) b) = b_dev (d_buf s b) \<and>
   b_blockno (d_buf (fst (ide_spec es s)) b) = b_blockno (d_buf s b)"
proof (induction es rule: rev_induct)
  case (snoc e es)
  then show ?case using ide_spec_frame [of e "fst (ide_spec es s)" "snd (ide_spec es s)"] by (simp add: ide_spec_snoc)
qed (simp add: ide_spec_def)

lemma ide_run_refines:
  assumes "ide_run s es t" and "d_queue s = []" "d_cmd s = None"
    and "\<And>b. Submit b \<in> set es \<Longrightarrow> b_dev (d_buf s b) \<in> {0, 1} \<and> b_blockno (d_buf s b) < FSSIZE"
  shows "t = started (ide_spec es s) \<and> ide_spec_ok (ide_spec es s) \<and> distinct (snd (ide_spec es s))"
  using assms
proof (induction rule: ide_run.induct)
  case start
  then show ?case by (simp add: ide_spec_def started_def ide_spec_ok_def)
next
  case (submit es t b u)
  obtain r q where r: "ide_spec es s = (r, q)" by fastforce
  have t: "t = started (r, q)" "ide_spec_ok (r, q)" "distinct q" using submit r by auto
  have b: "b_dev (d_buf r b) \<in> {0, 1}" "b_blockno (d_buf r b) < FSSIZE"
    using submit.prems(3) [of b] ide_spec_dev [of es s b] r by auto
  have n: "b \<notin> set q" using submit.hyps(2) t by simp
  have "iderw_submit b (started (r, q)) = Ok () u" using submit.hyps(4) t by (simp add: ide_event_def)
  then have "u = started (r, q @ [b])" by (rule submit_started [OF t(2) n b])
  then show ?case using t b n by (auto simp: ide_spec_snoc r ide_spec_ok_def)
next
  case (modify es t b v x u)
  obtain r q where r: "ide_spec es s = (r, q)" by fastforce
  have t: "t = started (r, q)" "ide_spec_ok (r, q)" "distinct q" using modify r by auto
  have n: "b \<notin> set q" using modify.hyps(2) t by simp
  have "u = started (bupd b (\<lambda>p. p\<lparr>b_data := v, b_dirty := x\<rparr>) r, q)"
    using modify.hyps(4) t(1) modify_started [OF n, of "\<lambda>p. p\<lparr>b_data := v, b_dirty := x\<rparr>" r]
    by (simp add: ide_event_def)
  then show ?case using t by (auto simp: ide_spec_snoc r ide_spec_ok_def)
next
  case (interrupt es t u)
  obtain r q where r: "ide_spec es s = (r, q)" by fastforce
  have t: "t = started (r, q)" "ide_spec_ok (r, q)" "distinct q" using interrupt r by auto
  have "u = started (ide_spec_step Interrupt (r, q))"
    using interrupt.hyps(2) intr_started(1) [OF t(2,3)] t(1) by (simp add: ide_event_def)
  moreover have "distinct (snd (ide_spec_step Interrupt (r, q)))" using t(3) by (cases q) auto
  ultimately show ?case using intr_started(2) [OF t(2,3)] by (simp add: ide_spec_snoc r)
qed

lemma interrupts_serve:
  assumes "ide_spec_ok (s, xs @ ys)" and "distinct (xs @ ys)"
  shows "for_each (\<lambda>_. ideintr False) [0..<length xs] (started (s, xs @ ys)) = Ok () (started (fold rw_done xs s, ys)) \<and>
    ide_spec_ok (fold rw_done xs s, ys)"
proof -
  have g: "for_each (\<lambda>_. ideintr False) ns (started (s, xs @ ys)) = Ok () (started (fold rw_done xs s, ys)) \<and>
      ide_spec_ok (fold rw_done xs s, ys)" if "length ns = length xs" for ns
    using assms that
  proof (induction xs arbitrary: s ns)
    case (Cons x xs)
    obtain n ns' where ns: "ns = n # ns'" using Cons.prems(3) by (cases ns) auto
    have "ideintr False (started (s, x # xs @ ys)) = Ok () (started (rw_done x s, xs @ ys))"
      and "ide_spec_ok (rw_done x s, xs @ ys)"
      using intr_started [of s "x # xs @ ys"] Cons.prems by auto
    then show ?case using Cons.IH [of "rw_done x s" ns'] Cons.prems ns by (simp add: kthen_Ok)
  qed simp
  show ?thesis by (rule g) simp
qed

lemma rw_done_finished: "ide_finished b (rw_done b s)"
  by (simp add: ide_finished_def rw_done_def Let_def)

lemma rw_done_other: "a \<noteq> b \<Longrightarrow> d_buf (rw_done a s) b = d_buf s b"
  by (simp add: rw_done_def Let_def)

text \<open>Every buffer empty, held by the running process and naming its own block of drive 1.\<close>

definition ex_req :: dsk where
  "ex_req = \<lparr>d_buf = (\<lambda>i. buf0\<lparr>b_dev := 1, b_blockno := of_nat i, b_lock := \<lparr>sl_locked = True, sl_name = [], sl_pid = 1\<rparr>\<rparr>),
     d_next = (\<lambda>_. 0), d_prev = (\<lambda>_. 0), d_disk = ex_zero, d_trace = [], d_queue = [], d_cmd = None,
     d_havedisk1 = True, d_memsize = 1000, d_pid = 1\<rparr>"

lemma ex_req_facts:
  "d_queue ex_req = []" "d_cmd ex_req = None" "ide_ready ex_req 1" "d_memsize ex_req = 1000" "holds ex_req b"
  "b_dev (d_buf ex_req b) = 1" "b_blockno (d_buf ex_req b) = of_nat b" "\<not> b_valid (d_buf ex_req b)"
  "\<not> b_dirty (d_buf ex_req b)" "d_havedisk1 ex_req" "numeral k < FSSIZE \<longleftrightarrow> (numeral k :: uint) < 1000"
  "0 < FSSIZE" "1 < FSSIZE"
  by (simp_all add: ex_req_def ide_ready_def holds_def holdingsleep_def buf0_def FSSIZE_def)

lemma ex_ide_run: "\<exists>t. ide_run ex_req [Submit 0, Submit 1, Interrupt] t"
proof -
  have ok: "ide_spec_ok (ex_req, [0])" "ide_spec_ok (ex_req, [0, 1])" by (simp_all add: ide_spec_ok_def ex_req_facts)
  have "iderw_submit 0 ex_req = Ok () (started (ex_req, [0]))"
    using idestart_started [OF ok(1)] by (simp add: iderw_submit_def ide_finished_def ex_req_facts)
  then have 1: "ide_run ex_req ([] @ [Submit 0]) (started (ex_req, [0]))"
    by (intro ide_run.submit [OF ide_run.start]) (simp_all add: ide_event_def ide_finished_def ex_req_facts)
  have h: "holds (started (ex_req, [0])) 1" using ex_req_facts(5) [of 1] ok(1) by (simp add: holds_def)
  have "iderw_submit 1 (started (ex_req, [0])) = Ok () ((started (ex_req, [0]))\<lparr>d_queue := [0, 1]\<rparr>)"
    using ok(1) h by (simp add: iderw_submit_def ide_finished_def ex_req_facts)
  moreover have "(started (ex_req, [0]))\<lparr>d_queue := [0, 1]\<rparr> = started (ex_req, [0, 1])"
    by (simp add: started_def Let_def disk_write_def)
  ultimately have 2: "ide_run ex_req (([] @ [Submit 0]) @ [Submit 1]) (started (ex_req, [0, 1]))"
    using ok(1) by (intro ide_run.submit [OF 1]) (simp_all add: ide_event_def ide_finished_def ex_req_facts)
  have "ide_run ex_req ((([] @ [Submit 0]) @ [Submit 1]) @ [Interrupt]) (started (ide_spec_step Interrupt (ex_req, [0, 1])))"
    using intr_started(1) [OF ok(2)] by (intro ide_run.interrupt [OF 2]) (simp add: ide_event_def)
  then show ?thesis by auto
qed

lemma ex_req_submits: "Submit b \<in> set [Submit 0, Submit 1, Interrupt] \<Longrightarrow>
    b_dev (d_buf ex_req b) \<in> {0, 1} \<and> b_blockno (d_buf ex_req b) < FSSIZE"
  by (auto simp: ex_req_facts)

lemma ex_lru: "\<exists>L. lru_rel (ex_dsk ex_zero) L \<and> length L = NBUF \<and> (\<forall>e\<in>set L. \<not> snd e)"
proof -
  have l: "\<And>d n. length (ex_zero d n) = BSIZE" by (simp add: ex_zero_def)
  note f = ex_dsk_facts [of ex_zero, OF l]
  let ?l = "rev [0..<NBUF]" and ?e = "\<lambda>i. lru_entry (d_buf (ex_dsk ex_zero) i)"
  have "ring (ex_dsk ex_zero) ?l" unfolding ex_dsk_def by (rule binit_ring)
  moreover have "set ?l = {..<NBUF}" by auto
  ultimately have r: "lru_rel (ex_dsk ex_zero) (map ?e ?l)" unfolding lru_rel_def by (intro exI [of _ ?l] conjI refl)
  have "\<not> b_dirty (d_buf (ex_dsk ex_zero) i)" if "i < NBUF" for i
    using dirty_setI [OF that, of "ex_dsk ex_zero"] f(2) by auto
  then have "\<forall>e\<in>set (map ?e ?l). \<not> snd e" by (simp add: lru_entry_def)
  with r show ?thesis by (intro exI [of _ "map ?e ?l"]) simp
qed

section \<open>Properties\<close>

text \<open>The two drivers. For a block that both have, on drive 1, iderw of ide.c (request, interrupt
  and all) and iderw of memide.c leave the same state: a dirty buffer is written to its block and is
  clean, any other is read. Both refuse, with the same panic, a buffer the process does not hold and
  a buffer with nothing to do.\<close>

theorem drivers_agree:
  assumes "ide_ready s 1" and "b_dev (d_buf s b) = 1"
    and "b_blockno (d_buf s b) < FSSIZE" and "b_blockno (d_buf s b) < d_memsize s"
  shows "iderw b s = mem_iderw b s \<and>
    mem_iderw b s = (if \<not> holds s b then Panic ''iderw: buf not locked''
      else if b_valid (d_buf s b) \<and> \<not> b_dirty (d_buf s b) then Panic ''iderw: nothing to do''
      else Ok () (rw_done b s))"
proof -
  have "mem_iderw b s = (if \<not> holds s b then Panic ''iderw: buf not locked''
      else if b_valid (d_buf s b) \<and> \<not> b_dirty (d_buf s b) then Panic ''iderw: nothing to do''
      else Ok () (rw_done b s))"
    using mem_iderw_spec [OF assms(2,4)] by (auto simp: mem_iderw_def Let_def)
  moreover have "iderw b s = (if \<not> holds s b then Panic ''iderw: buf not locked''
      else if b_valid (d_buf s b) \<and> \<not> b_dirty (d_buf s b) then Panic ''iderw: nothing to do''
      else Ok () (rw_done b s))"
    using iderw_spec [of s b] assms
    by (auto simp: iderw_def iderw_submit_def ide_finished_def kthen_def kbind_def)
  ultimately show ?thesis by simp
qed

theorem drivers_agree_witness:
  "iderw 3 ex_req = mem_iderw 3 ex_req \<and> returns (iderw 3 ex_req)"
  using drivers_agree [of ex_req 3] by (simp add: ex_req_facts)

text \<open>C27: the buffer cache is an LRU cache. Reading a block and releasing it gives the contents of the
  block and moves the abstract list of cached blocks by one LRU access: the block comes to the front;
  on a miss the least recently used block that the log has not pinned is evicted; and if all are
  pinned, bread panics.\<close>

theorem cache_refines_lru:
  assumes "cache_inv {} s" and "lru_rel s L" and "d \<noteq> 0" and "ide_ready s d" and "n < FSSIZE"
  shows "case lru_access (d, n) L of
      None \<Rightarrow> bread iderw d n s = Panic ''bget: no buffers''
    | Some L' \<Rightarrow> \<exists>b t u. bread iderw d n s = Ok b t \<and> b_data (d_buf t b) = content s d n \<and>
        brelse b t = Ok () u \<and> cache_inv {} u \<and> content u = content s \<and> lru_rel u L'"
  using ide.refines_lru [OF assms] .

theorem cache_refines_lru_witness:
  "\<exists>L b t. lru_rel (ex_dsk ex_zero) L \<and> length L = NBUF \<and> lru_access (1, 5) L \<noteq> None \<and>
    bread iderw 1 5 (ex_dsk ex_zero) = Ok b t \<and> b_data (d_buf t b) = replicate BSIZE 0"
proof -
  have l: "\<And>d n. length (ex_zero d n) = BSIZE" by (simp add: ex_zero_def)
  note f = ex_dsk_facts [of ex_zero, OF l]
  obtain L where L: "lru_rel (ex_dsk ex_zero) L" "length L = NBUF" "\<forall>e\<in>set L. \<not> snd e" using ex_lru by blast
  have "(0 :: nat) < NBUF" by (simp add: NBUF_def)
  then have "hd L \<in> set (rev L)" using L(2) by (cases L) simp_all
  then have "find (\<lambda>e. \<not> snd e) (rev L) \<noteq> None" using L(3) unfolding find_None_iff set_rev by blast
  then have "lru_access (1, 5) L \<noteq> None" by (auto simp: lru_access_def split: option.split)
  then obtain L' where L': "lru_access (1, 5) L = Some L'" by blast
  have "ide_ready (ex_dsk ex_zero) 1" by (simp add: f ide_ready_def)
  moreover have "content (ex_dsk ex_zero) 1 5 = replicate BSIZE 0" by (simp only: f(4)) (simp add: ex_zero_def)
  ultimately show ?thesis
    using cache_refines_lru [OF f(1) L(1), of 1 5] L(1,2) L' by (auto simp: FSSIZE_def)
qed





end
