(* ===== verification/QuickSort.thy ===== *)
theory QuickSort
  imports Prelude "HOL-Library.Multiset"
begin

text \<open>
  src/ass4/Q1/quick_sort.c: one quicksort, three times: recursive, with a process for each half
  (on shared memory) and with a thread for each half. A routine is a tree of its accesses to
  memory, so that the halves can run in any interleaving of single accesses.
\<close>

section \<open>Programs, their interleavings and their weakest preconditions\<close>

text \<open>
  A cell is an array and an index; a cell that is not allocated is not in the map. \<open>Rnd\<close> is a call
  of rand (any value of its range), \<open>Par\<close> runs two processes or threads and joins them, \<open>Undef\<close> is
  behaviour C leaves undefined.
\<close>

type_synonym addr = "nat \<times> int"
type_synonym mem = "addr \<Rightarrow> int option"

datatype prog =
    Ret int
  | Rd addr "int \<Rightarrow> prog"
  | Wr addr int prog
  | Rnd "nat \<Rightarrow> prog"
  | Par prog prog prog
  | Undef

primrec pbind :: "prog \<Rightarrow> (int \<Rightarrow> prog) \<Rightarrow> prog" where
  "pbind (Ret v) f = f v"
| "pbind (Rd a k) f = Rd a (\<lambda>x. pbind (k x) f)"
| "pbind (Wr a x p) f = Wr a x (pbind p f)"
| "pbind (Rnd k) f = Rnd (\<lambda>n. pbind (k n) f)"
| "pbind (Par p q k) f = Par p q (pbind k f)"
| "pbind Undef f = Undef"

primrec results :: "prog \<Rightarrow> int set" where
  "results (Ret v) = {v}"
| "results (Rd a k) = (\<Union>x. results (k x))"
| "results (Wr a x p) = results p"
| "results (Rnd k) = (\<Union>n. results (k n))"
| "results (Par p q k) = results k"
| "results Undef = {}"

lemma pbind_cong [fundef_cong]:
  "p = p' \<Longrightarrow> (\<And>v. v \<in> results p' \<Longrightarrow> f v = g v) \<Longrightarrow> pbind p f = pbind p' g"
proof -
  have "(\<And>v. v \<in> results p' \<Longrightarrow> f v = g v) \<Longrightarrow> pbind p' f = pbind p' g"
    by (induction p') (auto intro!: ext)
  then show "p = p' \<Longrightarrow> (\<And>v. v \<in> results p' \<Longrightarrow> f v = g v) \<Longrightarrow> pbind p f = pbind p' g" by simp
qed

inductive step :: "prog \<Rightarrow> mem \<Rightarrow> prog \<Rightarrow> mem \<Rightarrow> bool" where
  rd: "m a = Some x \<Longrightarrow> step (Rd a k) m (k x) m"
| wr: "m a \<noteq> None \<Longrightarrow> step (Wr a x p) m p (m(a \<mapsto> x))"
| rnd: "step (Rnd k) m (k n) m"
| left: "step p m p' m' \<Longrightarrow> step (Par p q k) m (Par p' q k) m'"
| right: "step q m q' m' \<Longrightarrow> step (Par p q k) m (Par p q' k) m'"
| join: "step (Par (Ret u) (Ret v) k) m k m"

inductive_cases step_RetE: "step (Ret v) m p' m'"
inductive_cases step_UndefE: "step Undef m p' m'"
inductive_cases step_RdE: "step (Rd a k) m p' m'"
inductive_cases step_WrE: "step (Wr a x p) m p' m'"
inductive_cases step_RndE: "step (Rnd k) m p' m'"
inductive_cases step_ParE: "step (Par p q k) m p' m'"

inductive steps :: "prog \<Rightarrow> mem \<Rightarrow> prog \<Rightarrow> mem \<Rightarrow> bool" where
  here: "steps p m p m"
| more: "steps p m p' m' \<Longrightarrow> step p' m' p'' m'' \<Longrightarrow> steps p m p'' m''"

text \<open>
  \<open>wp p Q m\<close>: \<open>p\<close> run from \<open>m\<close>, the two sides of each \<open>Par\<close> one after the other, uses only
  allocated cells, returns, and ends in \<open>Q\<close>, whatever rand gives.
\<close>

primrec wp :: "prog \<Rightarrow> (int \<Rightarrow> mem \<Rightarrow> bool) \<Rightarrow> mem \<Rightarrow> bool" where
  "wp (Ret v) Q m = Q v m"
| "wp (Rd a k) Q m = (case m a of None \<Rightarrow> False | Some x \<Rightarrow> wp (k x) Q m)"
| "wp (Wr a x p) Q m = (m a \<noteq> None \<and> wp p Q (m(a \<mapsto> x)))"
| "wp (Rnd k) Q m = (\<forall>n. wp (k n) Q m)"
| "wp (Par p q k) Q m = wp p (\<lambda>_. wp q (\<lambda>_. wp k Q)) m"
| "wp Undef Q m = False"

lemma wp_mono: "wp p Q m \<Longrightarrow> (\<And>v t. Q v t \<Longrightarrow> R v t) \<Longrightarrow> wp p R m"
proof (induction p arbitrary: Q R m)
  case (Par p q k)
  have "wp p (\<lambda>_. wp q (\<lambda>_. wp k R)) m"
    by (rule Par.IH(1) [OF Par.prems(1) [unfolded wp.simps]])
      (erule Par.IH(2), erule Par.IH(3), rule Par.prems(2))
  then show ?case by simp
next
  case (Rnd k)
  then show ?case by (metis rangeI wp.simps(4))
qed (auto split: option.splits)

lemma wp_pbind [simp]: "wp (pbind p f) Q = wp p (\<lambda>v. wp (f v) Q)"
  by (induction p arbitrary: Q) (rule ext, simp split: option.split)+

lemma wp_Ret: "wp (Ret v) Q = Q v"
  by (rule ext) simp

lemma wp_Par: "wp (Par p q k) Q = wp p (\<lambda>_. wp q (\<lambda>_. wp k Q))"
  by (rule ext) simp

text \<open>Disjoint programs: the two sides of each \<open>Par\<close> have disjoint footprints.\<close>

primrec foot :: "addr set \<Rightarrow> prog \<Rightarrow> bool" where
  "foot A (Ret v) = True"
| "foot A (Rd a k) = (a \<in> A \<and> (\<forall>x. foot A (k x)))"
| "foot A (Wr a x p) = (a \<in> A \<and> foot A p)"
| "foot A (Rnd k) = (\<forall>n. foot A (k n))"
| "foot A (Par p q k) = ((\<exists>B C. foot B p \<and> foot C q \<and> B \<union> C \<subseteq> A \<and> B \<inter> C = {}) \<and> foot A k)"
| "foot A Undef = True"

lemma foot_mono: "foot A p \<Longrightarrow> A \<subseteq> B \<Longrightarrow> foot B p"
proof (induction p)
  case (Par p q k)
  then show ?case by (simp, meson order_trans)
qed auto

lemma foot_pbind: "foot A p \<Longrightarrow> (\<And>v. v \<in> results p \<Longrightarrow> foot A (f v)) \<Longrightarrow> foot A (pbind p f)"
  by (induction p) auto

text \<open>Changing cells outside its footprint does not disturb a program.\<close>

definition agree :: "addr set \<Rightarrow> mem \<Rightarrow> mem \<Rightarrow> bool" where
  "agree A m t \<longleftrightarrow> (\<forall>a\<in>A. m a = t a)"

lemma agree_upd: "agree A m t \<Longrightarrow> agree A (m(a := x)) (t(a := x))"
  by (simp add: agree_def)

lemma wp_frame:
  assumes "foot A p" and "A \<inter> B = {}" and "wp p Q m" and "agree (- B) m n"
  shows "wp p (\<lambda>v t. \<exists>t0. Q v t0 \<and> agree (- B) t0 t \<and> agree B t0 m \<and> agree B t n) n"
  using assms
proof (induction p arbitrary: A Q m n)
  case (Ret v)
  then show ?case by (auto simp: agree_def)
next
  case (Rd a k)
  then have "m a = n a" by (auto simp: agree_def)
  then show ?case using Rd.IH [of _ A Q m n] Rd.prems by (auto split: option.splits)
next
  case (Wr a x p)
  then have a: "m a = n a" "a \<notin> B" by (auto simp: agree_def)
  have "wp p (\<lambda>v t. \<exists>t0. Q v t0 \<and> agree (- B) t0 t \<and> agree B t0 (m(a \<mapsto> x)) \<and> agree B t (n(a \<mapsto> x))) (n(a \<mapsto> x))"
    by (rule Wr.IH [of A, OF _ Wr.prems(2) _ agree_upd [OF Wr.prems(4)]]) (use Wr.prems in \<open>simp_all only: foot.simps wp.simps\<close>)
  moreover have "agree B t (r(a \<mapsto> x)) = agree B t r" for t r using a(2) by (auto simp: agree_def)
  ultimately show ?case using Wr.prems a by simp
next
  case (Rnd k)
  show ?case unfolding wp.simps
    by (intro allI Rnd.IH [OF rangeI _ Rnd.prems(2) _ Rnd.prems(4)]) (use Rnd.prems in simp_all)
next
  case (Par p q k)
  obtain C D where cd: "foot C p" "foot D q" "C \<union> D \<subseteq> A" and k: "foot A k" using Par.prems(1) by auto
  then have "C \<inter> B = {}" "D \<inter> B = {}" using Par.prems(2) by blast+
  note cd = cd(1,2) this
  let ?F = "\<lambda>Q m n v t. \<exists>t0. Q v t0 \<and> agree (- B) t0 t \<and> agree B t0 m \<and> agree B t n"
  have "wp p (?F (\<lambda>_. wp q (\<lambda>_. wp k Q)) m n) n"
    using Par.IH(1) [OF cd(1,3) _ Par.prems(4)] Par.prems(3) by simp
  moreover have "wp q (\<lambda>_. wp k (?F Q m n)) t" if t: "?F (\<lambda>_. wp q (\<lambda>_. wp k Q)) m n v t" for v t
  proof -
    obtain t0 where t0: "wp q (\<lambda>_. wp k Q) t0" "agree (- B) t0 t" "agree B t0 m" "agree B t n" using t by blast
    have "wp q (?F (\<lambda>_. wp k Q) t0 t) t" by (rule Par.IH(2) [OF cd(2,4) t0(1,2)])
    moreover have "wp k (?F Q m n) u" if u: "?F (\<lambda>_. wp k Q) t0 t w u" for w u
    proof -
      obtain u0 where u0: "wp k Q u0" "agree (- B) u0 u" "agree B u0 t0" "agree B u t" using u by blast
      have "wp k (?F Q u0 u) u" by (rule Par.IH(3) [OF k Par.prems(2) u0(1,2)])
      then show ?thesis
        by (rule wp_mono) (use u0 t0 in \<open>auto simp: agree_def\<close>)
    qed
    ultimately show ?thesis by (rule wp_mono)
  qed
  ultimately show ?case unfolding wp.simps by (rule wp_mono)
qed simp

lemma step_local:
  assumes "step p m p' m'" and "foot A p" and "agree A m n"
  shows "\<exists>n'. step p n p' n' \<and> agree A m' n' \<and> agree (- A) n' n \<and> agree (- A) m' m"
  using assms
proof (induction arbitrary: A n rule: step.induct)
  case (rd m a x k)
  then show ?case by (auto simp: agree_def intro!: step.rd)
next
  case (wr m a x p)
  then have "n a \<noteq> None" by (auto simp: agree_def)
  then have "step (Wr a x p) n p (n(a \<mapsto> x))" by (rule step.wr)
  moreover have "agree A (m(a \<mapsto> x)) (n(a \<mapsto> x))" by (rule agree_upd [OF wr.prems(2)])
  moreover have "agree (- A) (n(a \<mapsto> x)) n" "agree (- A) (m(a \<mapsto> x)) m" using wr.prems(1) by (auto simp: agree_def)
  ultimately show ?case by blast
next
  case (rnd k m i)
  then show ?case by (auto simp: agree_def intro: step.rnd)
next
  case (left p m p' m' q k)
  then obtain B C where b: "foot B p" "B \<subseteq> A" by auto
  then have "agree B m n" using left.prems(2) by (auto simp: agree_def)
  from left.IH [OF b(1) this] obtain n' where
    n': "step p n p' n'" "agree B m' n'" "agree (- B) n' n" "agree (- B) m' m" by blast
  have "agree A m' n'" "agree (- A) n' n" "agree (- A) m' m"
    using n' b(2) left.prems(2) by (auto 0 3 simp: agree_def)
  then show ?case using step.left [OF n'(1)] by blast
next
  case (right q m q' m' p k)
  then obtain B C where b: "foot C q" "C \<subseteq> A" by auto
  then have "agree C m n" using right.prems(2) by (auto simp: agree_def)
  from right.IH [OF b(1) this] obtain n' where
    n': "step q n q' n'" "agree C m' n'" "agree (- C) n' n" "agree (- C) m' m" by blast
  have "agree A m' n'" "agree (- A) n' n" "agree (- A) m' m"
    using n' b(2) right.prems(2) by (auto 0 3 simp: agree_def)
  then show ?case using step.right [OF n'(1)] by blast
next
  case (join u v k m)
  then show ?case by (auto simp: agree_def intro: step.join)
qed

lemma step_foot: "step p m p' m' \<Longrightarrow> foot A p \<Longrightarrow> foot A p'"
proof (induction arbitrary: A rule: step.induct)
  case (left p m p' m' q k)
  then show ?case by (simp, meson)
next
  case (right q m q' m' p k)
  then show ?case by (simp, meson)
qed auto

text \<open>Any interleaving does what the sequential run does.\<close>

lemma step_wp:
  assumes "step p m p' m'" and "foot A p" and "wp p Q m"
  shows "wp p' Q m'"
  using assms
proof (induction p arbitrary: A Q m p' m')
  case (Par p q k)
  from Par.prems(1) show ?case
  proof (rule step_ParE)
    fix p1 assume p': "p' = Par p1 q k" and st: "step p m p1 m'"
    obtain B where "foot B p" using Par.prems(2) by auto
    then show ?thesis using Par.IH(1) [OF st] Par.prems(3) p' by simp
  next
    fix q' assume p': "p' = Par p q' k" and st: "step q m q' m'"
    obtain B C where f: "foot B p" "foot C q" "B \<inter> C = {}" using Par.prems(2) by auto
    have out: "agree (- C) m m'" using step_local [OF st f(2), of m] by (auto simp: agree_def)
    have "wp p (\<lambda>v t. \<exists>t0. wp q (\<lambda>_. wp k Q) t0 \<and> agree (- C) t0 t \<and> agree C t0 m \<and> agree C t m') m'"
      by (rule wp_frame [OF f(1,3) _ out]) (use Par.prems(3) in simp)
    then have "wp p (\<lambda>_. wp q' (\<lambda>_. wp k Q)) m'"
    proof (rule wp_mono)
      fix v t
      assume "\<exists>t0. wp q (\<lambda>_. wp k Q) t0 \<and> agree (- C) t0 t \<and> agree C t0 m \<and> agree C t m'"
      then obtain t0 where t0: "wp q (\<lambda>_. wp k Q) t0" "agree (- C) t0 t" "agree C t0 m" "agree C t m'" by blast
      have "agree C m t0" using t0(3) by (simp add: agree_def)
      from step_local [OF st f(2) this] obtain n' where
        n': "step q t0 q' n'" "agree C m' n'" "agree (- C) n' t0" by blast
      have "n' a = t a" for a using n' t0 by (cases "a \<in> C") (auto simp: agree_def)
      then have "n' = t" by blast
      then show "wp q' (\<lambda>_. wp k Q) t" using Par.IH(2) [OF n'(1) f(2) t0(1)] by simp
    qed
    then show ?thesis by (simp add: p')
  qed (use Par.prems(3) in auto)
qed (auto elim!: step_RetE step_RdE step_WrE step_RndE step_UndefE split: option.splits)

lemma wp_progress: "wp p Q m \<Longrightarrow> (\<exists>v. p = Ret v \<and> Q v m) \<or> (\<exists>p' m'. step p m p' m')"
proof (induction p arbitrary: Q)
  case (Rd a k)
  then show ?case by (auto intro: step.rd split: option.splits)
next
  case (Wr a x p)
  then have "step (Wr a x p) m p (m(a \<mapsto> x))" by (intro step.wr) simp
  then show ?case by blast
next
  case (Rnd k)
  then show ?case using step.rnd by blast
next
  case (Par p q k)
  have p: "(\<exists>v. p = Ret v) \<or> (\<exists>p' m'. step p m p' m')"
    using Par.IH(1) [OF Par.prems [unfolded wp.simps]] by blast
  show ?case
  proof (cases "\<exists>p' m'. step p m p' m'")
    case True
    then show ?thesis using step.left by blast
  next
    case False
    then obtain v where v: "p = Ret v" using p by blast
    then have "wp q (\<lambda>_. wp k Q) m" using Par.prems by simp
    then have "(\<exists>v. q = Ret v) \<or> (\<exists>q' m'. step q m q' m')" using Par.IH(2) by blast
    then show ?thesis using v step.right step.join by blast
  qed
qed auto

text \<open>Every step leads to a smaller tree, so no run is infinite.\<close>

definition next_prog :: "prog \<Rightarrow> prog \<Rightarrow> bool" where
  "next_prog p' p \<longleftrightarrow> (\<exists>m m'. step p m p' m')"

lemma accp_Par: "Wellfounded.accp next_prog p \<Longrightarrow> Wellfounded.accp next_prog q \<Longrightarrow> Wellfounded.accp next_prog k \<Longrightarrow> Wellfounded.accp next_prog (Par p q k)"
proof (induction arbitrary: q rule: accp.induct)
  case (accI p)
  note p = accI.hyps accI.IH
  show ?case using accI.prems(1)
  proof (induction rule: accp.induct)
    case (accI q)
    show ?case
    proof (rule accp.accI)
      fix y assume "next_prog y (Par p q k)"
      then obtain m m' where "step (Par p q k) m y m'" by (auto simp: next_prog_def)
      then show "Wellfounded.accp next_prog y"
      proof (rule step_ParE)
        fix p' assume y: "y = Par p' q k" and "step p m p' m'"
        then have "next_prog p' p" by (auto simp: next_prog_def)
        then show ?thesis unfolding y using p(2) accp.accI [OF accI.hyps] \<open>Wellfounded.accp next_prog k\<close> by blast
      next
        fix q' assume y: "y = Par p q' k" and "step q m q' m'"
        then have "next_prog q' q" by (auto simp: next_prog_def)
        then show ?thesis unfolding y using accI.IH by blast
      qed (use \<open>Wellfounded.accp next_prog k\<close> in simp)
    qed
  qed
qed

lemma next_progD:
  "\<not> next_prog y (Ret v)" "\<not> next_prog y Undef"
  "next_prog y (Rd a k) \<Longrightarrow> y \<in> range k" "next_prog y (Wr a x p) \<Longrightarrow> y = p" "next_prog y (Rnd f) \<Longrightarrow> y \<in> range f"
  by (auto simp: next_prog_def elim: step_RetE step_UndefE step_RdE step_WrE step_RndE)

lemma accp_next_progI: "(\<And>y. next_prog y p \<Longrightarrow> Wellfounded.accp next_prog y) \<Longrightarrow> Wellfounded.accp next_prog p"
  by (rule accp.accI)

lemma accp_next_prog: "Wellfounded.accp next_prog p"
proof (induction p)
  case (Ret v)
  show ?case by (rule accp_next_progI) (simp add: next_progD(1))
next
  case (Rd a k)
  show ?case by (rule accp_next_progI) (drule next_progD(3), elim imageE, simp add: Rd.IH)
next
  case (Wr a x p)
  show ?case by (rule accp_next_progI) (drule next_progD(4), simp add: Wr.IH)
next
  case (Rnd k)
  show ?case by (rule accp_next_progI) (drule next_progD(5), elim imageE, simp add: Rnd.IH)
next
  case (Par p q k)
  then show ?case by (rule accp_Par)
next
  case Undef
  show ?case by (rule accp_next_progI) (simp add: next_progD(2))
qed

lemma steps_foot: "steps p m p' m' \<Longrightarrow> foot A p \<Longrightarrow> foot A p'"
  by (induction rule: steps.induct) (blast dest: step_foot)+

lemma steps_wp: "steps p m p' m' \<Longrightarrow> foot A p \<Longrightarrow> wp p Q m \<Longrightarrow> wp p' Q m'"
  by (induction rule: steps.induct) (blast dest: steps_foot step_wp)+

section \<open>quick\_sort.c\<close>

definition INT_MAX :: int where "INT_MAX = 2147483647"

text \<open>swap(\&arr[i], \&arr[j]), then \<open>k\<close>.\<close>

definition swap :: "addr \<Rightarrow> addr \<Rightarrow> prog \<Rightarrow> prog" where
  "swap a b k = Rd a (\<lambda>temp. Rd b (\<lambda>x. Wr a x (Wr b temp k)))"

text \<open>The loop of partition over \<open>j\<close>, with the boundary \<open>i\<close>; it ends by moving the pivot to its place.\<close>

fun partition_loop :: "nat \<Rightarrow> int list \<Rightarrow> int \<Rightarrow> int \<Rightarrow> prog" where
  "partition_loop arr [] i high = swap (arr, i + 1) (arr, high) (Ret (i + 1))"
| "partition_loop arr (j # js) i high =
     Rd (arr, j) (\<lambda>x. Rd (arr, high) (\<lambda>p.
       if x < p then swap (arr, i + 1) (arr, j) (partition_loop arr js (i + 1) high)
       else partition_loop arr js i high))"

definition partition :: "nat \<Rightarrow> int \<Rightarrow> int \<Rightarrow> prog" where
  "partition arr low high =
     Rnd (\<lambda>n. if high = 0 then Undef
       else let pivot = int n mod high in
         if pivot < low \<and> low + high > INT_MAX then Undef
         else swap (arr, high) (arr, if pivot < low then (low + high) div 2 else pivot)
           (partition_loop arr [low..high - 1] (low - 1) high))"

text \<open>The sort of up to five elements, which the three routines repeat in their bodies.\<close>

fun exchange_inner :: "nat \<Rightarrow> int \<Rightarrow> int list \<Rightarrow> prog \<Rightarrow> prog" where
  "exchange_inner arr i [] k = k"
| "exchange_inner arr i (j # js) k =
     Rd (arr, j) (\<lambda>x. Rd (arr, i) (\<lambda>y.
       if x < y then Rd (arr, i) (\<lambda>temp. Rd (arr, j) (\<lambda>z. Wr (arr, i) z (Wr (arr, j) temp (exchange_inner arr i js k))))
       else exchange_inner arr i js k))"

fun exchange_sort :: "nat \<Rightarrow> int list \<Rightarrow> int \<Rightarrow> prog" where
  "exchange_sort arr [] r = Ret 0"
| "exchange_sort arr (i # is) r = exchange_inner arr i [i + 1..r] (exchange_sort arr is r)"

lemma results_swap [simp]: "results (swap a b k) = results k"
  by (simp add: swap_def)

lemma partition_loop_results:
  "v \<in> results (partition_loop arr js i high) \<Longrightarrow> i + 1 \<le> v \<and> v \<le> i + 1 + int (length js)"
  by (induction js arbitrary: i) (auto split: if_splits, fastforce+)

lemma partition_results: "low \<le> high \<Longrightarrow> v \<in> results (partition arr low high) \<Longrightarrow> low \<le> v \<and> v \<le> high"
  using partition_loop_results [of v arr "[low..high - 1]" "low - 1" high]
  by (auto simp: partition_def Let_def split: if_splits)

function normal_quick_sort :: "nat \<Rightarrow> int \<Rightarrow> int \<Rightarrow> prog" where
  "normal_quick_sort arr l r =
     (if l > r then Ret 0
      else if r - l + 1 \<le> 5 then exchange_sort arr [l..r - 1] r
      else pbind (partition arr l r) (\<lambda>pi.
        pbind (normal_quick_sort arr l (pi - 1)) (\<lambda>_.
        pbind (normal_quick_sort arr (pi + 1) r) (\<lambda>_. Ret 0))))"
  by pat_completeness auto
termination
  by (relation "measure (\<lambda>(arr, l, r). nat (r - l + 1))") (auto dest: partition_results [rotated])

text \<open>
  With processes: \<open>forks\<close> says whether the calls of fork succeed. A child leaves by \_exit(1), which
  its parent does not look at; a range that is empty makes the process that was asked to sort it
  leave, the top one too, so the result is 1 for an exit and 0 for a return. When fork fails the
  caller goes on as if it had the child.
\<close>

function quick_sort :: "bool \<Rightarrow> nat \<Rightarrow> int \<Rightarrow> int \<Rightarrow> prog" where
  "quick_sort forks arr l r =
     (if l > r then Ret 1
      else if r - l + 1 \<le> 5 then exchange_sort arr [l..r - 1] r
      else pbind (partition arr l r) (\<lambda>pi.
        Par (if forks then quick_sort forks arr l (pi - 1) else Ret 0)
            (if forks then quick_sort forks arr (pi + 1) r else Ret 0)
          (Ret 0)))"
  by pat_completeness auto
termination
  by (relation "measure (\<lambda>(forks, arr, l, r). nat (r - l + 1))") (auto dest: partition_results [rotated])

text \<open>With threads; \<open>creates\<close> says whether pthread\_create succeeds, which is not checked either.\<close>

function threaded_quick_sort :: "bool \<Rightarrow> nat \<Rightarrow> int \<Rightarrow> int \<Rightarrow> prog" where
  "threaded_quick_sort creates arr l r =
     (if l > r then Ret 0
      else if r - l + 1 \<le> 5 then exchange_sort arr [l..r - 1] r
      else pbind (partition arr l r) (\<lambda>pi.
        Par (if creates then threaded_quick_sort creates arr l (pi - 1) else Ret 0)
            (if creates then threaded_quick_sort creates arr (pi + 1) r else Ret 0)
          (Ret 0)))"
  by pat_completeness auto
termination
  by (relation "measure (\<lambda>(creates, arr, l, r). nat (r - l + 1))") (auto dest: partition_results [rotated])

declare normal_quick_sort.simps [simp del] quick_sort.simps [simp del] threaded_quick_sort.simps [simp del]

text \<open>
  runSorts after the input is in the shared array (array 0): sort it with processes, copy it to
  array 1, sort that with threads and then once more without. An exit in quick\_sort ends the
  program: result 1.
\<close>

fun copy_array :: "int list \<Rightarrow> prog \<Rightarrow> prog" where
  "copy_array [] k = k"
| "copy_array (i # is) k = Rd (0, i) (\<lambda>x. Wr (1, i) x (copy_array is k))"

definition runSorts :: "bool \<Rightarrow> bool \<Rightarrow> int \<Rightarrow> prog" where
  "runSorts forks creates n =
     pbind (quick_sort forks 0 0 (n - 1)) (\<lambda>st.
       if st = 1 then Ret 1
       else copy_array [0..n - 1]
         (pbind (if creates then threaded_quick_sort creates 1 0 (n - 1) else Ret 0) (\<lambda>_.
          normal_quick_sort 1 0 (n - 1))))"

section \<open>Sorting a range\<close>

text \<open>The multiset of the elements of array \<open>arr\<close> at the indices \<open>S\<close>.\<close>

definition elems :: "nat \<Rightarrow> mem \<Rightarrow> int set \<Rightarrow> int multiset" where
  "elems arr m S = image_mset (\<lambda>i. the (m (arr, i))) (mset_set S)"

definition alloced :: "nat \<Rightarrow> int set \<Rightarrow> mem \<Rightarrow> bool" where
  "alloced arr S m \<longleftrightarrow> (\<forall>i\<in>S. m (arr, i) \<noteq> None)"

text \<open>\<open>t\<close> is \<open>m\<close> with the elements of a range rearranged.\<close>

definition rearranged :: "nat \<Rightarrow> int set \<Rightarrow> mem \<Rightarrow> mem \<Rightarrow> bool" where
  "rearranged arr S m t \<longleftrightarrow> elems arr t S = elems arr m S \<and> dom t = dom m \<and> (\<forall>a. a \<notin> {arr} \<times> S \<longrightarrow> t a = m a)"

definition sorted_range :: "nat \<Rightarrow> int \<Rightarrow> int \<Rightarrow> mem \<Rightarrow> bool" where
  "sorted_range arr l r m \<longleftrightarrow> (\<forall>i j. l \<le> i \<and> i \<le> j \<and> j \<le> r \<longrightarrow> the (m (arr, i)) \<le> the (m (arr, j)))"

lemma rearranged_refl [simp]: "rearranged arr S m m"
  by (simp add: rearranged_def)

lemma rearranged_trans: "rearranged arr S m t \<Longrightarrow> rearranged arr S t u \<Longrightarrow> rearranged arr S m u"
  by (simp add: rearranged_def)

lemma elems_split: "finite S \<Longrightarrow> T \<subseteq> S \<Longrightarrow> elems arr m S = elems arr m T + elems arr m (S - T)"
  using mset_set_Union [of T "S - T"] by (simp add: elems_def finite_subset Un_absorb1 flip: image_mset_union)

lemma rearranged_out: "rearranged arr S m t \<Longrightarrow> a \<notin> {arr} \<times> S \<Longrightarrow> t a = m a"
  unfolding rearranged_def by blast

lemma rearranged_mono:
  assumes "rearranged arr T m t" and "T \<subseteq> S" and "finite S"
  shows "rearranged arr S m t"
proof -
  have "elems arr t (S - T) = elems arr m (S - T)"
    unfolding elems_def by (rule image_mset_cong) (use assms in \<open>auto simp: rearranged_def\<close>)
  moreover have "t a = m a" if "a \<notin> {arr} \<times> S" for a
  proof (rule rearranged_out [OF assms(1)])
    show "a \<notin> {arr} \<times> T" using that assms(2) by auto
  qed
  ultimately show ?thesis
    using assms(1) elems_split [OF assms(3,2)] by (simp add: rearranged_def)
qed

lemma rearranged_dom: "rearranged arr S m t \<Longrightarrow> t a = None \<longleftrightarrow> m a = None"
  by (metis domIff rearranged_def)

lemma alloced_rearranged: "rearranged arr S m t \<Longrightarrow> alloced b T t = alloced b T m"
  using rearranged_dom by (simp add: alloced_def)

lemma rearranged_swap:
  assumes "finite S" and "i \<in> S" "j \<in> S" and "m (arr, i) = Some x" "m (arr, j) = Some y"
  shows "rearranged arr S m (m((arr, i) \<mapsto> y, (arr, j) \<mapsto> x))" (is "rearranged arr S m ?t")
proof -
  let ?f = "\<lambda>k. the (m (arr, k))"
  let ?g = "\<lambda>k. if k = i then j else if k = j then i else k"
  have t: "the (?t (arr, k)) = ?f (?g k)" for k
    using assms by auto
  have "elems arr ?t S = image_mset ?f (image_mset ?g (mset_set S))"
    unfolding elems_def t by (simp only: multiset.map_comp o_def)
  also have "image_mset ?g (mset_set S) = mset_set (?g ` S)"
    by (rule image_mset_mset_set) (auto simp: inj_on_def)
  also have "?g ` S = S"
    using assms(2,3) by (auto simp: image_iff split: if_splits)
  finally have "elems arr ?t S = elems arr m S" by (simp only: elems_def)
  moreover have "dom ?t = dom m" using assms(4,5) by auto
  moreover have "?t a = m a" if "a \<notin> {arr} \<times> S" for a using that assms(2,3) by auto
  ultimately show ?thesis by (simp add: rearranged_def del: fun_upd_apply)
qed

lemma wp_swap:
  assumes "finite S" "i \<in> S" "j \<in> S" "alloced arr S m"
    and "\<And>x y. m (arr, i) = Some x \<Longrightarrow> m (arr, j) = Some y \<Longrightarrow> rearranged arr S m (m((arr, i) \<mapsto> y, (arr, j) \<mapsto> x)) \<Longrightarrow>
      wp k Q (m((arr, i) \<mapsto> y, (arr, j) \<mapsto> x))"
  shows "wp (swap (arr, i) (arr, j) k) Q m"
proof -
  obtain x y where xy: "m (arr, i) = Some x" "m (arr, j) = Some y"
    using assms(2-4) unfolding alloced_def by blast
  with assms(5) [OF xy rearranged_swap [OF assms(1-3) xy]] show ?thesis by (simp add: swap_def)
qed

abbreviation at :: "nat \<Rightarrow> mem \<Rightarrow> int \<Rightarrow> int" where
  "at arr m i \<equiv> the (m (arr, i))"

lemma alloced_Some: "alloced arr S m \<Longrightarrow> i \<in> S \<Longrightarrow> m (arr, i) = Some (at arr m i)"
  by (auto simp: alloced_def)

lemma wp_partition_loop:
  assumes "low \<le> j" "j \<le> high" "low - 1 \<le> i" "i < j" and "alloced arr {low..high} m" and "at arr m high = v"
    and "\<forall>k. low \<le> k \<and> k \<le> i \<longrightarrow> at arr m k < v" and "\<forall>k. i < k \<and> k < j \<longrightarrow> v \<le> at arr m k"
    and Q: "\<And>p t. low \<le> p \<Longrightarrow> p \<le> high \<Longrightarrow> rearranged arr {low..high} m t \<Longrightarrow>
      \<forall>k. low \<le> k \<and> k < p \<longrightarrow> at arr t k < at arr t p \<Longrightarrow> \<forall>k. p < k \<and> k \<le> high \<longrightarrow> at arr t p \<le> at arr t k \<Longrightarrow> Q p t"
  shows "wp (partition_loop arr [j..high - 1] i high) Q m"
  using assms
proof (induction "nat (high - j)" arbitrary: i j m)
  case 0
  then have j: "j = high" by simp
  have "wp (swap (arr, i + 1) (arr, high) (Ret (i + 1))) Q m"
  proof (rule wp_swap [where S = "{low..high}"])
    fix x y
    assume x: "m (arr, i + 1) = Some x" and y: "m (arr, high) = Some y"
      and r: "rearranged arr {low..high} m (m((arr, i + 1) \<mapsto> y, (arr, high) \<mapsto> x))"
    have "y = v" using 0 y by simp
    moreover have "v \<le> x" using 0(5,7) spec [OF 0(9), of "i + 1"] x j by (cases "i + 1 = high") auto
    ultimately show "wp (Ret (i + 1)) Q (m((arr, i + 1) \<mapsto> y, (arr, high) \<mapsto> x))"
      unfolding wp.simps using 0(2-10) j x by (intro 0(10) [OF _ _ r]) (auto split: if_splits)
  qed (use 0 in auto)
  then show ?case by (simp add: j)
next
  case (Suc n)
  then have j: "j < high" by simp
  then have js: "[j..high - 1] = j # [j + 1..high - 1]" by (simp add: upto_rec1)
  obtain w where mj: "m (arr, j) = Some w" "m (arr, high) = Some v"
    using Suc.prems(1,2,6) alloced_Some [OF Suc.prems(5), of j] alloced_Some [OF Suc.prems(5), of high] by simp
  show ?case
  proof (cases "w < v")
    case True
    have "wp (swap (arr, i + 1) (arr, j) (partition_loop arr [j + 1..high - 1] (i + 1) high)) Q m"
    proof (rule wp_swap [where S = "{low..high}"])
      fix x y
      assume x: "m (arr, i + 1) = Some x" and y: "m (arr, j) = Some y"
        and r: "rearranged arr {low..high} m (m((arr, i + 1) \<mapsto> y, (arr, j) \<mapsto> x))"
      let ?t = "m((arr, i + 1) \<mapsto> y, (arr, j) \<mapsto> x)"
      have y': "y < v" using True y mj by simp
      have x': "i + 1 \<noteq> j \<Longrightarrow> v \<le> x" "i + 1 = j \<Longrightarrow> x = y"
        using Suc.prems(4) spec [OF Suc.prems(8), of "i + 1"] x y by auto
      show "wp (partition_loop arr [j + 1..high - 1] (i + 1) high) Q ?t"
      proof (rule Suc.hyps(1))
        show "alloced arr {low..high} ?t" using alloced_rearranged [OF r] Suc.prems(5) by simp
        show "at arr ?t high = v" using j Suc.prems(4,6) by auto
        show "\<forall>k. low \<le> k \<and> k \<le> i + 1 \<longrightarrow> at arr ?t k < v" using Suc.prems(4,7) y' x' by auto
        show "\<forall>k. i + 1 < k \<and> k < j + 1 \<longrightarrow> v \<le> at arr ?t k" using Suc.prems(4,8) y' x' by auto
        show "Q p t" if "low \<le> p" "p \<le> high" "rearranged arr {low..high} ?t t"
          "\<forall>k. low \<le> k \<and> k < p \<longrightarrow> at arr t k < at arr t p" "\<forall>k. p < k \<and> k \<le> high \<longrightarrow> at arr t p \<le> at arr t k" for p t
          using Suc.prems(9) [OF that(1,2) rearranged_trans [OF r that(3)] that(4,5)] .
      qed (use Suc.hyps(2) Suc.prems(1-4) j in auto)
    qed (use Suc.prems j in auto)
    then show ?thesis using True mj by (simp add: js)
  next
    case False
    have "wp (partition_loop arr [j + 1..high - 1] i high) Q m"
    proof (rule Suc.hyps(1))
      show "\<forall>k. i < k \<and> k < j + 1 \<longrightarrow> v \<le> at arr m k" using Suc.prems(8) False mj by (metis linorder_not_less option.sel zless_add1_eq)
    qed (use Suc.hyps(2) Suc.prems j in auto)
    then show ?thesis using False mj by (simp add: js)
  qed
qed

lemma wp_partition:
  assumes "low \<ge> 0" "low < high" "2 * high \<le> INT_MAX" and m: "alloced arr {low..high} m"
    and Q: "\<And>p t. low \<le> p \<Longrightarrow> p \<le> high \<Longrightarrow> rearranged arr {low..high} m t \<Longrightarrow>
      \<forall>k. low \<le> k \<and> k < p \<longrightarrow> at arr t k < at arr t p \<Longrightarrow> \<forall>k. p < k \<and> k \<le> high \<longrightarrow> at arr t p \<le> at arr t k \<Longrightarrow> Q p t"
  shows "wp (partition arr low high) Q m"
proof -
  have "wp (swap (arr, high) (arr, p) (partition_loop arr [low..high - 1] (low - 1) high)) Q m"
    if p: "low \<le> p" "p \<le> high" for p
  proof (rule wp_swap [where S = "{low..high}"])
    fix x y
    assume "m (arr, high) = Some x" and "m (arr, p) = Some y"
      and r: "rearranged arr {low..high} m (m((arr, high) \<mapsto> y, (arr, p) \<mapsto> x))"
    let ?t = "m((arr, high) \<mapsto> y, (arr, p) \<mapsto> x)"
    have a: "alloced arr {low..high} ?t" using alloced_rearranged [OF r] m by simp
    show "wp (partition_loop arr [low..high - 1] (low - 1) high) Q ?t"
      by (rule wp_partition_loop [OF _ _ _ _ a refl]) (use assms(2) Q rearranged_trans [OF r] in auto)
  qed (use p assms m in auto)
  moreover have "int n mod high < high" "0 \<le> int n mod high" for n using assms(1,2) by auto
  ultimately show ?thesis
    using assms(1-3) by (auto simp: partition_def Let_def not_less less_imp_le)
qed

lemma wp_exchange_inner:
  assumes "l \<le> i" "i < j" "j \<le> r + 1" and "alloced arr {l..r} m"
    and "\<forall>k. i \<le> k \<and> k < j \<longrightarrow> at arr m i \<le> at arr m k"
    and "\<forall>a b. l \<le> a \<and> a < i \<and> a \<le> b \<and> b \<le> r \<longrightarrow> at arr m a \<le> at arr m b"
    and Q: "\<And>t. rearranged arr {l..r} m t \<Longrightarrow> \<forall>k. i \<le> k \<and> k \<le> r \<longrightarrow> at arr t i \<le> at arr t k \<Longrightarrow>
      \<forall>a b. l \<le> a \<and> a < i \<and> a \<le> b \<and> b \<le> r \<longrightarrow> at arr t a \<le> at arr t b \<Longrightarrow> wp k Q t"
  shows "wp (exchange_inner arr i [j..r] k) Q m"
  using assms
proof (induction "nat (r + 1 - j)" arbitrary: j m)
  case 0
  then show ?case by simp
next
  case (Suc n)
  then have j: "j \<le> r" by simp
  then have js: "[j..r] = j # [j + 1..r]" by (simp add: upto_rec1)
  obtain x y where mj: "m (arr, j) = Some y" "m (arr, i) = Some x"
    using Suc.prems(1-3) j alloced_Some [OF Suc.prems(4), of i] alloced_Some [OF Suc.prems(4), of j] by simp
  show ?case
  proof (cases "y < x")
    case True
    let ?t = "m((arr, i) \<mapsto> y, (arr, j) \<mapsto> x)"
    have r: "rearranged arr {l..r} m ?t"
      by (rule rearranged_swap) (use Suc.prems(1-3) j mj in auto)
    have "wp (exchange_inner arr i [j + 1..r] k) Q ?t"
    proof (rule Suc.hyps(1))
      show "alloced arr {l..r} ?t" using alloced_rearranged [OF r] Suc.prems(4) by simp
      show "\<forall>k. i \<le> k \<and> k < j + 1 \<longrightarrow> at arr ?t i \<le> at arr ?t k" using True mj Suc.prems(2,5) by fastforce
      show "\<forall>a b. l \<le> a \<and> a < i \<and> a \<le> b \<and> b \<le> r \<longrightarrow> at arr ?t a \<le> at arr ?t b"
      proof (intro allI impI)
        fix a b assume ab: "l \<le> a \<and> a < i \<and> a \<le> b \<and> b \<le> r"
        then have "at arr m a \<le> at arr m b" "at arr m a \<le> at arr m i" "at arr m a \<le> at arr m j"
          using Suc.prems(1,2,6) j by auto
        then show "at arr ?t a \<le> at arr ?t b" using mj ab Suc.prems(2) by auto
      qed
      show "wp k Q t" if "rearranged arr {l..r} ?t t" "\<forall>k. i \<le> k \<and> k \<le> r \<longrightarrow> at arr t i \<le> at arr t k"
        "\<forall>a b. l \<le> a \<and> a < i \<and> a \<le> b \<and> b \<le> r \<longrightarrow> at arr t a \<le> at arr t b" for t
        using Suc.prems(7) [OF rearranged_trans [OF r that(1)] that(2,3)] .
    qed (use Suc.hyps(2) Suc.prems(1-3) j in auto)
    then show ?thesis using True mj Suc.prems(2) by (simp add: js)
  next
    case False
    have "wp (exchange_inner arr i [j + 1..r] k) Q m"
    proof (rule Suc.hyps(1))
      show "\<forall>k. i \<le> k \<and> k < j + 1 \<longrightarrow> at arr m i \<le> at arr m k" using Suc.prems(5) False mj by (metis linorder_not_less option.sel zless_add1_eq)
    qed (use Suc.hyps(2) Suc.prems j in auto)
    then show ?thesis using False mj by (simp add: js)
  qed
qed

lemma wp_exchange_sort:
  assumes "l \<le> i" and "alloced arr {l..r} m"
    and "\<forall>a b. l \<le> a \<and> a < i \<and> a \<le> b \<and> b \<le> r \<longrightarrow> at arr m a \<le> at arr m b"
    and Q: "\<And>t. rearranged arr {l..r} m t \<Longrightarrow> sorted_range arr l r t \<Longrightarrow> Q 0 t"
  shows "wp (exchange_sort arr [i..r - 1] r) Q m"
  using assms
proof (induction "nat (r - i)" arbitrary: i m)
  case 0
  then have "sorted_range arr l r m" unfolding sorted_range_def by (metis diff_gt_0_iff_gt linorder_not_less nat_0_iff order_le_less order_less_le_trans)
  then show ?case using 0 by simp
next
  case (Suc n)
  then have "[i..r - 1] = i # [i + 1..r - 1]" by (simp add: upto_rec1)
  moreover have "wp (exchange_inner arr i [i + 1..r] (exchange_sort arr [i + 1..r - 1] r)) Q m"
  proof (rule wp_exchange_inner [OF Suc.prems(1) _ _ Suc.prems(2) _ Suc.prems(3)])
    fix t
    assume t: "rearranged arr {l..r} m t" "\<forall>k. i \<le> k \<and> k \<le> r \<longrightarrow> at arr t i \<le> at arr t k"
      "\<forall>a b. l \<le> a \<and> a < i \<and> a \<le> b \<and> b \<le> r \<longrightarrow> at arr t a \<le> at arr t b"
    show "wp (exchange_sort arr [i + 1..r - 1] r) Q t"
    proof (rule Suc.hyps(1))
      show "alloced arr {l..r} t" using alloced_rearranged [OF t(1)] Suc.prems(2) by simp
      show "\<forall>a b. l \<le> a \<and> a < i + 1 \<and> a \<le> b \<and> b \<le> r \<longrightarrow> at arr t a \<le> at arr t b"
        using t(2,3) by (metis zless_add1_eq)
      show "Q 0 u" if "rearranged arr {l..r} t u" "sorted_range arr l r u" for u
        using Suc.prems(4) [OF rearranged_trans [OF t(1) that(1)] that(2)] .
    qed (use Suc.hyps(2) Suc.prems(1) in auto)
  qed (use Suc.hyps(2) in \<open>auto simp: zless_add1_eq\<close>)
  ultimately show ?case by simp
qed

lemma set_elems: "finite S \<Longrightarrow> set_mset (elems arr m S) = at arr m ` S"
  by (simp add: elems_def)

lemma rearranged_at:
  assumes "rearranged arr S m t" "finite S" "k \<in> S" and "\<And>i. i \<in> S \<Longrightarrow> P (at arr m i)"
  shows "P (at arr t k)"
proof -
  have "at arr t ` S = at arr m ` S"
    using assms(1,2) by (metis rearranged_def set_elems)
  then have "at arr t k \<in> at arr m ` S" using assms(3) by blast
  then show ?thesis using assms(4) by auto
qed

text \<open>Sorting both sides of the pivot sorts the range.\<close>

lemma sort_sides:
  assumes p: "l \<le> p" "p \<le> r" and part: "rearranged arr {l..r} m t"
    and less: "\<forall>k. l \<le> k \<and> k < p \<longrightarrow> at arr t k < at arr t p" and more: "\<forall>k. p < k \<and> k \<le> r \<longrightarrow> at arr t p \<le> at arr t k"
    and left: "rearranged arr {l..p - 1} t u" "sorted_range arr l (p - 1) u"
    and right: "rearranged arr {p + 1..r} u w" "sorted_range arr (p + 1) r w"
  shows "rearranged arr {l..r} m w" and "sorted_range arr l r w"
proof -
  have "rearranged arr {l..r} t u" "rearranged arr {l..r} u w"
    using rearranged_mono [OF left(1), of "{l..r}"] rearranged_mono [OF right(1), of "{l..r}"] p by auto
  then show "rearranged arr {l..r} m w" using part rearranged_trans by blast
  have u: "at arr u k = at arr t k" if "p \<le> k" for k
    using rearranged_out [OF left(1), of "(arr, k)"] that by auto
  have w: "at arr w k = at arr u k" if "k \<le> p" for k
    using rearranged_out [OF right(1), of "(arr, k)"] that by auto
  let ?p = "at arr t p"
  have lo: "at arr w k \<le> ?p" if "l \<le> k" "k < p" for k
  proof -
    have "at arr u k < ?p" by (rule rearranged_at [OF left(1)]) (use that less in auto)
    then show ?thesis using w [of k] that by simp
  qed
  have hi: "?p \<le> at arr w k" if "p < k" "k \<le> r" for k
    by (rule rearranged_at [OF right(1)]) (use that more u in auto)
  have mid: "at arr w p = ?p" using u w by simp
  show "sorted_range arr l r w"
    unfolding sorted_range_def
  proof (intro allI impI, elim conjE)
    fix i j assume ij: "l \<le> i" "i \<le> j" "j \<le> r"
    consider "j < p" | "p < i" | "i \<le> p" "p \<le> j" by linarith
    then show "at arr w i \<le> at arr w j"
    proof cases
      case 1
      then show ?thesis using left(2) w ij by (simp add: sorted_range_def)
    next
      case 2
      then show ?thesis using right(2) ij by (simp add: sorted_range_def)
    next
      case 3
      then have "at arr w i \<le> ?p" using lo [of i] mid ij by (cases "i = p") auto
      moreover have "?p \<le> at arr w j" using 3 hi [of j] mid ij by (cases "j = p") auto
      ultimately show ?thesis by simp
    qed
  qed
qed

text \<open>What all three routines promise of a range.\<close>

definition sorts :: "(nat \<Rightarrow> int \<Rightarrow> int \<Rightarrow> prog) \<Rightarrow> nat \<Rightarrow> int \<Rightarrow> int \<Rightarrow> bool" where
  "sorts f arr l r \<longleftrightarrow> (\<forall>m Q. alloced arr {l..r} m \<longrightarrow> (\<forall>v t. rearranged arr {l..r} m t \<longrightarrow> sorted_range arr l r t \<longrightarrow>
     (l \<le> r \<longrightarrow> v = 0) \<longrightarrow> Q v t) \<longrightarrow> wp (f arr l r) Q m)"

lemma sortsI:
  "(\<And>m Q. alloced arr {l..r} m \<Longrightarrow> (\<And>v t. rearranged arr {l..r} m t \<Longrightarrow> sorted_range arr l r t \<Longrightarrow>
     (l \<le> r \<longrightarrow> v = 0) \<Longrightarrow> Q v t) \<Longrightarrow> wp (f arr l r) Q m) \<Longrightarrow> sorts f arr l r"
  by (simp add: sorts_def)

lemma sortsD:
  "sorts f arr l r \<Longrightarrow> alloced arr {l..r} m \<Longrightarrow> (\<And>v t. rearranged arr {l..r} m t \<Longrightarrow> sorted_range arr l r t \<Longrightarrow>
     (l \<le> r \<longrightarrow> v = 0) \<Longrightarrow> Q v t) \<Longrightarrow> wp (f arr l r) Q m"
  by (simp add: sorts_def)

lemma sorts_small: "r - l + 1 \<le> 5 \<Longrightarrow> l \<le> r \<Longrightarrow> alloced arr {l..r} m \<Longrightarrow>
  (\<And>v t. rearranged arr {l..r} m t \<Longrightarrow> sorted_range arr l r t \<Longrightarrow> (l \<le> r \<longrightarrow> v = 0) \<Longrightarrow> Q v t) \<Longrightarrow>
  wp (exchange_sort arr [l..r - 1] r) Q m"
  by (rule wp_exchange_sort [of l l]) auto

lemma sorts_split:
  assumes "0 \<le> l" "l < r" "2 * r \<le> INT_MAX" and m: "alloced arr {l..r} m"
    and "\<And>p. l \<le> p \<Longrightarrow> p \<le> r \<Longrightarrow> sorts f arr l (p - 1) \<and> sorts g arr (p + 1) r"
    and Q: "\<And>v t. rearranged arr {l..r} m t \<Longrightarrow> sorted_range arr l r t \<Longrightarrow> Q t"
  shows "wp (partition arr l r) (\<lambda>p. wp (f arr l (p - 1)) (\<lambda>_. wp (g arr (p + 1) r) (\<lambda>_. Q))) m"
proof (rule wp_partition [OF assms(1-4)])
  fix p t
  assume p: "l \<le> p" "p \<le> r" and t: "rearranged arr {l..r} m t"
    and less: "\<forall>k. l \<le> k \<and> k < p \<longrightarrow> at arr t k < at arr t p" and more: "\<forall>k. p < k \<and> k \<le> r \<longrightarrow> at arr t p \<le> at arr t k"
  have s: "sorts f arr l (p - 1)" "sorts g arr (p + 1) r" using assms(5) [OF p] by auto
  have a: "alloced arr {l..r} t" using alloced_rearranged [OF t] m by simp
  show "wp (f arr l (p - 1)) (\<lambda>_. wp (g arr (p + 1) r) (\<lambda>_. Q)) t"
  proof (rule sortsD [OF s(1)])
    show "alloced arr {l..p - 1} t" using a p by (auto simp: alloced_def)
    fix v u
    assume u: "rearranged arr {l..p - 1} t u" "sorted_range arr l (p - 1) u"
    show "wp (g arr (p + 1) r) (\<lambda>_. Q) u"
    proof (rule sortsD [OF s(2)])
      show "alloced arr {p + 1..r} u" using a p alloced_rearranged [OF u(1), of arr "{p + 1..r}"] by (auto simp: alloced_def)
      fix x w
      assume w: "rearranged arr {p + 1..r} u w" "sorted_range arr (p + 1) r w"
      show "Q w" using Q sort_sides [OF p t less more u w] by blast
    qed
  qed
qed

text \<open>The recursion the three routines share, seen through their preconditions.\<close>

lemma sorts_rec:
  assumes eq: "\<And>l r (Q :: int \<Rightarrow> mem \<Rightarrow> bool) m. wp (f arr l r) Q m = (if l > r then Q e m
      else if r - l + 1 \<le> 5 then wp (exchange_sort arr [l..r - 1] r) Q m
      else wp (partition arr l r) (\<lambda>p. wp (f arr l (p - 1)) (\<lambda>_. wp (f arr (p + 1) r) (\<lambda>_. Q 0))) m)"
  shows "0 \<le> l \<Longrightarrow> 2 * r \<le> INT_MAX \<Longrightarrow> sorts f arr l r"
proof (induction "nat (r - l + 1)" arbitrary: l r rule: less_induct)
  case less
  show ?case
  proof (rule sortsI)
    fix m :: mem and Q :: "int \<Rightarrow> mem \<Rightarrow> bool"
    assume m: "alloced arr {l..r} m" and Q: "\<And>v t. rearranged arr {l..r} m t \<Longrightarrow> sorted_range arr l r t \<Longrightarrow>
      (l \<le> r \<longrightarrow> v = 0) \<Longrightarrow> Q v t"
    consider "l > r" | "l \<le> r" "r - l + 1 \<le> 5" | "l < r" "\<not> r - l + 1 \<le> 5" by linarith
    then show "wp (f arr l r) Q m"
    proof cases
      case 1
      then show ?thesis using Q [of m e] by (simp add: eq sorted_range_def)
    next
      case 2
      then show ?thesis using sorts_small [OF 2(2,1) m, of Q] Q by (simp add: eq)
    next
      case 3
      have "sorts f arr l (p - 1) \<and> sorts f arr (p + 1) r" if "l \<le> p" "p \<le> r" for p
        using that less.hyps [of "p - 1" l] less.hyps [of r "p + 1"] less.prems by auto
      then have "wp (partition arr l r) (\<lambda>p. wp (f arr l (p - 1)) (\<lambda>_. wp (f arr (p + 1) r) (\<lambda>_. Q 0))) m"
        using Q by (intro sorts_split [OF less.prems(1) 3(1) less.prems(2) m]) auto
      then show ?thesis using 3 by (simp add: eq)
    qed
  qed
qed

lemma normal_sorts: "0 \<le> l \<Longrightarrow> 2 * r \<le> INT_MAX \<Longrightarrow> sorts normal_quick_sort arr l r"
  by (rule sorts_rec [where e = 0], subst normal_quick_sort.simps) (simp_all add: wp_Ret wp_Par)

lemma quick_sorts: "0 \<le> l \<Longrightarrow> 2 * r \<le> INT_MAX \<Longrightarrow> sorts (quick_sort True) arr l r"
  by (rule sorts_rec [where e = 1], subst quick_sort.simps) (simp_all add: wp_Ret wp_Par)

lemma threaded_sorts: "0 \<le> l \<Longrightarrow> 2 * r \<le> INT_MAX \<Longrightarrow> sorts (threaded_quick_sort True) arr l r"
  by (rule sorts_rec [where e = 0], subst threaded_quick_sort.simps) (simp_all add: wp_Ret wp_Par)

section \<open>Footprints\<close>

lemma foot_partition_loop:
  "low - 1 \<le> i \<Longrightarrow> i < j \<Longrightarrow> low \<le> j \<Longrightarrow> j \<le> high \<Longrightarrow> foot ({arr} \<times> {low..high}) (partition_loop arr [j..high - 1] i high)"
proof (induction "nat (high - j)" arbitrary: i j)
  case (Suc n)
  then have "[j..high - 1] = j # [j + 1..high - 1]" by (simp add: upto_rec1)
  then show ?case using Suc.hyps(1) [of "j + 1"] Suc.hyps(2) Suc.prems by (auto simp: swap_def)
qed (auto simp: swap_def)

lemma foot_partition:
  assumes "0 \<le> low" "low < high"
  shows "foot ({arr} \<times> {low..high}) (partition arr low high)"
proof -
  have "int n mod high \<le> high" "0 \<le> int n mod high" for n
    using assms by (auto simp: less_imp_le)
  then show ?thesis
    using assms foot_partition_loop [of low "low - 1" low high arr]
    by (auto simp: partition_def Let_def swap_def not_less)
qed

lemma foot_exchange_inner:
  "l \<le> i \<Longrightarrow> i < j \<Longrightarrow> i \<le> r \<Longrightarrow> foot ({arr} \<times> {l..r}) k \<Longrightarrow> foot ({arr} \<times> {l..r}) (exchange_inner arr i [j..r] k)"
proof (induction "nat (r + 1 - j)" arbitrary: j)
  case (Suc n)
  then have "[j..r] = j # [j + 1..r]" by (simp add: upto_rec1)
  then show ?case using Suc.hyps(1) [of "j + 1"] Suc.hyps(2) Suc.prems by auto
qed simp

lemma foot_exchange_sort: "l \<le> i \<Longrightarrow> foot ({arr} \<times> {l..r}) (exchange_sort arr [i..r - 1] r)"
proof (induction "nat (r - i)" arbitrary: i)
  case (Suc n)
  then have "[i..r - 1] = i # [i + 1..r - 1]" by (simp add: upto_rec1)
  then show ?case using Suc.hyps(1) [of "i + 1"] Suc.hyps(2) Suc.prems foot_exchange_inner [of l i "i + 1" r] by auto
qed simp

lemma foot_par:
  assumes "l \<le> p" "p \<le> r" "foot ({arr} \<times> {l..p - 1}) f" "foot ({arr} \<times> {p + 1..r}) g"
  shows "foot ({arr} \<times> {l..r}) (Par f g (Ret v))"
proof -
  have "{arr} \<times> {l..p - 1} \<union> {arr} \<times> {p + 1..r} \<subseteq> {arr} \<times> {l..r}"
    "({arr} \<times> {l..p - 1}) \<inter> ({arr} \<times> {p + 1..r}) = {}" using assms(1,2) by auto
  then show ?thesis using assms(3,4) by (auto simp del: Un_subset_iff)
qed

lemma foot_rec:
  assumes eq: "\<And>l r. f arr l r = (if l > r then Ret e
      else if r - l + 1 \<le> 5 then exchange_sort arr [l..r - 1] r
      else pbind (partition arr l r) (\<lambda>p. F (f arr l (p - 1)) (f arr (p + 1) r)))"
    and F: "\<And>l p r g h. l \<le> p \<Longrightarrow> p \<le> r \<Longrightarrow> foot ({arr} \<times> {l..p - 1}) g \<Longrightarrow> foot ({arr} \<times> {p + 1..r}) h \<Longrightarrow>
      foot ({arr} \<times> {l..r}) (F g h)"
  shows "0 \<le> l \<Longrightarrow> foot ({arr} \<times> {l..r}) (f arr l r)"
proof (induction "nat (r - l + 1)" arbitrary: l r rule: less_induct)
  case less
  show ?case
  proof (cases "l > r \<or> r - l + 1 \<le> 5")
    case True
    then show ?thesis by (auto simp: eq [of l r] intro: foot_exchange_sort)
  next
    case False
    have "foot ({arr} \<times> {l..r}) (pbind (partition arr l r) (\<lambda>p. F (f arr l (p - 1)) (f arr (p + 1) r)))"
    proof (rule foot_pbind)
      show "foot ({arr} \<times> {l..r}) (partition arr l r)" using False less.prems by (intro foot_partition) auto
      fix p assume "p \<in> results (partition arr l r)"
      then have p: "l \<le> p" "p \<le> r" using partition_results [of l r p arr] False by auto
      show "foot ({arr} \<times> {l..r}) (F (f arr l (p - 1)) (f arr (p + 1) r))"
        using less.hyps [of "p - 1" l] less.hyps [of r "p + 1"] less.prems p by (intro F [OF p]) auto
    qed
    then show ?thesis using False by (simp add: eq [of l r])
  qed
qed

lemma foot_normal: "0 \<le> l \<Longrightarrow> foot ({arr} \<times> {l..r}) (normal_quick_sort arr l r)"
proof (rule foot_rec [where e = 0 and F = "\<lambda>g h. pbind g (\<lambda>_. pbind h (\<lambda>_. Ret 0))"])
  show "foot ({arr} \<times> {l..r}) (pbind g (\<lambda>_. pbind h (\<lambda>_. Ret 0)))"
    if "l \<le> p" "p \<le> r" "foot ({arr} \<times> {l..p - 1}) g" "foot ({arr} \<times> {p + 1..r}) h" for l p r g h
  proof -
    have "{arr} \<times> {l..p - 1} \<subseteq> {arr} \<times> {l..r}" "{arr} \<times> {p + 1..r} \<subseteq> {arr} \<times> {l..r}" using that(1,2) by auto
    then have "foot ({arr} \<times> {l..r}) g" "foot ({arr} \<times> {l..r}) h"
      using foot_mono [OF that(3)] foot_mono [OF that(4)] by blast+
    then show ?thesis by (intro foot_pbind) auto
  qed
qed (subst normal_quick_sort.simps, simp)

lemma foot_quick: "0 \<le> l \<Longrightarrow> foot ({arr} \<times> {l..r}) (quick_sort True arr l r)"
  by (rule foot_rec [where e = 1 and F = "\<lambda>g h. Par g h (Ret 0)"])
    (subst quick_sort.simps, simp, rule foot_par)

lemma foot_threaded: "0 \<le> l \<Longrightarrow> foot ({arr} \<times> {l..r}) (threaded_quick_sort True arr l r)"
  by (rule foot_rec [where e = 0 and F = "\<lambda>g h. Par g h (Ret 0)"])
    (subst threaded_quick_sort.simps, simp, rule foot_par)

section \<open>The whole program\<close>

definition vals :: "nat \<Rightarrow> int \<Rightarrow> int \<Rightarrow> mem \<Rightarrow> int list" where
  "vals arr l r m = map (at arr m) [l..r]"

lemma sorted_upto: "(\<And>i j. l \<le> i \<Longrightarrow> i \<le> j \<Longrightarrow> j \<le> r \<Longrightarrow> f i \<le> f j) \<Longrightarrow> sorted (map f [l..r])"
  for f :: "int \<Rightarrow> int"
proof (induction "nat (r - l + 1)" arbitrary: l)
  case (Suc n)
  then have "[l..r] = l # [l + 1..r]" by (simp add: upto_rec1)
  then show ?case using Suc.hyps(1) [of "l + 1"] Suc.hyps(2) Suc.prems by auto
qed simp

lemma vals_sort:
  assumes "rearranged arr {l..r} m t" and "sorted_range arr l r t"
  shows "vals arr l r t = sort (vals arr l r m)"
proof (rule properties_for_sort [symmetric])
  have "mset_set {l..r} = mset [l..r]" using mset_set_set [of "[l..r]"] by simp
  then have "elems arr m' {l..r} = mset (vals arr l r m')" for m' by (simp add: elems_def vals_def)
  then show "mset (vals arr l r t) = mset (vals arr l r m)" using assms(1) by (simp add: rearranged_def)
  show "sorted (vals arr l r t)" unfolding vals_def by (rule sorted_upto) (use assms(2) in \<open>auto simp: sorted_range_def\<close>)
qed

lemma steps_outcome:
  assumes "steps p m p' t" and "foot A p" and "wp p Q m"
  shows "(\<exists>v. p' = Ret v \<and> Q v t) \<or> (\<exists>p'' t'. step p' t p'' t')"
  using wp_progress [OF steps_wp [OF assms]] .

lemma no_infinite_run: "\<not> (\<exists>ps ms. ps 0 = p \<and> (\<forall>i. step (ps i) (ms i) (ps (Suc i)) (ms (Suc i))))"
proof
  assume "\<exists>ps ms. ps 0 = p \<and> (\<forall>i. step (ps i) (ms i) (ps (Suc i)) (ms (Suc i)))"
  then obtain ps where ps: "ps 0 = p" "\<And>i. next_prog (ps (Suc i)) (ps i)" unfolding next_prog_def by metis
  have "\<forall>i. ps i \<noteq> q" for q
    using accp_next_prog [of q] by (induction rule: accp.induct) (metis ps(2))
  then show False by blast
qed

lemma wp_copy_array:
  assumes "alloced 0 {i..r} m" "alloced 1 {i..r} m"
    and "\<And>t. dom t = dom m \<Longrightarrow> \<forall>a. a \<notin> {1} \<times> {i..r} \<longrightarrow> t a = m a \<Longrightarrow> \<forall>k. i \<le> k \<and> k \<le> r \<longrightarrow> at 1 t k = at 0 m k \<Longrightarrow> wp p Q t"
  shows "wp (copy_array [i..r] p) Q m"
  using assms
proof (induction "nat (r - i + 1)" arbitrary: i m)
  case (Suc n)
  then have js: "[i..r] = i # [i + 1..r]" by (simp add: upto_rec1)
  have i: "i \<le> r" using Suc.hyps(2) by simp
  obtain x y where xy: "m (0, i) = Some x" "m (1, i) = Some y"
    using alloced_Some [OF Suc.prems(1), of i] alloced_Some [OF Suc.prems(2), of i] i by simp
  let ?m = "m((1, i) \<mapsto> x)"
  have dom: "dom ?m = dom m" using xy by auto
  have "wp (copy_array [i + 1..r] p) Q ?m"
  proof (rule Suc.hyps(1))
    show "alloced 0 {i + 1..r} ?m" "alloced 1 {i + 1..r} ?m" using Suc.prems(1,2) by (auto simp: alloced_def)
    fix t
    assume t: "dom t = dom ?m" "\<forall>a. a \<notin> {1} \<times> {i + 1..r} \<longrightarrow> t a = ?m a" "\<forall>k. i + 1 \<le> k \<and> k \<le> r \<longrightarrow> at 1 t k = at 0 ?m k"
    show "wp p Q t"
    proof (rule Suc.prems(3))
      show "dom t = dom m" using t(1) dom by simp
      show "\<forall>a. a \<notin> {1} \<times> {i..r} \<longrightarrow> t a = m a"
      proof (intro allI impI)
        fix a :: addr assume a: "a \<notin> {1} \<times> {i..r}"
        then have "a \<notin> {1} \<times> {i + 1..r}" "a \<noteq> (1, i)" using i by auto
        then have "t a = ?m a" using t(2) by blast
        then show "t a = m a" using \<open>a \<noteq> (1, i)\<close> by simp
      qed
      show "\<forall>k. i \<le> k \<and> k \<le> r \<longrightarrow> at 1 t k = at 0 m k"
      proof (intro allI impI)
        fix k assume k: "i \<le> k \<and> k \<le> r"
        show "at 1 t k = at 0 m k"
        proof (cases "k = i")
          case True
          have "(1, i) \<notin> {1 :: nat} \<times> {i + 1..r}" by simp
          then have "t (1, i) = Some x" using t(2) by simp
          then show ?thesis using True xy by simp
        next
          case False
          then show ?thesis using t(3) k by simp
        qed
      qed
    qed
  qed (use Suc.hyps(2) i in auto)
  then show ?case using xy by (simp add: js)
qed simp

lemma wp_runSorts:
  assumes n: "1 \<le> n" "2 * (n - 1) \<le> INT_MAX" and m: "alloced 0 {0..n - 1} m" "alloced 1 {0..n - 1} m"
  shows "wp (runSorts True True n) (\<lambda>v t. v = 0 \<and> vals 0 0 (n - 1) t = sort (vals 0 0 (n - 1) m) \<and>
    vals 1 0 (n - 1) t = sort (vals 0 0 (n - 1) m)) m"
proof -
  let ?r = "n - 1"
  let ?Q = "\<lambda>(v :: int) t. v = 0 \<and> vals 0 0 ?r t = sort (vals 0 0 ?r m) \<and> vals 1 0 ?r t = sort (vals 0 0 ?r m)"
  let ?rest = "pbind (threaded_quick_sort True 1 0 ?r) (\<lambda>_. normal_quick_sort 1 0 ?r)"
  have "wp (quick_sort True 0 0 ?r) (\<lambda>v. wp (if v = 1 then Ret 1 else copy_array [0..?r] ?rest) ?Q) m"
  proof (rule sortsD [OF quick_sorts [OF order.refl n(2)] m(1)])
    fix v :: int and t
    assume t: "rearranged 0 {0..?r} m t" "sorted_range 0 0 ?r t" "0 \<le> ?r \<longrightarrow> v = 0"
    have vt: "vals 0 0 ?r t = sort (vals 0 0 ?r m)" by (rule vals_sort [OF t(1,2)])
    have "wp (copy_array [0..?r] ?rest) ?Q t"
    proof (rule wp_copy_array)
      show "alloced 0 {0..?r} t" "alloced 1 {0..?r} t" using m alloced_rearranged [OF t(1)] by simp_all
      fix u
      assume u: "dom u = dom t" "\<forall>a. a \<notin> {1} \<times> {0..?r} \<longrightarrow> u a = t a" "\<forall>k. 0 \<le> k \<and> k \<le> ?r \<longrightarrow> at 1 u k = at 0 t k"
      have v0: "vals 0 0 ?r u = vals 0 0 ?r t" using u(2) by (simp add: vals_def)
      have v1: "vals 1 0 ?r u = vals 0 0 ?r t" using u(3) by (simp add: vals_def)
      have "alloced 1 {0..?r} t" using m(2) alloced_rearranged [OF t(1)] by simp
      then have a: "alloced 1 {0..?r} u" unfolding alloced_def using u(1) by (metis domIff)
      have "wp (threaded_quick_sort True 1 0 ?r) (\<lambda>_. wp (normal_quick_sort 1 0 ?r) ?Q) u"
      proof (rule sortsD [OF threaded_sorts [OF order.refl n(2)] a])
        fix x :: int and w
        assume w: "rearranged 1 {0..?r} u w" "sorted_range 1 0 ?r w"
        have aw: "alloced 1 {0..?r} w" using a alloced_rearranged [OF w(1)] by simp
        show "wp (normal_quick_sort 1 0 ?r) ?Q w"
        proof (rule sortsD [OF normal_sorts [OF order.refl n(2)] aw])
          fix y :: int and z
          assume z: "rearranged 1 {0..?r} w z" "sorted_range 1 0 ?r z" "0 \<le> ?r \<longrightarrow> y = 0"
          have "vals 0 0 ?r z = vals 0 0 ?r u"
            using rearranged_out [OF z(1), of "(0, _)"] rearranged_out [OF w(1), of "(0, _)"] by (simp add: vals_def)
          moreover have "vals 1 0 ?r z = sort (sort (vals 1 0 ?r u))"
            using vals_sort [OF z(1,2)] vals_sort [OF w] by simp
          ultimately show "?Q y z" using z(3) n(1) v0 v1 vt by (simp add: sorted_sort_id)
        qed
      qed
      then show "wp ?rest ?Q u" by simp
    qed
    then show "wp (if v = 1 then Ret 1 else copy_array [0..?r] ?rest) ?Q t" using t(3) n(1) by simp
  qed
  then show ?thesis by (simp add: runSorts_def)
qed

lemma foot_copy_array: "foot A p \<Longrightarrow> {0} \<times> set is \<subseteq> A \<Longrightarrow> {1} \<times> set is \<subseteq> A \<Longrightarrow> foot A (copy_array is p)"
  by (induction "is") auto

lemma foot_runSorts: "foot ({0, 1} \<times> {0..n - 1}) (runSorts True True n)"
proof -
  let ?A = "{0, 1} \<times> {0..n - 1}"
  have s: "{0} \<times> {0..n - 1} \<subseteq> ?A" "{1} \<times> {0..n - 1} \<subseteq> ?A" by auto
  have q: "foot ?A (quick_sort True 0 0 (n - 1))" "foot ?A (threaded_quick_sort True 1 0 (n - 1))"
    "foot ?A (normal_quick_sort 1 0 (n - 1))"
    using foot_mono [OF foot_quick [OF order.refl] s(1)] foot_mono [OF foot_threaded [OF order.refl] s(2)]
      foot_mono [OF foot_normal [OF order.refl] s(2)] by simp_all
  then show ?thesis
    unfolding runSorts_def by (auto intro!: foot_pbind foot_copy_array)
qed

text \<open>With nothing to sort the program exits inside the first sort and prints nothing.\<close>

lemma runSorts_empty: "runSorts forks creates 0 = Ret 1"
  by (simp add: runSorts_def quick_sort.simps)

section \<open>Properties\<close>

text \<open>C30: the sort with a thread for each half, in every interleaving of the single memory accesses of
  all the threads and for every value of rand: no access leaves the array, no run is infinite, a run
  that can go no further has returned, and then the range holds its old elements in ascending order
  and nothing else has changed.\<close>

theorem threaded_sort_total:
  assumes "0 \<le> l" and "2 * r \<le> INT_MAX" and "alloced arr {l..r} m"
    and "steps (threaded_quick_sort True arr l r) m p t"
  shows "((\<exists>v. p = Ret v \<and> vals arr l r t = sort (vals arr l r m) \<and> (\<forall>a. a \<notin> {arr} \<times> {l..r} \<longrightarrow> t a = m a)) \<or>
      (\<exists>p' t'. step p t p' t')) \<and>
    \<not> (\<exists>ps ms. ps 0 = threaded_quick_sort True arr l r \<and> (\<forall>i. step (ps i) (ms i) (ps (Suc i)) (ms (Suc i))))"
proof -
  have "wp (threaded_quick_sort True arr l r)
      (\<lambda>v t. vals arr l r t = sort (vals arr l r m) \<and> (\<forall>a. a \<notin> {arr} \<times> {l..r} \<longrightarrow> t a = m a)) m"
    by (rule sortsD [OF threaded_sorts [OF assms(1,2)] assms(3)]) (intro conjI allI impI vals_sort rearranged_out)
  from steps_outcome [OF assms(4) foot_threaded [OF assms(1)] this] no_infinite_run show ?thesis by blast
qed

theorem threaded_sort_total_witness:
  "\<exists>p t. steps (threaded_quick_sort True 0 0 0) [(0, 0) \<mapsto> 7] p t \<and> (\<exists>v. p = Ret v \<and> vals 0 0 0 t = [7])"
proof -
  have s: "steps (threaded_quick_sort True 0 0 0) [(0, 0) \<mapsto> 7] (Ret 0) [(0, 0) \<mapsto> 7]"
    by (simp add: threaded_quick_sort.simps steps.here)
  have "alloced 0 {0..0} [(0, 0) \<mapsto> 7]" by (simp add: alloced_def)
  then have "vals 0 0 0 [(0, 0) \<mapsto> 7] = sort (vals 0 0 0 [(0, 0) \<mapsto> 7])"
    using threaded_sort_total [OF _ _ _ s] by (auto simp: INT_MAX_def elim: step_RetE)
  then have "vals 0 0 0 [(0, 0) \<mapsto> 7] = [7]" by (simp add: vals_def)
  then show ?thesis using s by blast
qed

text \<open>C31: the whole program on at least one number, with processes and threads interleaved in any way:
  it ends with result 0, and both arrays hold the input in ascending order.\<close>

theorem runSorts_correct:
  assumes "1 \<le> n" and "2 * (n - 1) \<le> INT_MAX" and "alloced 0 {0..n - 1} m" and "alloced 1 {0..n - 1} m"
    and "steps (runSorts True True n) m p t"
  shows "(\<exists>p' t'. step p t p' t') \<or>
    (p = Ret 0 \<and> vals 0 0 (n - 1) t = sort (vals 0 0 (n - 1) m) \<and> vals 1 0 (n - 1) t = sort (vals 0 0 (n - 1) m))"
  using steps_outcome [OF assms(5) foot_runSorts wp_runSorts [OF assms(1-4)]] by blast

theorem runSorts_correct_witness:
  "\<exists>p t. steps (runSorts True True 1) [(0, 0) \<mapsto> 7, (1, 0) \<mapsto> 0] p t \<and> p = Ret 0 \<and> vals 1 0 0 t = [7]"
proof -
  let ?m = "[(0, 0) \<mapsto> 7, (1, 0) \<mapsto> 0] :: mem"
  have e: "runSorts True True 1 = Rd (0, 0) (\<lambda>x. Wr (1, 0) x (Ret 0))"
    by (simp add: runSorts_def quick_sort.simps threaded_quick_sort.simps normal_quick_sort.simps)
  have "step (Rd (0, 0) (\<lambda>x. Wr (1, 0) x (Ret 0))) ?m (Wr (1, 0) 7 (Ret 0)) ?m"
    using step.rd [of ?m "(0, 0)" 7 "\<lambda>x. Wr (1, 0) x (Ret 0)"] by simp
  moreover have "step (Wr (1, 0) 7 (Ret 0)) ?m (Ret 0) (?m((1, 0) \<mapsto> 7))" by (rule step.wr) simp
  ultimately have s: "steps (runSorts True True 1) ?m (Ret 0) (?m((1, 0) \<mapsto> 7))"
    unfolding e by (intro steps.more [OF steps.more [OF steps.here]])
  have "alloced 0 {0..1 - 1} ?m" "alloced 1 {0..1 - 1} ?m" by (simp_all add: alloced_def)
  from runSorts_correct [OF _ _ this s] s show ?thesis
    by (auto simp: INT_MAX_def vals_def elim!: step_RetE)
qed

end
