(* ===== verification/Strings.thy ===== *)
theory Strings
  imports Prelude
begin

text \<open>
  The string and memory routines of the kernel (string.c) and of the user library (ulib.c), and the
  number formatting of printf.c. A pointer into a buffer is the list of the characters from there
  to the end of the buffer; running off the end is \<open>None\<close>. The copying routines work on an address
  space, because their arguments may overlap.
\<close>

definition NUL :: char where "NUL = CHR 0x00"

lemma NUL_simps [simp]: "NUL \<noteq> CHR ''a''" "CHR ''a'' \<noteq> NUL" "of_char NUL = (0 :: nat)" "of_char NUL = (0 :: int)"
  by (simp_all add: NUL_def)

definition c_string :: "string \<Rightarrow> bool" where
  "c_string s \<longleftrightarrow> NUL \<notin> set s"

section \<open>Strings\<close>

fun strlen :: "string \<Rightarrow> nat option" where
  "strlen [] = None"
| "strlen (c # s) = (if c = NUL then Some 0 else map_option Suc (strlen s))"

fun strcmp :: "string \<Rightarrow> string \<Rightarrow> int option" where
  "strcmp (p # ps) (q # qs) = (if p \<noteq> NUL \<and> p = q then strcmp ps qs else Some (of_char p - of_char q))"
| "strcmp _ _ = None"

fun strncmp :: "string \<Rightarrow> string \<Rightarrow> nat \<Rightarrow> int option" where
  "strncmp ps qs 0 = Some 0"
| "strncmp (p # ps) (q # qs) (Suc n) = (if p \<noteq> NUL \<and> p = q then strncmp ps qs n else Some (of_char p - of_char q))"
| "strncmp _ _ (Suc n) = None"

fun strchr :: "string \<Rightarrow> char \<Rightarrow> string option option" where
  "strchr [] c = None"
| "strchr (x # s) c = (if x = NUL then Some None else if x = c then Some (Some (x # s)) else strchr s c)"

text \<open>The copies return the buffer \<open>s\<close> after them.\<close>

fun strcpy :: "string \<Rightarrow> string \<Rightarrow> string option" where
  "strcpy (x # s) (c # t) = (if c = NUL then Some (c # s) else map_option ((#) c) (strcpy s t))"
| "strcpy _ _ = None"

fun nul_fill :: "string \<Rightarrow> nat \<Rightarrow> string option" where
  "nul_fill s 0 = Some s"
| "nul_fill [] (Suc n) = None"
| "nul_fill (x # s) (Suc n) = map_option ((#) NUL) (nul_fill s n)"

fun strncpy :: "string \<Rightarrow> string \<Rightarrow> nat \<Rightarrow> string option" where
  "strncpy s t 0 = Some s"
| "strncpy (x # s) (c # t) (Suc n) =
     map_option ((#) c) (if c = NUL then nul_fill s n else strncpy s t n)"
| "strncpy _ _ (Suc n) = None"

fun safestrcpy_loop :: "string \<Rightarrow> string \<Rightarrow> nat \<Rightarrow> string option" where
  "safestrcpy_loop (x # s) t 0 = Some (NUL # s)"
| "safestrcpy_loop (x # s) (c # t) (Suc n) =
     (if c = NUL then (case s of [] \<Rightarrow> None | y # s' \<Rightarrow> Some (c # NUL # s'))
      else map_option ((#) c) (safestrcpy_loop s t n))"
| "safestrcpy_loop _ _ _ = None"

definition safestrcpy :: "string \<Rightarrow> string \<Rightarrow> int \<Rightarrow> string option" where
  "safestrcpy s t n = (if n \<le> 0 then Some s else safestrcpy_loop s t (nat n - 1))"

definition is_digit :: "char \<Rightarrow> bool" where
  "is_digit c \<longleftrightarrow> (48 :: nat) \<le> of_char c \<and> of_char c \<le> (57 :: nat)"

fun atoi_loop :: "uint \<Rightarrow> string \<Rightarrow> uint option" where
  "atoi_loop n [] = None"
| "atoi_loop n (c # s) = (if is_digit c then atoi_loop (n * 10 + of_char c - 48) s else Some n)"

definition atoi :: "string \<Rightarrow> int option" where
  "atoi s = map_option sint (atoi_loop 0 s)"

text \<open>
  gets on the input still to come; it returns the line, to be followed by a NUL in the buffer, and the
  rest of the input.
\<close>

fun gets_loop :: "nat \<Rightarrow> string \<Rightarrow> string \<times> string" where
  "gets_loop 0 input = ([], input)"
| "gets_loop (Suc room) [] = ([], [])"
| "gets_loop (Suc room) (c # input) =
     (if c = CHR 0x0A \<or> c = CHR 0x0D then ([c], input)
      else let (line, rest) = gets_loop room input in (c # line, rest))"

definition gets :: "nat \<Rightarrow> string \<Rightarrow> string \<times> string" where
  "gets nbuf input = gets_loop (nbuf - 1) input"

section \<open>Memory\<close>

type_synonym 'b memory = "nat \<Rightarrow> 'b"

fun stosb :: "nat \<Rightarrow> 'b \<Rightarrow> nat \<Rightarrow> 'b memory \<Rightarrow> 'b memory" where
  "stosb dst c 0 m = m"
| "stosb dst c (Suc n) m = stosb (dst + 1) c n (m(dst := c))"

text \<open>One long is four equal bytes here, so the byte order does not matter.\<close>

fun stosl :: "nat \<Rightarrow> 'b \<Rightarrow> nat \<Rightarrow> 'b memory \<Rightarrow> 'b memory" where
  "stosl dst c 0 m = m"
| "stosl dst c (Suc n) m = stosl (dst + 4) c n (m(dst := c, dst + 1 := c, dst + 2 := c, dst + 3 := c))"

definition memset :: "nat \<Rightarrow> 'b \<Rightarrow> nat \<Rightarrow> 'b memory \<Rightarrow> 'b memory" where
  "memset dst c n m = (if dst mod 4 = 0 \<and> n mod 4 = 0 then stosl dst c (n div 4) m else stosb dst c n m)"

fun memcmp :: "uchar memory \<Rightarrow> nat \<Rightarrow> nat \<Rightarrow> nat \<Rightarrow> int" where
  "memcmp m s1 s2 0 = 0"
| "memcmp m s1 s2 (Suc n) = (if m s1 \<noteq> m s2 then uint (m s1) - uint (m s2) else memcmp m (s1 + 1) (s2 + 1) n)"

fun copy_up :: "nat \<Rightarrow> nat \<Rightarrow> nat \<Rightarrow> 'b memory \<Rightarrow> 'b memory" where
  "copy_up d s 0 m = m"
| "copy_up d s (Suc n) m = copy_up (d + 1) (s + 1) n (m(d := m s))"

text \<open>\<open>copy_down\<close> is given the ends of the two ranges.\<close>

fun copy_down :: "nat \<Rightarrow> nat \<Rightarrow> nat \<Rightarrow> 'b memory \<Rightarrow> 'b memory" where
  "copy_down d s 0 m = m"
| "copy_down d s (Suc n) m = copy_down (d - 1) (s - 1) n (m(d - 1 := m (s - 1)))"

definition memmove :: "nat \<Rightarrow> nat \<Rightarrow> nat \<Rightarrow> 'b memory \<Rightarrow> 'b memory" where
  "memmove dst src n m =
     (if src < dst \<and> src + n > dst then copy_down (dst + n) (src + n) n m else copy_up dst src n m)"

text \<open>The memmove of ulib.c only copies upwards.\<close>

definition ulib_memmove :: "nat \<Rightarrow> nat \<Rightarrow> int \<Rightarrow> 'b memory \<Rightarrow> 'b memory" where
  "ulib_memmove dst src n m = copy_up dst src (nat n) m"

section \<open>printf.c\<close>

definition digits :: string where "digits = ''0123456789ABCDEF''"

text \<open>The digits in the order of the buffer, least significant first.\<close>

function printint_loop :: "nat \<Rightarrow> nat \<Rightarrow> string" where
  "printint_loop base x = digits ! (x mod base) # (if base \<le> 1 \<or> x div base = 0 then [] else printint_loop base (x div base))"
  by pat_completeness auto
termination
  by (relation "measure snd") (auto simp: div_greater_zero_iff intro!: div_less_dividend)

declare printint_loop.simps [simp del]

definition printint_buf :: "uint \<Rightarrow> nat \<Rightarrow> bool \<Rightarrow> string" where
  "printint_buf xx base sg =
     (let neg = sg \<and> sint xx < 0; x = (if neg then - xx else xx);
          b = printint_loop base (unat x)
      in if neg then b @ ''-'' else b)"

definition printint :: "uint \<Rightarrow> nat \<Rightarrow> bool \<Rightarrow> string" where
  "printint xx base sg = rev (printint_buf xx base sg)"

text \<open>
  The arguments of printf are the words after the format; \<open>str\<close> reads the string an argument points
  to. Running out of arguments is \<open>None\<close>.
\<close>

fun printf_loop :: "(uint \<Rightarrow> string) \<Rightarrow> bool \<Rightarrow> string \<Rightarrow> uint list \<Rightarrow> string option" where
  "printf_loop str pct [] ap = Some []"
| "printf_loop str False (c # fmt) ap =
     (if c = CHR ''%'' then printf_loop str True fmt ap else map_option ((#) c) (printf_loop str False fmt ap))"
| "printf_loop str True (c # fmt) ap =
     (if c = CHR ''%'' then map_option ((#) c) (printf_loop str False fmt ap)
      else if c \<in> set ''dxpsc'' then
        (case ap of [] \<Rightarrow> None
         | a # ap \<Rightarrow> map_option ((@)
             (if c = CHR ''d'' then printint a 10 True
              else if c = CHR ''x'' \<or> c = CHR ''p'' then printint a 16 False
              else if c = CHR ''s'' then (if a = 0 then ''(null)'' else str a)
              else [char_of (unat a)])) (printf_loop str False fmt ap))
      else map_option ((@) [CHR ''%'', c]) (printf_loop str False fmt ap))"

definition printf :: "(uint \<Rightarrow> string) \<Rightarrow> string \<Rightarrow> uint list \<Rightarrow> string option" where
  "printf str fmt ap = printf_loop str False fmt ap"

section \<open>Facts\<close>

lemma strlen_append [simp]: "c_string s \<Longrightarrow> strlen (s @ NUL # r) = Some (length s)"
  by (induction s) (auto simp: c_string_def)

lemma copy_up_spec:
  "\<not> (s < d \<and> d < s + n) \<Longrightarrow> copy_up d s n m a = (if d \<le> a \<and> a < d + n then m (s + (a - d)) else m a)"
proof (induction n arbitrary: d s m)
  case (Suc n)
  let ?m = "m(d := m s)"
  have "copy_up d s (Suc n) m a = (if d + 1 \<le> a \<and> a < d + 1 + n then ?m (s + 1 + (a - (d + 1))) else ?m a)"
    unfolding copy_up.simps by (rule Suc.IH) (use Suc.prems in auto)
  moreover have "?m (s + 1 + (a - (d + 1))) = m (s + (a - d))" if "d + 1 \<le> a" "a < d + 1 + n"
  proof -
    have "s + 1 + (a - (d + 1)) = s + (a - d)" using that by simp
    then show ?thesis using that Suc.prems by auto
  qed
  ultimately show ?case by auto
qed auto

lemma copy_down_spec:
  "s \<le> d \<Longrightarrow> n \<le> s \<Longrightarrow> copy_down d s n m a = (if d - n \<le> a \<and> a < d then m (s - (d - a)) else m a)"
proof (induction n arbitrary: d s m)
  case (Suc n)
  let ?m = "m(d - 1 := m (s - 1))"
  have "copy_down d s (Suc n) m a = (if d - 1 - n \<le> a \<and> a < d - 1 then ?m (s - 1 - (d - 1 - a)) else ?m a)"
    unfolding copy_down.simps by (rule Suc.IH) (use Suc.prems in auto)
  moreover have "?m (s - 1 - (d - 1 - a)) = m (s - (d - a))" if "d - 1 - n \<le> a" "a < d - 1"
    using that Suc.prems by auto
  ultimately show ?case using Suc.prems by auto
qed auto

lemma stosb_spec: "stosb d c n m = (\<lambda>a. if d \<le> a \<and> a < d + n then c else m a)"
  by (induction n arbitrary: d m) (auto simp: fun_eq_iff)

lemma stosl_spec: "stosl d c n m = (\<lambda>a. if d \<le> a \<and> a < d + 4 * n then c else m a)"
  by (induction n arbitrary: d m) (auto simp: fun_eq_iff)

lemma memset_spec: "memset d c n m = (\<lambda>a. if d \<le> a \<and> a < d + n then c else m a)"
proof -
  have "4 * (n div 4) = n" if "n mod 4 = 0" using that by auto
  then show ?thesis by (simp add: memset_def stosb_spec stosl_spec)
qed

text \<open>Numbers and their digits.\<close>

definition digit_val :: "char \<Rightarrow> nat" where
  "digit_val c = (if is_digit c then of_char c - 48 else of_char c - 55)"

fun value_of :: "nat \<Rightarrow> string \<Rightarrow> nat" where
  "value_of base [] = 0"
| "value_of base (c # s) = digit_val c + base * value_of base s"

lemma digits_val: "x < 16 \<Longrightarrow> digit_val (digits ! x) = x"
  by (auto simp: digits_def digit_val_def is_digit_def less_Suc_eq numeral_eq_Suc nth_Cons')

lemma digits_decimal: "x < 10 \<Longrightarrow> is_digit (digits ! x)"
  by (auto simp: digits_def is_digit_def less_Suc_eq numeral_eq_Suc nth_Cons')

lemma printint_loop_value: "2 \<le> base \<Longrightarrow> base \<le> 16 \<Longrightarrow> value_of base (printint_loop base x) = x"
proof (induction x rule: less_induct)
  case (less x)
  show ?case
  proof (cases "x div base = 0")
    case True
    then have "x < base" using less.prems by (simp add: div_eq_0_iff)
    then show ?thesis using less.prems True by (simp add: printint_loop.simps [of base x] digits_val)
  next
    case False
    then have "x \<noteq> 0" by (metis div_0)
    then have "x div base < x" using less.prems by (intro div_less_dividend) auto
    moreover have "x mod base < 16" using less.prems mod_less_divisor [of base x] by linarith
    ultimately show ?thesis
      using less False by (simp add: printint_loop.simps [of base x] digits_val)
  qed
qed

lemma printint_loop_length: "2 \<le> base \<Longrightarrow> x < base ^ Suc k \<Longrightarrow> length (printint_loop base x) \<le> Suc k"
proof (induction k arbitrary: x)
  case 0
  then show ?case by (simp add: printint_loop.simps [of base x])
next
  case (Suc k)
  then have "x div base < base ^ Suc k" by (simp add: div_less_iff_less_mult mult.commute)
  then show ?case using Suc by (simp add: printint_loop.simps [of base x])
qed

lemma printint_loop_decimal: "\<forall>c\<in>set (printint_loop 10 x). is_digit c"
proof (induction x rule: less_induct)
  case (less x)
  show ?case
  proof (cases "x div 10 = 0")
    case False
    then have "x div 10 < x" by (intro div_less_dividend) auto
    then show ?thesis using less by (simp add: printint_loop.simps [of 10 x] digits_decimal)
  qed (simp add: printint_loop.simps [of 10 x] digits_decimal)
qed

lemma atoi_loop_value:
  "\<forall>c\<in>set s. is_digit c \<Longrightarrow> \<not> is_digit t \<Longrightarrow>
   atoi_loop n (s @ t # r) = Some (n * 10 ^ length s + of_nat (value_of 10 (rev s)))"
proof (induction s arbitrary: n)
  case (Cons c s)
  have v: "value_of 10 (xs @ [c]) = value_of 10 xs + 10 ^ length xs * digit_val c" for xs
    by (induction xs) (auto simp: algebra_simps)
  have d: "(of_char c :: uint) - 48 = of_nat (digit_val c)"
  proof -
    have "(of_char c :: uint) = of_nat (of_char c)" by (simp only: of_nat_of_char)
    then show ?thesis using Cons.prems(1) by (simp only:) (simp add: digit_val_def is_digit_def of_nat_diff del: of_nat_of_char)
  qed
  have "atoi_loop n ((c # s) @ t # r) = atoi_loop (n * 10 + of_char c - 48) (s @ t # r)" using Cons.prems by simp
  also have "\<dots> = Some ((n * 10 + of_char c - 48) * 10 ^ length s + of_nat (value_of 10 (rev s)))"
    using Cons.prems by (intro Cons.IH) auto
  also have "n * 10 + of_char c - 48 = n * 10 + of_nat (digit_val c)" using d by (simp add: algebra_simps)
  finally show ?case by (simp add: v algebra_simps)
qed simp

section \<open>Properties\<close>

text \<open>Memmove of the kernel copies \<open>n\<close> bytes however the two ranges overlap, and nothing else
  changes. The memmove of the user library agrees with it unless the destination begins inside the
  source; there it is wrong: it smears the first byte.\<close>

theorem memmove_overlap:
  "memmove d s n m a = (if d \<le> a \<and> a < d + n then m (s + (a - d)) else m a) \<and>
   (\<not> (s < d \<and> d < s + n) \<longrightarrow> ulib_memmove d s (int n) m a = memmove d s n m a) \<and>
   ulib_memmove (s + 1) s 2 m (s + 2) = m s"
proof -
  have "memmove d s n m a = (if d \<le> a \<and> a < d + n then m (s + (a - d)) else m a)"
  proof (cases "s < d \<and> s + n > d")
    case True
    have "copy_down (d + n) (s + n) n m a = (if d \<le> a \<and> a < d + n then m (s + n - (d + n - a)) else m a)"
      using copy_down_spec [of "s + n" "d + n" n m a] True by simp
    moreover have "s + n - (d + n - a) = s + (a - d)" if "d \<le> a" "a < d + n" using that by simp
    ultimately show ?thesis using True by (simp add: memmove_def)
  next
    case False
    then have "memmove d s n m = copy_up d s n m" by (auto simp: memmove_def)
    moreover have "\<not> (s < d \<and> d < s + n)" using False by simp
    ultimately show ?thesis using copy_up_spec [of s d n m a] by metis
  qed
  moreover have "\<not> (s < d \<and> d < s + n) \<longrightarrow> ulib_memmove d s (int n) m a = memmove d s n m a"
    by (auto simp: ulib_memmove_def memmove_def)
  moreover have "ulib_memmove (s + 1) s 2 m (s + 2) = m s"
    by (simp add: ulib_memmove_def numeral_eq_Suc)
  ultimately show ?thesis by blast
qed

theorem memmove_overlap_witness:
  "memmove 5 3 4 (\<lambda>a. a) 6 = (4 :: nat) \<and> ulib_memmove 3 5 4 (\<lambda>a. a) 6 = memmove 3 5 4 (\<lambda>a. a :: nat) 6"
  using memmove_overlap [of 5 3 4 "\<lambda>a. a" 6] memmove_overlap [of 3 5 4 "\<lambda>a. a" 6] by simp

text \<open>Printing numbers. The characters printint collects always fit its buffer of 16 (at most eleven
  in base 10 and eight in base 16), and atoi reads a printed decimal number that is not negative back.\<close>

theorem printint_bounds:
  "length (printint_buf xx 10 sg) \<le> 11 \<and> length (printint_buf xx 16 False) \<le> 8 \<and>
   (0 \<le> sint xx \<longrightarrow> atoi (printint xx 10 sg @ [NUL]) = Some (sint xx))"
proof -
  have x: "unat y < 10 ^ Suc 9" "unat y < 16 ^ Suc 7" for y :: uint
    using unat_uint_bound [of y] by simp_all
  have l: "length (printint_loop 10 (unat y)) < 11" for y :: uint
    using printint_loop_length [OF _ x(1), of y] by simp
  have "length (printint_buf xx 10 sg) \<le> 11"
    using l [of xx] l [of "- xx"] by (simp add: printint_buf_def Let_def less_imp_le)
  moreover have "length (printint_buf xx 16 False) \<le> 8"
    using printint_loop_length [OF _ x(2), of xx] by (simp add: printint_buf_def Let_def)
  moreover have "atoi (printint xx 10 sg @ [NUL]) = Some (sint xx)" if "0 \<le> sint xx"
  proof -
    have "printint xx 10 sg = rev (printint_loop 10 (unat xx))"
      using that by (auto simp: printint_def printint_buf_def Let_def)
    moreover have "\<not> is_digit NUL" by (simp add: is_digit_def)
    moreover have "value_of 10 (printint_loop 10 (unat xx)) = unat xx" by (rule printint_loop_value) simp_all
    ultimately show ?thesis
      using atoi_loop_value [of "rev (printint_loop 10 (unat xx))" NUL 0 "[]"] printint_loop_decimal [of "unat xx"]
      by (simp add: atoi_def)
  qed
  ultimately show ?thesis by blast
qed

theorem printint_bounds_witness:
  "atoi (printint 2147483647 10 True @ [NUL]) = Some 2147483647 \<and> length (printint_buf (- 1) 16 False) \<le> 8"
  using printint_bounds [of 2147483647 True] printint_bounds [of "- 1" False] by simp

end
