(* ===== verification/Grep.thy ===== *)
theory Grep
  imports Strings
begin

text \<open>
  The text filters grep.c, wc.c and cat.c. Strings are lists of characters without the closing NUL.
  A file is read in pieces: \<open>ks i\<close> is the most that the \<open>i\<close>th read delivers, so that any
  behaviour of read on a pipe or a file is some \<open>ks\<close>.
\<close>

section \<open>The matcher of grep\<close>

function matchhere :: "string \<Rightarrow> string \<Rightarrow> bool" and matchstar :: "char \<Rightarrow> string \<Rightarrow> string \<Rightarrow> bool" where
  "matchhere re text =
     (case re of
        [] \<Rightarrow> True
      | c # re1 \<Rightarrow>
          if re1 \<noteq> [] \<and> hd re1 = CHR ''*'' then matchstar c (tl re1) text
          else if c = CHR ''$'' \<and> re1 = [] then text = []
          else (case text of [] \<Rightarrow> False | t # text1 \<Rightarrow> (c = CHR ''.'' \<or> c = t) \<and> matchhere re1 text1))"
| "matchstar c re text =
     (matchhere re text \<or>
      (case text of [] \<Rightarrow> False | t # text1 \<Rightarrow> (t = c \<or> c = CHR ''.'') \<and> matchstar c re text1))"
  by pat_completeness auto
termination
  by (relation "inv_image (less_than <*lex*> less_than <*lex*> less_than)
        (\<lambda>a. case a of Inl (re, text) \<Rightarrow> (length re, length text, 0 :: nat) | Inr (c, re, text) \<Rightarrow> (length re, length text, 1))")
    (auto simp: less_Suc_eq_le)

declare matchhere.simps [simp del] matchstar.simps [simp del]

fun match_loop :: "string \<Rightarrow> string \<Rightarrow> bool" where
  "match_loop re [] = matchhere re []"
| "match_loop re (t # text) = (matchhere re (t # text) \<or> match_loop re text)"

definition match :: "string \<Rightarrow> string \<Rightarrow> bool" where
  "match re text = (if re \<noteq> [] \<and> hd re = CHR ''^'' then matchhere (tl re) text else match_loop re text)"

section \<open>grep\<close>

text \<open>strchr(p, newline) in the buffer: the line before it and what follows, if a NUL does not come first.\<close>

fun split_line :: "string \<Rightarrow> (string \<times> string) option" where
  "split_line [] = None"
| "split_line (c # s) =
     (if c = NUL then None else if c = CHR 0x0A then Some ([], s)
      else map_option (\<lambda>(l, r). (c # l, r)) (split_line s))"

lemma split_line_length: "split_line s = Some (l, r) \<Longrightarrow> length r < length s"
  by (induction s arbitrary: l) (fastforce split: if_splits)+

text \<open>The inner loop: the lines that match, and what is left from \<open>p\<close> on.\<close>

function scan_lines :: "string \<Rightarrow> string \<Rightarrow> string \<times> string" where
  "scan_lines pattern p =
     (case split_line p of
        None \<Rightarrow> ([], p)
      | Some (l, r) \<Rightarrow> let (out, rest) = scan_lines pattern r
          in ((if match pattern l then l @ [CHR 0x0A] else []) @ out, rest))"
  by pat_completeness auto
termination
  by (relation "measure (length \<circ> snd)") (auto dest: split_line_length)

declare scan_lines.simps [simp del]

definition BUFSZ :: nat where "BUFSZ = 1024"

text \<open>The outer loop with \<open>buf\<close> filled up to \<open>m\<close>: when no newline is found the buffer is emptied.\<close>

definition read_size :: "(nat \<Rightarrow> nat) \<Rightarrow> nat \<Rightarrow> nat \<Rightarrow> nat" where
  "read_size ks i room = min room (max 1 (ks i))"

function grep_loop :: "string \<Rightarrow> (nat \<Rightarrow> nat) \<Rightarrow> nat \<Rightarrow> string \<Rightarrow> string \<Rightarrow> string" where
  "grep_loop pattern ks i buf input =
     (let n = read_size ks i (BUFSZ - length buf - 1) in
      if take n input = [] then []
      else let b = buf @ take n input; (out, p) = scan_lines pattern b;
               m = (if length p = length b then [] else p)
        in out @ grep_loop pattern ks (Suc i) m (drop n input))"
  by pat_completeness auto
termination
  by (relation "measure (\<lambda>(pattern, ks, i, buf, input). length input)") (auto simp: Let_def)

declare grep_loop.simps [simp del]

text \<open>main: standard output and standard error; \<open>file\<close> opens a file.\<close>

fun grep_files :: "(string \<Rightarrow> string option) \<Rightarrow> (nat \<Rightarrow> nat) \<Rightarrow> string \<Rightarrow> string list \<Rightarrow> string" where
  "grep_files file ks pattern [] = []"
| "grep_files file ks pattern (f # fs) =
     (case file f of
        None \<Rightarrow> ''grep: cannot open '' @ f @ [CHR 0x0A]
      | Some text \<Rightarrow> grep_loop pattern ks 0 [] text @ grep_files file ks pattern fs)"

definition grep_main :: "(string \<Rightarrow> string option) \<Rightarrow> (nat \<Rightarrow> nat) \<Rightarrow> string \<Rightarrow> string list \<Rightarrow> string \<times> string" where
  "grep_main file ks stdin argv =
     (if length argv \<le> 1 then ([], ''usage: grep pattern [file ...]'' @ [CHR 0x0A])
      else if length argv \<le> 2 then (grep_loop (argv ! 1) ks 0 [] stdin, [])
      else (grep_files file ks (argv ! 1) (drop 2 argv), []))"

section \<open>wc and cat\<close>

text \<open>The counts and the flag inword after each byte, carried across reads.\<close>

definition wc_byte :: "char \<Rightarrow> nat \<times> nat \<times> nat \<times> bool \<Rightarrow> nat \<times> nat \<times> nat \<times> bool" where
  "wc_byte x = (\<lambda>(l, w, c, inword).
     let c = c + 1; l = (if x = CHR 0x0A then l + 1 else l) in
     if x \<in> {CHR '' '', CHR 0x0D, CHR 0x09, CHR 0x0A, CHR 0x0B} then (l, w, c, False)
     else if \<not> inword then (l, w + 1, c, True) else (l, w, c, inword))"

function wc_loop :: "(nat \<Rightarrow> nat) \<Rightarrow> nat \<Rightarrow> string \<Rightarrow> nat \<times> nat \<times> nat \<times> bool \<Rightarrow> nat \<times> nat \<times> nat \<times> bool" where
  "wc_loop ks i input st =
     (let n = read_size ks i 512 in
      if take n input = [] then st
      else wc_loop ks (Suc i) (drop n input) (fold wc_byte (take n input) st))"
  by pat_completeness auto
termination
  by (relation "measure (\<lambda>(ks, i, input, st). length input)") (auto simp: Let_def)

definition wc :: "(nat \<Rightarrow> nat) \<Rightarrow> string \<Rightarrow> nat \<times> nat \<times> nat" where
  "wc ks input = (case wc_loop ks 0 input (0, 0, 0, False) of (l, w, c, inword) \<Rightarrow> (l, w, c))"

text \<open>cat; \<open>room\<close> is what write still accepts. The Boolean: no write error.\<close>

function cat_loop :: "(nat \<Rightarrow> nat) \<Rightarrow> nat \<Rightarrow> nat \<Rightarrow> string \<Rightarrow> string \<times> bool" where
  "cat_loop ks i room input =
     (let n = read_size ks i 512; chunk = take n input in
      if chunk = [] then ([], True)
      else if room < length chunk then (take room chunk @ ''cat: write error'' @ [CHR 0x0A], False)
      else let (out, ok) = cat_loop ks (Suc i) (room - length chunk) (drop n input) in (chunk @ out, ok))"
  by pat_completeness auto
termination
  by (relation "measure (\<lambda>(ks, i, room, input). length input)") (auto simp: Let_def)

declare wc_loop.simps [simp del] cat_loop.simps [simp del]

section \<open>The language of a pattern\<close>

text \<open>A pattern is a list of items, single or starred, and whether a dollar anchors its end.\<close>

datatype item = One char | Star char

function items :: "string \<Rightarrow> item list \<times> bool" where
  "items re =
     (case re of
        [] \<Rightarrow> ([], False)
      | c # re1 \<Rightarrow>
          if re1 \<noteq> [] \<and> hd re1 = CHR ''*'' then apfst ((#) (Star c)) (items (tl re1))
          else if c = CHR ''$'' \<and> re1 = [] then ([], True)
          else apfst ((#) (One c)) (items re1))"
  by pat_completeness auto
termination
  by (relation "measure length") (auto simp: less_Suc_eq_le)

declare items.simps [simp del]

definition accepts :: "char \<Rightarrow> char \<Rightarrow> bool" where
  "accepts c t \<longleftrightarrow> c = CHR ''.'' \<or> c = t"

inductive denotes :: "item list \<Rightarrow> string \<Rightarrow> bool" where
  empty: "denotes [] []"
| one: "accepts c t \<Longrightarrow> denotes its w \<Longrightarrow> denotes (One c # its) (t # w)"
| none: "denotes its w \<Longrightarrow> denotes (Star c # its) w"
| more: "accepts c t \<Longrightarrow> denotes (Star c # its) w \<Longrightarrow> denotes (Star c # its) (t # w)"

inductive_simps denotes_Nil [simp]: "denotes [] w"
inductive_simps denotes_One: "denotes (One c # its) w"
inductive_simps denotes_Star: "denotes (Star c # its) w"

definition prefix_match :: "item list \<times> bool \<Rightarrow> string \<Rightarrow> bool" where
  "prefix_match p text \<longleftrightarrow> (\<exists>u v. text = u @ v \<and> denotes (fst p) u \<and> (snd p \<longrightarrow> v = []))"

lemma prefix_match_One:
  "prefix_match (One c # its, e) text \<longleftrightarrow> (case text of [] \<Rightarrow> False | t # text1 \<Rightarrow> accepts c t \<and> prefix_match (its, e) text1)"
  by (cases "text") (auto simp: prefix_match_def denotes_One Cons_eq_append_conv)

lemma prefix_match_Star:
  "prefix_match (Star c # its, e) text \<longleftrightarrow> prefix_match (its, e) text \<or>
    (case text of [] \<Rightarrow> False | t # text1 \<Rightarrow> accepts c t \<and> prefix_match (Star c # its, e) text1)" (is "?l \<longleftrightarrow> ?r")
proof
  assume ?l
  then obtain u v where uv: "text = u @ v" "denotes (Star c # its) u" "e \<longrightarrow> v = []" by (auto simp: prefix_match_def)
  from uv(2) consider "denotes its u" | t w where "u = t # w" "accepts c t" "denotes (Star c # its) w"
    by (auto simp: denotes_Star [of c its u])
  then show ?r by cases (use uv in \<open>auto simp: prefix_match_def\<close>)
next
  assume ?r
  then consider "prefix_match (its, e) text"
    | t w where "text = t # w" "accepts c t" "prefix_match (Star c # its, e) w"
    by (auto split: list.splits)
  then show ?l
  proof cases
    case 1
    then show ?thesis by (auto simp: prefix_match_def intro: denotes.none)
  next
    case 2
    then obtain u v where uv: "w = u @ v" "denotes (Star c # its) u" "e \<longrightarrow> v = []" by (auto simp: prefix_match_def)
    have "text = (t # u) @ v" "denotes (Star c # its) (t # u)" using uv 2 by (auto intro: denotes.more)
    then show ?thesis using uv(3) unfolding prefix_match_def by (metis fst_conv snd_conv)
  qed
qed

lemma matchhere_iff: "matchhere re text \<longleftrightarrow> prefix_match (items re) text"
  and matchstar_iff: "matchstar c re text \<longleftrightarrow> prefix_match (apfst ((#) (Star c)) (items re)) text"
proof (induction re "text" and c re "text" rule: matchhere_matchstar.induct)
  case (1 re "text")
  show ?case
  proof (cases re)
    case Nil
    then show ?thesis by (simp add: matchhere.simps [of "[]" "text"] items.simps [of "[]"] prefix_match_def)
  next
    case (Cons c re1)
    obtain is1 e1 where i: "items re1 = (is1, e1)" by fastforce
    consider "re1 \<noteq> [] \<and> hd re1 = CHR ''*''" | "\<not> (re1 \<noteq> [] \<and> hd re1 = CHR ''*'')" "c = CHR ''$'' \<and> re1 = []"
      | "\<not> (re1 \<noteq> [] \<and> hd re1 = CHR ''*'')" "\<not> (c = CHR ''$'' \<and> re1 = [])" by blast
    then show ?thesis
    proof cases
      case 1
      then show ?thesis using "1.IH"(1) [OF Cons] by (simp add: matchhere.simps [of "c # re1"] items.simps [of "c # re1"] Cons)
    next
      case 2
      then show ?thesis
        by (simp add: matchhere.simps [of "''$''"] items.simps [of "''$''"] Cons prefix_match_def)
    next
      case 3
      have "matchhere re text = (case text of [] \<Rightarrow> False | t # text1 \<Rightarrow> (c = CHR ''.'' \<or> c = t) \<and> matchhere re1 text1)"
        unfolding Cons matchhere.simps [of "c # re1" "text"] list.case if_not_P [OF 3(1)] if_not_P [OF 3(2)] ..
      also have "\<dots> = (case text of [] \<Rightarrow> False | t # text1 \<Rightarrow> (c = CHR ''.'' \<or> c = t) \<and> prefix_match (items re1) text1)"
        using "1.IH"(2) [OF Cons 3] by (cases "text") auto
      also have "\<dots> = prefix_match (items re) text"
        unfolding Cons items.simps [of "c # re1"] list.case if_not_P [OF 3(1)] if_not_P [OF 3(2)]
        by (simp add: i prefix_match_One accepts_def split: list.split)
      finally show ?thesis .
    qed
  qed
next
  case (2 c re "text")
  obtain is1 e1 where i: "items re = (is1, e1)" by fastforce
  have "matchstar c re text = (prefix_match (items re) text \<or>
      (case text of [] \<Rightarrow> False | t # text1 \<Rightarrow> (t = c \<or> c = CHR ''.'') \<and> prefix_match (apfst ((#) (Star c)) (items re)) text1))"
    unfolding matchstar.simps [of c re "text"] using 2 by (cases "text") simp_all
  then show ?case
    unfolding i apfst_conv prefix_match_Star [of c is1 e1 "text"]
    by (cases "text") (auto simp: accepts_def)
qed

lemma match_loop_iff: "match_loop re text \<longleftrightarrow> (\<exists>x y. text = x @ y \<and> matchhere re y)"
proof (induction "text")
  case (Cons t "text")
  have "(\<exists>x y. t # text = x @ y \<and> matchhere re y) \<longleftrightarrow> matchhere re (t # text) \<or> (\<exists>x y. text = x @ y \<and> matchhere re y)"
    by (auto simp: Cons_eq_append_conv)
  then show ?case using Cons by simp
qed simp

section \<open>Lines\<close>

definition newline :: char where "newline = CHR 0x0A"

fun complete_lines :: "string \<Rightarrow> string list" where
  "complete_lines [] = []"
| "complete_lines (c # s) =
     (if c = newline then [] # complete_lines s
      else if newline \<in> set s then (case complete_lines s of [] \<Rightarrow> [] | l # ls \<Rightarrow> (c # l) # ls)
      else [])"

definition matching :: "string \<Rightarrow> string \<Rightarrow> string" where
  "matching pattern text = concat (map (\<lambda>l. if match pattern l then l @ [newline] else []) (complete_lines text))"

lemma complete_lines_none: "newline \<notin> set s \<Longrightarrow> complete_lines s = []"
  by (induction s) auto

lemma complete_lines_append:
  "newline \<notin> set l \<Longrightarrow> complete_lines (l @ newline # r) = l # complete_lines r"
  by (induction l) auto

lemma split_line_Some: "split_line p = Some (l, r) \<Longrightarrow> p = l @ newline # r \<and> newline \<notin> set l"
  by (induction p arbitrary: l) (auto simp: newline_def split: if_splits)

lemma split_line_None: "c_string p \<Longrightarrow> split_line p = None \<longleftrightarrow> newline \<notin> set p"
  by (induction p) (auto simp: newline_def c_string_def)

lemma scan_lines_spec:
  "c_string p \<Longrightarrow> scan_lines pattern p = (out, rest) \<Longrightarrow>
   newline \<notin> set rest \<and> (\<exists>q. p = q @ rest \<and> (q = [] \<longrightarrow> newline \<notin> set p) \<and>
     (\<forall>t. matching pattern (p @ t) = out @ matching pattern (rest @ t)))"
proof (induction pattern p arbitrary: out rest rule: scan_lines.induct)
  case (1 pattern p)
  show ?case
  proof (cases "split_line p")
    case None
    then have "out = []" "rest = p" using 1(3) by (simp_all add: scan_lines.simps [of pattern p])
    then show ?thesis using None split_line_None [OF 1(2)] by simp
  next
    case (Some lr)
    obtain l r where lr: "lr = (l, r)" by fastforce
    note p = split_line_Some [OF Some [unfolded lr]]
    obtain out' where o: "scan_lines pattern r = (out', rest)"
      "out = (if match pattern l then l @ [newline] else []) @ out'"
      using 1(3) Some lr by (cases "scan_lines pattern r") (auto simp: scan_lines.simps [of pattern p] newline_def)
    have c: "c_string r" using 1(2) p by (auto simp: c_string_def)
    obtain q where q: "newline \<notin> set rest" "r = q @ rest"
      "\<forall>t. matching pattern (r @ t) = out' @ matching pattern (rest @ t)"
      using "1.IH" [OF Some lr [symmetric] c o(1)] by blast
    have "p = (l @ newline # q) @ rest" using p q(2) by simp
    moreover have "matching pattern (p @ t) = out @ matching pattern (rest @ t)" for t
      using complete_lines_append [of l "r @ t"] p q(3) o(2) by (simp add: matching_def)
    ultimately show ?thesis using q(1) by blast
  qed
qed

section \<open>Reading in full\<close>

text \<open>
  \<open>short_lines s\<close>: no stretch of \<open>BUFSZ - 1\<close> characters is without a newline.
\<close>

definition short_lines :: "string \<Rightarrow> bool" where
  "short_lines s \<longleftrightarrow> (\<forall>u v w. s = u @ v @ w \<and> length v = BUFSZ - 1 \<longrightarrow> newline \<in> set v)"

lemma short_lines_suffix: "short_lines (u @ s) \<Longrightarrow> short_lines s"
  unfolding short_lines_def by (metis append.assoc)

lemma matching_none: "newline \<notin> set s \<Longrightarrow> matching pattern s = []"
  by (simp add: matching_def complete_lines_none)

lemma c_string_append [simp]: "c_string (s @ t) \<longleftrightarrow> c_string s \<and> c_string t"
  by (auto simp: c_string_def)

lemma grep_loop_full:
  "\<forall>i. BUFSZ \<le> ks i \<Longrightarrow> c_string (buf @ input) \<Longrightarrow> short_lines (buf @ input) \<Longrightarrow> newline \<notin> set buf \<Longrightarrow> length buf < BUFSZ - 1 \<Longrightarrow>
    grep_loop pattern ks i buf input = matching pattern (buf @ input)"
proof (induction pattern ks i buf input rule: grep_loop.induct)
  case (1 pattern ks i buf input)
  let ?room = "BUFSZ - length buf - 1"
  have "?room \<le> ks i" by (rule order.trans [OF _ spec [OF "1.prems"(1)]]) simp
  then have n: "read_size ks i ?room = ?room" unfolding read_size_def by (intro min_absorb1) (simp add: le_max_iff_disj)
  have room: "0 < ?room" using "1.prems"(5) by simp
  show ?case
  proof (cases "input = []")
    case True
    then show ?thesis using matching_none [OF "1.prems"(4)] by (simp add: grep_loop.simps [of pattern ks i buf "[]"])
  next
    case False
    let ?b = "buf @ take ?room input"
    obtain out p where sc: "scan_lines pattern ?b = (out, p)" by fastforce
    have split: "buf @ input = ?b @ drop ?room input" by simp
    have cb: "c_string ?b" using "1.prems"(2) by (metis split c_string_append)
    obtain q where q: "newline \<notin> set p" "?b = q @ p" "q = [] \<longrightarrow> newline \<notin> set ?b"
      "\<And>t. matching pattern (?b @ t) = out @ matching pattern (p @ t)"
      using scan_lines_spec [OF cb sc] by blast
    let ?m = "if length p = length ?b then [] else p"
    have g: "grep_loop pattern ks i buf input = out @ grep_loop pattern ks (Suc i) ?m (drop ?room input)"
      using False room n sc by (simp add: grep_loop.simps [of pattern ks i buf input] Let_def)
    have whole: "matching pattern (buf @ input) = out @ matching pattern (p @ drop ?room input)"
      using q(4) [of "drop ?room input"] by simp
    show ?thesis
    proof (cases "length input \<le> ?room")
      case True
      then have "drop ?room input = []" by simp
      moreover have "grep_loop pattern ks (Suc i) ?m [] = []" by (simp add: grep_loop.simps [of pattern ks "Suc i"])
      ultimately show ?thesis using g whole matching_none [OF q(1)] by simp
    next
      case long: False
      then have lb: "length ?b = BUFSZ - 1" using "1.prems"(5) by simp
      then have "newline \<in> set ?b" using "1.prems"(3) unfolding short_lines_def by (metis append_Nil split)
      then have "q \<noteq> []" using q(3) by blast
      then have pl: "length p < length ?b" using q(2) by simp
      then have m: "?m = p" by simp
      have tail: "buf @ input = q @ p @ drop ?room input" using q(2) split by simp
      have "grep_loop pattern ks (Suc i) p (drop ?room input) = matching pattern (p @ drop ?room input)"
      proof -
        have t: "take (read_size ks i ?room) input \<noteq> []" using n room False by simp
        have sc': "(out, p) = scan_lines pattern (buf @ take (read_size ks i ?room) input)" using sc n by simp
        have "c_string (p @ drop ?room input)" "short_lines (p @ drop ?room input)"
          using "1.prems"(2,3) short_lines_suffix [of q] by (simp_all add: tail)
        then show ?thesis
          using "1.IH" [OF refl t refl sc' refl] "1.prems"(1) q(1) pl lb n m by simp
      qed
      then show ?thesis using g whole m by simp
    qed
  qed
qed

lemma wc_loop_fold: "wc_loop ks i input st = fold wc_byte input st"
proof (induction ks i input st rule: wc_loop.induct)
  case (1 ks i input st)
  let ?n = "read_size ks i 512"
  have "0 < ?n" by (simp add: read_size_def)
  moreover have "fold wc_byte (drop ?n input) (fold wc_byte (take ?n input) st) = fold wc_byte input st"
    by (metis append_take_drop_id fold_append comp_apply)
  ultimately show ?case
    using 1 by (cases "input = []") (simp_all add: wc_loop.simps [of ks i "[]" st] wc_loop.simps [of ks i input st] Let_def)
qed

section \<open>Properties\<close>

text \<open>C37: the matcher. match accepts a text exactly when some part of it is in the language of the
  pattern, the part reaching to the beginning after a leading caret and to the end before a final
  dollar.\<close>

theorem match_language:
  "match re text \<longleftrightarrow>
    (let anchored = (re \<noteq> [] \<and> hd re = CHR ''^''); (its, at_end) = items (if anchored then tl re else re)
     in \<exists>x u v. text = x @ u @ v \<and> denotes its u \<and> (anchored \<longrightarrow> x = []) \<and> (at_end \<longrightarrow> v = []))"
proof -
  have m: "matchhere r y \<longleftrightarrow> (\<exists>u v. y = u @ v \<and> denotes (fst (items r)) u \<and> (snd (items r) \<longrightarrow> v = []))" for r y
    by (simp add: matchhere_iff prefix_match_def)
  show ?thesis
    by (cases "re \<noteq> [] \<and> hd re = CHR ''^''")
      (auto simp: match_def match_loop_iff m split_beta)
qed

theorem match_language_witness:
  "match ''b*c$'' ''abbc'' \<longleftrightarrow> (\<exists>x u v. ''abbc'' = x @ u @ v \<and> denotes [Star CHR ''b'', One CHR ''c''] u \<and> v = [])"
proof -
  have "items ''b*c$'' = ([Star CHR ''b'', One CHR ''c''], True)" by (simp add: items.simps)
  then show ?thesis using match_language [of "''b*c$''" "''abbc''"] by simp
qed

text \<open>C38: grep on a file. When read fills the buffer (as it does on a file) and no line is longer than
  the buffer, grep prints exactly the complete lines that match, in order, however long the file.\<close>

theorem grep_prints_matching_lines:
  assumes "\<forall>i. BUFSZ \<le> ks i" and "c_string text" and "short_lines text"
  shows "grep_loop pattern ks 0 [] text = matching pattern text"
  using grep_loop_full [of ks "[]" "text" pattern 0] assms by (simp add: BUFSZ_def)

theorem grep_prints_matching_lines_witness:
  "grep_loop ''b'' (\<lambda>_. BUFSZ) 0 [] (''ab'' @ [newline] @ ''c'' @ [newline]) = ''ab'' @ [newline]"
proof -
  let ?t = "''ab'' @ [newline] @ ''c'' @ [newline]"
  have l: "c_string ?t" by (simp add: c_string_def newline_def NUL_def)
  have s: "short_lines ?t" unfolding short_lines_def
  proof (intro allI impI, elim conjE)
    fix u v w :: string assume "?t = u @ v @ w" "length v = BUFSZ - 1"
    then have "length ?t \<ge> BUFSZ - 1" by (metis le_add1 le_add2 length_append order.trans)
    then show "newline \<in> set v" by (simp add: BUFSZ_def)
  qed
  have "matching ''b'' ?t = ''ab'' @ [newline]"
    by (simp add: matching_def newline_def match_def matchhere.simps)
  then show ?thesis using grep_prints_matching_lines [of "\<lambda>_. BUFSZ" ?t "''b''"] l s by simp
qed

text \<open>grep on a pipe. A read that delivers part of a line without its newline makes grep forget that
  part: of the line ab, delivered byte by byte, only the newline is left when it is matched, so the
  pattern a, which matches, prints nothing, and the empty anchored pattern prints an empty line.\<close>

theorem grep_forgets_partial_line:
  "matching ''a'' (''ab'' @ [newline]) = ''ab'' @ [newline] \<and> grep_loop ''a'' (\<lambda>_. Suc 0) 0 [] (''ab'' @ [newline]) = [] \<and>
   matching ''^b'' (''ab'' @ [newline]) = [] \<and> grep_loop ''^'' (\<lambda>_. Suc 0) 0 [] (''ab'' @ [newline]) = [newline]"
proof (intro conjI)
  note g = grep_loop.simps [where ks = "\<lambda>_. Suc 0"] scan_lines.simps read_size_def BUFSZ_def newline_def NUL_def
    match_def matchhere.simps
  show "matching ''a'' (''ab'' @ [newline]) = ''ab'' @ [newline]" "matching ''^b'' (''ab'' @ [newline]) = []"
    by (simp_all add: matching_def newline_def match_def matchhere.simps)
  show "grep_loop ''a'' (\<lambda>_. Suc 0) 0 [] (''ab'' @ [newline]) = []" by (simp add: g)
  show "grep_loop ''^'' (\<lambda>_. Suc 0) 0 [] (''ab'' @ [newline]) = [newline]" by (simp add: g)
qed

text \<open>wc counts the same however the reads cut the input, and counts every newline and every byte.\<close>

theorem wc_counts:
  "wc ks text = wc ks' text \<and> fst (wc ks text) = count_list text newline \<and> snd (snd (wc ks text)) = length text"
proof -
  have f: "fst (fold wc_byte text (l, w, c, b)) = l + count_list text newline \<and>
      fst (snd (snd (fold wc_byte text (l, w, c, b)))) = c + length text" for l w c b
    by (induction "text" arbitrary: l w c b) (auto simp: wc_byte_def Let_def newline_def)
  obtain l w c b where e: "fold wc_byte text (0, 0, 0, False) = (l, w, c, b)" by (cases "fold wc_byte text (0, 0, 0, False)") auto
  show ?thesis using f [of 0 0 0 False] by (simp add: wc_def wc_loop_fold e)
qed

end
