(* ===== verification/Sh.thy ===== *)
theory Sh
  imports Strings "HOL-Library.Sublist"
begin

text \<open>
  The shell, sh.c: its parser, which works on pointers into the line, the NUL termination of the words,
  the plumbing of descriptors by runcmd, and the loop of main. A pointer into the line is the rest of
  the line from there to its end \<open>es\<close>; a word is a pair of pointers.
\<close>

section \<open>Commands\<close>

definition MAXARGS :: nat where "MAXARGS = 10"
definition O_RDONLY :: int where "O_RDONLY = 0"
definition O_WRONLY :: int where "O_WRONLY = 1"
definition O_RDWR :: int where "O_RDWR = 2"
definition O_CREATE :: int where "O_CREATE = 0x200"

type_synonym span = "string \<times> string"

text \<open>\<open>EXEC\<close> has the pairs of argv and eargv up to the null pointer that ends them.\<close>

datatype (spans: 'w) cmd =
    EXEC "'w list"
  | REDIR "'w cmd" 'w int int
  | PIPE "'w cmd" "'w cmd"
  | LIST "'w cmd" "'w cmd"
  | BACK "'w cmd"

text \<open>
  parseexec keeps a pointer to the command it builds while redirections are wrapped around it; the
  argument lands in the innermost command.
\<close>

fun add_arg :: "'w \<Rightarrow> 'w cmd \<Rightarrow> 'w cmd" where
  "add_arg a (EXEC args) = EXEC (args @ [a])"
| "add_arg a (REDIR c f mode fd) = REDIR (add_arg a c) f mode fd"
| "add_arg a c = c"

section \<open>Tokens\<close>

definition whitespace :: string where "whitespace = [CHR '' '', CHR 0x09, CHR 0x0D, CHR 0x0A, CHR 0x0B]"
definition symbols :: string where "symbols = ''<|>&;()''"

definition ordinary :: "char \<Rightarrow> bool" where
  "ordinary c \<longleftrightarrow> c \<notin> set whitespace \<and> c \<notin> set symbols"

definition skip_white :: "string \<Rightarrow> string" where
  "skip_white s = dropWhile (\<lambda>c. c \<in> set whitespace) s"

text \<open>gettoken returns the token, its two ends and the new *ps.\<close>

definition gettoken :: "string \<Rightarrow> char \<times> span \<times> string" where
  "gettoken ps =
     (let q = skip_white ps in
      case q of
        [] \<Rightarrow> (NUL, (q, q), skip_white q)
      | c # s \<Rightarrow>
          if c \<in> set ''|();&<'' then (c, (q, s), skip_white s)
          else if c = CHR ''>'' then
            (if s \<noteq> [] \<and> hd s = CHR ''>'' then (CHR ''+'', (q, tl s), skip_white (tl s)) else (c, (q, s), skip_white s))
          else let e = dropWhile ordinary q in (CHR ''a'', (q, e), skip_white e))"

definition peek :: "string \<Rightarrow> string \<Rightarrow> string \<times> bool" where
  "peek ps toks = (let s = skip_white ps in (s, s \<noteq> [] \<and> hd s \<in> set toks))"

lemma skip_white_length: "length (skip_white s) \<le> length s"
  by (simp add: skip_white_def length_dropWhile_le)

lemma skip_white_Nil [simp]: "skip_white [] = []"
  by (simp add: skip_white_def)

lemma gettoken_le: "gettoken ps = (tok, w, ps') \<Longrightarrow> length ps' \<le> length ps \<and> (tok \<noteq> NUL \<longrightarrow> length ps' < length ps)"
proof -
  assume g: "gettoken ps = (tok, w, ps')"
  have l: "length (skip_white ps) \<le> length ps" by (rule skip_white_length)
  show ?thesis
  proof (cases "skip_white ps")
    case Nil
    then show ?thesis using g by (simp add: gettoken_def)
  next
    case (Cons c s)
    have "c \<notin> set whitespace"
      using Cons by (auto simp: skip_white_def dropWhile_eq_Cons_conv)
    moreover have "length (skip_white s) < length ps" "length (skip_white (tl s)) < length ps"
      using l Cons skip_white_length [of s] skip_white_length [of "tl s"] by auto
    moreover have "length (skip_white (dropWhile P s)) < length ps" for P
      using l Cons skip_white_length [of "dropWhile P s"] length_dropWhile_le [of P s] by auto
    moreover have "ordinary c" if "c \<notin> set ''|();&<''" "c \<noteq> CHR ''>''"
      using that calculation(1) by (simp add: symbols_def ordinary_def)
    ultimately have "length ps' < length ps"
      using g Cons by (auto simp: gettoken_def Let_def split: if_splits)
    then show ?thesis by simp
  qed
qed

lemma peek_le: "peek ps toks = (s, b) \<Longrightarrow> length s \<le> length ps"
  by (auto simp: peek_def Let_def skip_white_length)

lemma gettoken_after_peek:
  assumes "peek ps toks = (s, True)" and "NUL \<notin> set toks" and "gettoken s = (tok, w, s')"
  shows "length s' < length ps"
proof -
  have "skip_white s = s" "s \<noteq> []" "hd s \<in> set toks"
    using assms(1) by (auto simp: peek_def Let_def skip_white_def)
  then have "tok \<noteq> NUL"
    using assms(2,3) by (cases s) (auto simp: gettoken_def Let_def NUL_def split: if_splits)
  then show ?thesis using gettoken_le [OF assms(3)] peek_le [OF assms(1)] by simp
qed

lemma token_after:
  assumes "(s, True) = peek ps toks" and "toks \<in> {''<>'', ''&''}" and "(tok, w, s') = gettoken s"
  shows "length s' < length ps"
  using gettoken_after_peek [OF assms(1) [symmetric] _ assms(3) [symmetric]] assms(2) by (auto simp: NUL_def)

section \<open>The parser\<close>

text \<open>
  The state is *ps. The recursive routines have fuel, because how much a call consumes is not known
  before it is defined; one unit per call, and \<open>Hang\<close> when it is used up.
\<close>

type_synonym 'a parser = "(string, 'a) routine"

definition kpeek :: "string \<Rightarrow> bool parser" where
  "kpeek toks s = (let (s', b) = peek s toks in Ok b s')"

definition ktoken :: "(char \<times> span) parser" where
  "ktoken s = (let (tok, w, s') = gettoken s in Ok (tok, w) s')"

function parseredirs :: "span cmd \<Rightarrow> span cmd parser" where
  "parseredirs c ps =
     (let (ps, more) = peek ps ''<>'' in
      if \<not> more then Ok c ps
      else let (tok, _, ps1) = gettoken ps; (word, f, ps2) = gettoken ps1 in
        if word \<noteq> CHR ''a'' then Panic ''missing file for redirection''
        else parseredirs
          (if tok = CHR ''<'' then REDIR c f O_RDONLY 0
           else if tok = CHR ''>'' then REDIR c f (O_WRONLY + O_CREATE) 1
           else if tok = CHR ''+'' then REDIR c f (O_WRONLY + O_CREATE) 1 else c) ps2)"
  by pat_completeness auto
termination
proof (relation "measure (length \<circ> snd)")
  fix c :: "span cmd" and ps x ps' more y tok z u ps1 v word v' f ps2
  assume "x = peek ps ''<>''" "(ps', more) = x" "\<not> \<not> more" "y = gettoken ps'" "(tok, z) = y" "(u, ps1) = z"
    "v = gettoken ps1" "(word, v') = v" "(f, ps2) = v'" "\<not> word \<noteq> CHR ''a''"
  then have "length ps1 < length ps" "length ps2 \<le> length ps1"
    using token_after [of ps' ps "''<>''" tok u ps1] gettoken_le [of ps1 word f ps2] by auto
  then show "((if tok = CHR ''<'' then REDIR c f O_RDONLY 0
           else if tok = CHR ''>'' then REDIR c f (O_WRONLY + O_CREATE) 1
           else if tok = CHR ''+'' then REDIR c f (O_WRONLY + O_CREATE) 1 else c, ps2), c, ps) \<in> measure (length \<circ> snd)"
    by simp
qed simp

function back_loop :: "span cmd \<Rightarrow> span cmd parser" where
  "back_loop c ps =
     (let (ps, more) = peek ps ''&'' in
      if \<not> more then Ok c ps else let (_, _, ps1) = gettoken ps in back_loop (BACK c) ps1)"
  by pat_completeness auto
termination
proof (relation "measure (length \<circ> snd)")
  fix c :: "span cmd" and ps x ps' more y tok z u ps1
  assume "x = peek ps ''&''" "(ps', more) = x" "\<not> \<not> more" "y = gettoken ps'" "(tok, z) = y" "(u, ps1) = z"
  then show "((BACK c, ps1), c, ps) \<in> measure (length \<circ> snd)"
    using token_after [of ps' ps "''&''" tok u ps1] by auto
qed simp

declare parseredirs.simps [simp del] back_loop.simps [simp del]

lemma parseredirs_le: "parseredirs c s = Ok c' s' \<Longrightarrow> length s' \<le> length s"
proof (induction c s rule: parseredirs.induct)
  case (1 c ps)
  obtain ps0 more where p: "peek ps ''<>'' = (ps0, more)" by fastforce
  obtain tok w ps1 where g: "gettoken ps0 = (tok, w, ps1)" using prod_cases3 by blast
  obtain word f ps2 where g2: "gettoken ps1 = (word, f, ps2)" using prod_cases3 by blast
  show ?case
    using "1.prems" "1.IH" [OF refl p [symmetric] _ refl g [symmetric] refl refl g2 [symmetric] refl]
      peek_le [OF p] gettoken_le [OF g] gettoken_le [OF g2] p g g2
    by (auto simp: parseredirs.simps [of c ps] split: if_splits)
qed

text \<open>The loop of parseexec over the arguments.\<close>

function args_loop :: "nat \<Rightarrow> span cmd \<Rightarrow> span cmd parser" where
  "args_loop argc ret ps =
     (let (ps, stop) = peek ps ''|)&;'' in
      if stop then Ok ret ps
      else let (tok, w, ps1) = gettoken ps in
        if tok = NUL then Ok ret ps1
        else if tok \<noteq> CHR ''a'' then Panic ''syntax''
        else if argc + 1 \<ge> MAXARGS then Panic ''too many args''
        else (case parseredirs (add_arg w ret) ps1 of
            Ok ret ps2 \<Rightarrow> args_loop (argc + 1) ret ps2
          | Panic e \<Rightarrow> Panic e | Hang \<Rightarrow> Hang | Fault \<Rightarrow> Fault))"
  by pat_completeness auto
termination
  by (relation "measure (\<lambda>(argc, ret, ps). length ps)") (auto dest!: gettoken_le [OF sym] peek_le [OF sym] parseredirs_le)

declare args_loop.simps [simp del]

fun parseline :: "nat \<Rightarrow> span cmd parser" and parsepipe :: "nat \<Rightarrow> span cmd parser"
  and parseblock :: "nat \<Rightarrow> span cmd parser" and parseexec :: "nat \<Rightarrow> span cmd parser" where
  "parseline 0 s = Hang"
| "parseline (Suc n) s =
     kbind (parsepipe n) (\<lambda>c.
     kbind (back_loop c) (\<lambda>c.
     kbind (kpeek '';'') (\<lambda>more.
       if more then kthen ktoken (kbind (parseline n) (\<lambda>r. kret (LIST c r))) else kret c))) s"
| "parsepipe 0 s = Hang"
| "parsepipe (Suc n) s =
     kbind (parseexec n) (\<lambda>c.
     kbind (kpeek ''|'') (\<lambda>more.
       if more then kthen ktoken (kbind (parsepipe n) (\<lambda>r. kret (PIPE c r))) else kret c)) s"
| "parseblock 0 s = Hang"
| "parseblock (Suc n) s =
     kbind (kpeek ''('') (\<lambda>b.
       if \<not> b then kpanic ''parseblock''
       else kthen ktoken (kbind (parseline n) (\<lambda>c.
         kbind (kpeek '')'') (\<lambda>b.
           if \<not> b then kpanic ''syntax - missing )'' else kthen ktoken (parseredirs c))))) s"
| "parseexec 0 s = Hang"
| "parseexec (Suc n) s =
     kbind (kpeek ''('') (\<lambda>b.
       if b then parseblock n else kbind (parseredirs (EXEC [])) (args_loop 0)) s"

text \<open>
  nulterminate writes a NUL at the end of every word; the buffer is the line and the NUL after it, and a
  pointer is at the distance of its length from the end.
\<close>

definition put_nul :: "span \<Rightarrow> string \<Rightarrow> string" where
  "put_nul w buf = buf[length buf - 1 - length (snd w) := NUL]"

fun nulterminate :: "span cmd \<Rightarrow> string \<Rightarrow> string" where
  "nulterminate (EXEC args) buf = fold put_nul args buf"
| "nulterminate (REDIR c f mode fd) buf = put_nul f (nulterminate c buf)"
| "nulterminate (PIPE l r) buf = nulterminate r (nulterminate l buf)"
| "nulterminate (LIST l r) buf = nulterminate r (nulterminate l buf)"
| "nulterminate (BACK c) buf = nulterminate c buf"

text \<open>parsecmd returns the command and the buffer.\<close>

definition parse_fuel :: "string \<Rightarrow> nat" where
  "parse_fuel line = 4 * length line + 3"

definition parsecmd :: "string \<Rightarrow> (string, span cmd \<times> string) outcome" where
  "parsecmd line =
     kbind (parseline (parse_fuel line)) (\<lambda>c.
     kthen (kpeek []) (\<lambda>s.
       if s \<noteq> [] then Panic ''syntax'' else Ok (c, nulterminate c (line @ [NUL])) s)) line"

section \<open>The parser always answers, and its words are words of the line\<close>

text \<open>What parseexec takes as a word of \<open>line\<close>: from an ordinary character to the first that is not.\<close>

definition word_span :: "string \<Rightarrow> span \<Rightarrow> bool" where
  "word_span line w \<longleftrightarrow> suffix (fst w) line \<and> fst w \<noteq> [] \<and> ordinary (hd (fst w)) \<and> snd w = dropWhile ordinary (fst w)"

definition parse_errors :: "string set" where
  "parse_errors = {''missing file for redirection'', ''syntax - missing )'', ''syntax'', ''too many args''}"

definition good :: "string \<Rightarrow> string \<Rightarrow> (string, span cmd) outcome \<Rightarrow> bool" where
  "good line s o' \<longleftrightarrow> (case o' of Ok c s' \<Rightarrow> suffix s' s \<and> (\<forall>w\<in>spans c. word_span line w)
     | Panic e \<Rightarrow> e \<in> parse_errors | Hang \<Rightarrow> False | Fault \<Rightarrow> False)"

lemma suffix_skip_white: "suffix (skip_white s) s"
  by (simp add: skip_white_def suffix_dropWhile)

lemma suffix_tl: "suffix (tl s) s"
  by (cases s) (auto intro: suffix_ConsI)

lemma gettoken_suffix: "gettoken ps = (tok, w, ps') \<Longrightarrow> suffix ps' ps"
proof -
  assume g: "gettoken ps = (tok, w, ps')"
  show ?thesis
  proof (cases "skip_white ps")
    case Nil
    then show ?thesis using g by (simp add: gettoken_def)
  next
    case (Cons c s)
    then have s: "suffix (c # s) ps" using suffix_skip_white [of ps] by simp
    then have "suffix s ps" by (auto intro: suffix_order.trans suffix_ConsI)
    then have t: "suffix (skip_white t) ps" if "suffix t (c # s)" for t
      using that s suffix_skip_white [of t] by (meson suffix_order.trans)
    have "suffix s (c # s)" "suffix (tl s) (c # s)" "suffix (dropWhile ordinary (c # s)) (c # s)"
      using suffix_tl [of s] by (auto intro: suffix_ConsI suffix_dropWhile)
    from this [THEN t] show ?thesis
      using g Cons by (auto simp: gettoken_def Let_def simp del: dropWhile.simps split: if_splits)
  qed
qed

lemma gettoken_word: "gettoken ps = (CHR ''a'', w, ps') \<Longrightarrow> suffix ps line \<Longrightarrow> word_span line w"
proof -
  assume g: "gettoken ps = (CHR ''a'', w, ps')" and l: "suffix ps line"
  show ?thesis
  proof (cases "skip_white ps")
    case Nil
    then show ?thesis using g by (simp add: gettoken_def)
  next
    case (Cons c s)
    have "c \<notin> set whitespace" using Cons by (auto simp: skip_white_def dropWhile_eq_Cons_conv)
    then have "w = (c # s, dropWhile ordinary (c # s)) \<and> ordinary c"
      using g Cons by (auto simp: gettoken_def Let_def ordinary_def symbols_def simp del: dropWhile.simps split: if_splits)
    moreover have "suffix (c # s) line" using Cons suffix_skip_white [of ps] l by (metis suffix_order.trans)
    ultimately show ?thesis by (simp add: word_span_def)
  qed
qed

lemma peek_suffix: "peek ps toks = (s, b) \<Longrightarrow> suffix s ps"
  by (auto simp: peek_def Let_def suffix_skip_white)

lemma spans_add_arg: "spans (add_arg w c) \<subseteq> insert w (spans c)"
  by (induction c) auto

lemma good_trans: "good line s o' \<Longrightarrow> suffix s t \<Longrightarrow> good line t o'"
  by (auto simp: good_def split: outcome.splits intro: suffix_order.trans)

lemma parseredirs_good:
  "suffix s line \<Longrightarrow> \<forall>w\<in>spans c. word_span line w \<Longrightarrow> good line s (parseredirs c s)"
proof (induction c s rule: parseredirs.induct)
  case (1 c ps)
  obtain ps0 more where p: "peek ps ''<>'' = (ps0, more)" by fastforce
  obtain tok w ps1 where g: "gettoken ps0 = (tok, w, ps1)" using prod_cases3 by blast
  obtain word f ps2 where g2: "gettoken ps1 = (word, f, ps2)" using prod_cases3 by blast
  have s: "suffix ps1 ps" "suffix ps2 ps"
    using peek_suffix [OF p] gettoken_suffix [OF g] gettoken_suffix [OF g2] by (meson suffix_order.trans)+
  show ?case
  proof (cases "more \<and> word = CHR ''a''")
    case True
    let ?c = "if tok = CHR ''<'' then REDIR c f O_RDONLY 0
           else if tok = CHR ''>'' then REDIR c f (O_WRONLY + O_CREATE) 1
           else if tok = CHR ''+'' then REDIR c f (O_WRONLY + O_CREATE) 1 else c"
    have "word_span line f"
      using gettoken_word [of ps1 f ps2 line] g2 True s(1) "1.prems"(1) by (auto intro: suffix_order.trans)
    then have "good line ps2 (parseredirs ?c ps2)"
      using "1.IH" [OF refl p [symmetric] _ refl g [symmetric] refl refl g2 [symmetric] refl] True s(2) "1.prems"
      by (auto intro: suffix_order.trans)
    then have "good line ps (parseredirs ?c ps2)" using s(2) by (rule good_trans)
    then show ?thesis using True by (simp add: parseredirs.simps [of c ps] p g g2)
  next
    case False
    then show ?thesis
      using "1.prems" peek_suffix [OF p]
      by (auto simp: parseredirs.simps [of c ps] p g g2 good_def parse_errors_def)
  qed
qed

lemma back_loop_good:
  "suffix s line \<Longrightarrow> \<forall>w\<in>spans c. word_span line w \<Longrightarrow> good line s (back_loop c s)"
proof (induction c s rule: back_loop.induct)
  case (1 c ps)
  obtain ps0 more where p: "peek ps ''&'' = (ps0, more)" by fastforce
  obtain tok w ps1 where g: "gettoken ps0 = (tok, w, ps1)" using prod_cases3 by blast
  have s: "suffix ps1 ps" using peek_suffix [OF p] gettoken_suffix [OF g] by (meson suffix_order.trans)
  show ?case
  proof (cases more)
    case True
    have "good line ps1 (back_loop (BACK c) ps1)"
      using "1.IH" [OF refl p [symmetric] _ refl g [symmetric] refl] True s "1.prems" by (auto intro: suffix_order.trans)
    then have "good line ps (back_loop (BACK c) ps1)" using s by (rule good_trans)
    then show ?thesis using True by (simp add: back_loop.simps [of c ps] p g)
  next
    case False
    then show ?thesis using "1.prems" peek_suffix [OF p] by (simp add: back_loop.simps [of c ps] p good_def)
  qed
qed

lemma args_loop_good:
  "suffix s line \<Longrightarrow> \<forall>w\<in>spans c. word_span line w \<Longrightarrow> good line s (args_loop argc c s)"
proof (induction argc c s rule: args_loop.induct)
  case (1 argc c ps)
  obtain ps0 stop where p: "peek ps ''|)&;'' = (ps0, stop)" by fastforce
  obtain tok w ps1 where g: "gettoken ps0 = (tok, w, ps1)" using prod_cases3 by blast
  have s: "suffix ps0 ps" "suffix ps1 ps" using peek_suffix [OF p] gettoken_suffix [OF g] by (meson suffix_order.trans)+
  show ?case
  proof (cases "\<not> stop \<and> tok = CHR ''a'' \<and> argc + 1 < MAXARGS")
    case True
    have w: "word_span line w"
      using gettoken_word [of ps0 w ps1 line] g True s(1) "1.prems"(1) by (auto intro: suffix_order.trans)
    have "\<forall>w\<in>spans (add_arg w c). word_span line w" using spans_add_arg [of w c] w "1.prems"(2) by auto
    then have r: "good line ps1 (parseredirs (add_arg w c) ps1)"
      using s(2) "1.prems"(1) by (intro parseredirs_good) (auto intro: suffix_order.trans)
    have e: "args_loop argc c ps = (case parseredirs (add_arg w c) ps1 of
        Ok ret ps2 \<Rightarrow> args_loop (argc + 1) ret ps2 | Panic e \<Rightarrow> Panic e | Hang \<Rightarrow> Hang | Fault \<Rightarrow> Fault)"
      using True by (simp add: args_loop.simps [of argc c ps] p g)
    show ?thesis
    proof (cases "parseredirs (add_arg w c) ps1")
      case (Ok ret ps2)
      have "suffix ps2 ps1" "\<forall>w\<in>spans ret. word_span line w" using r Ok by (simp_all add: good_def)
      moreover from this have "suffix ps2 line" "suffix ps2 ps" using s(2) "1.prems"(1) by (meson suffix_order.trans)+
      ultimately have "good line ps2 (args_loop (argc + 1) ret ps2)"
        using "1.IH" [OF refl p [symmetric] _ refl g [symmetric] refl _ _ _ Ok] True by simp
      then show ?thesis unfolding e using Ok \<open>suffix ps2 ps\<close> by (simp add: good_trans)
    qed (use r in \<open>simp_all add: e good_def\<close>)
  next
    case False
    then show ?thesis
      using "1.prems" s by (auto simp: args_loop.simps [of argc c ps] p g good_def parse_errors_def)
  qed
qed

lemma good_kbind:
  assumes "good line s (m s)" and "\<And>c s'. suffix s' s \<Longrightarrow> \<forall>w\<in>spans c. word_span line w \<Longrightarrow> good line s' (f c s')"
  shows "good line s (kbind m f s)"
proof (cases "m s")
  case (Ok c s')
  then have "suffix s' s" "\<forall>w\<in>spans c. word_span line w" using assms(1) by (simp_all add: good_def)
  then show ?thesis using good_trans [OF assms(2)] Ok by (simp add: kbind_def)
qed (use assms(1) in \<open>simp_all add: kbind_def good_def\<close>)

lemma good_ret: "\<forall>w\<in>spans c. word_span line w \<Longrightarrow> good line s (kret c s)"
  by (simp add: good_def)

text \<open>After a peek that succeeds the token is taken, so less of the line is left.\<close>

lemma good_if_token:
  assumes "NUL \<notin> set toks" and "\<And>s'. suffix s' s \<Longrightarrow> length s' < length s \<Longrightarrow> good line s' (p s')"
    and "\<And>s'. suffix s' s \<Longrightarrow> good line s' (q s')"
  shows "good line s (kbind (kpeek toks) (\<lambda>b. if b then kthen ktoken p else q) s)"
proof -
  obtain s0 b where p: "peek s toks = (s0, b)" by fastforce
  obtain tok w s1 where g: "gettoken s0 = (tok, w, s1)" using prod_cases3 by blast
  have s: "suffix s0 s" "suffix s1 s" using peek_suffix [OF p] gettoken_suffix [OF g] by (meson suffix_order.trans)+
  have e: "kbind (kpeek toks) (\<lambda>b. if b then kthen ktoken p else q) s = (if b then p s1 else q s0)"
    by (simp add: kbind_def kthen_def kpeek_def ktoken_def p g)
  show ?thesis
  proof (cases b)
    case True
    then have "length s1 < length s" using gettoken_after_peek [OF _ assms(1) g] p by simp
    then show ?thesis using True assms(2) [OF s(2)] s(2) unfolding e by (simp add: good_trans)
  next
    case False
    then show ?thesis using assms(3) [OF s(1)] s(1) unfolding e by (simp add: good_trans)
  qed
qed

lemma if_not: "(if \<not> b then x else y) = (if b then y else x)"
  by simp

lemma skip_white_idem [simp]: "skip_white (skip_white s) = skip_white s"
  by (simp add: skip_white_def)

lemma parse_good:
  "suffix s line \<Longrightarrow>
   (4 * length s + 3 \<le> n \<longrightarrow> good line s (parseline n s)) \<and> (4 * length s + 2 \<le> n \<longrightarrow> good line s (parsepipe n s)) \<and>
   (4 * length s + 1 \<le> n \<longrightarrow> good line s (parseexec n s)) \<and>
   (4 * length s \<le> n \<and> snd (peek s ''('') \<longrightarrow> good line s (parseblock n s))"
proof (induction n arbitrary: s)
  case 0
  then show ?case by (auto simp: peek_def skip_white_def)
next
  case (Suc n)
  have IH: "suffix t line" "4 * length t + 3 \<le> n \<Longrightarrow> good line t (parseline n t)"
    "4 * length t + 2 \<le> n \<Longrightarrow> good line t (parsepipe n t)" "4 * length t + 1 \<le> n \<Longrightarrow> good line t (parseexec n t)"
    "4 * length t \<le> n \<Longrightarrow> snd (peek t ''('') \<Longrightarrow> good line t (parseblock n t)" if "suffix t s" for t
    using Suc.IH [of t] that Suc.prems by (auto intro: suffix_order.trans)
  have lr: "good line s' (kbind (p n) (\<lambda>r. kret (F c r)) s')"
    if "good line s' (p n s')" "\<forall>w\<in>spans c. word_span line w" and sp: "\<And>r. spans (F c r) = spans c \<union> spans r" for p F c s'
  proof (rule good_kbind)
    show "good line s' (p n s')" by (rule that(1))
    show "good line s'' (kret (F c r) s'')" if "\<forall>w\<in>spans r. word_span line w" for r s''
      by (rule good_ret) (use that \<open>\<forall>w\<in>spans c. word_span line w\<close> in \<open>auto simp: sp\<close>)
  qed
  show ?case
  proof (intro conjI impI)
    assume n: "4 * length s + 3 \<le> Suc n"
    show "good line s (parseline (Suc n) s)"
      unfolding parseline.simps
    proof (rule good_kbind)
      show "good line s (parsepipe n s)" using IH(3) [of s] n by simp
      fix c s1 assume s1: "suffix s1 s" "\<forall>w\<in>spans c. word_span line w"
      show "good line s1 (kbind (back_loop c) (\<lambda>c. kbind (kpeek '';'') (\<lambda>more.
          if more then kthen ktoken (kbind (parseline n) (\<lambda>r. kret (LIST c r))) else kret c)) s1)"
      proof (rule good_kbind)
        show "good line s1 (back_loop c s1)" by (rule back_loop_good [OF IH(1) [OF s1(1)] s1(2)])
        fix c s2 assume s2: "suffix s2 s1" "\<forall>w\<in>spans c. word_span line w"
        show "good line s2 (kbind (kpeek '';'') (\<lambda>more.
            if more then kthen ktoken (kbind (parseline n) (\<lambda>r. kret (LIST c r))) else kret c) s2)"
        proof (rule good_if_token)
          fix s3 assume s3: "suffix s3 s2" "length s3 < length s2"
          have "suffix s3 s" using s1 s2 s3 by (meson suffix_order.trans)
          moreover have "length s2 \<le> length s" using s1(1) s2(1) by (meson suffix_length_le suffix_order.trans)
          ultimately show "good line s3 (kbind (parseline n) (\<lambda>r. kret (LIST c r)) s3)"
            using IH(2) [of s3] n s3(2) s2(2) by (intro lr) auto
        qed (use s2(2) in \<open>simp_all add: NUL_def good_def\<close>)
      qed
    qed
  next
    assume n: "4 * length s + 2 \<le> Suc n"
    show "good line s (parsepipe (Suc n) s)"
      unfolding parsepipe.simps
    proof (rule good_kbind)
      show "good line s (parseexec n s)" using IH(4) [of s] n by simp
      fix c s1 assume s1: "suffix s1 s" "\<forall>w\<in>spans c. word_span line w"
      show "good line s1 (kbind (kpeek ''|'') (\<lambda>more.
          if more then kthen ktoken (kbind (parsepipe n) (\<lambda>r. kret (PIPE c r))) else kret c) s1)"
      proof (rule good_if_token)
        fix s2 assume s2: "suffix s2 s1" "length s2 < length s1"
        have "suffix s2 s" "length s1 \<le> length s" using s1 s2 by (auto intro: suffix_order.trans dest: suffix_length_le)
        then show "good line s2 (kbind (parsepipe n) (\<lambda>r. kret (PIPE c r)) s2)"
          using IH(3) [of s2] n s2(2) s1(2) by (intro lr) auto
      qed (use s1(2) in \<open>simp_all add: NUL_def good_def\<close>)
    qed
  next
    assume n: "4 * length s + 1 \<le> Suc n"
    obtain s0 b where p: "peek s ''('' = (s0, b)" by fastforce
    have s0: "suffix s0 s" "length s0 \<le> length s" using peek_suffix [OF p] peek_le [OF p] by auto
    have "peek s0 ''('' = (s0, b)" using p by (auto simp: peek_def Let_def)
    then have "b \<Longrightarrow> good line s0 (parseblock n s0)" using IH(5) [OF s0(1)] n s0(2) by simp
    moreover have "good line s0 (kbind (parseredirs (EXEC [])) (args_loop 0) s0)"
      by (rule good_kbind [OF parseredirs_good]) (use IH(1) [OF s0(1)] in \<open>auto intro: args_loop_good suffix_order.trans\<close>)
    ultimately have "good line s0 (if b then parseblock n s0 else kbind (parseredirs (EXEC [])) (args_loop 0) s0)" by simp
    then have "good line s (if b then parseblock n s0 else kbind (parseredirs (EXEC [])) (args_loop 0) s0)"
      using s0(1) by (rule good_trans)
    then show "good line s (parseexec (Suc n) s)" by (cases b) (simp_all add: kbind_def kpeek_def p)
  next
    assume n: "4 * length s \<le> Suc n \<and> snd (peek s ''('')"
    obtain s0 where p: "peek s ''('' = (s0, True)" using n by (cases "peek s ''(''") auto
    obtain tok w s1 where g: "gettoken s0 = (tok, w, s1)" using prod_cases3 by blast
    have s1: "suffix s1 s" "length s1 < length s"
      using peek_suffix [OF p] gettoken_suffix [OF g] gettoken_after_peek [OF p _ g]
      by (auto simp: NUL_def intro: suffix_order.trans)
    have "good line s1 (kbind (parseline n) (\<lambda>c. kbind (kpeek '')'') (\<lambda>b.
        if \<not> b then kpanic ''syntax - missing )'' else kthen ktoken (parseredirs c))) s1)"
    proof (rule good_kbind)
      show "good line s1 (parseline n s1)" using IH(2) [OF s1(1)] n s1(2) by simp
      fix c s2 assume s2: "suffix s2 s1" "\<forall>w\<in>spans c. word_span line w"
      have "good line s2 (kbind (kpeek '')'') (\<lambda>b. if b then kthen ktoken (parseredirs c) else kpanic ''syntax - missing )'') s2)"
      proof (rule good_if_token)
        fix s3 assume "suffix s3 s2"
        then have "suffix s3 s" using s1 s2 by (meson suffix_order.trans)
        then show "good line s3 (parseredirs c s3)" using IH(1) s2(2) by (intro parseredirs_good) auto
      qed (auto simp: NUL_def good_def parse_errors_def)
      then show "good line s2 (kbind (kpeek '')'') (\<lambda>b.
          if \<not> b then kpanic ''syntax - missing )'' else kthen ktoken (parseredirs c)) s2)"
        unfolding if_not .
    qed
    then have "good line s (kbind (parseline n) (\<lambda>c. kbind (kpeek '')'') (\<lambda>b.
        if \<not> b then kpanic ''syntax - missing )'' else kthen ktoken (parseredirs c))) s1)"
      using s1(1) by (rule good_trans)
    moreover have "parseblock (Suc n) s = kbind (parseline n) (\<lambda>c. kbind (kpeek '')'') (\<lambda>b.
        if \<not> b then kpanic ''syntax - missing )'' else kthen ktoken (parseredirs c))) s1"
      by (subst parseblock.simps) (simp add: kbind_def [of "kpeek ''(''"] kthen_def kpeek_def [of "''(''"] p kbind_def [of ktoken] ktoken_def g)
    ultimately show "good line s (parseblock (Suc n) s)" by simp
  qed
qed

lemma parsecmd_total:
  "(\<exists>c. parsecmd line = Ok (c, nulterminate c (line @ [NUL])) [] \<and> (\<forall>w\<in>spans c. word_span line w)) \<or>
   (\<exists>e\<in>parse_errors. parsecmd line = Panic e)"
proof -
  have "good line line (parseline (parse_fuel line) line)" using parse_good [of line line "parse_fuel line"] by (simp add: parse_fuel_def)
  then consider c s where "parseline (parse_fuel line) line = Ok c s" "\<forall>w\<in>spans c. word_span line w"
    | e where "parseline (parse_fuel line) line = Panic e" "e \<in> parse_errors"
    by (auto simp: good_def split: outcome.splits)
  then show ?thesis
  proof cases
    case 1
    have "parsecmd line = (if skip_white s \<noteq> [] then Panic ''syntax'' else Ok (c, nulterminate c (line @ [NUL])) [])"
      by (simp add: parsecmd_def kbind_def kthen_def kpeek_def peek_def Let_def 1)
    then show ?thesis using 1(2) by (auto simp: parse_errors_def)
  next
    case 2
    then show ?thesis by (simp add: parsecmd_def kbind_def)
  qed
qed

section \<open>NUL termination\<close>

text \<open>Only characters that are not part of a word are overwritten.\<close>

definition nul_inv :: "string \<Rightarrow> string \<Rightarrow> bool" where
  "nul_inv line buf \<longleftrightarrow> length buf = Suc (length line) \<and> buf ! length line = NUL \<and>
     (\<forall>i<length line. buf ! i = line ! i \<or> buf ! i = NUL \<and> \<not> ordinary (line ! i))"

definition word_end :: "string \<Rightarrow> span \<Rightarrow> nat" where
  "word_end line w = length line - length (snd w)"

lemma suffix_nth: "suffix t s \<Longrightarrow> i < length t \<Longrightarrow> s ! (length s - length t + i) = t ! i"
  by (auto simp: suffix_def nth_append)

lemma word_end_special:
  assumes "word_span line w" and "word_end line w < length line"
  shows "\<not> ordinary (line ! word_end line w)"
proof -
  have "suffix (snd w) (fst w)" "suffix (fst w) line" using assms(1) by (simp_all add: word_span_def suffix_dropWhile)
  moreover have "snd w \<noteq> []" using assms(2) by (cases "snd w") (simp_all add: word_end_def)
  ultimately have s: "suffix (snd w) line" "snd w \<noteq> []" by (auto intro: suffix_order.trans)
  have "\<not> ordinary (hd (snd w))"
    using s(2) assms(1) hd_dropWhile [of ordinary "fst w"] unfolding word_span_def by metis
  then show ?thesis using suffix_nth [OF s(1), of 0] s(2) by (simp add: word_end_def hd_conv_nth)
qed

lemma put_nul_inv:
  assumes "nul_inv line buf" and "word_span line w"
  shows "nul_inv line (put_nul w buf)" and "put_nul w buf ! word_end line w = NUL"
proof -
  have p: "length buf - 1 - length (snd w) = word_end line w" "word_end line w < length buf"
    using assms(1) by (auto simp: nul_inv_def word_end_def)
  then show "put_nul w buf ! word_end line w = NUL" by (simp add: put_nul_def)
  show "nul_inv line (put_nul w buf)"
    using assms(1) word_end_special [OF assms(2)] p by (auto simp: put_nul_def nul_inv_def nth_list_update)
qed

lemma length_put_nul [simp]: "length (put_nul w buf) = length buf"
  by (simp add: put_nul_def)

lemma length_put_nuls [simp]: "length (fold put_nul ws buf) = length buf"
  by (induction ws arbitrary: buf) auto

lemma length_nulterminate [simp]: "length (nulterminate c buf) = length buf"
  by (induction c arbitrary: buf) auto

lemma put_nul_keeps: "i < length buf \<Longrightarrow> buf ! i = NUL \<Longrightarrow> put_nul w buf ! i = NUL"
  by (auto simp: put_nul_def nth_list_update)

lemma put_nuls_keep: "i < length buf \<Longrightarrow> buf ! i = NUL \<Longrightarrow> fold put_nul ws buf ! i = NUL"
  by (induction ws arbitrary: buf) (auto simp: put_nul_keeps)

lemma nulterminate_keeps: "i < length buf \<Longrightarrow> buf ! i = NUL \<Longrightarrow> nulterminate c buf ! i = NUL"
  by (induction c arbitrary: buf) (auto simp: put_nul_keeps put_nuls_keep)

lemma word_end_less: "nul_inv line buf \<Longrightarrow> word_end line w < length buf"
  by (auto simp: nul_inv_def word_end_def)

lemma put_nuls_inv:
  "nul_inv line buf \<Longrightarrow> \<forall>w\<in>set ws. word_span line w \<Longrightarrow>
   nul_inv line (fold put_nul ws buf) \<and> (\<forall>w\<in>set ws. fold put_nul ws buf ! word_end line w = NUL)"
proof (induction ws arbitrary: buf)
  case (Cons w ws)
  have w: "nul_inv line (put_nul w buf)" "put_nul w buf ! word_end line w = NUL"
    using put_nul_inv [OF Cons.prems(1), of w] Cons.prems(2) by auto
  have "fold put_nul ws (put_nul w buf) ! word_end line w = NUL"
    using put_nuls_keep [OF word_end_less [OF w(1)] w(2)] .
  then show ?case using Cons.IH [OF w(1)] Cons.prems(2) by simp
qed simp

lemma nulterminate_inv:
  "nul_inv line buf \<Longrightarrow> \<forall>w\<in>spans c. word_span line w \<Longrightarrow>
   nul_inv line (nulterminate c buf) \<and> (\<forall>w\<in>spans c. nulterminate c buf ! word_end line w = NUL)"
proof (induction c arbitrary: buf)
  case (EXEC args)
  then show ?case using put_nuls_inv [of line buf args] by simp
next
  case (REDIR c f mode fd)
  then have i: "nul_inv line (nulterminate c buf)" and e: "\<forall>w\<in>spans c. nulterminate c buf ! word_end line w = NUL" by auto
  have "put_nul f (nulterminate c buf) ! word_end line w = NUL" if "w \<in> spans c" for w
    using put_nul_keeps [OF word_end_less [OF i]] e that by blast
  then show ?case using put_nul_inv [OF i, of f] REDIR.prems(2) by auto
next
  case (PIPE l r)
  then have i: "nul_inv line (nulterminate l buf)" and e: "\<forall>w\<in>spans l. nulterminate l buf ! word_end line w = NUL" by auto
  have "nulterminate r (nulterminate l buf) ! word_end line w = NUL" if "w \<in> spans l" for w
    using nulterminate_keeps [OF word_end_less [OF i]] e that by blast
  then show ?case using PIPE.IH(2) [OF i] PIPE.prems(2) by auto
next
  case (LIST l r)
  then have i: "nul_inv line (nulterminate l buf)" and e: "\<forall>w\<in>spans l. nulterminate l buf ! word_end line w = NUL" by auto
  have "nulterminate r (nulterminate l buf) ! word_end line w = NUL" if "w \<in> spans l" for w
    using nulterminate_keeps [OF word_end_less [OF i]] e that by blast
  then show ?case using LIST.IH(2) [OF i] LIST.prems(2) by auto
next
  case (BACK c)
  then show ?case by auto
qed

definition word_of :: "span \<Rightarrow> string" where
  "word_of w = take (length (fst w) - length (snd w)) (fst w)"

lemma word_of_takeWhile: "word_span line w \<Longrightarrow> word_of w = takeWhile ordinary (fst w)"
proof -
  assume "word_span line w"
  then have "fst w = takeWhile ordinary (fst w) @ snd w" by (simp add: word_span_def)
  then show ?thesis unfolding word_of_def by (metis add_diff_cancel_right' append_eq_conv_conj length_append)
qed

lemma c_string_at:
  assumes inv: "nul_inv line buf" and w: "word_span line w" and e: "buf ! word_end line w = NUL" and c: "c_string line"
  shows "takeWhile (\<lambda>x. x \<noteq> NUL) (drop (length line - length (fst w)) buf) = word_of w"
proof -
  let ?q = "length line - length (fst w)" and ?t = "takeWhile ordinary (fst w)"
  have sf: "suffix (fst w) line" "snd w = dropWhile ordinary (fst w)" using w by (auto simp: word_span_def)
  have lq: "length (fst w) \<le> length line" using suffix_length_le [OF sf(1)] .
  have split: "fst w = ?t @ snd w" using sf(2) by simp
  then have le: "length (fst w) = length ?t + length (snd w)" by (metis length_append)
  have we: "word_end line w = ?q + length ?t" using le lq by (simp add: word_end_def)
  have lb: "length buf = Suc (length line)" using inv by (simp add: nul_inv_def)
  have t: "buf ! (?q + i) = ?t ! i \<and> ?t ! i \<noteq> NUL" if "i < length ?t" for i
  proof -
    have o: "ordinary (?t ! i)" using that nth_mem set_takeWhileD by fastforce
    have li: "line ! (?q + i) = ?t ! i"
      using suffix_nth [OF sf(1), of i] that le takeWhile_nth [of i ordinary "fst w"] by simp
    have "?q + i < length line" using that le lq by simp
    moreover from this have "line ! (?q + i) \<noteq> NUL" using c by (metis c_string_def nth_mem)
    ultimately show ?thesis using inv li o by (auto simp: nul_inv_def)
  qed
  have "takeWhile (\<lambda>x. x \<noteq> NUL) (drop ?q buf) = take (length ?t) (drop ?q buf)"
  proof (rule takeWhile_eq_take_P_nth)
    show "drop ?q buf ! i \<noteq> NUL" if "i < length ?t" "i < length (drop ?q buf)" for i
      using t [OF that(1)] that by (simp add: lb)
    show "length ?t < length (drop ?q buf) \<Longrightarrow> \<not> drop ?q buf ! length ?t \<noteq> NUL"
      using e we by (simp add: lb)
  qed
  also have "\<dots> = ?t"
  proof (rule nth_equalityI)
    show "length (take (length ?t) (drop ?q buf)) = length ?t" using le lq lb by simp
    show "take (length ?t) (drop ?q buf) ! i = ?t ! i" if "i < length (take (length ?t) (drop ?q buf))" for i
      using that t [of i] by (simp add: lb)
  qed
  finally show ?thesis using word_of_takeWhile [OF w] by simp
qed

section \<open>Printing commands\<close>

text \<open>
  The tokens of a command where level \<open>lv\<close> of the grammar is expected: 0 a line, 1 a pipeline with
  its ampersands, 2 a pipeline, 3 a simple command. Every token is followed by a space.
\<close>

definition paren :: "bool \<Rightarrow> string list \<Rightarrow> string list" where
  "paren b ts = (if b then [''(''] @ ts @ ['')''] else ts)"

fun toks :: "string cmd \<Rightarrow> nat \<Rightarrow> string list" where
  "toks (EXEC args) lv = args"
| "toks (REDIR c f mode fd) lv = toks c 3 @ [if fd = 0 then ''<'' else ''>'', f]"
| "toks (PIPE l r) lv = paren (lv > 2) (toks l 3 @ [''|''] @ toks r 2)"
| "toks (BACK c) lv = paren (lv > 1) (toks c 1 @ [''&''])"
| "toks (LIST l r) lv = paren (lv > 0) (toks l 1 @ ['';''] @ toks r 0)"

definition render :: "string list \<Rightarrow> string \<Rightarrow> string" where
  "render ts rest = concat (map (\<lambda>t. t @ '' '') ts) @ rest"

definition unparse :: "string cmd \<Rightarrow> string" where
  "unparse c = render (toks c 0) []"

definition plain :: "string \<Rightarrow> bool" where
  "plain t \<longleftrightarrow> t \<noteq> [] \<and> (\<forall>c\<in>set t. ordinary c \<and> c \<noteq> NUL)"

text \<open>The commands the syntax can express.\<close>

fun printable :: "string cmd \<Rightarrow> bool" where
  "printable (EXEC args) = (length args < MAXARGS \<and> (\<forall>t\<in>set args. plain t))"
| "printable (REDIR c f mode fd) =
     (printable c \<and> plain f \<and> (mode = O_RDONLY \<and> fd = 0 \<or> mode = O_WRONLY + O_CREATE \<and> fd = 1))"
| "printable (PIPE l r) = (printable l \<and> printable r)"
| "printable (LIST l r) = (printable l \<and> printable r)"
| "printable (BACK c) = printable c"

lemma render_simps [simp]:
  "render [] rest = rest" "render (t # ts) rest = t @ '' '' @ render ts rest"
  "render (ts @ us) rest = render ts (render us rest)"
  by (simp_all add: render_def)

definition starts :: "string \<Rightarrow> string \<Rightarrow> bool" where
  "starts ts s \<longleftrightarrow> s \<noteq> [] \<and> hd s \<in> set ts"

abbreviation at_token :: "string \<Rightarrow> bool" where
  "at_token s \<equiv> skip_white s = s"

lemma at_token_Cons: "c \<notin> set whitespace \<Longrightarrow> at_token (c # s)"
  by (simp add: skip_white_def)

lemma white_space: "CHR '' '' \<in> set whitespace" "c \<in> set symbols \<Longrightarrow> c \<notin> set whitespace"
  by (auto simp: whitespace_def symbols_def)

lemma at_token_starts: "starts symbols s \<Longrightarrow> at_token s"
  by (cases s) (auto simp: starts_def intro!: at_token_Cons dest: white_space(2))

lemma peek_at_token: "at_token s \<Longrightarrow> peek s ts = (s, starts ts s)"
  by (simp add: peek_def starts_def)

lemma ordinary_not_symbol: "ordinary c \<Longrightarrow> set ts \<subseteq> set symbols \<Longrightarrow> c \<notin> set ts"
  by (auto simp: ordinary_def)

lemma plain_hd: "plain t \<Longrightarrow> \<exists>c s. t = c # s \<and> ordinary c"
  by (cases t) (auto simp: plain_def)

lemma plain_at_token: "plain t \<Longrightarrow> at_token (t @ s)"
  using plain_hd [of t] by (auto simp: ordinary_def intro!: at_token_Cons)

lemma plain_not_starts: "plain t \<Longrightarrow> set ts \<subseteq> set symbols \<Longrightarrow> \<not> starts ts (t @ s)"
  using plain_hd [of t] ordinary_not_symbol by (auto simp: starts_def)

lemma gettoken_plain:
  assumes "plain t" and "at_token rest"
  shows "\<exists>w. gettoken (t @ '' '' @ rest) = (CHR ''a'', w, rest) \<and> word_of w = t"
proof -
  obtain c s where t: "t = c # s" "ordinary c" using plain_hd [OF assms(1)] by blast
  have o: "\<forall>x\<in>set t. ordinary x" using assms(1) by (auto simp: plain_def)
  have nb: "\<not> ordinary CHR '' ''" using white_space(1) by (simp add: ordinary_def)
  have d: "dropWhile ordinary (t @ '' '' @ rest) = '' '' @ rest"
    using o nb by (simp add: dropWhile_append2)
  have sk: "skip_white ('' '' @ rest) = rest" using assms(2) white_space(1) by (simp add: skip_white_def)
  have "c \<notin> set ''|();&<''" "c \<noteq> CHR ''>''"
    using t(2) ordinary_not_symbol [of c "''|();&<>''"] by (auto simp: symbols_def)
  then have "gettoken (t @ '' '' @ rest) = (CHR ''a'', (t @ '' '' @ rest, '' '' @ rest), rest)"
    using plain_at_token [OF assms(1), of "'' '' @ rest"] d sk t(1) by (simp add: gettoken_def Let_def)
  then show ?thesis by (simp add: word_of_def)
qed

lemma gettoken_symbol:
  assumes "c \<in> set symbols" and "at_token rest"
  shows "\<exists>w. gettoken (c # '' '' @ rest) = (c, w, rest)"
proof -
  have "at_token (c # '' '' @ rest)" using white_space(2) [OF assms(1)] by (rule at_token_Cons)
  moreover have "skip_white ('' '' @ rest) = rest" using assms(2) white_space(1) by (simp add: skip_white_def)
  ultimately show ?thesis using assms(1) by (auto simp: gettoken_def Let_def symbols_def)
qed

lemma kpeek_at_token: "at_token s \<Longrightarrow> kbind (kpeek ts) f s = f (starts ts s) s"
  by (simp add: kbind_def kpeek_def peek_at_token)

lemma ktoken_symbol: "c \<in> set symbols \<Longrightarrow> at_token rest \<Longrightarrow> kthen ktoken p (c # '' '' @ rest) = p rest"
  using gettoken_symbol [of c rest] by (auto simp: kthen_def kbind_def ktoken_def)

lemma symbol_at_token: "c \<in> set symbols \<Longrightarrow> at_token (c # s)"
  by (rule at_token_Cons) (rule white_space(2))

lemma starts_Cons [simp]: "starts ts (c # s) \<longleftrightarrow> c \<in> set ts" "\<not> starts ts []"
  by (simp_all add: starts_def)

text \<open>Tokens begin with characters that are not white.\<close>

definition token :: "string \<Rightarrow> bool" where
  "token t \<longleftrightarrow> plain t \<or> (\<exists>c. t = [c] \<and> c \<in> set symbols)"

lemma at_token_render: "\<forall>t\<in>set ts. token t \<Longrightarrow> at_token rest \<Longrightarrow> at_token (render ts rest)"
  by (cases ts) (auto simp: token_def intro: plain_at_token symbol_at_token)

lemma toks_token: "printable c \<Longrightarrow> \<forall>t\<in>set (toks c lv). token t"
proof (induction c arbitrary: lv)
  case (EXEC args)
  then show ?case by (auto simp: token_def)
qed (auto simp: paren_def token_def symbols_def)

lemma at_token_toks: "printable c \<Longrightarrow> at_token rest \<Longrightarrow> at_token (render (toks c lv) rest)"
  by (rule at_token_render [OF toks_token])

section \<open>Parsing what was printed\<close>

abbreviation view :: "span cmd \<Rightarrow> string cmd" where
  "view \<equiv> map_cmd word_of"

lemma view_add_arg: "view (add_arg w c) = add_arg (word_of w) (view c)"
  by (induction c) auto

lemma parseredirs_stop: "at_token s \<Longrightarrow> \<not> starts ''<>'' s \<Longrightarrow> parseredirs c s = Ok c s"
  by (simp add: parseredirs.simps [of c s] peek_at_token)

lemma back_loop_stop: "at_token s \<Longrightarrow> \<not> starts ''&'' s \<Longrightarrow> back_loop c s = Ok c s"
  by (simp add: back_loop.simps [of c s] peek_at_token)

lemma args_loop_stop: "at_token s \<Longrightarrow> s = [] \<or> starts ''|)&;'' s \<Longrightarrow> args_loop k c s = Ok c s"
  by (auto simp: args_loop.simps [of k c s] peek_at_token gettoken_def)

lemma parseredirs_one:
  assumes "plain f" and "at_token rest" and "mode = O_RDONLY \<and> fd = 0 \<or> mode = O_WRONLY + O_CREATE \<and> fd = 1"
  shows "\<exists>w. word_of w = f \<and>
    parseredirs c (render [if fd = 0 then ''<'' else ''>'', f] rest) = parseredirs (REDIR c w mode fd) rest"
proof -
  let ?c = "if fd = 0 then CHR ''<'' else CHR ''>''"
  let ?s = "?c # '' '' @ f @ '' '' @ rest"
  have sym: "?c \<in> set symbols" by (simp add: symbols_def)
  have f: "at_token (f @ '' '' @ rest)" by (rule plain_at_token [OF assms(1)])
  obtain w1 where g1: "gettoken ?s = (?c, w1, f @ '' '' @ rest)" using gettoken_symbol [OF sym f] by blast
  obtain w where g2: "gettoken (f @ '' '' @ rest) = (CHR ''a'', w, rest)" "word_of w = f"
    using gettoken_plain [OF assms(1,2)] by blast
  have p: "peek ?s ''<>'' = (?s, True)" using peek_at_token [OF symbol_at_token [OF sym]] by simp
  have r: "render [if fd = 0 then ''<'' else ''>'', f] rest = ?s" by simp
  have "parseredirs c ?s = parseredirs (REDIR c w mode fd) rest"
    unfolding parseredirs.simps [of c ?s] p Let_def prod.case g1 g2(1)
    using assms(3) by auto
  then show ?thesis using g2(2) r by metis
qed

lemma args_loop_words:
  assumes "at_token rest"
  shows "plain t \<Longrightarrow> \<forall>t\<in>set ts. plain t \<Longrightarrow> k + 1 + length ts < MAXARGS \<Longrightarrow>
    \<exists>c'. view c' = fold add_arg (t # ts) (view c) \<and>
      args_loop k c (render (t # ts) rest) = kbind (parseredirs c') (args_loop (k + 1 + length ts)) rest"
proof (induction ts arbitrary: t k c)
  case Nil
  obtain w where g: "gettoken (t @ '' '' @ rest) = (CHR ''a'', w, rest)" "word_of w = t"
    using gettoken_plain [OF Nil.prems(1) assms] by blast
  have p: "peek (t @ '' '' @ rest) ''|)&;'' = (t @ '' '' @ rest, False)"
    using peek_at_token [OF plain_at_token [OF Nil.prems(1)]] plain_not_starts [OF Nil.prems(1), of "''|)&;''"]
    by (simp add: symbols_def)
  have "args_loop k c (t @ '' '' @ rest) = kbind (parseredirs (add_arg w c)) (args_loop (k + 1)) rest"
    unfolding args_loop.simps [of k c "t @ '' '' @ rest"] p Let_def prod.case g(1)
    using Nil.prems(3) by (simp add: kbind_def split: outcome.split)
  then show ?case using g(2) view_add_arg [of w c] by (intro exI [of _ "add_arg w c"]) simp
next
  case (Cons u ts)
  let ?r = "render (u # ts) rest"
  have u: "plain u" using Cons.prems(2) by simp
  have at: "at_token ?r" using plain_at_token [OF u, of "'' '' @ render ts rest"] by simp
  obtain w where g: "gettoken (t @ '' '' @ ?r) = (CHR ''a'', w, ?r)" "word_of w = t"
    using gettoken_plain [OF Cons.prems(1) at] by blast
  have p: "peek (t @ '' '' @ ?r) ''|)&;'' = (t @ '' '' @ ?r, False)"
    using peek_at_token [OF plain_at_token [OF Cons.prems(1)]] plain_not_starts [OF Cons.prems(1), of "''|)&;''"]
    by (simp add: symbols_def)
  have "\<not> starts ''<>'' ?r" using plain_not_starts [OF u, of "''<>''"] by (simp add: symbols_def)
  then have "parseredirs (add_arg w c) ?r = Ok (add_arg w c) ?r" by (rule parseredirs_stop [OF at])
  then have "args_loop k c (t @ '' '' @ ?r) = args_loop (k + 1) (add_arg w c) ?r"
    unfolding args_loop.simps [of k c "t @ '' '' @ ?r"] p Let_def prod.case g(1)
    using Cons.prems(3) by (simp del: render_simps)
  moreover obtain c' where "view c' = fold add_arg (u # ts) (view (add_arg w c))"
    "args_loop (k + 1) (add_arg w c) ?r = kbind (parseredirs c') (args_loop (k + 1 + 1 + length ts)) rest"
    using Cons.IH [OF u, of "k + 1" "add_arg w c"] Cons.prems by auto
  ultimately show ?case using g(2) view_add_arg [of w c] by (intro exI [of _ c']) simp
qed

lemma fold_add_arg: "fold add_arg ts (EXEC us) = EXEC (us @ ts)"
  by (induction ts arbitrary: us) auto

text \<open>What parseexec still does after the last token it was given.\<close>

fun tail :: "string cmd \<Rightarrow> span cmd \<Rightarrow> span cmd parser" where
  "tail (EXEC args) = args_loop (length args)"
| "tail (REDIR c f mode fd) = tail c"
| "tail c = kret"

lemma tail_stop:
  assumes "at_token s" and "s = [] \<or> starts ''|)&;'' s"
  shows "kbind (parseredirs c') (tail c) s = Ok c' s"
proof -
  have "\<not> starts ''<>'' s" using assms(2) by (cases s) auto
  then have "kbind (parseredirs c') (tail c) s = tail c c' s" using assms(1) by (simp add: kbind_def parseredirs_stop)
  also have "tail c c' s = Ok c' s" by (induction c) (auto simp: args_loop_stop [OF assms])
  finally show ?thesis .
qed

definition follow :: "string \<Rightarrow> string \<Rightarrow> bool" where
  "follow ts rest \<longleftrightarrow> rest = [] \<or> starts ts rest"

lemma follow_at_token: "follow ts rest \<Longrightarrow> set ts \<subseteq> set symbols \<Longrightarrow> at_token rest"
  by (cases rest) (auto simp: follow_def intro!: symbol_at_token)

text \<open>The four levels of the grammar, for enough fuel.\<close>

definition P3 :: "string cmd \<Rightarrow> bool" where
  "P3 c \<longleftrightarrow> (\<exists>N. \<forall>n\<ge>N. \<forall>rest. follow ''<>|)&;'' rest \<longrightarrow>
     (\<exists>c'. view c' = c \<and> parseexec n (render (toks c 3) rest) = kbind (parseredirs c') (tail c) rest))"

definition P2 :: "string cmd \<Rightarrow> bool" where
  "P2 c \<longleftrightarrow> (\<exists>N. \<forall>n\<ge>N. \<forall>rest. follow '')&;'' rest \<longrightarrow>
     (\<exists>c'. view c' = c \<and> parsepipe n (render (toks c 2) rest) = Ok c' rest))"

definition P1 :: "string cmd \<Rightarrow> bool" where
  "P1 c \<longleftrightarrow> (\<exists>N. \<forall>n\<ge>N. \<forall>rest. follow '')&;'' rest \<longrightarrow>
     (\<exists>c'. view c' = c \<and> kbind (parsepipe n) back_loop (render (toks c 1) rest) = back_loop c' rest))"

definition P0 :: "string cmd \<Rightarrow> bool" where
  "P0 c \<longleftrightarrow> (\<exists>N. \<forall>n\<ge>N. \<forall>rest. follow '')'' rest \<longrightarrow>
     (\<exists>c'. view c' = c \<and> parseline n (render (toks c 0) rest) = Ok c' rest))"

lemma kbind_kbind: "kbind m f s = kbind m' f' s' \<Longrightarrow> kbind (kbind m f) g s = kbind (kbind m' f') g s'"
  by (simp add: kbind_def)

lemma P3_EXEC:
  assumes "printable (EXEC args)"
  shows "P3 (EXEC args)"
  unfolding P3_def
proof (intro exI [of _ 1] allI impI)
  fix n :: nat and rest
  assume n: "1 \<le> n" and rest: "follow ''<>|)&;'' rest"
  have ar: "at_token rest" by (rule follow_at_token [OF rest]) (simp add: symbols_def)
  obtain m where m: "n = Suc m" using n by (cases n) auto
  let ?s = "render args rest"
  have at: "at_token ?s" using at_token_toks [OF assms ar] by simp
  have np: "\<not> starts ''('' ?s"
  proof (cases args)
    case Nil
    then show ?thesis using rest by (cases rest) (auto simp: follow_def)
  next
    case (Cons t ts)
    then show ?thesis using assms plain_not_starts [of t "''(''"] by (simp add: symbols_def)
  qed
  have e: "parseexec n ?s = kbind (parseredirs (EXEC [])) (args_loop 0) ?s"
    unfolding m parseexec.simps kpeek_at_token [OF at] by (simp only: np if_False)
  show "\<exists>c'. view c' = EXEC args \<and> parseexec n (render (toks (EXEC args) 3) rest) = kbind (parseredirs c') (tail (EXEC args)) rest"
  proof (cases args)
    case Nil
    then show ?thesis using e by (intro exI [of _ "EXEC []"]) simp
  next
    case (Cons t ts)
    have t: "plain t" "\<forall>t\<in>set ts. plain t" "0 + 1 + length ts < MAXARGS" using assms Cons by auto
    have "\<not> starts ''<>'' ?s" using Cons plain_not_starts [OF t(1), of "''<>''"] by (simp add: symbols_def)
    then have "parseexec n ?s = args_loop 0 (EXEC []) ?s"
      unfolding e by (simp add: kbind_def parseredirs_stop [OF at])
    moreover obtain c' where "view c' = fold add_arg args (view (EXEC []))"
      "args_loop 0 (EXEC []) ?s = kbind (parseredirs c') (args_loop (0 + 1 + length ts)) rest"
      using args_loop_words [OF ar t, of "EXEC []"] Cons by auto
    ultimately show ?thesis using Cons by (intro exI [of _ c']) (simp add: fold_add_arg)
  qed
qed

lemma P3_REDIR:
  assumes "printable (REDIR c f mode fd)" and "P3 c"
  shows "P3 (REDIR c f mode fd)"
proof -
  obtain N where N: "\<And>n rest. N \<le> n \<Longrightarrow> follow ''<>|)&;'' rest \<Longrightarrow>
     \<exists>c'. view c' = c \<and> parseexec n (render (toks c 3) rest) = kbind (parseredirs c') (tail c) rest"
    using assms(2) unfolding P3_def by blast
  show ?thesis
    unfolding P3_def
  proof (intro exI [of _ N] allI impI)
    fix n rest
    assume n: "N \<le> n" and rest: "follow ''<>|)&;'' rest"
    have ar: "at_token rest" by (rule follow_at_token [OF rest]) (simp add: symbols_def)
    let ?s = "render [if fd = 0 then ''<'' else ''>'', f] rest"
    have "follow ''<>|)&;'' ?s" by (auto simp: follow_def)
    then obtain c' where c: "view c' = c" "parseexec n (render (toks c 3) ?s) = kbind (parseredirs c') (tail c) ?s"
      using N [OF n] by blast
    obtain w where w: "word_of w = f" "parseredirs c' ?s = parseredirs (REDIR c' w mode fd) rest"
      using parseredirs_one [of f rest mode fd c'] ar assms(1) by auto
    have "kbind (parseredirs c') (tail c) ?s = kbind (parseredirs (REDIR c' w mode fd)) (tail c) rest"
      using w(2) by (simp add: kbind_def)
    then show "\<exists>c'. view c' = REDIR c f mode fd \<and>
        parseexec n (render (toks (REDIR c f mode fd) 3) rest) = kbind (parseredirs c') (tail (REDIR c f mode fd)) rest"
      using c w(1) by (intro exI [of _ "REDIR c' w mode fd"]) simp
  qed
qed

lemma P3_paren:
  assumes "P0 c" and "toks c 3 = [''(''] @ toks c 0 @ ['')'']" and "tail c = kret" and "printable c"
  shows "P3 c"
proof -
  obtain N where N: "\<And>n rest. N \<le> n \<Longrightarrow> follow '')'' rest \<Longrightarrow>
     \<exists>c'. view c' = c \<and> parseline n (render (toks c 0) rest) = Ok c' rest"
    using assms(1) unfolding P0_def by blast
  show ?thesis
    unfolding P3_def
  proof (intro exI [of _ "N + 2"] allI impI)
    fix n rest
    assume n: "N + 2 \<le> n" and rest: "follow ''<>|)&;'' rest"
    have ar: "at_token rest" by (rule follow_at_token [OF rest]) (simp add: symbols_def)
    obtain m where m: "n = Suc (Suc m)" "N \<le> m" using n by (metis Suc_le_D Suc_le_mono add_2_eq_Suc')
    let ?r = "CHR '')'' # CHR '' '' # rest"
    let ?s = "CHR ''('' # CHR '' '' # render (toks c 0) ?r"
    have ap: "at_token ?s" "at_token ?r" by (simp_all add: symbol_at_token symbols_def)
    have at: "at_token (render (toks c 0) ?r)" by (rule at_token_toks [OF assms(4) ap(2)])
    obtain c' where c: "view c' = c" "parseline m (render (toks c 0) ?r) = Ok c' ?r"
      using N [OF m(2), of ?r] by (auto simp: follow_def)
    have "parseexec n ?s = parseblock (Suc m) ?s"
      unfolding m parseexec.simps kpeek_at_token [OF ap(1)] by simp
    also have "\<dots> = kthen ktoken (kbind (parseline m) (\<lambda>c. kbind (kpeek '')'') (\<lambda>b.
           if \<not> b then kpanic ''syntax - missing )'' else kthen ktoken (parseredirs c)))) ?s"
      unfolding parseblock.simps kpeek_at_token [OF ap(1)] by simp
    also have "\<dots> = kbind (parseline m) (\<lambda>c. kbind (kpeek '')'') (\<lambda>b.
           if \<not> b then kpanic ''syntax - missing )'' else kthen ktoken (parseredirs c))) (render (toks c 0) ?r)"
      using ktoken_symbol [OF _ at, of "CHR ''(''"] by (simp add: symbols_def)
    also have "\<dots> = kthen ktoken (parseredirs c') ?r"
      by (simp add: kbind_def [of "parseline m"] c(2) kpeek_at_token [OF ap(2)])
    also have "\<dots> = parseredirs c' rest"
      using ktoken_symbol [OF _ ar, of "CHR '')''" "parseredirs c'"] by (simp add: symbols_def)
    finally show "\<exists>c'. view c' = c \<and> parseexec n (render (toks c 3) rest) = kbind (parseredirs c') (tail c) rest"
      using c(1) by (intro exI [of _ c']) (simp add: assms(2,3) kbind_kret)
  qed
qed

lemma P2_of_P3:
  assumes "P3 c" and "toks c 2 = toks c 3"
  shows "P2 c"
proof -
  obtain N where N: "\<And>n rest. N \<le> n \<Longrightarrow> follow ''<>|)&;'' rest \<Longrightarrow>
     \<exists>c'. view c' = c \<and> parseexec n (render (toks c 3) rest) = kbind (parseredirs c') (tail c) rest"
    using assms(1) unfolding P3_def by blast
  show ?thesis
    unfolding P2_def
  proof (intro exI [of _ "N + 1"] allI impI)
    fix n rest
    assume n: "N + 1 \<le> n" and rest: "follow '')&;'' rest"
    have ar: "at_token rest" by (rule follow_at_token [OF rest]) (simp add: symbols_def)
    obtain m where m: "n = Suc m" "N \<le> m" using n by (cases n) auto
    have "follow ''<>|)&;'' rest" using rest by (cases rest) (auto simp: follow_def)
    then obtain c' where c: "view c' = c" "parseexec m (render (toks c 3) rest) = kbind (parseredirs c') (tail c) rest"
      using N [OF m(2)] by blast
    have "rest = [] \<or> starts ''|)&;'' rest" using rest by (cases rest) (auto simp: follow_def)
    then have "parseexec m (render (toks c 3) rest) = Ok c' rest" using tail_stop [OF ar] c(2) by simp
    moreover have "\<not> starts ''|'' rest" using rest by (cases rest) (auto simp: follow_def)
    ultimately have "parsepipe n (render (toks c 2) rest) = Ok c' rest"
      unfolding m parsepipe.simps assms(2) by (simp add: kbind_def [of "parseexec m"] kpeek_at_token [OF ar])
    then show "\<exists>c'. view c' = c \<and> parsepipe n (render (toks c 2) rest) = Ok c' rest" using c(1) by blast
  qed
qed

lemma P1_of_P2:
  assumes "P2 c" and "toks c 1 = toks c 2"
  shows "P1 c"
proof -
  obtain N where N: "\<And>n rest. N \<le> n \<Longrightarrow> follow '')&;'' rest \<Longrightarrow>
     \<exists>c'. view c' = c \<and> parsepipe n (render (toks c 2) rest) = Ok c' rest"
    using assms(1) unfolding P2_def by blast
  have "\<exists>c'. view c' = c \<and> kbind (parsepipe n) back_loop (render (toks c 1) rest) = back_loop c' rest"
    if "N \<le> n" "follow '')&;'' rest" for n rest
    using N [OF that] unfolding assms(2) by (auto simp: kbind_def)
  then show ?thesis unfolding P1_def by blast
qed

lemma P0_of_P1:
  assumes "P1 c" and "toks c 0 = toks c 1"
  shows "P0 c"
proof -
  obtain N where N: "\<And>n rest. N \<le> n \<Longrightarrow> follow '')&;'' rest \<Longrightarrow>
     \<exists>c'. view c' = c \<and> kbind (parsepipe n) back_loop (render (toks c 1) rest) = back_loop c' rest"
    using assms(1) unfolding P1_def by blast
  show ?thesis
    unfolding P0_def
  proof (intro exI [of _ "N + 1"] allI impI)
    fix n rest
    assume n: "N + 1 \<le> n" and rest: "follow '')'' rest"
    have ar: "at_token rest" by (rule follow_at_token [OF rest]) (simp add: symbols_def)
    obtain m where m: "n = Suc m" "N \<le> m" using n by (cases n) auto
    have "follow '')&;'' rest" using rest by (cases rest) (auto simp: follow_def)
    then obtain c' where c: "view c' = c" "kbind (parsepipe m) back_loop (render (toks c 1) rest) = back_loop c' rest"
      using N [OF m(2)] by blast
    have ns: "\<not> starts ''&'' rest" "\<not> starts '';'' rest" using rest by (cases rest; auto simp: follow_def)+
    have b: "kbind (parsepipe m) back_loop (render (toks c 1) rest) = Ok c' rest"
      using c(2) back_loop_stop [OF ar ns(1)] by simp
    have "parseline n (render (toks c 0) rest) = Ok c' rest"
      unfolding m parseline.simps assms(2) kbind_assoc [symmetric] kbind_Ok [where m = "kbind (parsepipe m) back_loop" and s = "render (toks c 1) rest", OF b] kpeek_at_token [OF ar]
      by (simp add: ns(2))
    then show "\<exists>c'. view c' = c \<and> parseline n (render (toks c 0) rest) = Ok c' rest" using c(1) by blast
  qed
qed

lemma P2_PIPE:
  assumes "P3 l" and "P2 r" and "printable r"
  shows "P2 (PIPE l r)"
proof -
  obtain N where N: "\<And>n rest. N \<le> n \<Longrightarrow> follow ''<>|)&;'' rest \<Longrightarrow>
     \<exists>c'. view c' = l \<and> parseexec n (render (toks l 3) rest) = kbind (parseredirs c') (tail l) rest"
    using assms(1) unfolding P3_def by blast
  obtain M where M: "\<And>n rest. M \<le> n \<Longrightarrow> follow '')&;'' rest \<Longrightarrow>
     \<exists>c'. view c' = r \<and> parsepipe n (render (toks r 2) rest) = Ok c' rest"
    using assms(2) unfolding P2_def by blast
  show ?thesis
    unfolding P2_def
  proof (intro exI [of _ "N + M + 1"] allI impI)
    fix n rest
    assume n: "N + M + 1 \<le> n" and rest: "follow '')&;'' rest"
    have ar: "at_token rest" by (rule follow_at_token [OF rest]) (simp add: symbols_def)
    obtain m where m: "n = Suc m" "N \<le> m" "M \<le> m" using n by (cases n) auto
    let ?r = "render (toks r 2) rest"
    let ?b = "CHR ''|'' # CHR '' '' # ?r"
    have at: "at_token ?r" by (rule at_token_toks [OF assms(3) ar])
    have ab: "at_token ?b" by (rule symbol_at_token) (simp add: symbols_def)
    obtain l' where l: "view l' = l" "parseexec m (render (toks l 3) ?b) = kbind (parseredirs l') (tail l) ?b"
      using N [OF m(2), of ?b] by (auto simp: follow_def)
    have l2: "parseexec m (render (toks l 3) ?b) = Ok l' ?b" using tail_stop [OF ab] l(2) by simp
    obtain r' where r: "view r' = r" "parsepipe m ?r = Ok r' rest" using M [OF m(3) rest] by blast
    have "parsepipe n (render (toks l 3) ?b) = kthen ktoken (kbind (parsepipe m) (\<lambda>r. kret (PIPE l' r))) ?b"
      unfolding m parsepipe.simps by (simp add: kbind_def [of "parseexec m"] l2 kpeek_at_token [OF ab])
    also have "\<dots> = kbind (parsepipe m) (\<lambda>r. kret (PIPE l' r)) ?r"
      using ktoken_symbol [OF _ at, of "CHR ''|''"] by (simp add: symbols_def)
    also have "\<dots> = Ok (PIPE l' r') rest" by (simp add: kbind_def r(2))
    finally show "\<exists>c'. view c' = PIPE l r \<and> parsepipe n (render (toks (PIPE l r) 2) rest) = Ok c' rest"
      using l(1) r(1) by (intro exI [of _ "PIPE l' r'"]) (simp add: paren_def)
  qed
qed

lemma P1_BACK:
  assumes "P1 c"
  shows "P1 (BACK c)"
proof -
  obtain N where N: "\<And>n rest. N \<le> n \<Longrightarrow> follow '')&;'' rest \<Longrightarrow>
     \<exists>c'. view c' = c \<and> kbind (parsepipe n) back_loop (render (toks c 1) rest) = back_loop c' rest"
    using assms unfolding P1_def by blast
  show ?thesis
    unfolding P1_def
  proof (intro exI [of _ N] allI impI)
    fix n rest
    assume n: "N \<le> n" and rest: "follow '')&;'' rest"
    have ar: "at_token rest" by (rule follow_at_token [OF rest]) (simp add: symbols_def)
    let ?b = "CHR ''&'' # CHR '' '' # rest"
    obtain c' where c: "view c' = c" "kbind (parsepipe n) back_loop (render (toks c 1) ?b) = back_loop c' ?b"
      using N [OF n, of ?b] by (auto simp: follow_def)
    have p: "peek ?b ''&'' = (?b, True)" using peek_at_token [OF symbol_at_token, of "CHR ''&''"] by (simp add: symbols_def)
    obtain w where g: "gettoken ?b = (CHR ''&'', w, rest)"
      using gettoken_symbol [OF _ ar, of "CHR ''&''"] by (auto simp: symbols_def)
    have "back_loop c' ?b = back_loop (BACK c') rest"
      unfolding back_loop.simps [of c' ?b] p Let_def prod.case g by simp
    then show "\<exists>c'. view c' = BACK c \<and> kbind (parsepipe n) back_loop (render (toks (BACK c) 1) rest) = back_loop c' rest"
      using c by (intro exI [of _ "BACK c'"]) (simp add: paren_def)
  qed
qed

lemma P0_LIST:
  assumes "P1 l" and "P0 r" and "printable r"
  shows "P0 (LIST l r)"
proof -
  obtain N where N: "\<And>n rest. N \<le> n \<Longrightarrow> follow '')&;'' rest \<Longrightarrow>
     \<exists>c'. view c' = l \<and> kbind (parsepipe n) back_loop (render (toks l 1) rest) = back_loop c' rest"
    using assms(1) unfolding P1_def by blast
  obtain M where M: "\<And>n rest. M \<le> n \<Longrightarrow> follow '')'' rest \<Longrightarrow>
     \<exists>c'. view c' = r \<and> parseline n (render (toks r 0) rest) = Ok c' rest"
    using assms(2) unfolding P0_def by blast
  show ?thesis
    unfolding P0_def
  proof (intro exI [of _ "N + M + 1"] allI impI)
    fix n rest
    assume n: "N + M + 1 \<le> n" and rest: "follow '')'' rest"
    have ar: "at_token rest" by (rule follow_at_token [OF rest]) (simp add: symbols_def)
    obtain m where m: "n = Suc m" "N \<le> m" "M \<le> m" using n by (cases n) auto
    let ?r = "render (toks r 0) rest"
    let ?b = "CHR '';'' # CHR '' '' # ?r"
    have at: "at_token ?r" by (rule at_token_toks [OF assms(3) ar])
    have ab: "at_token ?b" by (rule symbol_at_token) (simp add: symbols_def)
    obtain l' where l: "view l' = l" "kbind (parsepipe m) back_loop (render (toks l 1) ?b) = back_loop l' ?b"
      using N [OF m(2), of ?b] by (auto simp: follow_def)
    have l2: "kbind (parsepipe m) back_loop (render (toks l 1) ?b) = Ok l' ?b" using l(2) back_loop_stop [OF ab] by simp
    obtain r' where r: "view r' = r" "parseline m ?r = Ok r' rest" using M [OF m(3) rest] by blast
    have "parseline n (render (toks l 1) ?b) = kthen ktoken (kbind (parseline m) (\<lambda>r. kret (LIST l' r))) ?b"
      unfolding m parseline.simps kbind_assoc [symmetric] kbind_Ok [where m = "kbind (parsepipe m) back_loop" and s = "render (toks l 1) ?b", OF l2] kpeek_at_token [OF ab] by simp
    also have "\<dots> = kbind (parseline m) (\<lambda>r. kret (LIST l' r)) ?r"
      using ktoken_symbol [OF _ at, of "CHR '';''"] by (simp add: symbols_def)
    also have "\<dots> = Ok (LIST l' r') rest" by (simp add: kbind_def r(2))
    finally show "\<exists>c'. view c' = LIST l r \<and> parseline n (render (toks (LIST l r) 0) rest) = Ok c' rest"
      using l(1) r(1) by (intro exI [of _ "LIST l' r'"]) (simp add: paren_def)
  qed
qed

lemma levels: "printable c \<Longrightarrow> P3 c \<and> P2 c \<and> P1 c \<and> P0 c"
proof (induction c)
  case (EXEC args)
  have "P3 (EXEC args)" by (rule P3_EXEC [OF EXEC])
  then have "P2 (EXEC args)" by (rule P2_of_P3) simp
  then have "P1 (EXEC args)" by (rule P1_of_P2) simp
  then have "P0 (EXEC args)" by (rule P0_of_P1) simp
  show ?case using \<open>P3 (EXEC args)\<close> \<open>P2 (EXEC args)\<close> \<open>P1 (EXEC args)\<close> \<open>P0 (EXEC args)\<close> by blast
next
  case (REDIR c f mode fd)
  have 3: "P3 (REDIR c f mode fd)" by (rule P3_REDIR [OF REDIR.prems]) (use REDIR in simp)
  have 2: "P2 (REDIR c f mode fd)" by (rule P2_of_P3 [OF 3]) simp
  have 1: "P1 (REDIR c f mode fd)" by (rule P1_of_P2 [OF 2]) simp
  have "P0 (REDIR c f mode fd)" by (rule P0_of_P1 [OF 1]) simp
  then show ?case using 1 2 3 by blast
next
  case (PIPE l r)
  have 2: "P2 (PIPE l r)" by (rule P2_PIPE) (use PIPE in simp_all)
  have 1: "P1 (PIPE l r)" by (rule P1_of_P2 [OF 2]) (simp add: paren_def)
  have 0: "P0 (PIPE l r)" by (rule P0_of_P1 [OF 1]) (simp add: paren_def)
  have "P3 (PIPE l r)" by (rule P3_paren [OF 0 _ _ PIPE.prems]) (simp_all add: paren_def)
  then show ?case using 0 1 2 by blast
next
  case (LIST l r)
  have 0: "P0 (LIST l r)" by (rule P0_LIST) (use LIST in simp_all)
  have 3: "P3 (LIST l r)" by (rule P3_paren [OF 0 _ _ LIST.prems]) (simp_all add: paren_def)
  have 2: "P2 (LIST l r)" by (rule P2_of_P3 [OF 3]) (simp add: paren_def)
  have "P1 (LIST l r)" by (rule P1_of_P2 [OF 2]) (simp add: paren_def)
  then show ?case using 0 2 3 by blast
next
  case (BACK c)
  have 1: "P1 (BACK c)" by (rule P1_BACK) (use BACK in simp)
  have 0: "P0 (BACK c)" by (rule P0_of_P1 [OF 1]) (simp add: paren_def)
  have 3: "P3 (BACK c)" by (rule P3_paren [OF 0 _ _ BACK.prems]) (simp_all add: paren_def)
  have "P2 (BACK c)" by (rule P2_of_P3 [OF 3]) (simp add: paren_def)
  then show ?case using 0 1 3 by blast
qed

text \<open>More fuel does not change an answer.\<close>

definition same_or_hang :: "('s, 'a) outcome \<Rightarrow> ('s, 'a) outcome \<Rightarrow> bool" where
  "same_or_hang x y \<longleftrightarrow> x = Hang \<or> x = y"

lemma same_kbind:
  "same_or_hang (m s) (m' s) \<Longrightarrow> (\<And>a s'. m s = Ok a s' \<Longrightarrow> same_or_hang (f a s') (f' a s')) \<Longrightarrow>
   same_or_hang (kbind m f s) (kbind m' f' s)"
  by (auto simp: same_or_hang_def kbind_def split: outcome.splits)

lemma same_refl: "same_or_hang x x"
  by (simp add: same_or_hang_def)

declare parseline.simps(2) [simp del] parsepipe.simps(2) [simp del] parseblock.simps(2) [simp del] parseexec.simps(2) [simp del]

lemma parse_more_fuel:
  "same_or_hang (parseline n s) (parseline (Suc n) s) \<and> same_or_hang (parsepipe n s) (parsepipe (Suc n) s) \<and>
   same_or_hang (parseblock n s) (parseblock (Suc n) s) \<and> same_or_hang (parseexec n s) (parseexec (Suc n) s)"
proof (induction n arbitrary: s)
  case 0
  then show ?case by (simp add: same_or_hang_def)
next
  case (Suc n)
  have IH: "same_or_hang (parseline n s) (parseline (Suc n) s)" "same_or_hang (parsepipe n s) (parsepipe (Suc n) s)"
    "same_or_hang (parseblock n s) (parseblock (Suc n) s)" "same_or_hang (parseexec n s) (parseexec (Suc n) s)" for s
    using Suc.IH by blast+
  have k: "same_or_hang (kthen ktoken p s) (kthen ktoken q s)" if "\<And>s. same_or_hang (p s) (q s)" for p q :: "'a parser" and s
    unfolding kthen_def by (rule same_kbind [OF same_refl]) (rule that)
  show ?case
  proof (intro conjI)
    show "same_or_hang (parseline (Suc n) s) (parseline (Suc (Suc n)) s)"
      unfolding parseline.simps(2) [of n s] parseline.simps(2) [of "Suc n" s]
      by (rule same_kbind [OF IH(2)], rule same_kbind [OF same_refl], rule same_kbind [OF same_refl])
        (auto intro!: k same_kbind IH(1) same_refl)
    show "same_or_hang (parsepipe (Suc n) s) (parsepipe (Suc (Suc n)) s)"
      unfolding parsepipe.simps(2) [of n s] parsepipe.simps(2) [of "Suc n" s]
      by (rule same_kbind [OF IH(4)], rule same_kbind [OF same_refl])
        (auto intro!: k same_kbind IH(2) same_refl)
    show "same_or_hang (parseblock (Suc n) s) (parseblock (Suc (Suc n)) s)"
      unfolding parseblock.simps(2) [of n s] parseblock.simps(2) [of "Suc n" s]
      by (rule same_kbind [OF same_refl])
        (auto intro!: k same_kbind IH(1) same_refl)
    show "same_or_hang (parseexec (Suc n) s) (parseexec (Suc (Suc n)) s)"
      unfolding parseexec.simps(2) [of n s] parseexec.simps(2) [of "Suc n" s]
      by (rule same_kbind [OF same_refl]) (simp add: same_refl IH(3))
  qed
qed

lemma parseline_more_fuel: "n \<le> m \<Longrightarrow> parseline n s \<noteq> Hang \<Longrightarrow> parseline m s = parseline n s"
proof (induction m rule: nat_induct_at_least)
  case (Suc m)
  then have "parseline m s = parseline n s" by simp
  then show ?case using parse_more_fuel [of m s] Suc.prems by (simp add: same_or_hang_def)
qed simp

section \<open>Running commands\<close>

text \<open>
  What a descriptor refers to; pipes are numbered in the order they are made. The environment says
  which files can be opened and which calls of fork succeed (counted from 0).
\<close>

datatype obj = Console | File string int | PipeR nat | PipeW nat

type_synonym fds = "nat \<Rightarrow> obj option"

record environment =
  e_opens :: "string \<Rightarrow> int \<Rightarrow> bool"
  e_forks :: "nat \<Rightarrow> bool"

definition NOFILE :: nat where "NOFILE = 16"

text \<open>The system calls on descriptors, as sysfile.c has them: the lowest free descriptor is taken.\<close>

definition fdalloc :: "fds \<Rightarrow> obj \<Rightarrow> (nat \<times> fds) option" where
  "fdalloc ft x = map_option (\<lambda>fd. (fd, ft(fd \<mapsto> x))) (find (\<lambda>fd. ft fd = None) [0..<NOFILE])"

definition close :: "int \<Rightarrow> fds \<Rightarrow> fds" where
  "close fd ft = (if 0 \<le> fd then ft(nat fd := None) else ft)"

definition dup :: "nat \<Rightarrow> fds \<Rightarrow> fds" where
  "dup fd ft = (case ft fd of None \<Rightarrow> ft | Some x \<Rightarrow> (case fdalloc ft x of None \<Rightarrow> ft | Some (_, ft') \<Rightarrow> ft'))"

definition pipe :: "nat \<Rightarrow> fds \<Rightarrow> (nat \<times> nat \<times> fds) option" where
  "pipe k ft =
     (case fdalloc ft (PipeR k) of None \<Rightarrow> None
      | Some (fd0, ft) \<Rightarrow> (case fdalloc ft (PipeW k) of None \<Rightarrow> None | Some (fd1, ft) \<Rightarrow> Some (fd0, fd1, ft)))"

text \<open>
  runcmd: the calls of exec it makes, in this process and its children, each with the descriptors at
  the call; the state counts the pipes and the forks.
\<close>

fun runcmd :: "environment \<Rightarrow> string cmd \<Rightarrow> fds \<Rightarrow> nat \<times> nat \<Rightarrow> (string list \<times> fds) list \<times> nat \<times> nat" where
  "runcmd env (EXEC args) ft st = (if args = [] then [] else [(args, ft)], st)"
| "runcmd env (REDIR c f mode fd) ft st =
     (let ft = close fd ft in
      if \<not> e_opens env f mode then ([], st)
      else (case fdalloc ft (File f mode) of None \<Rightarrow> ([], st) | Some (_, ft) \<Rightarrow> runcmd env c ft st))"
| "runcmd env (LIST l r) ft (k, n) =
     (if \<not> e_forks env n then ([], k, n + 1)
      else let (xs, st) = runcmd env l ft (k, n + 1); (ys, st) = runcmd env r ft st in (xs @ ys, st))"
| "runcmd env (PIPE l r) ft (k, n) =
     (case pipe k ft of
        None \<Rightarrow> ([], k, n)
      | Some (p0, p1, ft) \<Rightarrow>
          if \<not> e_forks env n then ([], k + 1, n + 1)
          else let (xs, k, n) = runcmd env l (close (int p1) (close (int p0) (dup p1 (close 1 ft)))) (k + 1, n + 1) in
            if \<not> e_forks env n then (xs, k, n + 1)
            else let (ys, st) = runcmd env r (close (int p1) (close (int p0) (dup p0 (close 0 ft)))) (k, n + 1)
              in (xs @ ys, st))"
| "runcmd env (BACK c) ft (k, n) =
     (if \<not> e_forks env n then ([], k, n + 1) else runcmd env c ft (k, n + 1))"

text \<open>main: the descriptors it makes sure of, and the lines it reads, up to 99 characters at a time.\<close>

fun ensure_fds :: "nat \<Rightarrow> fds \<Rightarrow> fds" where
  "ensure_fds 0 ft = ft"
| "ensure_fds (Suc n) ft =
     (case fdalloc ft Console of None \<Rightarrow> ft
      | Some (fd, ft') \<Rightarrow> if fd \<ge> 3 then close (int fd) ft' else ensure_fds n ft')"

datatype action = Chdir string | Run string

definition getcmd :: "string \<Rightarrow> (string \<times> string) option" where
  "getcmd input = (let (line, rest) = gets 100 input; s = takeWhile (\<lambda>c. c \<noteq> NUL) line
     in if s = [] then None else Some (s, rest))"

lemma gets_loop_length: "gets_loop n input = (line, rest) \<Longrightarrow> length line + length rest = length input"
  by (induction n input arbitrary: line rest rule: gets_loop.induct) (auto split: if_splits prod.splits)

lemma getcmd_length: "getcmd input = Some (s, rest) \<Longrightarrow> length rest < length input"
proof -
  assume g: "getcmd input = Some (s, rest)"
  obtain line r where l: "gets 100 input = (line, r)" by fastforce
  then have "r = rest" "line \<noteq> []" using g by (auto simp: getcmd_def Let_def split: if_splits)
  then show ?thesis using gets_loop_length [of "100 - 1" input line r] l by (cases line) (auto simp: gets_def)
qed

function sh_main :: "string \<Rightarrow> action list" where
  "sh_main input =
     (case getcmd input of
        None \<Rightarrow> []
      | Some (buf, rest) \<Rightarrow>
          (if take 3 buf = ''cd '' then Chdir (drop 3 (butlast buf)) else Run buf) # sh_main rest)"
  by pat_completeness auto
termination
  by (relation "measure length") (auto dest: getcmd_length)

declare sh_main.simps [simp del]

section \<open>The plumbing\<close>

text \<open>
  The meaning of a command with standard input \<open>i\<close>, output \<open>out\<close> and error \<open>e\<close>: the programs it
  runs, each with its three streams, and no others open.
\<close>

fun plumb :: "environment \<Rightarrow> string cmd \<Rightarrow> obj \<Rightarrow> obj \<Rightarrow> obj \<Rightarrow> nat \<times> nat \<Rightarrow> (string list \<times> obj \<times> obj \<times> obj) list \<times> nat \<times> nat" where
  "plumb env (EXEC args) i out e st = (if args = [] then [] else [(args, i, out, e)], st)"
| "plumb env (REDIR c f mode fd) i out e st =
     (if \<not> e_opens env f mode then ([], st)
      else if fd = 0 then plumb env c (File f mode) out e st else plumb env c i (File f mode) e st)"
| "plumb env (LIST l r) i out e (k, n) =
     (if \<not> e_forks env n then ([], k, n + 1)
      else let (xs, st) = plumb env l i out e (k, n + 1); (ys, st) = plumb env r i out e st in (xs @ ys, st))"
| "plumb env (PIPE l r) i out e (k, n) =
     (if \<not> e_forks env n then ([], k + 1, n + 1)
      else let (xs, k', n) = plumb env l i (PipeW k) e (k + 1, n + 1) in
        if \<not> e_forks env n then (xs, k', n + 1)
        else let (ys, st) = plumb env r (PipeR k) out e (k', n + 1) in (xs @ ys, st))"
| "plumb env (BACK c) i out e (k, n) =
     (if \<not> e_forks env n then ([], k, n + 1) else plumb env c i out e (k, n + 1))"

definition table :: "obj \<Rightarrow> obj \<Rightarrow> obj \<Rightarrow> fds" where
  "table i out e = [0 \<mapsto> i, 1 \<mapsto> out, 2 \<mapsto> e]"

text \<open>Redirections as the parser makes them.\<close>

fun std_redirs :: "'w cmd \<Rightarrow> bool" where
  "std_redirs (EXEC args) = True"
| "std_redirs (REDIR c f mode fd) = ((fd = 0 \<or> fd = 1) \<and> std_redirs c)"
| "std_redirs (PIPE l r) = (std_redirs l \<and> std_redirs r)"
| "std_redirs (LIST l r) = (std_redirs l \<and> std_redirs r)"
| "std_redirs (BACK c) = std_redirs c"

lemma NOFILE_upt: "[0..<NOFILE] = [0, 1, 2, 3, 4] @ [5..<NOFILE]"
  by (simp add: NOFILE_def upt_rec)

lemma fdalloc_table:
  "fdalloc ((table i out e)(0 := None)) x = Some (0, table x out e)"
  "fdalloc ((table i out e)(1 := None)) x = Some (1, table i x e)"
  "fdalloc (table i out e) x = Some (3, (table i out e)(3 \<mapsto> x))"
  "fdalloc ((table i out e)(3 \<mapsto> y)) x = Some (4, (table i out e)(3 \<mapsto> y, 4 \<mapsto> x))"
  unfolding fdalloc_def NOFILE_upt by (auto simp: table_def find_append fun_eq_iff)

lemma pipe_table: "pipe k (table i out e) = Some (3, 4, (table i out e)(3 \<mapsto> PipeR k, 4 \<mapsto> PipeW k))"
  by (simp add: pipe_def fdalloc_table)

lemma pipe_ends:
  "close 4 (close 3 (dup 4 (close 1 ((table i out e)(3 \<mapsto> PipeR k, 4 \<mapsto> PipeW k))))) = table i (PipeW k) e"
  "close 4 (close 3 (dup 3 (close 0 ((table i out e)(3 \<mapsto> PipeR k, 4 \<mapsto> PipeW k))))) = table (PipeR k) out e"
  unfolding dup_def close_def fdalloc_def NOFILE_upt by (auto simp: table_def find_append fun_eq_iff)

definition with_table :: "(string list \<times> obj \<times> obj \<times> obj) list \<times> nat \<times> nat \<Rightarrow> (string list \<times> fds) list \<times> nat \<times> nat" where
  "with_table = apfst (map (\<lambda>(args, i, out, e). (args, table i out e)))"

lemma runcmd_plumb: "std_redirs c \<Longrightarrow> runcmd env c (table i out e) st = with_table (plumb env c i out e st)"
proof (induction c arbitrary: i out e st)
  case (EXEC args)
  then show ?case by (simp add: with_table_def)
next
  case (REDIR c f mode fd)
  then have "fd = 0 \<or> fd = 1" by simp
  then show ?case
    using REDIR fdalloc_table(1,2) by (elim disjE) (simp_all add: close_def with_table_def)
next
  case (PIPE l r)
  obtain k n where st: "st = (k, n)" by fastforce
  obtain xs k' n' where l: "plumb env l i (PipeW k) e (k + 1, n + 1) = (xs, k', n')" using prod_cases3 by blast
  obtain ys st' where r: "plumb env r (PipeR k) out e (k', n' + 1) = (ys, st')" by (metis surj_pair)
  have "runcmd env l (table i (PipeW k) e) (k + 1, n + 1) = with_table (xs, k', n')"
    "runcmd env r (table (PipeR k) out e) (k', n' + 1) = with_table (ys, st')"
    using PIPE l r by simp_all
  then show ?case using l r by (simp add: st pipe_table pipe_ends with_table_def)
next
  case (LIST l r)
  obtain k n where st: "st = (k, n)" by fastforce
  obtain xs st1 where l: "plumb env l i out e (k, n + 1) = (xs, st1)" by (metis surj_pair)
  obtain ys st2 where r: "plumb env r i out e st1 = (ys, st2)" by (metis surj_pair)
  have "runcmd env l (table i out e) (k, n + 1) = with_table (xs, st1)"
    "runcmd env r (table i out e) st1 = with_table (ys, st2)"
    using LIST l r by simp_all
  then show ?case using l r by (simp add: st with_table_def)
next
  case (BACK c)
  obtain k n where st: "st = (k, n)" by fastforce
  show ?case using BACK by (simp add: st with_table_def)
qed

lemma std_redirs_view: "std_redirs (map_cmd f c) = std_redirs c"
  by (induction c) auto

lemma ensure_table: "ensure_fds 17 (\<lambda>_. None) = table Console Console Console"
proof -
  have "fdalloc (\<lambda>_. None) x = Some (0, [0 \<mapsto> x])" "fdalloc [0 \<mapsto> y] x = Some (1, [0 \<mapsto> y, 1 \<mapsto> x])"
    "fdalloc [0 \<mapsto> y, 1 \<mapsto> z] x = Some (2, [0 \<mapsto> y, 1 \<mapsto> z, 2 \<mapsto> x])" for x y z
    unfolding fdalloc_def NOFILE_upt by (auto simp: find_append)
  moreover have "fdalloc [0 \<mapsto> x, 1 \<mapsto> x, 2 \<mapsto> x] x = Some (3, [0 \<mapsto> x, 1 \<mapsto> x, 2 \<mapsto> x, 3 \<mapsto> x])" for x
    using fdalloc_table(3) [of x x x x] by (simp add: table_def)
  ultimately show ?thesis
    by (simp add: numeral_eq_Suc close_def table_def fun_eq_iff)
qed

lemma parse_unparse_aux:
  assumes "printable c"
  shows "\<exists>c' buf. parsecmd (unparse c) = Ok (c', buf) [] \<and> view c' = c"
proof -
  let ?s = "unparse c"
  obtain N where "\<And>n. N \<le> n \<Longrightarrow> \<exists>c'. view c' = c \<and> parseline n ?s = Ok c' []"
    using levels [OF assms] unfolding P0_def unparse_def by (auto simp: follow_def)
  then obtain c' where c: "view c' = c" "parseline (max N (parse_fuel ?s)) ?s = Ok c' []" by (meson max.cobounded1)
  have "good ?s ?s (parseline (parse_fuel ?s) ?s)" using parse_good [of ?s ?s "parse_fuel ?s"] by (simp add: parse_fuel_def)
  then have "parseline (parse_fuel ?s) ?s \<noteq> Hang" by (auto simp: good_def)
  then have "parseline (parse_fuel ?s) ?s = Ok c' []"
    using parseline_more_fuel [of "parse_fuel ?s" "max N (parse_fuel ?s)" ?s] c(2) by simp
  then have "parsecmd ?s = Ok (c', nulterminate c' (?s @ [NUL])) []"
    by (simp add: parsecmd_def kbind_def kthen_def kpeek_def peek_def)
  then show ?thesis using c(1) by blast
qed

definition ex_cmd :: "string cmd" where
  "ex_cmd = LIST (BACK (PIPE (REDIR (EXEC [''cat'']) ''in'' O_RDONLY 0) (EXEC [''wc'']))) (EXEC [''ls'', ''-l''])"

lemma ex_printable: "printable ex_cmd"
  by (simp add: ex_cmd_def plain_def ordinary_def whitespace_def symbols_def NUL_def MAXARGS_def)

section \<open>Properties\<close>

text \<open>C36: the parser always answers. Whatever the line, parsecmd ends within its fuel: it returns a command
  whose words are stretches of ordinary characters of the line, or it stops with one of the four
  syntax errors.\<close>

theorem parsecmd_terminates:
  "(\<exists>c buf. parsecmd line = Ok (c, buf) [] \<and> (\<forall>w\<in>spans c. word_span line w)) \<or>
   (\<exists>e. parsecmd line = Panic e \<and> e \<in> parse_errors)"
  using parsecmd_total [of line] by blast

theorem parsecmd_terminates_witness:
  "\<exists>c buf. parsecmd ''ls'' = Ok (c, buf) [] \<and> (\<forall>w\<in>spans c. word_span ''ls'' w)"
proof -
  have "unparse (EXEC [''ls'']) = ''ls ''" by (simp add: unparse_def)
  have "skip_white ''ls'' = ''ls''" by (rule at_token_Cons) (simp add: whitespace_def)
  then have "parsecmd ''ls'' \<noteq> Panic e" for e
    by (simp add: parsecmd_def parse_fuel_def numeral_eq_Suc parseline.simps parsepipe.simps parseexec.simps kbind_def kthen_def
        kpeek_def peek_def parseredirs.simps back_loop.simps args_loop.simps gettoken_def ordinary_def whitespace_def
        symbols_def NUL_def MAXARGS_def)
  then show ?thesis using parsecmd_terminates [of "''ls''"] by blast
qed

text \<open>NUL termination. In the buffer that parsecmd leaves, the C string at the start of every word of
  the command is that word: terminating one word never cuts or extends another.\<close>

theorem words_terminated:
  assumes "parsecmd line = Ok (c, buf) s" and "c_string line" and "w \<in> spans c"
  shows "takeWhile (\<lambda>x. x \<noteq> NUL) (drop (length line - length (fst w)) buf) = word_of w"
proof -
  obtain c' where "parsecmd line = Ok (c', nulterminate c' (line @ [NUL])) []" "\<forall>w\<in>spans c'. word_span line w"
    using parsecmd_total [of line] assms(1) by auto
  then have b: "buf = nulterminate c (line @ [NUL])" and ws: "\<forall>w\<in>spans c. word_span line w" using assms(1) by auto
  have "nul_inv line (line @ [NUL])" by (simp add: nul_inv_def nth_append)
  from nulterminate_inv [OF this ws] show ?thesis
    using c_string_at [of line buf w] b ws assms(2,3) by auto
qed

theorem words_terminated_witness:
  "\<exists>c buf w. parsecmd (unparse ex_cmd) = Ok (c, buf) [] \<and> w \<in> spans c \<and>
    takeWhile (\<lambda>x. x \<noteq> NUL) (drop (length (unparse ex_cmd) - length (fst w)) buf) = ''wc''"
proof -
  obtain c buf where p: "parsecmd (unparse ex_cmd) = Ok (c, buf) []" "view c = ex_cmd"
    using parse_unparse_aux [OF ex_printable] by blast
  have "''wc'' \<in> spans (view c)" by (simp add: p(2) ex_cmd_def)
  then obtain w where w: "w \<in> spans c" "word_of w = ''wc''" by (auto simp: cmd.set_map)
  have "c_string (unparse ex_cmd)"
    by (simp add: unparse_def ex_cmd_def paren_def c_string_def NUL_def)
  from words_terminated [OF p(1) this w(1)] show ?thesis
    using p(1) w by (intro exI [of _ c] exI [of _ buf] exI [of _ w]) simp
qed

text \<open>C34: round trip. Parsing the printed form of any command the syntax can express, with fewer than ten
  arguments per program, gives the command back.\<close>

theorem parse_unparse:
  assumes "printable c"
  shows "\<exists>c' buf. parsecmd (unparse c) = Ok (c', buf) [] \<and> view c' = c"
  using parse_unparse_aux [OF assms] .

theorem parse_unparse_witness:
  "\<exists>c' buf. parsecmd ''cat < in | wc & ; ls -l '' = Ok (c', buf) [] \<and> view c' = ex_cmd"
proof -
  have "unparse ex_cmd = ''cat < in | wc & ; ls -l ''" by (simp add: unparse_def ex_cmd_def paren_def)
  then show ?thesis using parse_unparse [OF ex_printable] by simp
qed



end
