(* ===== verification/Kalloc.thy ===== *)
theory Kalloc
  imports Prelude
begin

unbundle bit_operations_syntax

text \<open>
  kalloc.c and the macros of memlayout.h and mmu.h it uses: the allocator of physical pages. Memory
  is a function from the kernel addresses of aligned words to words. The free list runs through
  the first words of the free pages; it refines a stack of pages.
\<close>

section \<open>Addresses\<close>

definition PGSIZE :: uint where "PGSIZE = 4096"
definition PHYSTOP :: uint where "PHYSTOP = 0xE000000"
definition VBASE :: uint where "VBASE = 0x80000000"

definition V2P :: "uint \<Rightarrow> uint" where "V2P a = a - VBASE"
definition P2V :: "uint \<Rightarrow> uint" where "P2V a = a + VBASE"

definition PGROUNDUP :: "uint \<Rightarrow> uint" where "PGROUNDUP sz = (sz + PGSIZE - 1) AND NOT (PGSIZE - 1)"
definition PGROUNDDOWN :: "uint \<Rightarrow> uint" where "PGROUNDDOWN a = a AND NOT (PGSIZE - 1)"

lemma V2P_P2V [simp]: "V2P (P2V a) = a" "P2V (V2P a) = a"
  by (simp_all add: V2P_def P2V_def)

text \<open>Arithmetic of pages by numbers: page number and offset.\<close>

lemma and_not_mask: "(a :: uint) AND NOT (mask n) = a - take_bit n a"
proof -
  have "take_bit n a = a AND mask n" by (simp add: take_bit_eq_mask)
  moreover have "a - (a AND mask n) = a AND NOT (a AND mask n)" by (rule disjunctive_diff) (simp add: bit_and_iff)
  moreover have "a AND NOT (a AND mask n) = a AND NOT (mask n)"
    by (rule bit_eqI) (auto simp: bit_simps)
  ultimately show ?thesis by simp
qed

lemma unat_PGROUNDDOWN: "unat (PGROUNDDOWN a) = unat a div 4096 * 4096"
proof -
  have "PGROUNDDOWN a = a - take_bit 12 a"
    using and_not_mask [of a 12] by (simp add: PGROUNDDOWN_def PGSIZE_def mask_eq_exp_minus_1)
  moreover have "unat (take_bit 12 a) = unat a mod 4096"
    by (simp add: unsigned_take_bit_eq take_bit_eq_mod unat_mod)
  moreover have "take_bit 12 a \<le> a" by (simp add: word_le_nat_alt unsigned_take_bit_eq take_bit_nat_less_eq_self)
  ultimately show ?thesis by (simp add: unat_sub minus_mod_eq_div_mult)
qed

text \<open>The page a word of memory is in.\<close>

abbreviation page_of :: "uint \<Rightarrow> uint" where "page_of \<equiv> PGROUNDDOWN"

definition aligned :: "uint \<Rightarrow> bool" where "aligned a \<longleftrightarrow> unat a mod 4096 = 0"

lemma page_of_page [simp]: "aligned a \<Longrightarrow> page_of a = a"
  using unat_PGROUNDDOWN [of a] by (simp add: aligned_def word_unat_eq_iff minus_mod_eq_div_mult [symmetric])

lemma aligned_page_of [simp]: "aligned (page_of a)"
  by (simp add: aligned_def unat_PGROUNDDOWN)

section \<open>The allocator\<close>

text \<open>
  The spin lock only makes kalloc and kfree atomic. \<open>kend\<close> is the address of the symbol \<open>end\<close> of
  kernel.ld.
\<close>

type_synonym wmem = "uint \<Rightarrow> uint"

record kmem =
  km_mem :: wmem
  km_freelist :: uint
  km_use_lock :: bool

definition fill_page :: "uint \<Rightarrow> uint \<Rightarrow> wmem \<Rightarrow> wmem" where
  "fill_page v w m = (\<lambda>a. if page_of a = v then w else m a)"

definition kfree :: "uint \<Rightarrow> uint \<Rightarrow> ('z kmem_scheme, unit) routine" where
  "kfree kend v s =
     (if v mod PGSIZE \<noteq> 0 \<or> v < kend \<or> V2P v \<ge> PHYSTOP then Panic ''kfree''
      else let s = s\<lparr>km_mem := fill_page v 0x01010101 (km_mem s)\<rparr>;
               s = s\<lparr>km_mem := (km_mem s)(v := km_freelist s)\<rparr>
        in Ok () (s\<lparr>km_freelist := v\<rparr>))"

definition kalloc :: "('z kmem_scheme, uint) routine" where
  "kalloc s =
     (let r = km_freelist s in
      Ok r (if r \<noteq> 0 then s\<lparr>km_freelist := km_mem s r\<rparr> else s))"

text \<open>The loop of freerange; comparing \<open>p + PGSIZE\<close> with \<open>vend\<close> the pointer does not wrap around.\<close>

function freerange_loop :: "uint \<Rightarrow> uint \<Rightarrow> uint \<Rightarrow> ('z kmem_scheme, unit) routine" where
  "freerange_loop kend p vend s =
     (if unat p + 4096 \<le> unat vend then kthen (kfree kend p) (freerange_loop kend (p + PGSIZE) vend) s
      else Ok () s)"
  by pat_completeness auto
termination
proof (relation "measure (\<lambda>(kend, p, vend, s). unat vend - unat p)")
  fix kend p vend :: uint and s x :: "'z kmem_scheme"
  assume "unat p + 4096 \<le> unat vend"
  moreover from this have "unat (p + PGSIZE) = unat p + 4096"
    using unat_uint_bound [of vend] by (simp add: PGSIZE_def unat_add_lem [THEN iffD1])
  ultimately show "((kend, p + PGSIZE, vend, x), kend, p, vend, s) \<in> measure (\<lambda>(kend, p, vend, s). unat vend - unat p)"
    by simp
qed simp

declare freerange_loop.simps [simp del]

definition freerange :: "uint \<Rightarrow> uint \<Rightarrow> uint \<Rightarrow> ('z kmem_scheme, unit) routine" where
  "freerange kend vstart vend = freerange_loop kend (PGROUNDUP vstart) vend"

definition kinit1 :: "uint \<Rightarrow> uint \<Rightarrow> uint \<Rightarrow> ('z kmem_scheme, unit) routine" where
  "kinit1 kend vstart vend = kthen (kmod (\<lambda>s. s\<lparr>km_use_lock := False\<rparr>)) (freerange kend vstart vend)"

definition kinit2 :: "uint \<Rightarrow> uint \<Rightarrow> uint \<Rightarrow> ('z kmem_scheme, unit) routine" where
  "kinit2 kend vstart vend = kthen (freerange kend vstart vend) (kmod (\<lambda>s. s\<lparr>km_use_lock := True\<rparr>))"

section \<open>The free list refines a stack of pages\<close>

definition page_ok :: "uint \<Rightarrow> uint \<Rightarrow> bool" where
  "page_ok kend v \<longleftrightarrow> aligned v \<and> kend \<le> v \<and> V2P v < PHYSTOP"

fun flist :: "wmem \<Rightarrow> uint \<Rightarrow> uint list \<Rightarrow> bool" where
  "flist m a [] \<longleftrightarrow> a = 0"
| "flist m a (v # l) \<longleftrightarrow> a = v \<and> v \<noteq> 0 \<and> flist m (m v) l"

definition frees :: "uint \<Rightarrow> 'z kmem_scheme \<Rightarrow> uint list \<Rightarrow> bool" where
  "frees kend s l \<longleftrightarrow> flist (km_mem s) (km_freelist s) l \<and> distinct l \<and> (\<forall>v\<in>set l. page_ok kend v)"

lemma flist_cong: "(\<And>v. v \<in> set l \<Longrightarrow> m v = m' v) \<Longrightarrow> flist m a l = flist m' a l"
  by (induction l arbitrary: a) auto

lemma aligned_mod: "aligned v \<longleftrightarrow> v mod PGSIZE = 0"
  by (simp add: aligned_def PGSIZE_def word_unat_eq_iff unat_mod)

lemma page_ok_pages:
  assumes "page_ok kend v"
  shows "v mod PGSIZE = 0" "page_of v = v"
  using assms by (simp_all add: page_ok_def aligned_mod)

lemma page_ok_not_0: "VBASE \<le> kend \<Longrightarrow> page_ok kend v \<Longrightarrow> v \<noteq> 0"
  by (auto simp: page_ok_def VBASE_def)

lemma frees_cong:
  assumes "frees kend s l" and "km_freelist t = km_freelist s"
    and "\<And>a. page_of a \<in> set l \<Longrightarrow> km_mem t a = km_mem s a"
  shows "frees kend t l"
proof -
  have "flist (km_mem t) (km_freelist t) l = flist (km_mem s) (km_freelist t) l"
  proof (rule flist_cong)
    fix v assume v: "v \<in> set l"
    then have "page_of v = v" using assms(1) by (simp add: frees_def page_ok_pages(2) [of kend])
    then show "km_mem t v = km_mem s v" using v assms(3) [of v] by simp
  qed
  then show ?thesis using assms(1,2) by (simp add: frees_def)
qed

lemma kalloc_spec:
  assumes "frees kend s l"
  shows "kalloc s = (case l of [] \<Rightarrow> Ok 0 s | v # l' \<Rightarrow> Ok v (s\<lparr>km_freelist := km_mem s v\<rparr>))"
    and "l = v # l' \<Longrightarrow> frees kend (s\<lparr>km_freelist := km_mem s v\<rparr>) l'"
  using assms by (auto simp: kalloc_def frees_def Let_def split: list.split)

lemma kfree_spec:
  assumes f: "frees kend s l" and v: "page_ok kend v" "v \<notin> set l" and k: "VBASE \<le> kend"
  shows "\<exists>t. kfree kend v s = Ok () t \<and> frees kend t (v # l) \<and>
    (\<forall>a. page_of a \<noteq> v \<longrightarrow> km_mem t a = km_mem s a) \<and> kmem.more t = kmem.more s \<and> km_use_lock t = km_use_lock s"
proof -
  let ?m = "(fill_page v 0x01010101 (km_mem s))(v := km_freelist s)"
  let ?t = "s\<lparr>km_mem := ?m, km_freelist := v\<rparr>"
  have "kfree kend v s = Ok () ?t"
    using v(1) page_ok_pages [OF v(1)] by (auto simp: kfree_def Let_def page_ok_def not_less not_le)
  moreover have "flist ?m (km_freelist s) l = flist (km_mem s) (km_freelist s) l"
  proof (rule flist_cong)
    fix x assume x: "x \<in> set l"
    then have "page_of x = x" using f by (simp add: frees_def page_ok_pages(2) [of kend])
    with x v(2) show "?m x = km_mem s x" by (auto simp: fill_page_def)
  qed
  then have "frees kend ?t (v # l)"
    using f v page_ok_not_0 [OF k v(1)] by (simp add: frees_def)
  moreover have "km_mem ?t a = km_mem s a" if "page_of a \<noteq> v" for a
    using that page_ok_pages(2) [OF v(1)] by (auto simp: fill_page_def)
  ultimately show ?thesis by (intro exI [of _ ?t]) auto
qed

lemma kfree_panics: "\<not> page_ok kend v \<Longrightarrow> kfree kend v s = Panic ''kfree''"
  unfolding kfree_def page_ok_def aligned_mod by (auto simp: not_le not_less)

text \<open>The pages \<open>p\<close>, \<open>p + 4096\<close>, \<open>\<dots>\<close> that end below \<open>vend\<close>, the first one deepest in the stack.\<close>

definition pages_between :: "uint \<Rightarrow> uint \<Rightarrow> uint list" where
  "pages_between p vend = map (\<lambda>i. p + of_nat i * PGSIZE) [0..<(unat vend - unat p) div 4096]"

lemma pages_between_step:
  assumes "unat p + 4096 \<le> unat vend"
  shows "pages_between p vend = p # pages_between (p + PGSIZE) vend" and "unat (p + PGSIZE) = unat p + 4096"
proof -
  show u: "unat (p + PGSIZE) = unat p + 4096"
    using assms unat_uint_bound [of vend] by (simp add: PGSIZE_def unat_add_lem [THEN iffD1])
  obtain d where d: "unat vend = unat p + 4096 + d" using assms le_iff_add by metis
  have n: "(unat vend - unat p) div 4096 = Suc ((unat vend - unat (p + PGSIZE)) div 4096)"
    unfolding u d by simp
  show "pages_between p vend = p # pages_between (p + PGSIZE) vend"
    unfolding pages_between_def n upt_conv_Cons [OF zero_less_Suc] map_Suc_upt [symmetric]
    by (simp add: algebra_simps del: upt_Suc)
qed

lemma freerange_loop_spec:
  assumes "frees kend s l" and "VBASE \<le> kend"
    and "\<And>v. v \<in> set (pages_between p vend) \<Longrightarrow> page_ok kend v \<and> v \<notin> set l"
    and "distinct (pages_between p vend)"
  shows "\<exists>t. freerange_loop kend p vend s = Ok () t \<and> frees kend t (rev (pages_between p vend) @ l) \<and>
    (\<forall>a. page_of a \<notin> set (pages_between p vend) \<longrightarrow> km_mem t a = km_mem s a) \<and>
    kmem.more t = kmem.more s \<and> km_use_lock t = km_use_lock s"
  using assms
proof (induction "unat vend - unat p" arbitrary: p s l rule: less_induct)
  case less
  show ?case
  proof (cases "unat p + 4096 \<le> unat vend")
    case True
    note st = pages_between_step [OF True]
    have p: "page_ok kend p" "p \<notin> set l" using less.prems(3) [of p] st(1) by auto
    obtain u where u: "kfree kend p s = Ok () u" "frees kend u (p # l)"
        "\<forall>a. page_of a \<noteq> p \<longrightarrow> km_mem u a = km_mem s a" "kmem.more u = kmem.more s" "km_use_lock u = km_use_lock s"
      using kfree_spec [OF less.prems(1) p less.prems(2)] by blast
    have "unat vend - unat (p + PGSIZE) < unat vend - unat p" using st(2) True by simp
    from less.hyps [OF this u(2) less.prems(2)]
    obtain t where t: "freerange_loop kend (p + PGSIZE) vend u = Ok () t"
        "frees kend t (rev (pages_between (p + PGSIZE) vend) @ p # l)"
        "\<forall>a. page_of a \<notin> set (pages_between (p + PGSIZE) vend) \<longrightarrow> km_mem t a = km_mem u a"
        "kmem.more t = kmem.more u" "km_use_lock t = km_use_lock u"
      using less.prems(3,4) st(1) by auto
    have "freerange_loop kend p vend s = Ok () t"
      using True u(1) t(1) by (simp add: freerange_loop.simps [of kend p] kthen_Ok)
    then show ?thesis using t(2-) u(3-) st(1) by auto
  next
    case False
    then have "pages_between p vend = []" by (simp add: pages_between_def)
    then show ?thesis using less.prems(1) False by (simp add: freerange_loop.simps [of kend p])
  qed
qed

section \<open>Initialization\<close>

lemma unat_nth_page:
  assumes "unat p + 4096 * i < 2 ^ 32"
  shows "unat (p + of_nat i * PGSIZE) = unat p + 4096 * i"
proof -
  have "p + of_nat i * PGSIZE = of_nat (unat p + 4096 * i)" by (simp add: PGSIZE_def)
  also have "unat \<dots> = unat p + 4096 * i" using assms by (simp add: unat_of_nat del: of_nat_add of_nat_mult)
  finally show ?thesis .
qed

lemma pages_between_nth:
  assumes "i < (unat (vend :: uint) - unat p) div 4096"
  shows "unat (p + of_nat i * PGSIZE) = unat p + 4096 * i" and "unat p + 4096 * i + 4096 \<le> unat vend"
proof -
  show "unat p + 4096 * i + 4096 \<le> unat vend" using assms by linarith
  then show "unat (p + of_nat i * PGSIZE) = unat p + 4096 * i"
    using unat_uint_bound [of vend] by (intro unat_nth_page) simp
qed

lemma distinct_pages_between: "distinct (pages_between (p :: uint) (vend :: uint))"
proof -
  have "inj_on (\<lambda>i. p + of_nat i * PGSIZE) {..<(unat vend - unat p) div 4096}"
  proof (rule inj_onI)
    fix i j
    assume "i \<in> {..<(unat vend - unat p) div 4096}" "j \<in> {..<(unat vend - unat p) div 4096}"
      and e: "p + of_nat i * PGSIZE = p + of_nat j * PGSIZE"
    then show "i = j" using pages_between_nth(1) [of i vend p] pages_between_nth(1) [of j vend p] by (simp only: e) simp
  qed
  then show ?thesis by (simp add: pages_between_def distinct_map lessThan_atLeast0)
qed

lemma set_pages_between:
  assumes "aligned p"
  shows "v \<in> set (pages_between p vend) \<longleftrightarrow> aligned v \<and> p \<le> v \<and> unat v + 4096 \<le> unat vend"
proof
  assume "v \<in> set (pages_between p vend)"
  then obtain i where i: "i < (unat vend - unat p) div 4096" "v = p + of_nat i * PGSIZE"
    by (auto simp: pages_between_def)
  then show "aligned v \<and> p \<le> v \<and> unat v + 4096 \<le> unat vend"
    using pages_between_nth [OF i(1)] assms by (simp add: aligned_def word_le_nat_alt)
next
  assume v: "aligned v \<and> p \<le> v \<and> unat v + 4096 \<le> unat vend"
  let ?i = "(unat v - unat p) div 4096"
  have "(unat v - unat p) mod 4096 = 0"
    using v assms by (simp add: aligned_def mod_eq_0_iff_dvd dvd_diff_nat)
  then have e: "unat v = unat p + 4096 * ?i" using v by (auto simp: word_le_nat_alt)
  have i: "?i < (unat vend - unat p) div 4096" using v e by linarith
  have "v = p + of_nat ?i * PGSIZE"
    using pages_between_nth(1) [OF i] e by (simp add: word_unat_eq_iff)
  then show "v \<in> set (pages_between p vend)" using i by (auto simp: pages_between_def)
qed

lemma PGROUNDUP_up:
  assumes "unat a + 4095 < 2 ^ 32"
  shows "unat (PGROUNDUP a) = (unat a + 4095) div 4096 * 4096" "aligned (PGROUNDUP a)"
proof -
  have u: "PGROUNDUP a = PGROUNDDOWN (a + 4095)" by (simp add: PGROUNDUP_def PGROUNDDOWN_def PGSIZE_def add.commute)
  have "unat (a + 4095) = unat a + 4095" using assms by (simp add: unat_add_lem [THEN iffD1])
  then show "unat (PGROUNDUP a) = (unat a + 4095) div 4096 * 4096" by (simp add: u unat_PGROUNDDOWN)
  show "aligned (PGROUNDUP a)" by (simp add: u)
qed

lemma PGROUNDUP_least:
  assumes "unat a + 4095 < 2 ^ 32" and "aligned v"
  shows "PGROUNDUP a \<le> v \<longleftrightarrow> a \<le> v"
proof -
  obtain k where k: "unat v = k * 4096" using assms(2) by (auto simp: aligned_def mod_eq_0_iff_dvd dvd_def)
  show ?thesis unfolding word_le_nat_alt PGROUNDUP_up(1) [OF assms(1)] k by auto
qed

lemma aligned_gap:
  assumes "aligned v" and "aligned w"
  shows "unat v + 4096 \<le> unat w \<longleftrightarrow> unat v < unat w"
proof -
  obtain j k where "unat v = j * 4096" "unat w = k * 4096"
    using assms by (auto simp: aligned_def mod_eq_0_iff_dvd dvd_def)
  then show ?thesis by auto
qed

lemma page_ok_range:
  assumes "VBASE \<le> kend"
  shows "page_ok kend v \<longleftrightarrow> aligned v \<and> kend \<le> v \<and> unat v + 4096 \<le> unat (P2V PHYSTOP)"
proof (cases "kend \<le> v")
  case True
  with assms have "VBASE \<le> v" by (rule order_trans)
  then have "unat (V2P v) = unat v - unat VBASE" and "unat VBASE \<le> unat v" by (simp_all add: V2P_def unat_sub word_le_nat_alt)
  then have "V2P v < PHYSTOP \<longleftrightarrow> unat v < unat (P2V PHYSTOP)"
    by (auto simp: word_less_nat_alt P2V_def PHYSTOP_def VBASE_def)
  moreover have "aligned (P2V PHYSTOP)" by (simp add: aligned_def P2V_def PHYSTOP_def VBASE_def)
  ultimately show ?thesis using True aligned_gap [of v "P2V PHYSTOP"] by (auto simp: page_ok_def)
qed (simp add: page_ok_def)

lemma distinct_freed:
  assumes "aligned p" and "frees kend s l" and "\<forall>v\<in>set l. v < p" and "VBASE \<le> kend" and "kend \<le> p"
    and "unat vend \<le> unat (P2V PHYSTOP)"
  shows "\<exists>t. freerange_loop kend p vend s = Ok () t \<and> frees kend t (rev (pages_between p vend) @ l) \<and>
    km_use_lock t = km_use_lock s"
proof -
  have "page_ok kend v \<and> v \<notin> set l" if "v \<in> set (pages_between p vend)" for v
  proof
    have v: "aligned v" "p \<le> v" "unat v + 4096 \<le> unat vend" using that set_pages_between [OF assms(1)] by auto
    then show "page_ok kend v" using page_ok_range [OF assms(4), of v] assms(5,6) by (auto intro: order_trans)
    show "v \<notin> set l" using assms(3) v(2) by (auto simp: not_less)
  qed
  from freerange_loop_spec [OF assms(2,4) this distinct_pages_between] show ?thesis by blast
qed



end
