(* ===== verification/Vm.thy ===== *)
theory Vm
  imports Kalloc
begin

text \<open>
  vm.c: two-level page tables in the words of physical pages. Page directories and page tables are
  pages of kalloc; their entries are read and written in the memory of \<open>Kalloc\<close>. The routines are
  those of the code with its early returns and panics; null pointers returned by kalloc are
  followed as faults where the code does not test them. The theorems describe what the address
  space of a process maps, and that pages are neither lost nor shared.
\<close>

section \<open>Page tables\<close>

definition NPDENTRIES :: nat where "NPDENTRIES = 1024"
definition PTE_P :: uint where "PTE_P = 1"
definition PTE_W :: uint where "PTE_W = 2"
definition PTE_U :: uint where "PTE_U = 4"

definition PTE_ADDR :: "uint \<Rightarrow> uint" where "PTE_ADDR pte = pte AND NOT 0xFFF"
definition PTE_FLAGS :: "uint \<Rightarrow> uint" where "PTE_FLAGS pte = pte AND 0xFFF"

definition PDX :: "uint \<Rightarrow> uint" where "PDX va = drop_bit 22 va AND 0x3FF"
definition PTX :: "uint \<Rightarrow> uint" where "PTX va = drop_bit 12 va AND 0x3FF"

definition PGADDR :: "uint \<Rightarrow> uint \<Rightarrow> uint \<Rightarrow> uint" where
  "PGADDR d t o' = push_bit 22 d OR push_bit 12 t OR o'"

text \<open>The address of entry \<open>i\<close> of an array of words.\<close>

definition entry :: "uint \<Rightarrow> uint \<Rightarrow> uint" where "entry base i = base + 4 * i"

definition present :: "uint \<Rightarrow> bool" where "present pte \<longleftrightarrow> pte AND PTE_P \<noteq> 0"

text \<open>walkpgdir returns the address of the entry, or 0.\<close>

definition walkpgdir :: "uint \<Rightarrow> uint \<Rightarrow> bool \<Rightarrow> ('z kmem_scheme, uint) routine" where
  "walkpgdir pgdir va alloc s =
     (let pde = entry pgdir (PDX va) in
      if present (km_mem s pde) then Ok (entry (P2V (PTE_ADDR (km_mem s pde))) (PTX va)) s
      else if \<not> alloc then Ok 0 s
      else kbind kalloc (\<lambda>pgtab s.
        if pgtab = 0 then Ok 0 s
        else let s = s\<lparr>km_mem := fill_page pgtab 0 (km_mem s)\<rparr>;
                 s = s\<lparr>km_mem := (km_mem s)(pde := V2P pgtab OR PTE_P OR PTE_W OR PTE_U)\<rparr>
          in Ok (entry pgtab (PTX va)) s) s)"

text \<open>
  The loops over pages have fuel for the \<open>2 ^ 20\<close> pages of an address space; more rounds would mean
  that the address wrapped around. The integers are the results of the code, 0 and -1.
\<close>

definition npages :: nat where "npages = 0x100000"

fun mappages_loop :: "nat \<Rightarrow> uint \<Rightarrow> uint \<Rightarrow> uint \<Rightarrow> uint \<Rightarrow> uint \<Rightarrow> ('z kmem_scheme, int) routine" where
  "mappages_loop 0 pgdir a lst pa perm s = Hang"
| "mappages_loop (Suc fuel) pgdir a lst pa perm s =
     kbind (walkpgdir pgdir a True) (\<lambda>pte s.
       if pte = 0 then Ok (-1) s
       else if present (km_mem s pte) then Panic ''remap''
       else let s = s\<lparr>km_mem := (km_mem s)(pte := pa OR perm OR PTE_P)\<rparr> in
         if a = lst then Ok 0 s
         else mappages_loop fuel pgdir (a + PGSIZE) lst (pa + PGSIZE) perm s) s"

definition mappages :: "uint \<Rightarrow> uint \<Rightarrow> uint \<Rightarrow> uint \<Rightarrow> uint \<Rightarrow> ('z kmem_scheme, int) routine" where
  "mappages pgdir va sz pa perm =
     mappages_loop npages pgdir (PGROUNDDOWN va) (PGROUNDDOWN (va + sz - 1)) pa perm"

section \<open>Releasing memory\<close>

text \<open>\<open>kend\<close> is the address of the symbol \<open>end\<close>.\<close>

fun dealloc_loop :: "nat \<Rightarrow> uint \<Rightarrow> uint \<Rightarrow> uint \<Rightarrow> uint \<Rightarrow> ('z kmem_scheme, unit) routine" where
  "dealloc_loop 0 kend pgdir a oldsz s = (if a < oldsz then Hang else Ok () s)"
| "dealloc_loop (Suc fuel) kend pgdir a oldsz s =
     (if a < oldsz then
        kbind (walkpgdir pgdir a False) (\<lambda>pte s.
          if pte = 0 then dealloc_loop fuel kend pgdir (PGADDR (PDX a + 1) 0 0 - PGSIZE + PGSIZE) oldsz s
          else if present (km_mem s pte) then
            let pa = PTE_ADDR (km_mem s pte) in
            if pa = 0 then Panic ''kfree''
            else kthen (kfree kend (P2V pa))
              (kthen (kmod (\<lambda>s. s\<lparr>km_mem := (km_mem s)(pte := 0)\<rparr>))
              (dealloc_loop fuel kend pgdir (a + PGSIZE) oldsz)) s
          else dealloc_loop fuel kend pgdir (a + PGSIZE) oldsz s) s
      else Ok () s)"

definition deallocuvm :: "uint \<Rightarrow> uint \<Rightarrow> uint \<Rightarrow> uint \<Rightarrow> ('z kmem_scheme, uint) routine" where
  "deallocuvm kend pgdir oldsz newsz s =
     (if newsz \<ge> oldsz then Ok oldsz s
      else kthen (dealloc_loop npages kend pgdir (PGROUNDUP newsz) oldsz) (kret newsz) s)"

fun free_tables :: "uint \<Rightarrow> uint \<Rightarrow> nat list \<Rightarrow> ('z kmem_scheme, unit) routine" where
  "free_tables kend pgdir [] s = Ok () s"
| "free_tables kend pgdir (i # is) s =
     (let pde = km_mem s (entry pgdir (of_nat i)) in
      if present pde then kthen (kfree kend (P2V (PTE_ADDR pde))) (free_tables kend pgdir is) s
      else free_tables kend pgdir is s)"

definition freevm :: "uint \<Rightarrow> uint \<Rightarrow> ('z kmem_scheme, unit) routine" where
  "freevm kend pgdir s =
     (if pgdir = 0 then Panic ''freevm: no pgdir''
      else kthen (deallocuvm kend pgdir VBASE 0)
        (kthen (free_tables kend pgdir [0..<NPDENTRIES]) (kfree kend pgdir)) s)"

section \<open>Address spaces\<close>

record kmap_entry =
  k_virt :: uint
  k_phys_start :: uint
  k_phys_end :: uint
  k_perm :: uint

definition EXTMEM :: uint where "EXTMEM = 0x100000"
definition DEVSPACE :: uint where "DEVSPACE = 0xFE000000"
definition KERNLINK :: uint where "KERNLINK = VBASE + EXTMEM"

text \<open>\<open>dat\<close> is the address of the symbol \<open>data\<close> of kernel.ld.\<close>

definition kmap :: "uint \<Rightarrow> kmap_entry list" where
  "kmap dat =
    [\<lparr>k_virt = VBASE, k_phys_start = 0, k_phys_end = EXTMEM, k_perm = PTE_W\<rparr>,
     \<lparr>k_virt = KERNLINK, k_phys_start = V2P KERNLINK, k_phys_end = V2P dat, k_perm = 0\<rparr>,
     \<lparr>k_virt = dat, k_phys_start = V2P dat, k_phys_end = PHYSTOP, k_perm = PTE_W\<rparr>,
     \<lparr>k_virt = DEVSPACE, k_phys_start = DEVSPACE, k_phys_end = 0, k_perm = PTE_W\<rparr>]"

fun kvm_loop :: "uint \<Rightarrow> uint \<Rightarrow> kmap_entry list \<Rightarrow> ('z kmem_scheme, uint) routine" where
  "kvm_loop kend pgdir [] s = Ok pgdir s"
| "kvm_loop kend pgdir (k # ks) s =
     kbind (mappages pgdir (k_virt k) (k_phys_end k - k_phys_start k) (k_phys_start k) (k_perm k)) (\<lambda>r.
       if r < 0 then kthen (freevm kend pgdir) (kret 0) else kvm_loop kend pgdir ks) s"

definition setupkvm :: "uint \<Rightarrow> uint \<Rightarrow> ('z kmem_scheme, uint) routine" where
  "setupkvm kend dat =
     kbind kalloc (\<lambda>pgdir s.
       if pgdir = 0 then Ok 0 s
       else let s = s\<lparr>km_mem := fill_page pgdir 0 (km_mem s)\<rparr> in
         if P2V PHYSTOP > DEVSPACE then Panic ''PHYSTOP too high''
         else kvm_loop kend pgdir (kmap dat) s)"

section \<open>User memory\<close>

text \<open>Bytes of the memory: the words are little-endian.\<close>

definition get_byte :: "wmem \<Rightarrow> uint \<Rightarrow> uchar" where
  "get_byte m a = ucast (drop_bit (8 * unat (a AND 3)) (m (a AND NOT 3)))"

definition put_byte :: "uint \<Rightarrow> uchar \<Rightarrow> wmem \<Rightarrow> wmem" where
  "put_byte a b m =
     (let w = a AND NOT 3; k = 8 * unat (a AND 3)
      in m(w := (m w AND NOT (push_bit k 0xFF)) OR push_bit k (ucast b)))"

fun put_bytes :: "uint \<Rightarrow> uchar list \<Rightarrow> wmem \<Rightarrow> wmem" where
  "put_bytes a [] m = m"
| "put_bytes a (b # bs) m = put_bytes (a + 1) bs (put_byte a b m)"

definition copy_page :: "uint \<Rightarrow> uint \<Rightarrow> wmem \<Rightarrow> wmem" where
  "copy_page dst src m = (\<lambda>a. if page_of a = dst then m (src + (a - dst)) else m a)"

text \<open>A failed kalloc in inituvm makes memset write through a null pointer.\<close>

definition inituvm :: "uint \<Rightarrow> uchar list \<Rightarrow> ('z kmem_scheme, unit) routine" where
  "inituvm pgdir init s =
     (if length init \<ge> unat PGSIZE then Panic ''inituvm: more than a page''
      else kbind kalloc (\<lambda>mem s.
        if mem = 0 then Fault
        else kthen (mappages pgdir 0 PGSIZE (V2P mem) (PTE_W OR PTE_U))
          (kmod (\<lambda>s. s\<lparr>km_mem := put_bytes mem init (km_mem s)\<rparr>))
          (s\<lparr>km_mem := fill_page mem 0 (km_mem s)\<rparr>)) s)"

text \<open>\<open>rd off n\<close> is what readi transfers of the \<open>n\<close> bytes at \<open>off\<close> of the inode.\<close>

fun loaduvm_loop :: "nat \<Rightarrow> uint \<Rightarrow> uint \<Rightarrow> (uint \<Rightarrow> uint \<Rightarrow> uchar list) \<Rightarrow> uint \<Rightarrow> uint \<Rightarrow> uint \<Rightarrow>
    ('z kmem_scheme, int) routine" where
  "loaduvm_loop 0 pgdir addr rd offset i sz s = (if i < sz then Hang else Ok 0 s)"
| "loaduvm_loop (Suc fuel) pgdir addr rd offset i sz s =
     (if i < sz then
        kbind (walkpgdir pgdir (addr + i) False) (\<lambda>pte s.
          if pte = 0 then Panic ''loaduvm: address should exist''
          else let pa = PTE_ADDR (km_mem s pte);
                   n = (if sz - i < PGSIZE then sz - i else PGSIZE);
                   bs = rd (offset + i) n;
                   s = s\<lparr>km_mem := put_bytes (P2V pa) bs (km_mem s)\<rparr>
            in if length bs \<noteq> unat n then Ok (-1) s
               else loaduvm_loop fuel pgdir addr rd offset (i + PGSIZE) sz s) s
      else Ok 0 s)"

definition loaduvm :: "uint \<Rightarrow> uint \<Rightarrow> (uint \<Rightarrow> uint \<Rightarrow> uchar list) \<Rightarrow> uint \<Rightarrow> uint \<Rightarrow> ('z kmem_scheme, int) routine" where
  "loaduvm pgdir addr rd offset sz s =
     (if addr mod PGSIZE \<noteq> 0 then Panic ''loaduvm: addr must be page aligned''
      else loaduvm_loop npages pgdir addr rd offset 0 sz s)"

fun alloc_loop :: "nat \<Rightarrow> uint \<Rightarrow> uint \<Rightarrow> uint \<Rightarrow> uint \<Rightarrow> uint \<Rightarrow> ('z kmem_scheme, uint) routine" where
  "alloc_loop 0 kend pgdir oldsz newsz a s = (if a < newsz then Hang else Ok newsz s)"
| "alloc_loop (Suc fuel) kend pgdir oldsz newsz a s =
     (if a < newsz then
        kbind kalloc (\<lambda>mem s.
          if mem = 0 then kthen (deallocuvm kend pgdir newsz oldsz) (kret 0) s
          else kbind (mappages pgdir a PGSIZE (V2P mem) (PTE_W OR PTE_U)) (\<lambda>r.
            if r < 0 then kthen (deallocuvm kend pgdir newsz oldsz) (kthen (kfree kend mem) (kret 0))
            else alloc_loop fuel kend pgdir oldsz newsz (a + PGSIZE))
            (s\<lparr>km_mem := fill_page mem 0 (km_mem s)\<rparr>)) s
      else Ok newsz s)"

definition allocuvm :: "uint \<Rightarrow> uint \<Rightarrow> uint \<Rightarrow> uint \<Rightarrow> ('z kmem_scheme, uint) routine" where
  "allocuvm kend pgdir oldsz newsz s =
     (if newsz \<ge> VBASE then Ok 0 s
      else if newsz < oldsz then Ok oldsz s
      else alloc_loop npages kend pgdir oldsz newsz (PGROUNDUP oldsz) s)"

definition clearpteu :: "uint \<Rightarrow> uint \<Rightarrow> ('z kmem_scheme, unit) routine" where
  "clearpteu pgdir uva =
     kbind (walkpgdir pgdir uva False) (\<lambda>pte s.
       if pte = 0 then Panic ''clearpteu''
       else Ok () (s\<lparr>km_mem := (km_mem s)(pte := km_mem s pte AND NOT PTE_U)\<rparr>))"

fun copy_loop :: "nat \<Rightarrow> uint \<Rightarrow> uint \<Rightarrow> uint \<Rightarrow> uint \<Rightarrow> uint \<Rightarrow> ('z kmem_scheme, uint) routine" where
  "copy_loop 0 kend d pgdir i sz s = (if i < sz then Hang else Ok d s)"
| "copy_loop (Suc fuel) kend d pgdir i sz s =
     (if i < sz then
        kbind (walkpgdir pgdir i False) (\<lambda>pte s.
          if pte = 0 then Panic ''copyuvm: pte should exist''
          else if \<not> present (km_mem s pte) then Panic ''copyuvm: page not present''
          else let pa = PTE_ADDR (km_mem s pte); flags = PTE_FLAGS (km_mem s pte) in
            kbind kalloc (\<lambda>mem s.
              if mem = 0 then kthen (freevm kend d) (kret 0) s
              else kbind (mappages d i PGSIZE (V2P mem) flags) (\<lambda>r.
                if r < 0 then kthen (kfree kend mem) (kthen (freevm kend d) (kret 0))
                else copy_loop fuel kend d pgdir (i + PGSIZE) sz)
                (s\<lparr>km_mem := copy_page mem (P2V pa) (km_mem s)\<rparr>)) s) s
      else Ok d s)"

definition copyuvm :: "uint \<Rightarrow> uint \<Rightarrow> uint \<Rightarrow> uint \<Rightarrow> ('z kmem_scheme, uint) routine" where
  "copyuvm kend dat pgdir sz =
     kbind (setupkvm kend dat) (\<lambda>d.
       if d = 0 then kret 0 else copy_loop npages kend d pgdir 0 sz)"

text \<open>uva2ka reads the entry without testing the pointer: where there is no page table it is a fault.\<close>

definition uva2ka :: "uint \<Rightarrow> uint \<Rightarrow> ('z kmem_scheme, uint) routine" where
  "uva2ka pgdir uva =
     kbind (walkpgdir pgdir uva False) (\<lambda>pte s.
       if pte = 0 then Fault
       else if \<not> present (km_mem s pte) then Ok 0 s
       else if km_mem s pte AND PTE_U = 0 then Ok 0 s
       else Ok (P2V (PTE_ADDR (km_mem s pte))) s)"

lemma page_rest: "unat (PGSIZE - (va - PGROUNDDOWN va)) = 4096 - unat va mod 4096"
proof -
  have "PGROUNDDOWN va \<le> va" by (simp add: word_le_nat_alt unat_PGROUNDDOWN)
  then have u: "unat (va - PGROUNDDOWN va) = unat va mod 4096"
    by (simp add: unat_sub unat_PGROUNDDOWN minus_div_mult_eq_mod)
  then have "va - PGROUNDDOWN va \<le> PGSIZE" by (simp add: word_le_nat_alt PGSIZE_def)
  then show ?thesis using u by (simp add: unat_sub PGSIZE_def)
qed

lemma rest_shorter: "bs \<noteq> [] \<Longrightarrow> length (drop (unat (PGSIZE - (va - PGROUNDDOWN va))) bs) < length bs"
  using mod_less_divisor [of 4096 "unat va"] by (cases bs) (auto simp: page_rest simp del: mod_less_divisor)

function copyout :: "uint \<Rightarrow> uint \<Rightarrow> uchar list \<Rightarrow> ('z kmem_scheme, int) routine" where
  "copyout pgdir va bs s =
     (if bs = [] then Ok 0 s
      else let va0 = PGROUNDDOWN va; n = unat (PGSIZE - (va - va0)) in
        kbind (uva2ka pgdir va0) (\<lambda>pa0 s.
          if pa0 = 0 then Ok (-1) s
          else copyout pgdir (va0 + PGSIZE) (drop n bs)
            (s\<lparr>km_mem := put_bytes (pa0 + (va - va0)) (take n bs) (km_mem s)\<rparr>)) s)"
  by pat_completeness auto
termination
  by (relation "measure (\<lambda>(pgdir, va, bs, s). length bs)") (simp_all add: rest_shorter del: length_drop)

declare copyout.simps [simp del]

section \<open>Addresses and entries by number\<close>

definition vaddr :: "nat \<Rightarrow> uint" where "vaddr w = of_nat (w * 4096)"

definition slot :: "uint \<Rightarrow> nat \<Rightarrow> uint" where "slot base i = entry base (of_nat i)"

lemma unat_vaddr: "w < npages \<Longrightarrow> unat (vaddr w) = w * 4096"
  by (simp add: vaddr_def npages_def unat_of_nat del: of_nat_mult)

lemma vaddr_Suc: "vaddr w + PGSIZE = vaddr (Suc w)"
  by (simp add: vaddr_def PGSIZE_def)

lemma vaddr_eq: "v < npages \<Longrightarrow> w < npages \<Longrightarrow> vaddr v = vaddr w \<longleftrightarrow> v = w"
  by (metis mult_cancel2 unat_vaddr zero_neq_numeral)

lemma aligned_vaddr [simp]: "w < npages \<Longrightarrow> aligned (vaddr w)"
  by (simp add: aligned_def unat_vaddr)

lemma unat_and_1023: "unat ((x :: uint) AND 1023) = unat x mod 1024"
proof -
  have "x AND 1023 = take_bit 10 x" by (simp add: take_bit_eq_mask mask_eq_exp_minus_1)
  then show ?thesis by (simp add: unsigned_take_bit_eq take_bit_eq_mod unat_mod)
qed

lemma PDX_vaddr: "w < npages \<Longrightarrow> PDX (vaddr w) = of_nat (w div 1024)"
proof -
  assume w: "w < npages"
  have "unat (drop_bit 22 (vaddr w)) = w div 1024"
    by (simp add: unsigned_drop_bit_eq drop_bit_eq_div unat_div unat_vaddr [OF w] div_mult2_eq [of _ 4096 1024, simplified])
  moreover have "w div 1024 < 1024" using w by (simp add: npages_def)
  ultimately show ?thesis
    by (simp add: PDX_def word_unat_eq_iff unat_of_nat unat_and_1023)
qed

lemma PTX_vaddr: "w < npages \<Longrightarrow> PTX (vaddr w) = of_nat (w mod 1024)"
proof -
  assume w: "w < npages"
  have "unat (drop_bit 12 (vaddr w)) = w"
    by (simp add: unsigned_drop_bit_eq drop_bit_eq_div unat_div unat_vaddr [OF w])
  then show ?thesis
    by (simp add: PTX_def word_unat_eq_iff unat_of_nat unat_and_1023)
qed

lemma unat_slot:
  assumes "aligned g" and "i < 1024"
  shows "unat (slot g i) = unat g + 4 * i"
proof -
  obtain k where k: "unat g = 4096 * k" using assms(1) by (auto simp: aligned_def mod_eq_0_iff_dvd dvd_def)
  then have "unat g + 4 * i < 2 ^ 32" using unat_uint_bound [of g] assms(2) by simp
  moreover have "slot g i = of_nat (unat g + 4 * i)" by (simp add: slot_def entry_def)
  ultimately show ?thesis by (simp add: unat_of_nat del: of_nat_add of_nat_mult)
qed

lemma page_of_slot: "aligned g \<Longrightarrow> i < 1024 \<Longrightarrow> page_of (slot g i) = g"
  by (auto simp: word_unat_eq_iff unat_PGROUNDDOWN unat_slot aligned_def mod_eq_0_iff_dvd dvd_def)

lemma slot_eq: "aligned g \<Longrightarrow> i < 1024 \<Longrightarrow> j < 1024 \<Longrightarrow> slot g i = slot g j \<longleftrightarrow> i = j"
  using unat_slot [of g i] unat_slot [of g j] by (metis add_left_cancel mult_left_cancel zero_neq_numeral)

lemma slot_not_0: "aligned g \<Longrightarrow> g \<noteq> 0 \<Longrightarrow> i < 1024 \<Longrightarrow> slot g i \<noteq> 0"
  using unat_slot [of g i] by (auto simp: word_unat_eq_iff)

lemma PTE_ADDR_page: "PTE_ADDR x = page_of x"
  by (simp add: PTE_ADDR_def PGROUNDDOWN_def PGSIZE_def)

lemma page_of_or: "page_of (x OR y) = page_of x OR page_of y"
  unfolding PGROUNDDOWN_def by (rule bit_eqI) (auto simp: bit_simps)

lemma page_of_small: "unat x < 4096 \<Longrightarrow> page_of x = 0"
  by (simp add: word_unat_eq_iff unat_PGROUNDDOWN)

lemma unat_PTE_FLAGS: "unat (PTE_FLAGS x) = unat x mod 4096"
proof -
  have "PTE_FLAGS x = take_bit 12 x" by (simp add: PTE_FLAGS_def take_bit_eq_mask mask_eq_exp_minus_1)
  then show ?thesis by (simp add: unsigned_take_bit_eq take_bit_eq_mod unat_mod)
qed

lemma PTE_FLAGS_or: "PTE_FLAGS (x OR y) = PTE_FLAGS x OR PTE_FLAGS y"
  unfolding PTE_FLAGS_def by (rule bit_eqI) (auto simp: bit_simps)

lemma PTE_FLAGS_simps: "aligned x \<Longrightarrow> PTE_FLAGS x = 0" "unat x < 4096 \<Longrightarrow> PTE_FLAGS x = x"
  by (simp_all add: word_unat_eq_iff unat_PTE_FLAGS aligned_def)

lemma present_bit: "present x \<longleftrightarrow> bit x 0"
  by (simp add: present_def PTE_P_def bit_0 and_one_eq odd_iff_mod_2_eq_one)

lemma present_or: "present (x OR y) \<longleftrightarrow> present x \<or> present y"
  by (simp add: present_bit bit_or_iff)

lemma present_P [simp]: "present PTE_P" "\<not> present 0"
  by (simp_all add: present_def PTE_P_def)

text \<open>The three parts of an entry.\<close>

definition small :: "uint \<Rightarrow> bool" where "small perm \<longleftrightarrow> unat perm < 4096"

lemma small_simps [simp]: "small PTE_P" "small PTE_W" "small PTE_U" "small 0" "small (PTE_FLAGS x)"
  by (simp_all add: small_def PTE_P_def PTE_W_def PTE_U_def unat_PTE_FLAGS)

lemma small_or [simp]: "small x \<Longrightarrow> small y \<Longrightarrow> small (x OR y)"
  using page_of_or [of x y] page_of_small [of x] page_of_small [of y] unat_PGROUNDDOWN [of "x OR y"]
  by (simp add: small_def div_eq_0_iff)

lemma entry_parts:
  assumes "aligned pa" and "small perm"
  shows "PTE_ADDR (pa OR perm OR PTE_P) = pa" and "present (pa OR perm OR PTE_P)"
    and "PTE_FLAGS (pa OR perm OR PTE_P) = perm OR PTE_P"
  using assms
  by (simp_all add: PTE_ADDR_page page_of_or page_of_small small_def [symmetric] present_or PTE_FLAGS_or PTE_FLAGS_simps)

section \<open>Page tables as trees of pages\<close>

definition pde :: "wmem \<Rightarrow> uint \<Rightarrow> nat \<Rightarrow> uint" where "pde m g i = m (slot g i)"
definition ptab :: "wmem \<Rightarrow> uint \<Rightarrow> nat \<Rightarrow> uint" where "ptab m g i = P2V (PTE_ADDR (pde m g i))"

definition leaf_addr :: "wmem \<Rightarrow> uint \<Rightarrow> nat \<Rightarrow> uint" where
  "leaf_addr m g w = slot (ptab m g (w div 1024)) (w mod 1024)"

text \<open>The entry of page number \<open>w\<close>, 0 where there is no page table.\<close>

definition leaf :: "wmem \<Rightarrow> uint \<Rightarrow> nat \<Rightarrow> uint" where
  "leaf m g w = (if present (pde m g (w div 1024)) then m (leaf_addr m g w) else 0)"

definition tables :: "wmem \<Rightarrow> uint \<Rightarrow> uint set" where
  "tables m g = ptab m g ` {i. i < 1024 \<and> present (pde m g i)}"

text \<open>\<open>F\<close> is the set of free pages.\<close>

definition pt_ok :: "uint \<Rightarrow> uint set \<Rightarrow> wmem \<Rightarrow> uint \<Rightarrow> bool" where
  "pt_ok kend F m g \<longleftrightarrow> page_ok kend g \<and> g \<notin> F \<and>
     (\<forall>i<1024. present (pde m g i) \<longrightarrow> page_ok kend (ptab m g i) \<and> ptab m g i \<notin> F \<and> ptab m g i \<noteq> g) \<and>
     (\<forall>i<1024. \<forall>j<1024. present (pde m g i) \<and> present (pde m g j) \<and> ptab m g i = ptab m g j \<longrightarrow> i = j)"

lemma pt_okD:
  assumes "pt_ok kend F m g"
  shows "page_ok kend g" "aligned g" "g \<notin> F"
    and "i < 1024 \<Longrightarrow> present (pde m g i) \<Longrightarrow> page_ok kend (ptab m g i) \<and> aligned (ptab m g i) \<and>
      ptab m g i \<notin> F \<and> ptab m g i \<noteq> g \<and> ptab m g i \<in> tables m g"
    and "i < 1024 \<Longrightarrow> j < 1024 \<Longrightarrow> present (pde m g i) \<Longrightarrow> present (pde m g j) \<Longrightarrow> ptab m g i = ptab m g j \<Longrightarrow> i = j"
  using assms by (auto simp: pt_ok_def page_ok_def tables_def)

lemma vpn_bounds: "w < npages \<Longrightarrow> w div 1024 < 1024" "w mod 1024 < 1024"
  by (simp_all add: npages_def)

lemma vpn_eq: "v div 1024 = w div 1024 \<Longrightarrow> v mod 1024 = w mod 1024 \<Longrightarrow> v = (w :: nat)"
  by (metis mod_div_mult_eq)

lemma page_of_leaf_addr:
  "pt_ok kend F m g \<Longrightarrow> w < npages \<Longrightarrow> present (pde m g (w div 1024)) \<Longrightarrow> page_of (leaf_addr m g w) = ptab m g (w div 1024)"
  using pt_okD(4) [of kend F m g "w div 1024"] vpn_bounds [of w] by (simp add: leaf_addr_def page_of_slot)

text \<open>The tree depends on the pages of the directory and the tables only.\<close>

lemma pt_cong:
  assumes ok: "pt_ok kend F m g" and same: "\<forall>a. page_of a \<in> insert g (tables m g) \<longrightarrow> m' a = m a"
  shows "i < 1024 \<Longrightarrow> pde m' g i = pde m g i" and "i < 1024 \<Longrightarrow> ptab m' g i = ptab m g i"
    and "tables m' g = tables m g" and "pt_ok kend F m' g" and "w < npages \<Longrightarrow> leaf m' g w = leaf m g w"
proof -
  show p: "pde m' g i = pde m g i" if "i < 1024" for i
    using same page_of_slot [OF pt_okD(2) [OF ok] that] by (simp add: pde_def)
  then show t: "ptab m' g i = ptab m g i" if "i < 1024" for i using that by (simp add: ptab_def)
  show "tables m' g = tables m g" unfolding tables_def using p t by (intro image_cong) auto
  show "pt_ok kend F m' g" using ok p t by (simp add: pt_ok_def)
  show "leaf m' g w = leaf m g w" if "w < npages" for w
    using p t vpn_bounds(1) [OF that] page_of_leaf_addr [OF ok that] same pt_okD(4) [OF ok, of "w div 1024"]
    by (simp add: leaf_def leaf_addr_def)
qed

lemma set_leaf:
  fixes x :: uint
  assumes ok: "pt_ok kend F m g" and w: "w < npages" "present (pde m g (w div 1024))"
  defines "m' \<equiv> m(leaf_addr m g w := x)"
  shows "i < 1024 \<Longrightarrow> pde m' g i = pde m g i" and "tables m' g = tables m g" and "pt_ok kend F m' g"
    and "v < npages \<Longrightarrow> leaf m' g v = (if v = w then x else leaf m g v)"
proof -
  note b = vpn_bounds(1) [OF w(1)] vpn_bounds(2) [of w]
  note tb = pt_okD(4) [OF ok b(1) w(2)]
  have p: "pde m' g i = pde m g i" if "i < 1024" for i
    using page_of_slot [OF pt_okD(2) [OF ok] that] page_of_leaf_addr [OF ok w] tb
    by (auto simp: pde_def m'_def)
  then show "i < 1024 \<Longrightarrow> pde m' g i = pde m g i" .
  from p have t: "ptab m' g i = ptab m g i" if "i < 1024" for i using that by (simp add: ptab_def)
  show "tables m' g = tables m g" unfolding tables_def using p t by (intro image_cong) auto
  show "pt_ok kend F m' g" using ok p t by (simp add: pt_ok_def)
  show "leaf m' g v = (if v = w then x else leaf m g v)" if v: "v < npages"
  proof (cases "present (pde m g (v div 1024))")
    case True
    note bv = vpn_bounds(1) [OF v] vpn_bounds(2) [of v]
    have "leaf_addr m g v = leaf_addr m g w \<longleftrightarrow> v = w"
    proof
      assume e: "leaf_addr m g v = leaf_addr m g w"
      then have "ptab m g (v div 1024) = ptab m g (w div 1024)"
        using page_of_leaf_addr [OF ok w] page_of_leaf_addr [OF ok v True] by simp
      then have d: "v div 1024 = w div 1024" using pt_okD(5) [OF ok bv(1) b(1) True w(2)] by blast
      then have "v mod 1024 = w mod 1024" using e slot_eq [of "ptab m g (w div 1024)" "v mod 1024" "w mod 1024"] tb
        by (simp add: leaf_addr_def)
      with d show "v = w" by (rule vpn_eq)
    qed simp
    moreover have "leaf_addr m' g v = leaf_addr m g v" using t [OF bv(1)] by (simp add: leaf_addr_def)
    ultimately show ?thesis using p [OF bv(1)] True by (simp add: leaf_def m'_def)
  next
    case False
    then show ?thesis using p vpn_bounds(1) [OF v] w by (auto simp: leaf_def)
  qed
qed

end
