(* ===== verification/VmProps.thy ===== *)
theory VmProps
  imports Vm
begin

text \<open>
  What the routines of vm.c do to address spaces: mappings are added and removed as asked, pages are
  neither lost nor shared, and fork's copy is isolated from the parent.
\<close>

section \<open>walkpgdir and mappages\<close>

lemma pt_ok_mono: "pt_ok kend F m g \<Longrightarrow> F' \<subseteq> F \<Longrightarrow> pt_ok kend F' m g"
  by (auto simp: pt_ok_def)

lemma add_table:
  assumes ok: "pt_ok kend F m g" and k: "VBASE \<le> kend" and i: "i < 1024" "\<not> present (pde m g i)"
    and p: "p \<in> F" "page_ok kend p"
  defines "m' \<equiv> (fill_page p 0 m)(slot g i := V2P p OR PTE_P OR PTE_W OR PTE_U)"
  shows "pt_ok kend (F - {p}) m' g" and "tables m' g = insert p (tables m g)"
    and "present (pde m' g i)" and "ptab m' g i = p" and "w < npages \<Longrightarrow> leaf m' g w = leaf m g w"
proof -
  have pg: "p \<noteq> g" and pp: "page_of p = p" "aligned p" using ok p by (auto simp: pt_ok_def page_ok_pages page_ok_def)
  note g = pt_okD(2) [OF ok]
  have al: "aligned (V2P p)"
  proof -
    obtain j where j: "unat p = 4096 * j" using pp(2) by (auto simp: aligned_def mod_eq_0_iff_dvd dvd_def)
    have "VBASE \<le> p" using k p(2) by (auto simp: page_ok_def intro: order_trans)
    then have "unat (V2P p) = 4096 * j - 4096 * 0x80000" by (simp add: V2P_def unat_sub j) (simp add: VBASE_def)
    also have "\<dots> = 4096 * (j - 0x80000)" by (simp only: diff_mult_distrib2)
    finally show ?thesis by (simp add: aligned_def)
  qed
  have pp': "page_of (slot g j) \<noteq> p" if "j < 1024" for j using page_of_slot [OF g that] pg by simp
  have e: "pde m' g j = (if j = i then V2P p OR PTE_P OR PTE_W OR PTE_U else pde m g j)" if "j < 1024" for j
    using that i slot_eq [OF g that i(1)] pp' [OF that] by (simp add: pde_def m'_def fill_page_def)
  then have t: "ptab m' g j = (if j = i then p else ptab m g j)" if "j < 1024" for j
    using that entry_parts(1) [OF al, of "PTE_W OR PTE_U"]
    by (simp add: ptab_def or.assoc or.commute or.left_commute)
  have pr: "present (pde m' g j) \<longleftrightarrow> j = i \<or> present (pde m g j)" if "j < 1024" for j
    using e [OF that] by (simp add: present_or)
  show "present (pde m' g i)" "ptab m' g i = p" using pr [OF i(1)] t [OF i(1)] by simp_all
  show "tables m' g = insert p (tables m g)"
    unfolding tables_def using t pr i by (auto simp: image_iff split: if_splits)
  have new: "ptab m g j \<noteq> p" if "j < 1024" "present (pde m g j)" for j using pt_okD(4) [OF ok that] p(1) by auto
  show "pt_ok kend (F - {p}) m' g"
    unfolding pt_ok_def
  proof (intro conjI allI impI)
    show "page_ok kend g" "g \<notin> F - {p}" using ok by (auto simp: pt_ok_def)
    fix j assume j: "j < 1024" "present (pde m' g j)"
    show "page_ok kend (ptab m' g j)" "ptab m' g j \<notin> F - {p}" "ptab m' g j \<noteq> g"
      using j t [OF j(1)] pr [OF j(1)] pt_okD(4) [OF ok j(1)] p(2) pg by (auto split: if_splits)
  next
    fix j j' assume j: "j < 1024" "j' < 1024" and e: "present (pde m' g j) \<and> present (pde m' g j') \<and> ptab m' g j = ptab m' g j'"
    note pr [OF j(1)] pr [OF j(2)] t [OF j(1)] t [OF j(2)] new [OF j(1)] new [OF j(2)] pt_okD(5) [OF ok j]
    with e show "j = j'" by (cases "j = i"; cases "j' = i") simp_all
  qed
  show "leaf m' g w = leaf m g w" if w: "w < npages"
  proof (cases "w div 1024 = i")
    case True
    have "page_of (slot p (w mod 1024)) = p" by (rule page_of_slot [OF pp(2)]) simp
    moreover from this have "slot p (w mod 1024) \<noteq> slot g i" using page_of_slot [OF g i(1)] pg by metis
    ultimately have "m' (slot p (w mod 1024)) = 0" by (simp add: m'_def fill_page_def)
    then show ?thesis
      using True t [OF i(1)] pr [OF i(1)] i(2) by (simp add: leaf_def leaf_addr_def)
  next
    case False
    note d = vpn_bounds(1) [OF w]
    have "m' (leaf_addr m g w) = m (leaf_addr m g w)" if "present (pde m g (w div 1024))"
      using page_of_leaf_addr [OF ok w that] pt_okD(4) [OF ok d that] new [OF d that] page_of_slot [OF g i(1)]
      by (auto simp: m'_def fill_page_def)
    then show ?thesis using False t [OF d] pr [OF d] by (auto simp: leaf_def leaf_addr_def)
  qed
qed

lemma walk_lookup:
  "w < npages \<Longrightarrow> walkpgdir g (vaddr w) False s =
    Ok (if present (pde (km_mem s) g (w div 1024)) then leaf_addr (km_mem s) g w else 0) s"
  by (simp add: walkpgdir_def Let_def PDX_vaddr PTX_vaddr pde_def leaf_addr_def ptab_def slot_def)

text \<open>Memory outside the pages \<open>P\<close> is not written.\<close>

definition unchanged :: "uint set \<Rightarrow> 'z kmem_scheme \<Rightarrow> 'z kmem_scheme \<Rightarrow> bool" where
  "unchanged P s t \<longleftrightarrow> (\<forall>a. page_of a \<notin> P \<longrightarrow> km_mem t a = km_mem s a)"

lemma unchanged_refl [simp]: "unchanged P s s"
  by (simp add: unchanged_def)

lemma unchanged_trans: "unchanged P s t \<Longrightarrow> unchanged Q t u \<Longrightarrow> Q \<subseteq> P \<Longrightarrow> unchanged P s u"
  unfolding unchanged_def by (metis subsetD)

lemma unchanged_mono: "unchanged Q s t \<Longrightarrow> Q \<subseteq> P \<Longrightarrow> unchanged P s t"
  using unchanged_trans [of P s s Q t] by simp

lemma unchangedD: "unchanged P s t \<Longrightarrow> page_of a \<notin> P \<Longrightarrow> km_mem t a = km_mem s a"
  by (simp add: unchanged_def)

text \<open>
  What a routine that only adds to the page tables of \<open>g\<close> does: pages move from the free list \<open>l\<close> to
  the tables, and nothing outside the free pages and the tree is written.
\<close>

definition grows :: "uint \<Rightarrow> uint \<Rightarrow> uint list \<Rightarrow> uint list \<Rightarrow> 'z kmem_scheme \<Rightarrow> 'z kmem_scheme \<Rightarrow> bool" where
  "grows kend g l l' s t \<longleftrightarrow> frees kend t l' \<and> pt_ok kend (set l') (km_mem t) g \<and>
     set l \<union> tables (km_mem s) g = set l' \<union> tables (km_mem t) g \<and> tables (km_mem s) g \<subseteq> tables (km_mem t) g \<and>
     set l' \<subseteq> set l \<and> kmem.more t = kmem.more s \<and>
     unchanged (set l \<union> {g} \<union> tables (km_mem s) g) s t"

lemma grows_refl: "frees kend s l \<Longrightarrow> pt_ok kend (set l) (km_mem s) g \<Longrightarrow> grows kend g l l s s"
  by (simp add: grows_def)

lemma grows_trans:
  assumes 1: "grows kend g l l' s t" and 2: "grows kend g l' l'' t u"
  shows "grows kend g l l'' s u"
proof -
  have "set l' \<union> {g} \<union> tables (km_mem t) g \<subseteq> set l \<union> {g} \<union> tables (km_mem s) g" using 1 by (auto simp: grows_def)
  with 1 2 have "unchanged (set l \<union> {g} \<union> tables (km_mem s) g) s u"
    unfolding grows_def by (blast intro: unchanged_trans)
  moreover have "tables (km_mem s) g \<subseteq> tables (km_mem u) g" "set l'' \<subseteq> set l" using 1 2 unfolding grows_def by blast+
  ultimately show ?thesis using 1 2 unfolding grows_def by simp
qed

lemma walk_alloc:
  assumes f: "frees kend s l" and ok: "pt_ok kend (set l) (km_mem s) g" and k: "VBASE \<le> kend" and w: "w < npages"
  obtains (mapped) t l' where "walkpgdir g (vaddr w) True s = Ok (leaf_addr (km_mem t) g w) t"
      "grows kend g l l' s t" "present (pde (km_mem t) g (w div 1024))" "\<And>v. v < npages \<Longrightarrow> leaf (km_mem t) g v = leaf (km_mem s) g v"
  | (full) "walkpgdir g (vaddr w) True s = Ok 0 s" "l = []"
proof (cases "present (pde (km_mem s) g (w div 1024))")
  case True
  then have "walkpgdir g (vaddr w) True s = Ok (leaf_addr (km_mem s) g w) s"
    using w by (simp add: walkpgdir_def Let_def PDX_vaddr PTX_vaddr pde_def leaf_addr_def ptab_def slot_def)
  then show ?thesis using True grows_refl [OF f ok] by (intro mapped) auto
next
  case False
  note wk = walkpgdir_def [of g "vaddr w" True s] PDX_vaddr [OF w] PTX_vaddr [OF w] slot_def [symmetric]
  have pd: "\<not> present (km_mem s (slot g (w div 1024)))" using False by (simp add: pde_def)
  show ?thesis
  proof (cases l)
    case Nil
    have "kalloc s = Ok 0 s" using kalloc_spec(1) [OF f] Nil by simp
    then have "walkpgdir g (vaddr w) True s = Ok 0 s" by (simp add: wk pd Let_def kbind_def)
    then show ?thesis using Nil by (rule full)
  next
    case (Cons p l')
    have p: "p \<in> set l" "page_ok kend p" using f Cons by (simp_all add: frees_def)
    let ?s1 = "s\<lparr>km_freelist := km_mem s p\<rparr>"
    let ?m = "(fill_page p 0 (km_mem s))(slot g (w div 1024) := V2P p OR PTE_P OR PTE_W OR PTE_U)"
    let ?t = "?s1\<lparr>km_mem := ?m\<rparr>"
    have k1: "kalloc s = Ok p ?s1" and f1: "frees kend ?s1 l'"
      using kalloc_spec [OF f] Cons by simp_all
    note at = add_table [OF ok k vpn_bounds(1) [OF w] False p]
    have "p \<noteq> 0" using page_ok_not_0 [OF k p(2)] .
    then have "walkpgdir g (vaddr w) True s = Ok (slot p (w mod 1024)) ?t"
      by (simp add: wk pd Let_def kbind_def k1)
    moreover have "leaf_addr ?m g w = slot p (w mod 1024)" using at(4) by (simp add: leaf_addr_def)
    moreover have dl: "set l - {p} = set l'" "p \<notin> set l'" using Cons f by (auto simp: frees_def)
    have gl: "g \<notin> set l" by (rule pt_okD(3) [OF ok])
    have pg: "page_of a \<notin> set l \<union> {g} \<Longrightarrow> ?m a = km_mem s a" for a
      using p(1) page_of_slot [OF pt_okD(2) [OF ok] vpn_bounds(1) [OF w]] by (auto simp: fill_page_def)
    have "frees kend ?t l'"
    proof (rule frees_cong [OF f1])
      show "km_mem ?t a = km_mem ?s1 a" if "page_of a \<in> set l'" for a
        using that dl gl Cons page_of_slot [OF pt_okD(2) [OF ok] vpn_bounds(1) [OF w]] by (auto simp: fill_page_def)
    qed simp
    then have "grows kend g l l' s ?t"
      using at(1,2) dl Cons pg unfolding grows_def unchanged_def by auto
    ultimately show ?thesis using at(3,5) by (intro mapped [of ?t l']) simp_all
  qed
qed

text \<open>
  The loop of mappages over \<open>n\<close> pages from page number \<open>v\<close>: it maps the first \<open>k\<close> of them, all of
  them unless memory runs out.
\<close>

definition maps :: "wmem \<Rightarrow> wmem \<Rightarrow> uint \<Rightarrow> nat \<Rightarrow> nat \<Rightarrow> uint \<Rightarrow> uint \<Rightarrow> bool" where
  "maps m m' g v k pa perm \<longleftrightarrow> (\<forall>w<npages. leaf m' g w =
     (if v \<le> w \<and> w < v + k then (pa + of_nat (w - v) * PGSIZE) OR perm OR PTE_P else leaf m g w))"

lemma leaf_write:
  fixes x :: uint
  assumes "frees kend t l" and "pt_ok kend (set l) (km_mem t) g" and "w < npages" "present (pde (km_mem t) g (w div 1024))"
  defines "u \<equiv> t\<lparr>km_mem := (km_mem t)(leaf_addr (km_mem t) g w := x)\<rparr>"
  shows "grows kend g l l t u" and "v < npages \<Longrightarrow> leaf (km_mem u) g v = (if v = w then x else leaf (km_mem t) g v)"
proof -
  note sl = set_leaf [OF assms(2-4)]
  have "page_of (leaf_addr (km_mem t) g w) \<in> tables (km_mem t) g" "page_of (leaf_addr (km_mem t) g w) \<notin> set l"
    using page_of_leaf_addr [OF assms(2-4)] pt_okD(4) [OF assms(2) vpn_bounds(1) [OF assms(3)] assms(4)] by auto
  then have "unchanged (set l \<union> {g} \<union> tables (km_mem t) g) t u" "frees kend u l"
    by (auto simp: unchanged_def u_def intro!: frees_cong [OF assms(1)])
  then show "grows kend g l l t u" using sl(2,3) by (simp add: grows_def u_def)
  show "v < npages \<Longrightarrow> leaf (km_mem u) g v = (if v = w then x else leaf (km_mem t) g v)" using sl(4) by (simp add: u_def)
qed

lemma mappages_loop_spec:
  assumes "frees kend s l" and "pt_ok kend (set l) (km_mem s) g" and "VBASE < kend"
    and "0 < n" and "v + n \<le> npages" and "n \<le> fuel"
    and "\<And>w. v \<le> w \<Longrightarrow> w < v + n \<Longrightarrow> \<not> present (leaf (km_mem s) g w)"
  shows "\<exists>t l' k. mappages_loop fuel g (vaddr v) (vaddr (v + n - 1)) pa perm s = Ok (if k = n then 0 else - 1) t \<and>
    k \<le> n \<and> grows kend g l l' s t \<and> maps (km_mem s) (km_mem t) g v k pa perm \<and> (k < n \<longrightarrow> l' = [])"
  using assms
proof (induction n arbitrary: fuel v pa s l)
  case (Suc n)
  note k = order.strict_implies_order [OF Suc.prems(3)]
  obtain fuel' where fuel: "fuel = Suc fuel'" "n \<le> fuel'" using Suc.prems(6) by (cases fuel) auto
  have v: "v < npages" using Suc.prems(5) by simp
  show ?case
  proof (rule walk_alloc [OF Suc.prems(1,2) k v])
    assume full: "walkpgdir g (vaddr v) True s = Ok 0 s" "l = []"
    then have "mappages_loop fuel g (vaddr v) (vaddr (v + Suc n - 1)) pa perm s = Ok (- 1) s"
      by (simp add: fuel(1) kbind_def)
    then show ?thesis using full(2) grows_refl [OF Suc.prems(1,2)]
      by (intro exI [of _ s] exI [of _ l] exI [of _ 0]) (auto simp: maps_def)
  next
    fix t l1
    assume wk: "walkpgdir g (vaddr v) True s = Ok (leaf_addr (km_mem t) g v) t" and gr: "grows kend g l l1 s t"
      and pr: "present (pde (km_mem t) g (v div 1024))"
      and lf: "\<And>w. w < npages \<Longrightarrow> leaf (km_mem t) g w = leaf (km_mem s) g w"
    have t: "frees kend t l1" "pt_ok kend (set l1) (km_mem t) g" using gr by (simp_all add: grows_def)
    let ?a = "leaf_addr (km_mem t) g v" and ?x = "pa OR perm OR PTE_P"
    define u where "u = t\<lparr>km_mem := (km_mem t)(?a := ?x)\<rparr>"
    note lw = leaf_write [OF t v pr, where x = ?x, folded u_def]
    have a0: "?a \<noteq> 0"
      using pt_okD(4) [OF t(2) vpn_bounds(1) [OF v] pr] page_ok_not_0 [OF k] slot_not_0 [of _ "v mod 1024"]
      by (auto simp: leaf_addr_def)
    have np: "\<not> present (km_mem t ?a)" using Suc.prems(7) [of v] lf [OF v] pr by (simp add: leaf_def)
    have e: "mappages_loop fuel g (vaddr v) lst pa perm s =
        (if vaddr v = lst then Ok 0 u else mappages_loop fuel' g (vaddr (Suc v)) lst (pa + PGSIZE) perm u)" for lst
      by (simp add: fuel(1) kbind_def wk a0 np Let_def vaddr_Suc u_def)
    have gu: "grows kend g l l1 s u" by (rule grows_trans [OF gr lw(1)])
    have lu: "leaf (km_mem u) g w = (if w = v then ?x else leaf (km_mem s) g w)" if "w < npages" for w
      using lw(2) [OF that] lf [OF that] by simp
    show ?thesis
    proof (cases "n = 0")
      case True
      then have "mappages_loop fuel g (vaddr v) (vaddr (v + Suc n - 1)) pa perm s = Ok 0 u" by (simp add: e)
      moreover have "maps (km_mem s) (km_mem u) g v 1 pa perm" using lu by (auto simp: maps_def)
      ultimately show ?thesis using gu True unfolding One_nat_def by (intro exI [of _ u] exI [of _ l1] exI [of _ "Suc 0"] conjI) simp_all
    next
      case False
      have "\<not> present (leaf (km_mem u) g w)" if "Suc v \<le> w" "w < Suc v + n" for w
        using that lu [of w] Suc.prems(5,7) by simp
      moreover have "frees kend u l1" "pt_ok kend (set l1) (km_mem u) g" using gu by (simp_all add: grows_def)
      ultimately obtain z l2 j where z: "mappages_loop fuel' g (vaddr (Suc v)) (vaddr (Suc v + n - 1)) (pa + PGSIZE) perm u =
            Ok (if j = n then 0 else - 1) z" "j \<le> n" "grows kend g l1 l2 u z"
          "maps (km_mem u) (km_mem z) g (Suc v) j (pa + PGSIZE) perm" "j < n \<longrightarrow> l2 = []"
        using Suc.IH [of u l1 "Suc v" fuel' "pa + PGSIZE"] Suc.prems(3,5) False fuel(2) by auto
      have "vaddr v \<noteq> vaddr (v + n)" using False Suc.prems(5) vaddr_eq [of v "v + n"] by simp
      then have "mappages_loop fuel g (vaddr v) (vaddr (v + Suc n - 1)) pa perm s = Ok (if Suc j = Suc n then 0 else - 1) z"
        using z(1) by (simp add: e)
      moreover have "maps (km_mem s) (km_mem z) g v (Suc j) pa perm"
        unfolding maps_def
      proof (intro allI impI)
        fix w assume w: "w < npages"
        have sh: "pa + PGSIZE + of_nat (w - Suc v) * PGSIZE = pa + of_nat (w - v) * PGSIZE" if "Suc v \<le> w"
        proof -
          have "w - v = Suc (w - Suc v)" using that by simp
          then show ?thesis by (simp add: algebra_simps)
        qed
        then show "leaf (km_mem z) g w = (if v \<le> w \<and> w < v + Suc j then (pa + of_nat (w - v) * PGSIZE) OR perm OR PTE_P
            else leaf (km_mem s) g w)"
          using z(4) w lu [OF w] by (auto simp: maps_def sh simp del: of_nat_diff)
      qed
      ultimately show ?thesis using z(2,5) grows_trans [OF gu z(3)]
        by (intro exI [of _ z] exI [of _ l2] exI [of _ "Suc j"]) simp
    qed
  qed
qed simp

section \<open>deallocuvm and freevm\<close>

text \<open>The user part of an address space, below KERNBASE.\<close>

definition upn :: nat where "upn = 0x80000"

definition upage :: "wmem \<Rightarrow> uint \<Rightarrow> nat \<Rightarrow> uint" where "upage m g w = P2V (PTE_ADDR (leaf m g w))"

definition upages :: "wmem \<Rightarrow> uint \<Rightarrow> nat set \<Rightarrow> uint set" where
  "upages m g R = {upage m g w |w. w \<in> R \<and> present (leaf m g w)}"

definition space_ok :: "uint \<Rightarrow> uint set \<Rightarrow> wmem \<Rightarrow> uint \<Rightarrow> bool" where
  "space_ok kend F m g \<longleftrightarrow> pt_ok kend F m g \<and>
     (\<forall>w<upn. present (leaf m g w) \<longrightarrow>
        page_ok kend (upage m g w) \<and> upage m g w \<notin> F \<and> upage m g w \<noteq> g \<and> upage m g w \<notin> tables m g) \<and>
     (\<forall>v<upn. \<forall>w<upn. present (leaf m g v) \<and> present (leaf m g w) \<and> upage m g v = upage m g w \<longrightarrow> v = w)"

lemma upn_npages: "w < upn \<Longrightarrow> w < npages"
  by (simp add: upn_def npages_def)

lemma space_okD:
  assumes "space_ok kend F m g"
  shows "pt_ok kend F m g"
    and "w < upn \<Longrightarrow> present (leaf m g w) \<Longrightarrow>
      page_ok kend (upage m g w) \<and> upage m g w \<notin> F \<and> upage m g w \<noteq> g \<and> upage m g w \<notin> tables m g"
    and "v < upn \<Longrightarrow> w < upn \<Longrightarrow> present (leaf m g v) \<Longrightarrow> present (leaf m g w) \<Longrightarrow> upage m g v = upage m g w \<Longrightarrow> v = w"
  using assms by (auto simp: space_ok_def)

text \<open>The pages with numbers in \<open>R\<close> are unmapped and go back to the free list.\<close>

definition drops :: "uint \<Rightarrow> uint \<Rightarrow> nat set \<Rightarrow> uint list \<Rightarrow> uint list \<Rightarrow> 'z kmem_scheme \<Rightarrow> 'z kmem_scheme \<Rightarrow> bool" where
  "drops kend g R l l' s t \<longleftrightarrow> frees kend t l' \<and> space_ok kend (set l') (km_mem t) g \<and>
     tables (km_mem t) g = tables (km_mem s) g \<and> set l' = set l \<union> upages (km_mem s) g R \<and>
     (\<forall>v<npages. leaf (km_mem t) g v = (if v \<in> R \<and> present (leaf (km_mem s) g v) then 0 else leaf (km_mem s) g v)) \<and>
     (\<forall>i<1024. pde (km_mem t) g i = pde (km_mem s) g i) \<and>
     unchanged (tables (km_mem s) g \<union> upages (km_mem s) g R) s t \<and> kmem.more t = kmem.more s"

lemma dropsD:
  assumes "drops kend g R l l' s t"
  shows "frees kend t l'" "space_ok kend (set l') (km_mem t) g" "tables (km_mem t) g = tables (km_mem s) g"
    "set l' = set l \<union> upages (km_mem s) g R" "kmem.more t = kmem.more s"
    "unchanged (tables (km_mem s) g \<union> upages (km_mem s) g R) s t"
    "i < 1024 \<Longrightarrow> pde (km_mem t) g i = pde (km_mem s) g i"
    "v < npages \<Longrightarrow> leaf (km_mem t) g v = (if v \<in> R \<and> present (leaf (km_mem s) g v) then 0 else leaf (km_mem s) g v)"
  using assms by (auto simp: drops_def)

lemma drops_nothing:
  "frees kend s l \<Longrightarrow> space_ok kend (set l) (km_mem s) g \<Longrightarrow> (\<And>w. w \<in> R \<Longrightarrow> \<not> present (leaf (km_mem s) g w)) \<Longrightarrow>
   drops kend g R l l s s"
  by (auto simp: drops_def upages_def)

lemma drops_trans:
  assumes 1: "drops kend g R l l' s t" and 2: "drops kend g R' l' l'' t u" and R: "R \<inter> R' = {}"
    and sub: "R \<subseteq> {..<npages}" "R' \<subseteq> {..<npages}"
  shows "drops kend g (R \<union> R') l l'' s u"
proof -
  have lf: "leaf (km_mem t) g v = leaf (km_mem s) g v" if "v \<in> R'" for v
  proof -
    have "v < npages" "v \<notin> R" using R sub that by auto
    then show ?thesis using 1 by (simp add: drops_def)
  qed
  then have u: "upages (km_mem t) g R' = upages (km_mem s) g R'"
    unfolding upages_def upage_def by (intro Collect_cong iff_exI) (auto simp: lf)
  have u2: "upages (km_mem s) g (R \<union> R') = upages (km_mem s) g R \<union> upages (km_mem s) g R'" by (auto simp: upages_def)
  note d1 = 1 [unfolded drops_def] and d2 = 2 [unfolded drops_def u]
  have un: "unchanged (tables (km_mem s) g \<union> upages (km_mem s) g (R \<union> R')) s u"
  proof (rule unchanged_trans)
    show "unchanged (tables (km_mem s) g \<union> upages (km_mem s) g (R \<union> R')) s t"
      using d1 u2 by (blast intro: unchanged_mono)
    show "unchanged (tables (km_mem t) g \<union> upages (km_mem s) g R') t u" using d2 by blast
    show "tables (km_mem t) g \<union> upages (km_mem s) g R' \<subseteq> tables (km_mem s) g \<union> upages (km_mem s) g (R \<union> R')"
      using d1 u2 by blast
  qed
  have "leaf (km_mem u) g v = (if v \<in> R \<union> R' \<and> present (leaf (km_mem s) g v) then 0 else leaf (km_mem s) g v)"
    if "v < npages" for v
  proof -
    have "leaf (km_mem u) g v = (if v \<in> R' \<and> present (leaf (km_mem t) g v) then 0 else leaf (km_mem t) g v)"
      "leaf (km_mem t) g v = (if v \<in> R \<and> present (leaf (km_mem s) g v) then 0 else leaf (km_mem s) g v)"
      using d1 d2 that by blast+
    then show ?thesis by auto
  qed
  moreover have "set l'' = set l \<union> upages (km_mem s) g (R \<union> R')" using d1 d2 u2 by blast
  moreover have "frees kend u l''" "space_ok kend (set l'') (km_mem u) g" using d2 by blast+
  moreover have "tables (km_mem u) g = tables (km_mem s) g" "kmem.more u = kmem.more s"
    "\<forall>i<1024. pde (km_mem u) g i = pde (km_mem s) g i"
    using d1 d2 by simp_all
  ultimately show ?thesis using un unfolding drops_def by blast
qed

lemma drop_one:
  assumes f: "frees kend s l" and ok: "space_ok kend (set l) (km_mem s) g" and k: "VBASE < kend"
    and w: "w < upn" "present (leaf (km_mem s) g w)"
  defines "p \<equiv> upage (km_mem s) g w"
  shows "\<exists>t u. kfree kend p s = Ok () t \<and> u = t\<lparr>km_mem := (km_mem t)(leaf_addr (km_mem s) g w := 0)\<rparr> \<and>
    drops kend g {w} l (p # l) s u"
proof -
  note sp = space_okD [OF ok]
  have p: "page_ok kend p" "p \<notin> set l" "p \<noteq> g" "p \<notin> tables (km_mem s) g" using sp(2) [OF w] by (simp_all add: p_def)
  obtain t where t: "kfree kend p s = Ok () t" "frees kend t (p # l)" "\<And>a. page_of a \<noteq> p \<Longrightarrow> km_mem t a = km_mem s a"
      "kmem.more t = kmem.more s"
    using kfree_spec [OF f p(1,2) order.strict_implies_order [OF k]] by blast
  have same: "\<forall>a. page_of a \<in> insert g (tables (km_mem s) g) \<longrightarrow> km_mem t a = km_mem s a"
    using p(3,4) t(3) by (metis insertE)
  note c = pt_cong [OF sp(1) same]
  have pt: "pt_ok kend (set (p # l)) (km_mem t) g"
    using c(4) p(3,4) unfolding pt_ok_def using c(3) by (auto simp: tables_def)
  have wn: "w < npages" by (rule upn_npages [OF w(1)])
  have pd: "present (pde (km_mem s) g (w div 1024))" using w(2) by (auto simp: leaf_def split: if_splits)
  then have pd': "present (pde (km_mem t) g (w div 1024))" using c(1) vpn_bounds(1) [OF wn] by simp
  have la: "leaf_addr (km_mem t) g w = leaf_addr (km_mem s) g w" using c(2) vpn_bounds(1) [OF wn] by (simp add: leaf_addr_def)
  define u where "u = t\<lparr>km_mem := (km_mem t)(leaf_addr (km_mem s) g w := 0)\<rparr>"
  note lw = leaf_write [OF t(2) pt wn pd', where x = 0, unfolded la, folded u_def]
  have g: "frees kend u (p # l)" "pt_ok kend (set (p # l)) (km_mem u) g" using lw(1) by (simp_all add: grows_def)
  have tb: "tables (km_mem u) g = tables (km_mem s) g" and pdu: "\<And>i. i < 1024 \<Longrightarrow> pde (km_mem u) g i = pde (km_mem s) g i"
    using set_leaf(1,2) [OF pt wn pd', where x = 0] c(1,3) la by (simp_all add: u_def)
  have lf: "leaf (km_mem u) g v = (if v = w then 0 else leaf (km_mem s) g v)" if "v < npages" for v
    using lw(2) [OF that] c(5) [OF that] by simp
  have up: "upages (km_mem s) g {w} = {p}" using w(2) by (auto simp: upages_def p_def)
  have un: "unchanged (tables (km_mem s) g \<union> {p}) s u"
    using t(3) page_of_leaf_addr [OF sp(1) wn pd] pt_okD(4) [OF sp(1) vpn_bounds(1) [OF wn] pd]
    by (auto simp: unchanged_def u_def)
  have uv: "upage (km_mem u) g v = upage (km_mem s) g v" if "v < npages" "v \<noteq> w" for v
    using lf [OF that(1)] that(2) by (simp add: upage_def)
  have "space_ok kend (set (p # l)) (km_mem u) g"
    unfolding space_ok_def
  proof (intro conjI allI impI)
    fix v assume v: "v < upn" "present (leaf (km_mem u) g v)"
    then have "v \<noteq> w" "present (leaf (km_mem s) g v)" using lf [OF upn_npages [OF v(1)]] by (auto split: if_splits)
    then show "page_ok kend (upage (km_mem u) g v)" "upage (km_mem u) g v \<notin> set (p # l)" "upage (km_mem u) g v \<noteq> g"
      "upage (km_mem u) g v \<notin> tables (km_mem u) g"
      using sp(2) [OF v(1)] sp(3) [OF v(1) w(1)] w(2) uv [OF upn_npages [OF v(1)]] tb by (auto simp: p_def)
  next
    fix v v' assume v: "v < upn" "v' < upn"
      and e: "present (leaf (km_mem u) g v) \<and> present (leaf (km_mem u) g v') \<and> upage (km_mem u) g v = upage (km_mem u) g v'"
    then have "v \<noteq> w" "v' \<noteq> w" using lf [OF upn_npages [OF v(1)]] lf [OF upn_npages [OF v(2)]] by (auto split: if_splits)
    with e show "v = v'"
      using sp(3) [OF v] lf [OF upn_npages [OF v(1)]] lf [OF upn_npages [OF v(2)]] uv [OF upn_npages [OF v(1)]] uv [OF upn_npages [OF v(2)]]
      by simp
  qed (rule g(2))
  moreover have "kmem.more u = kmem.more s" using t(4) by (simp add: u_def)
  ultimately have "drops kend g {w} l (p # l) s u"
    using g(1) tb lf un w(2) pdu by (simp add: drops_def up)
  then show ?thesis using t(1) by (auto simp: u_def)
qed

definition npg :: "uint \<Rightarrow> nat" where "npg sz = (unat sz + 4095) div 4096"

lemma vaddr_less: "w < npages \<Longrightarrow> vaddr w < sz \<longleftrightarrow> w < npg sz"
  by (simp add: word_less_nat_alt unat_vaddr npg_def less_eq_div_iff_mult_less_eq [of 4096 "Suc w", simplified Suc_le_eq] Suc_le_eq)

lemma npg_upn: "unat sz \<le> 0x80000000 \<Longrightarrow> npg sz \<le> upn"
  by (simp add: npg_def upn_def)

lemma PGROUNDUP_vaddr: "unat a \<le> 0x80000000 \<Longrightarrow> PGROUNDUP a = vaddr (npg a)"
  using PGROUNDUP_up(1) [of a] unat_vaddr [of "npg a"] npg_upn [of a]
  by (simp add: word_unat_eq_iff npg_def upn_def npages_def)

lemma skip_table:
  assumes "w < upn"
  shows "PGADDR (PDX (vaddr w) + 1) 0 0 - PGSIZE + PGSIZE = vaddr ((w div 1024 + 1) * 1024)" and "(w div 1024 + 1) * 1024 \<le> upn"
proof -
  have w: "w < npages" using assms by (rule upn_npages)
  have "PDX (vaddr w) + 1 = of_nat (w div 1024 + 1)" by (simp add: PDX_vaddr [OF w])
  moreover have "push_bit 22 (of_nat k :: uint) = of_nat (k * 4194304)" for k by (simp add: push_bit_eq_mult)
  ultimately show "PGADDR (PDX (vaddr w) + 1) 0 0 - PGSIZE + PGSIZE = vaddr ((w div 1024 + 1) * 1024)"
    by (simp only: PGADDR_def push_bit_of_0 or.right_neutral) (simp add: vaddr_def algebra_simps)
  have "w div 1024 < 512" using assms by (simp add: upn_def)
  then show "(w div 1024 + 1) * 1024 \<le> upn" by (simp add: upn_def)
qed

lemma dealloc_loop_spec:
  assumes "frees kend s l" and "space_ok kend (set l) (km_mem s) g" and "VBASE < kend"
    and "unat sz \<le> 0x80000000" and "w \<le> upn" and "npg sz - w \<le> fuel"
  shows "\<exists>t l'. dealloc_loop fuel kend g (vaddr w) sz s = Ok () t \<and> drops kend g {w..<npg sz} l l' s t"
  using assms
proof (induction fuel arbitrary: w s l)
  case 0
  have "w < npages" using 0 by (simp add: upn_def npages_def)
  then have "\<not> vaddr w < sz" using 0 vaddr_less [of w sz] by simp
  then show ?case using 0 drops_nothing [OF 0(1,2), of "{w..<npg sz}"] by (intro exI [of _ s] exI [of _ l]) simp
next
  case (Suc fuel)
  note k = Suc.prems(3) and sz = Suc.prems(4)
  have wn: "w < npages" using Suc.prems(5) by (simp add: upn_def npages_def)
  have sub: "{i..<npg sz} \<subseteq> {..<npages}" for i using npg_upn [OF sz] by (auto simp: upn_def npages_def)
  show ?case
  proof (cases "w < npg sz")
    case False
    then have "\<not> vaddr w < sz" using vaddr_less [OF wn, of sz] by simp
    then show ?thesis using False drops_nothing [OF Suc.prems(1,2), of "{w..<npg sz}"]
      by (intro exI [of _ s] exI [of _ l]) simp
  next
    case True
    then have lt: "vaddr w < sz" and wu: "w < upn" using vaddr_less [OF wn, of sz] npg_upn [OF sz] by simp_all
    let ?a = "leaf_addr (km_mem s) g w"
    have step: "\<exists>t l'. dealloc_loop (Suc fuel) kend g (vaddr w) sz s = Ok () t \<and> drops kend g {w..<npg sz} l l' s t"
      if d: "dealloc_loop (Suc fuel) kend g (vaddr w) sz s = dealloc_loop fuel kend g (vaddr w') sz s'"
        "drops kend g {w..<min w' (npg sz)} l l1 s s'" "w < w'" "w' \<le> upn" for w' s' l1
    proof -
      have s': "frees kend s' l1" "space_ok kend (set l1) (km_mem s') g" using dropsD [OF d(2)] by simp_all
      obtain t l' where t: "dealloc_loop fuel kend g (vaddr w') sz s' = Ok () t" "drops kend g {w'..<npg sz} l1 l' s' t"
      proof -
        have "npg sz - w' \<le> fuel" using d(3) Suc.prems(6) by linarith
        from Suc.IH [OF s' k sz d(4) this] that show ?thesis by blast
      qed
      have u: "{w..<min w' (npg sz)} \<union> {w'..<npg sz} = {w..<npg sz}" using d(3) True by auto
      have "{w..<min w' (npg sz)} \<subseteq> {..<npages}" using sub [of w] by (auto simp: subset_iff)
      moreover have "{w..<min w' (npg sz)} \<inter> {w'..<npg sz} = {}" by auto
      ultimately have "drops kend g {w..<npg sz} l l' s t"
        using drops_trans [OF d(2) t(2) _ _ sub] u by metis
      then show ?thesis using d(1) t(1) by auto
    qed
    show ?thesis
    proof (cases "present (pde (km_mem s) g (w div 1024))")
      case pd: True
      have a0: "?a \<noteq> 0"
        using pt_okD(4) [OF space_okD(1) [OF Suc.prems(2)] vpn_bounds(1) [OF wn] pd]
          page_ok_not_0 [OF order.strict_implies_order [OF k]] slot_not_0 [of _ "w mod 1024"]
        by (auto simp: leaf_addr_def)
      have lf: "leaf (km_mem s) g w = km_mem s ?a" using pd by (simp add: leaf_def)
      have r: "{w..<min (Suc w) (npg sz)} = {w}" using True by auto
      show ?thesis
      proof (cases "present (leaf (km_mem s) g w)")
        case False
        then have "dealloc_loop (Suc fuel) kend g (vaddr w) sz s = dealloc_loop fuel kend g (vaddr (Suc w)) sz s"
          using pd a0 lt by (simp add: kbind_def walk_lookup [OF wn] lf vaddr_Suc)
        then show ?thesis
          by (rule step) (use False wu drops_nothing [OF Suc.prems(1,2), of "{w}"] in \<open>simp_all add: r\<close>)
      next
        case pr: True
        note one = drop_one [OF Suc.prems(1,2) k wu pr]
        let ?p = "upage (km_mem s) g w"
        have pa: "?p = P2V (PTE_ADDR (km_mem s ?a))" by (simp add: upage_def lf)
        have "kend \<le> ?p" using space_okD(2) [OF Suc.prems(2) wu pr] by (simp add: page_ok_def)
        then have "?p \<noteq> VBASE" using k by auto
        then have pa0: "PTE_ADDR (km_mem s ?a) \<noteq> 0" by (auto simp: pa P2V_def)
        obtain t u where tu: "kfree kend ?p s = Ok () t" "u = t\<lparr>km_mem := (km_mem t)(?a := 0)\<rparr>"
            "drops kend g {w} l (?p # l) s u"
          using one by blast
        have "dealloc_loop (Suc fuel) kend g (vaddr w) sz s = dealloc_loop fuel kend g (vaddr (Suc w)) sz u"
          using pd a0 lt pr pa0 tu(1)
          by (simp add: kbind_def kthen_def walk_lookup [OF wn] lf [symmetric] vaddr_Suc pa [unfolded lf [symmetric], symmetric] tu(2))
        then show ?thesis by (rule step) (use wu tu(3) in \<open>simp_all add: r\<close>)
      qed
    next
      case pd: False
      let ?w = "(w div 1024 + 1) * 1024"
      have "dealloc_loop (Suc fuel) kend g (vaddr w) sz s = dealloc_loop fuel kend g (vaddr ?w) sz s"
        using pd lt skip_table(1) [OF wu] by (simp add: kbind_def walk_lookup [OF wn])
      moreover have q: "v div 1024 = w div 1024" if "v \<in> {w..<min ?w (npg sz)}" for v
      proof -
        have "w div 1024 \<le> v div 1024" "v div 1024 < w div 1024 + 1"
          using that by (auto intro: div_le_mono less_mult_imp_div_less)
        then show ?thesis by simp
      qed
      have "\<not> present (leaf (km_mem s) g v)" if "v \<in> {w..<min ?w (npg sz)}" for v
        unfolding leaf_def q [OF that] using pd by simp
      note drops_nothing [OF Suc.prems(1,2) this]
      moreover have "w < ?w" using dividend_less_div_times [of 1024 w] by simp
      ultimately show ?thesis using skip_table(2) [OF wu] by (intro step)
    qed
  qed
qed

lemma deallocuvm_spec:
  assumes "frees kend s l" and "space_ok kend (set l) (km_mem s) g" and "VBASE < kend" and "unat oldsz \<le> 0x80000000"
  shows "\<exists>t l'. deallocuvm kend g oldsz newsz s = Ok (if newsz < oldsz then newsz else oldsz) t \<and>
    drops kend g {npg newsz..<npg oldsz} l l' s t"
proof (cases "newsz < oldsz")
  case True
  then have n: "unat newsz \<le> 0x80000000" using assms(4) by (simp add: word_less_nat_alt)
  have "npg oldsz - npg newsz \<le> npages" using npg_upn [OF assms(4)] by (simp add: upn_def npages_def)
  from dealloc_loop_spec [OF assms npg_upn [OF n] this] obtain t l' where
    "dealloc_loop npages kend g (vaddr (npg newsz)) oldsz s = Ok () t" "drops kend g {npg newsz..<npg oldsz} l l' s t"
    by blast
  then show ?thesis using True by (auto simp: deallocuvm_def not_le PGROUNDUP_vaddr [OF n] kthen_def kbind_def)
next
  case False
  then have "npg oldsz \<le> npg newsz" by (simp add: npg_def word_less_nat_alt div_le_mono)
  then show ?thesis
    using False drops_nothing [OF assms(1,2), of "{npg newsz..<npg oldsz}"] by (auto simp: deallocuvm_def not_less)
qed

lemma free_tables_spec:
  assumes "frees kend s l" and "VBASE < kend" and "distinct is" and "\<forall>i\<in>set is. i < 1024"
    and "\<forall>i\<in>set is. pde (km_mem s) g i = pde m g i" and "aligned g"
    and "\<forall>i\<in>set is. present (pde m g i) \<longrightarrow> page_ok kend (ptab m g i) \<and> ptab m g i \<notin> set l \<and> ptab m g i \<noteq> g"
    and "\<forall>i\<in>set is. \<forall>j\<in>set is. present (pde m g i) \<and> present (pde m g j) \<and> ptab m g i = ptab m g j \<longrightarrow> i = j"
  defines "T \<equiv> \<lambda>is. ptab m g ` {i \<in> set is. present (pde m g i)}"
  shows "\<exists>t l'. free_tables kend g is s = Ok () t \<and> frees kend t l' \<and> set l' = set l \<union> T is \<and>
    unchanged (T is) s t \<and> kmem.more t = kmem.more s"
  using assms(1,3-5,7-8)
proof (induction "is" arbitrary: s l)
  case Nil
  then show ?case by (auto simp: T_def)
next
  case (Cons i "is")
  have pd: "km_mem s (slot g i) = pde m g i" using Cons.prems(4) by (simp add: pde_def)
  have sl: "entry g (of_nat i) = slot g i" by (simp add: slot_def)
  show ?case
  proof (cases "present (pde m g i)")
    case True
    let ?p = "ptab m g i"
    have p: "page_ok kend ?p" "?p \<notin> set l" "?p \<noteq> g" using Cons.prems(5) True by auto
    obtain u where u: "kfree kend ?p s = Ok () u" "frees kend u (?p # l)" "\<And>a. page_of a \<noteq> ?p \<Longrightarrow> km_mem u a = km_mem s a"
        "kmem.more u = kmem.more s"
      using kfree_spec [OF Cons.prems(1) p(1,2) order.strict_implies_order [OF assms(2)]] by blast
    have "pde (km_mem u) g j = pde m g j" if "j \<in> set is" for j
      using u(3) [of "slot g j"] page_of_slot [OF assms(6), of j] p(3) Cons.prems(3,4) that by (auto simp: pde_def)
    moreover have "ptab m g j \<noteq> ?p" if "j \<in> set is" "present (pde m g j)" for j
      using Cons.prems(2,6) True that by auto
    ultimately obtain t l' where t: "free_tables kend g is u = Ok () t" "frees kend t l'" "set l' = set (?p # l) \<union> T is"
        "unchanged (T is) u t" "kmem.more t = kmem.more u"
      using Cons.IH [OF u(2)] Cons.prems(2-6) by auto
    have T: "T (i # is) = insert ?p (T is)" using True by (auto simp: T_def)
    have "unchanged (T (i # is)) s u" using u(3) unfolding unchanged_def T by blast
    then have "unchanged (T (i # is)) s t" using t(4) T by (blast intro: unchanged_trans)
    moreover have "free_tables kend g (i # is) s = Ok () t"
      using u(1) t(1) True by (simp add: sl pd kthen_Ok ptab_def)
    ultimately show ?thesis using t u(4) T by auto
  next
    case False
    then have T: "T (i # is) = T is" by (auto simp: T_def)
    have "free_tables kend g (i # is) s = free_tables kend g is s" using False by (simp add: sl pd)
    then show ?thesis unfolding T using Cons.IH [OF Cons.prems(1)] Cons.prems(2-6) by simp
  qed
qed

lemma root_not_table: "pt_ok kend F m g \<Longrightarrow> g \<notin> tables m g"
  by (auto simp: pt_ok_def tables_def)

text \<open>All pages of an address space.\<close>

definition owned :: "wmem \<Rightarrow> uint \<Rightarrow> uint set" where
  "owned m g = insert g (tables m g) \<union> upages m g {..<upn}"

lemma freevm_spec:
  assumes "frees kend s l" and ok: "space_ok kend (set l) (km_mem s) g" and k: "VBASE < kend"
  shows "\<exists>t l'. freevm kend g s = Ok () t \<and> frees kend t l' \<and> set l' = set l \<union> owned (km_mem s) g \<and>
    unchanged (owned (km_mem s) g) s t \<and> kmem.more t = kmem.more s"
proof -
  note pt = space_okD(1) [OF ok]
  have g0: "g \<noteq> 0" using page_ok_not_0 [OF order.strict_implies_order [OF k] pt_okD(1) [OF pt]] .
  have vb: "unat VBASE = 0x80000000" by (simp add: VBASE_def)
  have r: "{npg 0..<npg VBASE} = {..<upn}" by (auto simp: npg_def upn_def vb)
  obtain t l1 where t: "deallocuvm kend g VBASE 0 s = Ok 0 t" "drops kend g {..<upn} l l1 s t"
    using deallocuvm_spec [OF assms, of VBASE 0] r by (auto simp: vb) (simp add: VBASE_def)
  note d = dropsD [OF t(2)]
  note pt1 = space_okD(1) [OF d(2)]
  have T: "ptab (km_mem t) g ` {i \<in> set [0..<NPDENTRIES]. present (pde (km_mem t) g i)} = tables (km_mem s) g"
    unfolding d(3) [symmetric] by (auto simp: tables_def NPDENTRIES_def)
  obtain u l2 where u: "free_tables kend g [0..<NPDENTRIES] t = Ok () u" "frees kend u l2"
      "set l2 = set l1 \<union> tables (km_mem s) g" "unchanged (tables (km_mem s) g) t u" "kmem.more u = kmem.more t"
    using free_tables_spec [OF d(1) k, of "[0..<NPDENTRIES]" g "km_mem t"] pt_okD(2,4,5) [OF pt1] unfolding T
    by (auto simp: NPDENTRIES_def)
  have g: "page_ok kend g" "g \<notin> set l2"
    using pt_okD(1,3) [OF pt1] root_not_table [OF pt] u(3) by auto
  obtain v where v: "kfree kend g u = Ok () v" "frees kend v (g # l2)" "\<And>a. page_of a \<noteq> g \<Longrightarrow> km_mem v a = km_mem u a"
      "kmem.more v = kmem.more u"
    using kfree_spec [OF u(2) g order.strict_implies_order [OF k]] by blast
  have "freevm kend g s = Ok () v" using g0 by (simp add: freevm_def kthen_def kbind_def t(1) u(1) v(1))
  moreover have "set (g # l2) = set l \<union> owned (km_mem s) g" using u(3) d(4) by (auto simp: owned_def)
  moreover have "unchanged (owned (km_mem s) g) u v" "unchanged (owned (km_mem s) g) t u" "unchanged (owned (km_mem s) g) s t"
    using v(3) u(4) d(6) by (auto simp: unchanged_def owned_def)
  then have "unchanged (owned (km_mem s) g) s v" by (blast intro: unchanged_trans)
  ultimately show ?thesis using v(2,4) u(5) d(5) by (intro exI [of _ v] exI [of _ "g # l2"]) simp
qed

section \<open>Building address spaces\<close>

lemma mappages_spec:
  assumes "frees kend s l" and "pt_ok kend (set l) (km_mem s) g" and "VBASE < kend"
    and n: "0 < n" "v + n \<le> npages"
    and "\<And>w. v \<le> w \<Longrightarrow> w < v + n \<Longrightarrow> \<not> present (leaf (km_mem s) g w)"
  shows "\<exists>t l' k. mappages g (vaddr v) (of_nat (n * 4096)) pa perm s = Ok (if k = n then 0 else - 1) t \<and>
    k \<le> n \<and> grows kend g l l' s t \<and> maps (km_mem s) (km_mem t) g v k pa perm \<and> (k < n \<longrightarrow> l' = [])"
proof -
  have v: "v < npages" and le: "n \<le> npages" using n by simp_all
  obtain j where j: "n = Suc j" using n(1) by (cases n) auto
  have "vaddr v + of_nat (n * 4096) - 1 = of_nat ((v + j) * 4096 + 4095)"
    by (simp add: vaddr_def j algebra_simps)
  moreover have "(v + j) * 4096 + 4095 < 2 ^ 32" using n(2) by (simp add: npages_def j)
  ultimately have "unat (vaddr v + of_nat (n * 4096) - 1) = (v + j) * 4096 + 4095"
    by (simp add: unat_of_nat del: of_nat_add of_nat_mult)
  moreover have q: "((v + j) * 4096 + 4095) div 4096 = v + j" by (rule div_nat_eqI) simp_all
  ultimately have "unat (page_of (vaddr v + of_nat (n * 4096) - 1)) = (v + j) * 4096"
    by (simp only: unat_PGROUNDDOWN q)
  then have lst: "page_of (vaddr v + of_nat (n * 4096) - 1) = vaddr (v + n - 1)"
    using unat_vaddr [of "v + j"] n(2) by (simp add: word_unat_eq_iff j)
  have "mappages g (vaddr v) (of_nat (n * 4096)) pa perm s = mappages_loop npages g (vaddr v) (vaddr (v + n - 1)) pa perm s"
    unfolding mappages_def lst using v by simp
  then show ?thesis using mappages_loop_spec [OF assms(1-3) n le assms(6)] by metis
qed

lemma growsD:
  assumes "grows kend g l l' s t"
  shows "frees kend t l'" "pt_ok kend (set l') (km_mem t) g" "kmem.more t = kmem.more s" "set l' \<subseteq> set l"
    "set l \<union> tables (km_mem s) g = set l' \<union> tables (km_mem t) g" "tables (km_mem s) g \<subseteq> tables (km_mem t) g"
    "unchanged (set l \<union> {g} \<union> tables (km_mem s) g) s t"
  using assms by (auto simp: grows_def)

text \<open>Without user pages the page tables are all that an address space owns.\<close>

lemma empty_user:
  assumes "pt_ok kend F m g" and "\<And>w. w < upn \<Longrightarrow> \<not> present (leaf m g w)"
  shows "space_ok kend F m g" and "owned m g = insert g (tables m g)"
  using assms by (auto simp: space_ok_def owned_def upages_def)

text \<open>A kernel mapping as an interval of page numbers.\<close>

type_synonym region = "kmap_entry \<times> nat \<times> nat"

definition region_ok :: "region \<Rightarrow> bool" where
  "region_ok = (\<lambda>(k, v, n). k_virt k = vaddr v \<and> k_phys_end k - k_phys_start k = of_nat (n * 4096) \<and>
     0 < n \<and> upn \<le> v \<and> v + n \<le> npages)"

definition in_region :: "nat \<Rightarrow> region \<Rightarrow> bool" where
  "in_region w = (\<lambda>(k, v, n). v \<le> w \<and> w < v + n)"

definition region_leaf :: "nat \<Rightarrow> region \<Rightarrow> uint" where
  "region_leaf w = (\<lambda>(k, v, n). (k_phys_start k + of_nat (w - v) * PGSIZE) OR k_perm k OR PTE_P)"

fun regions_leaf :: "region list \<Rightarrow> nat \<Rightarrow> uint" where
  "regions_leaf [] w = 0"
| "regions_leaf (r # rs) w = (if in_region w r then region_leaf w r else regions_leaf rs w)"

lemma kvm_loop_spec:
  assumes "frees kend s l" and "pt_ok kend (set l) (km_mem s) g" and "VBASE < kend"
    and "\<forall>r\<in>set rs. region_ok r" and "sorted_wrt (\<lambda>(k, v, n) (k', v', n'). v + n \<le> v') rs"
    and "\<forall>w<npages. (\<exists>r\<in>set rs. in_region w r) \<or> w < upn \<longrightarrow> leaf (km_mem s) g w = 0"
  shows "\<exists>r t l'. kvm_loop kend g (map fst rs) s = Ok r t \<and> frees kend t l' \<and> kmem.more t = kmem.more s \<and>
    unchanged (set l \<union> insert g (tables (km_mem s) g)) s t \<and>
    (if r = 0 then set l' = set l \<union> insert g (tables (km_mem s) g)
     else r = g \<and> grows kend g l l' s t \<and>
       (\<forall>w<npages. leaf (km_mem t) g w = (if \<exists>r\<in>set rs. in_region w r then regions_leaf rs w else leaf (km_mem s) g w)))"
  using assms(1,2,4-6)
proof (induction rs arbitrary: s l)
  case Nil
  have "g \<noteq> 0" using page_ok_not_0 [OF order.strict_implies_order [OF assms(3)] pt_okD(1) [OF Nil(2)]] .
  then show ?case using Nil(1) grows_refl [OF Nil(1,2)] by (intro exI [of _ g] exI [of _ s] exI [of _ l]) simp
next
  case (Cons r rs)
  obtain e v n where r: "r = (e, v, n)" by (cases r)
  have ok: "k_virt e = vaddr v" "k_phys_end e - k_phys_start e = of_nat (n * 4096)" "0 < n" "upn \<le> v" "v + n \<le> npages"
    using Cons.prems(3) by (simp_all add: r region_ok_def)
  have "\<not> present (leaf (km_mem s) g w)" if "v \<le> w" "w < v + n" for w
    using Cons.prems(5) that ok(5) by (auto simp: r in_region_def)
  then obtain t l1 k where t: "mappages g (k_virt e) (k_phys_end e - k_phys_start e) (k_phys_start e) (k_perm e) s =
        Ok (if k = n then 0 else - 1) t" "k \<le> n" "grows kend g l l1 s t"
      "maps (km_mem s) (km_mem t) g v k (k_phys_start e) (k_perm e)"
    using mappages_spec [OF Cons.prems(1,2) assms(3) ok(3,5)] unfolding ok(1,2) by blast
  note gr = growsD [OF t(3)]
  have low: "leaf (km_mem t) g w = leaf (km_mem s) g w" if "w < upn" for w
    using t(4) upn_npages [OF that] that ok(4) by (auto simp: maps_def)
  show ?case
  proof (cases "k = n")
    case False
    have "\<not> present (leaf (km_mem t) g w)" if "w < upn" for w
      using low [OF that] Cons.prems(5) upn_npages [OF that] that by simp
    note eu = empty_user [OF gr(2) this]
    obtain u l2 where u: "freevm kend g t = Ok () u" "frees kend u l2" "set l2 = set l1 \<union> owned (km_mem t) g"
        "unchanged (owned (km_mem t) g) t u" "kmem.more u = kmem.more t"
      using freevm_spec [OF gr(1) eu(1) assms(3)] by blast
    have "set l2 = set l \<union> insert g (tables (km_mem s) g)" using u(3) gr(5) eu(2) by auto
    moreover have "owned (km_mem t) g \<subseteq> set l \<union> insert g (tables (km_mem s) g)" using gr(5) eu(2) by auto
    with gr(7) u(4) have "unchanged (set l \<union> insert g (tables (km_mem s) g)) s u"
      by (auto intro: unchanged_trans)
    moreover have "kvm_loop kend g (map fst (r # rs)) s = Ok 0 u" using False by (simp add: r kbind_def kthen_def t(1) u(1))
    ultimately show ?thesis using u(2,5) gr(3) by (intro exI [of _ 0] exI [of _ u] exI [of _ l2]) simp
  next
    case True
    have lf: "leaf (km_mem t) g w = (if in_region w r then region_leaf w r else leaf (km_mem s) g w)" if "w < npages" for w
      using t(4) that True by (auto simp: maps_def in_region_def region_leaf_def r)
    have disj: "\<not> in_region w r" if "r' \<in> set rs" "in_region w r'" for w r'
      using Cons.prems(4) that by (auto simp: r in_region_def split: prod.splits)
    have z: "\<forall>w<npages. (\<exists>r\<in>set rs. in_region w r) \<or> w < upn \<longrightarrow> leaf (km_mem t) g w = 0"
    proof (intro allI impI)
      fix w assume w: "w < npages" "(\<exists>r\<in>set rs. in_region w r) \<or> w < upn"
      then have "\<not> in_region w r" using disj ok(4) by (auto simp: r in_region_def)
      then show "leaf (km_mem t) g w = 0" using lf [OF w(1)] w Cons.prems(5) by auto
    qed
    have e: "kvm_loop kend g (map fst (r # rs)) s = kvm_loop kend g (map fst rs) t" using True by (simp add: r kbind_def t(1))
    have all: "set l1 \<union> insert g (tables (km_mem t) g) = set l \<union> insert g (tables (km_mem s) g)" using gr(5) by auto
    obtain x u l2 where u: "kvm_loop kend g (map fst rs) t = Ok x u" "frees kend u l2" "kmem.more u = kmem.more t"
        "unchanged (set l1 \<union> insert g (tables (km_mem t) g)) t u"
        "if x = 0 then set l2 = set l1 \<union> insert g (tables (km_mem t) g)
         else x = g \<and> grows kend g l1 l2 t u \<and>
           (\<forall>w<npages. leaf (km_mem u) g w = (if \<exists>r\<in>set rs. in_region w r then regions_leaf rs w else leaf (km_mem t) g w))"
      using Cons.IH [OF gr(1,2) _ _ z] Cons.prems(3,4) by auto
    have un: "unchanged (set l \<union> insert g (tables (km_mem s) g)) s u"
      using gr(7) u(4) unfolding all by (auto intro: unchanged_trans)
    show ?thesis
    proof (cases "x = 0")
      case True
      then show ?thesis using u(1-3,5) un gr(3) e all by (intro exI [of _ x] exI [of _ u] exI [of _ l2]) simp
    next
      case False
      have "leaf (km_mem u) g w = (if \<exists>r\<in>set (r # rs). in_region w r then regions_leaf (r # rs) w else leaf (km_mem s) g w)"
        if "w < npages" for w
        using u(5) False lf [OF that] disj that by auto
      then show ?thesis using u(1-3,5) False un gr(3) e grows_trans [OF t(3), of l2 u]
        by (intro exI [of _ x] exI [of _ u] exI [of _ l2]) simp
    qed
  qed
qed

lemma entry_P2V: "aligned pa \<Longrightarrow> small perm \<Longrightarrow> P2V (PTE_ADDR (pa OR perm OR PTE_P)) = P2V pa"
  by (simp add: entry_parts)

lemma aligned_V2P:
  assumes "page_ok kend p" and "VBASE \<le> kend"
  shows "aligned (V2P p)"
proof -
  obtain j where j: "unat p = 4096 * j" using assms(1) by (auto simp: page_ok_def aligned_def mod_eq_0_iff_dvd dvd_def)
  have "VBASE \<le> p" using assms by (auto simp: page_ok_def intro: order_trans)
  then have "unat (V2P p) = 4096 * j - 4096 * 0x80000" by (simp add: V2P_def unat_sub j) (simp add: VBASE_def)
  also have "\<dots> = 4096 * (j - 0x80000)" by (simp only: diff_mult_distrib2)
  finally show ?thesis by (simp add: aligned_def)
qed

text \<open>What a routine that adds user pages to \<open>g\<close> does.\<close>

definition extends :: "uint \<Rightarrow> uint \<Rightarrow> uint list \<Rightarrow> uint list \<Rightarrow> 'z kmem_scheme \<Rightarrow> 'z kmem_scheme \<Rightarrow> bool" where
  "extends kend g l l' s t \<longleftrightarrow> frees kend t l' \<and> space_ok kend (set l') (km_mem t) g \<and>
     set l \<union> owned (km_mem s) g = set l' \<union> owned (km_mem t) g \<and>
     tables (km_mem t) g \<subseteq> set l \<union> tables (km_mem s) g \<and> set l' \<subseteq> set l \<and>
     kmem.more t = kmem.more s \<and> unchanged (set l \<union> insert g (tables (km_mem s) g)) s t"

lemma extendsD:
  assumes "extends kend g l l' s t"
  shows "frees kend t l'" "space_ok kend (set l') (km_mem t) g" "kmem.more t = kmem.more s" "set l' \<subseteq> set l"
    "set l \<union> owned (km_mem s) g = set l' \<union> owned (km_mem t) g" "tables (km_mem t) g \<subseteq> set l \<union> tables (km_mem s) g"
    "unchanged (set l \<union> insert g (tables (km_mem s) g)) s t"
  using assms by (auto simp: extends_def)

lemma extends_refl: "frees kend s l \<Longrightarrow> space_ok kend (set l) (km_mem s) g \<Longrightarrow> extends kend g l l s s"
  by (simp add: extends_def)

lemma extends_trans:
  assumes 1: "extends kend g l l' s t" and 2: "extends kend g l' l'' t u"
  shows "extends kend g l l'' s u"
proof -
  note e1 = extendsD [OF 1] and e2 = extendsD [OF 2]
  have "unchanged (set l \<union> insert g (tables (km_mem s) g)) s u"
    by (rule unchanged_trans [OF e1(7) e2(7)]) (use e1(4,6) in blast)
  moreover have "tables (km_mem u) g \<subseteq> set l \<union> tables (km_mem s) g" "set l'' \<subseteq> set l" using e1(4,6) e2(4,6) by blast+
  ultimately show ?thesis using e1(3,5) e2(1-3,5) unfolding extends_def by simp
qed

lemma upages_cong: "(\<And>w. w \<in> R \<Longrightarrow> leaf m' g w = leaf m g w) \<Longrightarrow> upages m' g R = upages m g R"
  unfolding upages_def upage_def by (intro Collect_cong iff_exI) auto

text \<open>A page comes from kalloc, is filled (to \<open>m'\<close>) and mapped at page number \<open>w\<close>.\<close>

lemma add_page:
  fixes s :: "'z kmem_scheme"
  assumes f: "frees kend s (p # l1)" and ok: "space_ok kend (set (p # l1)) (km_mem s) g" and k: "VBASE < kend"
    and w: "w < upn" "\<not> present (leaf (km_mem s) g w)" and perm: "small perm"
    and m': "\<And>a. page_of a \<noteq> p \<Longrightarrow> m' a = km_mem s a"
  defines "s2 \<equiv> s\<lparr>km_freelist := km_mem s p, km_mem := m'\<rparr>"
  shows "\<exists>r t l'. mappages g (vaddr w) PGSIZE (V2P p) perm s2 = Ok r t \<and> unchanged (set (p # l1) \<union> insert g (tables (km_mem s) g)) s t \<and>
    kmem.more t = kmem.more s \<and> frees kend t l' \<and> p \<notin> set l' \<and> page_ok kend p \<and> (\<forall>a. page_of a = p \<longrightarrow> km_mem t a = m' a) \<and>
    (if r < 0 then space_ok kend (insert p (set l')) (km_mem t) g \<and> set (p # l1) \<union> owned (km_mem s) g = insert p (set l') \<union> owned (km_mem t) g \<and>
       (\<forall>v<npages. leaf (km_mem t) g v = leaf (km_mem s) g v) \<and> set l' \<subseteq> set l1 \<and> tables (km_mem t) g \<subseteq> set l1 \<union> tables (km_mem s) g
     else extends kend g (p # l1) l' s t \<and>
       (\<forall>v<npages. leaf (km_mem t) g v = (if v = w then V2P p OR perm OR PTE_P else leaf (km_mem s) g v)))"
proof -
  note k' = order.strict_implies_order [OF k] and sp = space_okD [OF ok]
  have p: "page_ok kend p" "p \<notin> set l1" using f by (auto simp: frees_def)
  have pg: "p \<noteq> g" "p \<notin> tables (km_mem s) g"
    using sp(1) by (auto simp: pt_ok_def tables_def)
  have "m' a = km_mem s a" if "page_of a \<in> set l1" for a using that p(2) by (intro m') auto
  then have f2: "frees kend s2 l1"
    by (intro frees_cong [OF kalloc_spec(2) [OF f refl]]) (simp_all add: s2_def)
  have "m' a = km_mem s a" if "page_of a \<in> insert g (tables (km_mem s) g)" for a using that pg by (intro m') auto
  then have same: "\<forall>a. page_of a \<in> insert g (tables (km_mem s) g) \<longrightarrow> km_mem s2 a = km_mem s a"
    by (simp add: s2_def)
  note c = pt_cong [OF sp(1) same]
  have pt2: "pt_ok kend (set l1) (km_mem s2) g" by (rule pt_ok_mono [OF c(4)]) auto
  have wn: "w < npages" using w(1) by (rule upn_npages)
  have np: "\<not> present (leaf (km_mem s2) g v)" if "w \<le> v" "v < w + 1" for v
    using that w(2) c(5) [OF wn] by (simp add: less_Suc_eq_le antisym)
  obtain t l' j where t: "mappages g (vaddr w) (of_nat (1 * 4096)) (V2P p) perm s2 = Ok (if j = 1 then 0 else - 1) t"
      "j \<le> 1" "grows kend g l1 l' s2 t" "maps (km_mem s2) (km_mem t) g w j (V2P p) perm"
  proof -
    have "w + 1 \<le> npages" using wn by simp
    from mappages_spec [OF f2 pt2 k zero_less_one this np] that show ?thesis by blast
  qed
  note gr = growsD [OF t(3)]
  have mp: "mappages g (vaddr w) PGSIZE (V2P p) perm s2 = Ok (if j = 1 then 0 else - 1) t"
    using t(1) unfolding PGSIZE_def by simp
  have "unchanged {p} s s2" using m' by (auto simp: unchanged_def s2_def)
  then have un: "unchanged (set (p # l1) \<union> insert g (tables (km_mem s) g)) s t"
    using gr(7) unfolding c(3) by (auto intro: unchanged_mono unchanged_trans)
  have pl: "p \<notin> set l'" using gr(4) p(2) by auto
  have pt: "p \<notin> tables (km_mem t) g" using gr(5) p(2) pg c(3) by auto
  have pc: "km_mem t a = m' a" if "page_of a = p" for a
    using unchangedD [OF gr(7), of a] that p(2) pg c(3) by (simp add: s2_def)
  have lf: "leaf (km_mem t) g v = (if w \<le> v \<and> v < w + j then V2P p OR perm OR PTE_P else leaf (km_mem s) g v)" if "v < npages" for v
    using t(2,4) c(5) that by (auto simp: maps_def)
  have old: "upage (km_mem s) g v \<notin> insert p (set l')" "upage (km_mem s) g v \<notin> tables (km_mem t) g"
    if "v < upn" "present (leaf (km_mem s) g v)" for v
    using sp(2) [OF that] gr(4,5) c(3) by auto
  have tb: "tables (km_mem t) g \<subseteq> set l1 \<union> tables (km_mem s) g" using gr(5) c(3) by auto
  show ?thesis
  proof (cases "j = 1")
    case False
    then have lf0: "leaf (km_mem t) g v = leaf (km_mem s) g v" if "v < npages" for v using lf [OF that] t(2) by auto
    have up: "upages (km_mem t) g {..<upn} = upages (km_mem s) g {..<upn}"
      using lf0 upn_npages by (intro upages_cong) auto
    have "pt_ok kend (insert p (set l')) (km_mem t) g"
      using gr(2) pg pt unfolding pt_ok_def by (auto simp: tables_def)
    then have "space_ok kend (insert p (set l')) (km_mem t) g"
      using sp(2,3) old lf0 upn_npages unfolding space_ok_def upage_def by simp
    moreover have "set (p # l1) \<union> owned (km_mem s) g = insert p (set l') \<union> owned (km_mem t) g"
      using gr(5) c(3) by (auto simp: owned_def up)
    ultimately show ?thesis using False mp un gr(1,3,4) pl p pc lf0 tb
      by (intro exI [of _ "- 1"] exI [of _ t] exI [of _ l']) (simp add: s2_def)
  next
    case True
    let ?x = "V2P p OR perm OR PTE_P"
    have x: "present ?x" "P2V (PTE_ADDR ?x) = p"
      using entry_parts [OF aligned_V2P [OF p(1) k'] perm] by simp_all
    have lf1: "leaf (km_mem t) g v = (if v = w then ?x else leaf (km_mem s) g v)" if "v < npages" for v
      using lf [OF that] True by auto
    have upw: "upage (km_mem t) g v = (if v = w then p else upage (km_mem s) g v)" if "v < upn" for v
      using lf1 [OF upn_npages [OF that]] x(2) by (simp add: upage_def)
    have prv: "present (leaf (km_mem t) g v) \<longleftrightarrow> v = w \<or> present (leaf (km_mem s) g v)" if "v < upn" for v
      using lf1 [OF upn_npages [OF that]] x(1) by auto
    have up: "upages (km_mem t) g {..<upn} = insert p (upages (km_mem s) g {..<upn})"
    proof -
      have "upages (km_mem t) g {..<upn} = upage (km_mem t) g ` {v. v < upn \<and> present (leaf (km_mem t) g v)}"
        by (auto simp: upages_def)
      also have "{v. v < upn \<and> present (leaf (km_mem t) g v)} = insert w {v. v < upn \<and> present (leaf (km_mem s) g v)}"
        using prv w(1) by auto
      also have "upage (km_mem t) g ` insert w {v. v < upn \<and> present (leaf (km_mem s) g v)} =
          insert p (upage (km_mem s) g ` {v. v < upn \<and> present (leaf (km_mem s) g v)})"
        using upw w by (auto simp: image_iff)
      also have "\<dots> = insert p (upages (km_mem s) g {..<upn})" by (auto simp: upages_def)
      finally show ?thesis .
    qed
    have "space_ok kend (set l') (km_mem t) g"
      unfolding space_ok_def
    proof (intro conjI allI impI)
      fix v assume v: "v < upn" "present (leaf (km_mem t) g v)"
      then show "page_ok kend (upage (km_mem t) g v)" "upage (km_mem t) g v \<notin> set l'" "upage (km_mem t) g v \<noteq> g"
        "upage (km_mem t) g v \<notin> tables (km_mem t) g"
        using upw [OF v(1)] prv [OF v(1)] sp(2) [OF v(1)] old [OF v(1)] p pl pg pt by (auto split: if_splits)
    next
      fix v v' assume v: "v < upn" "v' < upn"
        and e: "present (leaf (km_mem t) g v) \<and> present (leaf (km_mem t) g v') \<and> upage (km_mem t) g v = upage (km_mem t) g v'"
      note h = upw [OF v(1)] upw [OF v(2)] prv [OF v(1)] prv [OF v(2)] sp(2) [OF v(1)] sp(2) [OF v(2)] sp(3) [OF v]
      show "v = v'" using e h by (cases "v = w"; cases "v' = w") auto
    qed (rule gr(2))
    moreover have "set (p # l1) \<union> owned (km_mem s) g = set l' \<union> owned (km_mem t) g"
      using gr(5) c(3) by (auto simp: owned_def up)
    ultimately have "extends kend g (p # l1) l' s t"
      using gr(1,3,4) tb un unfolding extends_def by (auto simp: s2_def)
    then show ?thesis using True mp un gr(1,3) pl p(1) pc lf1
      by (intro exI [of _ 0] exI [of _ t] exI [of _ l']) (simp add: s2_def)
  qed
qed

text \<open>
  The loops of allocuvm and copyuvm: the pages \<open>b, \<dots>, w - 1\<close> have been added since \<open>s0\<close>, page \<open>v\<close> with
  permissions \<open>fl v\<close> and contents \<open>C v\<close>.
\<close>

definition page_has :: "wmem \<Rightarrow> uint \<Rightarrow> (uint \<Rightarrow> uint) \<Rightarrow> bool" where
  "page_has m p c \<longleftrightarrow> (\<forall>a. page_of a = p \<longrightarrow> m a = c (a - p))"

definition filled :: "uint \<Rightarrow> uint \<Rightarrow> uint list \<Rightarrow> uint list \<Rightarrow> 'z kmem_scheme \<Rightarrow> 'z kmem_scheme \<Rightarrow> nat \<Rightarrow> nat \<Rightarrow>
    (nat \<Rightarrow> uint) \<Rightarrow> (nat \<Rightarrow> uint \<Rightarrow> uint) \<Rightarrow> bool" where
  "filled kend g l0 l s0 s b w fl C \<longleftrightarrow> extends kend g l0 l s0 s \<and>
     (\<forall>v<npages. v \<notin> {b..<w} \<longrightarrow> leaf (km_mem s) g v = leaf (km_mem s0) g v) \<and>
     (\<forall>v\<in>{b..<w}. \<exists>p\<in>set l0. leaf (km_mem s) g v = V2P p OR fl v OR PTE_P \<and> upage (km_mem s) g v = p \<and>
       page_has (km_mem s) p (C v))"

text \<open>What is left when a page table cannot be allocated: the page \<open>p\<close> in hand, not mapped.\<close>

definition stuck :: "uint \<Rightarrow> uint \<Rightarrow> uint list \<Rightarrow> uint list \<Rightarrow> uint \<Rightarrow> 'z kmem_scheme \<Rightarrow> 'z kmem_scheme \<Rightarrow> bool" where
  "stuck kend g l0 l p s0 t \<longleftrightarrow> frees kend t l \<and> p \<notin> set l \<and> page_ok kend p \<and> space_ok kend (insert p (set l)) (km_mem t) g \<and>
     set l0 \<union> owned (km_mem s0) g = insert p (set l) \<union> owned (km_mem t) g \<and>
     tables (km_mem t) g \<subseteq> set l0 \<union> tables (km_mem s0) g \<and> insert p (set l) \<subseteq> set l0 \<and>
     unchanged (set l0 \<union> insert g (tables (km_mem s0) g)) s0 t \<and> kmem.more t = kmem.more s0"

lemma fill_step:
  fixes s s0 :: "'z kmem_scheme"
  assumes fi: "filled kend g l0 (p # l1) s0 s b w fl C" and k: "VBASE < kend"
    and w: "w < upn" "b \<le> w" "\<not> present (leaf (km_mem s0) g w)" and perm: "small (fl w)"
    and m': "\<And>a. page_of a \<noteq> p \<Longrightarrow> m' a = km_mem s a" "page_has m' p (C w)"
  defines "s2 \<equiv> s\<lparr>km_freelist := km_mem s p, km_mem := m'\<rparr>"
  shows "\<exists>r t l'. mappages g (vaddr w) PGSIZE (V2P p) (fl w) s2 = Ok r t \<and>
    (if r < 0 then stuck kend g l0 l' p s0 t \<and> (\<forall>v<npages. leaf (km_mem t) g v = leaf (km_mem s) g v)
     else filled kend g l0 l' s0 t b (Suc w) fl C)"
proof -
  have ex: "extends kend g l0 (p # l1) s0 s"
    and old: "\<And>v. v < npages \<Longrightarrow> v \<notin> {b..<w} \<Longrightarrow> leaf (km_mem s) g v = leaf (km_mem s0) g v"
    and new: "\<And>v. v \<in> {b..<w} \<Longrightarrow> \<exists>p\<in>set l0. leaf (km_mem s) g v = V2P p OR fl v OR PTE_P \<and> upage (km_mem s) g v = p \<and>
       page_has (km_mem s) p (C v)"
    using fi unfolding filled_def by blast+
  note e = extendsD [OF ex]
  have nw: "\<not> present (leaf (km_mem s) g w)" using old [OF upn_npages [OF w(1)]] w(3) by simp
  obtain r t l' where t: "mappages g (vaddr w) PGSIZE (V2P p) (fl w) s2 = Ok r t"
      "unchanged (set (p # l1) \<union> insert g (tables (km_mem s) g)) s t"
      "kmem.more t = kmem.more s" "frees kend t l'" "p \<notin> set l'" "page_ok kend p" "\<forall>a. page_of a = p \<longrightarrow> km_mem t a = m' a"
      "if r < 0 then space_ok kend (insert p (set l')) (km_mem t) g \<and> set (p # l1) \<union> owned (km_mem s) g = insert p (set l') \<union> owned (km_mem t) g \<and>
         (\<forall>v<npages. leaf (km_mem t) g v = leaf (km_mem s) g v) \<and> set l' \<subseteq> set l1 \<and> tables (km_mem t) g \<subseteq> set l1 \<union> tables (km_mem s) g
       else extends kend g (p # l1) l' s t \<and>
         (\<forall>v<npages. leaf (km_mem t) g v = (if v = w then V2P p OR fl w OR PTE_P else leaf (km_mem s) g v))"
    using add_page [OF e(1,2) k w(1) nw perm m'(1)] unfolding s2_def by blast
  show ?thesis
  proof (cases "r < 0")
    case True
    have "set (p # l1) \<union> insert g (tables (km_mem s) g) \<subseteq> set l0 \<union> insert g (tables (km_mem s0) g)" using e(4,6) by blast
    then have "unchanged (set l0 \<union> insert g (tables (km_mem s0) g)) s0 t" by (rule unchanged_trans [OF e(7) t(2)])
    moreover have "tables (km_mem t) g \<subseteq> set l0 \<union> tables (km_mem s0) g" "insert p (set l') \<subseteq> set l0"
      using t(8) True e(4,6) by auto
    ultimately have "stuck kend g l0 l' p s0 t"
      using t(3-6,8) True e(3,5) unfolding stuck_def by simp
    then show ?thesis using t(1,8) True by auto
  next
    case False
    then have ex2: "extends kend g (p # l1) l' s t"
      and lf: "\<And>v. v < npages \<Longrightarrow> leaf (km_mem t) g v = (if v = w then V2P p OR fl w OR PTE_P else leaf (km_mem s) g v)"
      using t(8) by auto
    have "extends kend g l0 l' s0 t" by (rule extends_trans [OF ex ex2])
    moreover have "leaf (km_mem t) g v = leaf (km_mem s0) g v" if "v < npages" "v \<notin> {b..<Suc w}" for v
      using lf [OF that(1)] old [OF that(1)] that(2) w(2) by auto
    moreover have "\<exists>p\<in>set l0. leaf (km_mem t) g v = V2P p OR fl v OR PTE_P \<and> upage (km_mem t) g v = p \<and>
       page_has (km_mem t) p (C v)"
      if v: "v \<in> {b..<Suc w}" for v
    proof (cases "v = w")
      case True
      have "page_has (km_mem t) p (C w)" using m'(2) t(7) by (simp add: page_has_def)
      moreover have "p \<in> set l0" using e(4) by auto
      moreover have "upage (km_mem t) g w = p"
        using lf [OF upn_npages [OF w(1)]] entry_parts(1) [OF aligned_V2P [OF t(6) order.strict_implies_order [OF k]] perm]
        by (simp add: upage_def)
      ultimately show ?thesis using True lf [OF upn_npages [OF w(1)]] by auto
    next
      case False
      then have vb: "v \<in> {b..<w}" and vu: "v < upn" using v w(1) by auto
      obtain q where q: "q \<in> set l0" "leaf (km_mem s) g v = V2P q OR fl v OR PTE_P" "upage (km_mem s) g v = q"
          "page_has (km_mem s) q (C v)"
        using new [OF vb] by blast
      have "present (leaf (km_mem s) g v)" by (simp add: q(2) present_or)
      then have "q \<notin> set (p # l1) \<union> insert g (tables (km_mem s) g)" using space_okD(2) [OF e(2) vu] q(3) by auto
      then have "page_has (km_mem t) q (C v)" using q(4) unchangedD [OF t(2)] by (simp add: page_has_def)
      then show ?thesis using q(1-3) lf [OF upn_npages [OF vu]] False by (auto simp: upage_def)
    qed
    ultimately have "filled kend g l0 l' s0 t b (Suc w) fl C" unfolding filled_def by blast
    then show ?thesis using t(1) False by auto
  qed
qed

end
