(* ===== verification/VmSpace.thy ===== *)
theory VmSpace
  imports VmProps
begin

text \<open>
  The operations on whole address spaces: growing a process, building the kernel part and copying
  a process for fork, each with its failures for want of memory.
\<close>

section \<open>Growing a process\<close>

lemma drops_owned:
  assumes "drops kend g R l l' s t" and R: "R \<subseteq> {..<upn}"
  shows "set l' \<union> owned (km_mem t) g = set l \<union> owned (km_mem s) g"
proof -
  note d = dropsD [OF assms(1)]
  have lf: "leaf (km_mem t) g v = (if v \<in> R \<and> present (leaf (km_mem s) g v) then 0 else leaf (km_mem s) g v)" if "v < upn" for v
    by (rule d(8) [OF upn_npages [OF that]])
  have "{v. v < upn \<and> present (leaf (km_mem t) g v)} = {v. v < upn \<and> v \<notin> R \<and> present (leaf (km_mem s) g v)}"
    using lf by (auto split: if_splits)
  moreover have "upage (km_mem t) g v = upage (km_mem s) g v" if "v < upn" "v \<notin> R" for v
    using lf [OF that(1)] that(2) by (simp add: upage_def)
  moreover have im: "upages m g Q = upage m g ` {v. v \<in> Q \<and> present (leaf m g v)}" for m Q by (auto simp: upages_def)
  ultimately have "upages (km_mem t) g {..<upn} = upages (km_mem s) g ({..<upn} - R)"
    unfolding im by (intro image_cong) auto
  moreover have "upages (km_mem s) g ({..<upn} - R) \<union> upages (km_mem s) g R = upages (km_mem s) g {..<upn}"
    using R by (auto simp: upages_def)
  ultimately show ?thesis using d(3,4) by (auto simp: owned_def)
qed

lemma space_free:
  assumes ok: "space_ok kend F m g" and p: "p \<notin> owned m g" and m': "\<And>a. page_of a \<noteq> p \<Longrightarrow> m' a = m a"
  shows "space_ok kend (insert p F) m' g" and "owned m' g = owned m g" and "v < npages \<Longrightarrow> leaf m' g v = leaf m g v"
proof -
  note sp = space_okD [OF ok]
  have "m' a = m a" if "page_of a \<in> insert g (tables m g)" for a using that p by (intro m') (auto simp: owned_def)
  then have same: "\<forall>a. page_of a \<in> insert g (tables m g) \<longrightarrow> m' a = m a" by blast
  note c = pt_cong [OF sp(1) same]
  show "v < npages \<Longrightarrow> leaf m' g v = leaf m g v" by (rule c(5))
  have lf: "leaf m' g v = leaf m g v" if "v < upn" for v by (rule c(5) [OF upn_npages [OF that]])
  have pu: "upage m g v \<noteq> p" if "v < upn" "present (leaf m g v)" for v
    using p that by (auto simp: owned_def upages_def)
  have "pt_ok kend (insert p F) m' g" using c(4) p c(3) unfolding pt_ok_def by (auto simp: owned_def tables_def)
  then show "space_ok kend (insert p F) m' g"
    using sp(2,3) pu lf c(3) unfolding space_ok_def upage_def by auto
  show "owned m' g = owned m g" unfolding owned_def c(3) using upages_cong [of "{..<upn}" m' g m] lf by simp
qed

lemma space_ok_mono:
  assumes "space_ok kend F m g" and "F' \<subseteq> F"
  shows "space_ok kend F' m g"
  unfolding space_ok_def using pt_ok_mono [OF space_okD(1) [OF assms(1)] assms(2)] space_okD(2,3) [OF assms(1)] assms(2) by blast

lemma filled_undo:
  assumes fi: "filled kend g l0 l s0 s b w fl C" and N: "N \<le> upn" and z: "\<forall>v\<in>{b..<w} \<union> {b..<N}. leaf (km_mem s0) g v = 0"
    and wN: "w \<le> N" and lfa: "\<forall>v<npages. leaf (km_mem s') g v = leaf (km_mem s) g v"
    and un: "unchanged (set l0 \<union> insert g (tables (km_mem s0) g)) s0 s'" and tb: "tables (km_mem s') g \<subseteq> set l0 \<union> tables (km_mem s0) g"
    and dr: "drops kend g {b..<N} l1 l' s' t"
  shows "v < npages \<Longrightarrow> leaf (km_mem t) g v = leaf (km_mem s0) g v"
    and "unchanged (set l0 \<union> insert g (tables (km_mem s0) g)) s0 t"
proof -
  note d = dropsD [OF dr] and lf = lfa [rule_format]
  have old: "leaf (km_mem s) g v = leaf (km_mem s0) g v" if "v < npages" "v \<notin> {b..<w}" for v
    using fi that unfolding filled_def by blast
  have new: "\<exists>p\<in>set l0. present (leaf (km_mem s) g v) \<and> upage (km_mem s) g v = p" if "v \<in> {b..<w}" for v
    using fi that unfolding filled_def by (metis present_P(1) present_or)
  show "leaf (km_mem t) g v = leaf (km_mem s0) g v" if v: "v < npages"
  proof (cases "v \<in> {b..<w}")
    case True
    then have "leaf (km_mem t) g v = 0" using new [OF True] d(8) [OF v] lf [OF v] wN by auto
    then show ?thesis using z True by simp
  next
    case False
    then show ?thesis using old [OF v False] d(8) [OF v] lf [OF v] z by auto
  qed
  have sub: "upages (km_mem s') g {b..<N} \<subseteq> set l0"
  proof
    fix q assume "q \<in> upages (km_mem s') g {b..<N}"
    then obtain v where v: "v \<in> {b..<N}" "present (leaf (km_mem s') g v)" "q = upage (km_mem s') g v" by (auto simp: upages_def)
    have vn: "v < npages" using v(1) N by (auto intro: upn_npages)
    have "v \<in> {b..<w}"
    proof (rule ccontr)
      assume "v \<notin> {b..<w}"
      then have "leaf (km_mem s') g v = 0" using old [OF vn] z lf [OF vn] v(1) by simp
      then show False using v(2) by simp
    qed
    then show "q \<in> set l0" using new [of v] v(3) lf [OF vn] by (auto simp: upage_def)
  qed
  show "unchanged (set l0 \<union> insert g (tables (km_mem s0) g)) s0 t"
    by (rule unchanged_trans [OF un d(6)]) (use tb sub in auto)
qed

text \<open>The outcome of allocuvm without memory: nothing is mapped and no page is lost.\<close>

definition gave_up :: "uint \<Rightarrow> uint \<Rightarrow> uint list \<Rightarrow> uint list \<Rightarrow> 'z kmem_scheme \<Rightarrow> 'z kmem_scheme \<Rightarrow> bool" where
  "gave_up kend g l0 l' s0 t \<longleftrightarrow> frees kend t l' \<and> space_ok kend (set l') (km_mem t) g \<and>
     set l' \<union> owned (km_mem t) g = set l0 \<union> owned (km_mem s0) g \<and>
     (\<forall>v<npages. leaf (km_mem t) g v = leaf (km_mem s0) g v) \<and>
     unchanged (set l0 \<union> insert g (tables (km_mem s0) g)) s0 t \<and> kmem.more t = kmem.more s0"

lemma alloc_loop_spec:
  assumes "filled kend g l0 l s0 s (npg oldsz) w (\<lambda>_. PTE_W OR PTE_U) (\<lambda>_ _. 0)" and k: "VBASE < kend"
    and sz: "unat newsz < 0x80000000" "oldsz \<le> newsz" and w: "npg oldsz \<le> w" "w \<le> npg newsz" and "npg newsz - w \<le> fuel"
    and z: "\<And>v. v \<in> {npg oldsz..<npg newsz} \<Longrightarrow> leaf (km_mem s0) g v = 0"
  shows "\<exists>r t l'. alloc_loop fuel kend g oldsz newsz (vaddr w) s = Ok r t \<and>
    (r = newsz \<and> filled kend g l0 l' s0 t (npg oldsz) (npg newsz) (\<lambda>_. PTE_W OR PTE_U) (\<lambda>_ _. 0) \<or>
     r = 0 \<and> gave_up kend g l0 l' s0 t)"
  using assms(1,5-7)
proof (induction fuel arbitrary: w s l)
  case 0
  have wn: "w < npages" using 0 npg_upn [of newsz] sz(1) by (simp add: upn_def npages_def)
  have "w = npg newsz" using 0 by simp
  then show ?case using 0(1) vaddr_less [OF wn, of newsz] by (intro exI [of _ newsz] exI [of _ s] exI [of _ l]) simp
next
  case (Suc fuel)
  note fi = Suc.prems(1)
  have N: "npg newsz \<le> upn" using npg_upn [of newsz] sz(1) by simp
  have wn: "w < npages" using Suc.prems(3) N by (simp add: upn_def npages_def)
  have old: "newsz < oldsz \<longleftrightarrow> False" using sz(2) by auto
  have szo: "unat newsz \<le> 0x80000000" using sz(1) by simp
  have ex: "extends kend g l0 l s0 s" using fi unfolding filled_def by blast
  note e = extendsD [OF ex]
  show ?case
  proof (cases "w < npg newsz")
    case False
    then have "w = npg newsz" using Suc.prems(3) by simp
    then show ?thesis using fi False vaddr_less [OF wn, of newsz] by (intro exI [of _ newsz] exI [of _ s] exI [of _ l]) simp
  next
    case True
    then have lt: "vaddr w < newsz" and wu: "w < upn" using vaddr_less [OF wn, of newsz] N by simp_all
    have R: "{npg oldsz..<npg newsz} \<subseteq> {..<upn}" using N by auto
    have zw: "\<not> present (leaf (km_mem s0) g w)" using z [of w] True Suc.prems(2) by simp
    have zz: "\<forall>v\<in>{npg oldsz..<w} \<union> {npg oldsz..<npg newsz}. leaf (km_mem s0) g v = 0" using z True by auto
    show ?thesis
    proof (cases l)
      case Nil
      obtain t l' where t: "deallocuvm kend g newsz oldsz s = Ok (if oldsz < newsz then oldsz else newsz) t"
          "drops kend g {npg oldsz..<npg newsz} l l' s t"
        using deallocuvm_spec [OF e(1,2) k szo] by blast
      note u = filled_undo [OF fi N zz order.strict_implies_order [OF True] _ e(7,6) t(2)]
      have "alloc_loop (Suc fuel) kend g oldsz newsz (vaddr w) s = Ok 0 t"
        using lt kalloc_spec(1) [OF e(1)] Nil by (simp add: kbind_def kthen_def t(1))
      moreover have "set l' \<union> owned (km_mem t) g = set l0 \<union> owned (km_mem s0) g"
        using drops_owned [OF t(2) R] e(5) by simp
      then have "gave_up kend g l0 l' s0 t"
        unfolding gave_up_def using dropsD(1,2,5) [OF t(2)] u e(3) by simp
      ultimately show ?thesis by blast
    next
      case (Cons p l1)
      let ?m = "fill_page p 0 (km_mem s)"
      let ?s2 = "s\<lparr>km_freelist := km_mem s p, km_mem := ?m\<rparr>"
      have p0: "p \<noteq> 0" using e(1) Cons page_ok_not_0 [OF order.strict_implies_order [OF k], of p] by (auto simp: frees_def)
      obtain r t l' where t: "mappages g (vaddr w) PGSIZE (V2P p) (PTE_W OR PTE_U) ?s2 = Ok r t"
          "if r < 0 then stuck kend g l0 l' p s0 t \<and> (\<forall>v<npages. leaf (km_mem t) g v = leaf (km_mem s) g v)
           else filled kend g l0 l' s0 t (npg oldsz) (Suc w) (\<lambda>_. PTE_W OR PTE_U) (\<lambda>_ _. 0)"
        using fill_step [OF fi [unfolded Cons] k wu Suc.prems(2) zw, of ?m] by (auto simp: fill_page_def page_has_def)
      have ka: "kalloc s = Ok p (s\<lparr>km_freelist := km_mem s p\<rparr>)" using kalloc_spec(1) [OF e(1)] Cons by simp
      show ?thesis
      proof (cases "r < 0")
        case True
        then have st: "stuck kend g l0 l' p s0 t" and lft: "\<forall>v<npages. leaf (km_mem t) g v = leaf (km_mem s) g v"
          using t(2) by auto
        note st' = st [unfolded stuck_def]
        have spt: "space_ok kend (set l') (km_mem t) g" by (rule space_ok_mono [of kend "insert p (set l')"]) (use st' in auto)
        have un: "unchanged (set l0 \<union> insert g (tables (km_mem s0) g)) s0 t"
          and tb: "tables (km_mem t) g \<subseteq> set l0 \<union> tables (km_mem s0) g" and ft: "frees kend t l'"
          using st' by blast+
        obtain u l2 where u: "deallocuvm kend g newsz oldsz t = Ok (if oldsz < newsz then oldsz else newsz) u"
            "drops kend g {npg oldsz..<npg newsz} l' l2 t u"
          using deallocuvm_spec [OF ft spt k szo] by blast
        note d = dropsD [OF u(2)]
        note un2 = filled_undo [OF fi N zz order.strict_implies_order [OF \<open>w < npg newsz\<close>] lft un tb u(2)]
        have own: "set l2 \<union> owned (km_mem u) g = set l' \<union> owned (km_mem t) g" by (rule drops_owned [OF u(2) R])
        have pn: "p \<notin> set l' \<union> owned (km_mem t) g"
          using st' by (auto simp: owned_def upages_def space_ok_def pt_ok_def tables_def)
        then have p2: "p \<notin> set l2" "p \<notin> owned (km_mem u) g" using own by blast+
        obtain v where v: "kfree kend p u = Ok () v" "frees kend v (p # l2)" "\<And>a. page_of a \<noteq> p \<Longrightarrow> km_mem v a = km_mem u a"
            "kmem.more v = kmem.more u"
          using kfree_spec [OF d(1) _ p2(1) order.strict_implies_order [OF k]] st' by blast
        note sf = space_free [OF d(2) p2(2) v(3)]
        have "p \<in> set l0" using st' by blast
        then have "unchanged (set l0 \<union> insert g (tables (km_mem s0) g)) u v"
          using v(3) unfolding unchanged_def by (metis UnI1)
        then have "unchanged (set l0 \<union> insert g (tables (km_mem s0) g)) s0 v" by (rule unchanged_trans [OF un2(2)]) simp
        moreover have "set (p # l2) \<union> owned (km_mem v) g = set l0 \<union> owned (km_mem s0) g"
          using own sf(2) st' by auto
        ultimately have "gave_up kend g l0 (p # l2) s0 v"
          unfolding gave_up_def using v(2,4) sf(1,3) un2(1) d(5) st' by simp
        moreover have "alloc_loop (Suc fuel) kend g oldsz newsz (vaddr w) s = Ok 0 v"
          using lt p0 True by (simp add: kbind_def kthen_def ka t(1) u(1) v(1))
        ultimately show ?thesis by blast
      next
        case False
        then have f2: "filled kend g l0 l' s0 t (npg oldsz) (Suc w) (\<lambda>_. PTE_W OR PTE_U) (\<lambda>_ _. 0)" using t(2) by simp
        have "alloc_loop (Suc fuel) kend g oldsz newsz (vaddr w) s = alloc_loop fuel kend g oldsz newsz (vaddr (Suc w)) t"
          using lt p0 False by (simp add: kbind_def ka t(1) vaddr_Suc)
        then show ?thesis using Suc.IH [OF f2] True Suc.prems(2,4) by simp
      qed
    qed
  qed
qed

lemma allocuvm_spec:
  assumes f: "frees kend s l" and ok: "space_ok kend (set l) (km_mem s) g" and k: "VBASE < kend"
    and sz: "newsz < VBASE" "oldsz \<le> newsz"
    and z: "\<forall>v\<in>{npg oldsz..<npg newsz}. leaf (km_mem s) g v = 0"
  shows "\<exists>r t l'. allocuvm kend g oldsz newsz s = Ok r t \<and>
    (r = newsz \<and> filled kend g l l' s t (npg oldsz) (npg newsz) (\<lambda>_. PTE_W OR PTE_U) (\<lambda>_ _. 0) \<or>
     r = 0 \<and> gave_up kend g l l' s t)"
proof -
  have n: "unat newsz < 0x80000000" using sz(1) by (simp add: word_less_nat_alt VBASE_def)
  then have o: "unat oldsz \<le> 0x80000000" using sz(2) by (simp add: word_le_nat_alt)
  have le: "npg oldsz \<le> npg newsz" using sz(2) by (simp add: npg_def word_le_nat_alt div_le_mono)
  have fu: "npg newsz - npg oldsz \<le> npages" using npg_upn [of newsz] n by (simp add: upn_def npages_def)
  have fi: "filled kend g l l s s (npg oldsz) (npg oldsz) (\<lambda>_. PTE_W OR PTE_U) (\<lambda>_ _. 0)"
    using extends_refl [OF f ok] by (simp add: filled_def)
  have e: "allocuvm kend g oldsz newsz s = alloc_loop npages kend g oldsz newsz (vaddr (npg oldsz)) s"
    using sz by (simp add: allocuvm_def PGROUNDUP_vaddr [OF o] leD linorder_not_le [THEN iffD2])
  show ?thesis unfolding e by (rule alloc_loop_spec [OF fi k n sz(2) _ le fu]) (use z in auto)
qed

section \<open>The kernel part\<close>

text \<open>The section data starts on a page of its own between KERNLINK and the top of memory.\<close>

definition linked :: "uint \<Rightarrow> bool" where
  "linked dat \<longleftrightarrow> aligned dat \<and> KERNLINK < dat \<and> dat < P2V PHYSTOP"

definition vpn :: "uint \<Rightarrow> nat" where "vpn a = unat a div 4096"

definition kregions :: "uint \<Rightarrow> region list" where
  "kregions dat =
    [(kmap dat ! 0, upn, 256), (kmap dat ! 1, upn + 256, vpn dat - (upn + 256)),
     (kmap dat ! 2, vpn dat, 0x8E000 - vpn dat), (kmap dat ! 3, 0xFE000, 0x2000)]"

lemma kregions_ok:
  assumes "linked dat"
  shows "\<forall>r\<in>set (kregions dat). region_ok r" and "map fst (kregions dat) = kmap dat"
    and "sorted_wrt (\<lambda>(k, v, n) (k', v', n'). v + n \<le> v') (kregions dat)"
proof -
  have d: "unat dat = vpn dat * 4096" using assms by (auto simp: linked_def aligned_def vpn_def)
  have b: "upn + 256 < vpn dat" "vpn dat < 0x8E000"
    using assms d by (auto simp: linked_def word_less_nat_alt KERNLINK_def VBASE_def EXTMEM_def P2V_def PHYSTOP_def upn_def)
  have "vaddr (vpn dat) = of_nat (unat dat)" unfolding vaddr_def d ..
  then have dv: "dat = vaddr (vpn dat)" by simp
  have 1: "vaddr upn = VBASE" "vaddr (upn + 256) = KERNLINK" "vaddr 0xFE000 = DEVSPACE"
    by (simp_all add: vaddr_def upn_def VBASE_def KERNLINK_def EXTMEM_def DEVSPACE_def)
  have 2: "dat - KERNLINK = of_nat ((vpn dat - (upn + 256)) * 4096)"
    unfolding 1(2) [symmetric] by (subst dv) (use b in \<open>simp add: vaddr_def of_nat_diff algebra_simps\<close>)
  have "PHYSTOP - V2P dat = P2V PHYSTOP - dat" by (simp add: P2V_def V2P_def)
  moreover have "P2V PHYSTOP = of_nat (0x8E000 * 4096)" by (simp add: P2V_def PHYSTOP_def VBASE_def)
  ultimately have 3: "PHYSTOP - V2P dat = of_nat ((0x8E000 - vpn dat) * 4096)"
    by (simp only:) (subst dv, use b in \<open>simp add: vaddr_def of_nat_diff algebra_simps\<close>)
  have 4: "V2P dat - V2P KERNLINK = dat - KERNLINK" by (simp add: V2P_def)
  show "\<forall>r\<in>set (kregions dat). region_ok r"
    using b dv 1 2 3 4 by (simp add: kregions_def region_ok_def kmap_def) (simp add: EXTMEM_def DEVSPACE_def upn_def npages_def)
  show "map fst (kregions dat) = kmap dat" by (simp add: kregions_def kmap_def)
  show "sorted_wrt (\<lambda>(k, v, n) (k', v', n'). v + n \<le> v') (kregions dat)" using b by (simp add: kregions_def)
qed

definition kleaf :: "uint \<Rightarrow> nat \<Rightarrow> uint" where "kleaf dat w = regions_leaf (kregions dat) w"

lemma regions_leaf_0: "\<forall>r\<in>set rs. \<not> in_region w r \<Longrightarrow> regions_leaf rs w = 0"
  by (induction rs) auto

lemma kleaf_user:
  assumes "linked dat" and "w < upn"
  shows "kleaf dat w = 0"
  unfolding kleaf_def
proof (rule regions_leaf_0, rule ballI)
  fix r assume "r \<in> set (kregions dat)"
  then have "region_ok r" using kregions_ok(1) [OF assms(1)] by blast
  then show "\<not> in_region w r" using assms(2) by (auto simp: region_ok_def in_region_def)
qed

lemma setupkvm_spec:
  assumes f: "frees kend s l" and k: "VBASE < kend" and dat: "linked dat"
  shows "\<exists>d t l'. setupkvm kend dat s = Ok d t \<and> frees kend t l' \<and> kmem.more t = kmem.more s \<and> unchanged (set l) s t \<and>
    (if d = 0 then set l' = set l
     else d \<in> set l \<and> space_ok kend (set l') (km_mem t) d \<and> set l = set l' \<union> owned (km_mem t) d \<and>
       (\<forall>w<npages. leaf (km_mem t) d w = kleaf dat w))"
proof (cases l)
  case Nil
  then have "setupkvm kend dat s = Ok 0 s" using kalloc_spec(1) [OF f] by (simp add: setupkvm_def kbind_def)
  then show ?thesis using f by (intro exI [of _ 0] exI [of _ s] exI [of _ l]) simp
next
  case (Cons d l1)
  have d: "page_ok kend d" "d \<notin> set l1" using f Cons by (auto simp: frees_def)
  have d0: "d \<noteq> 0" by (rule page_ok_not_0 [OF order.strict_implies_order [OF k] d(1)])
  define s2 where "s2 = s\<lparr>km_freelist := km_mem s d, km_mem := fill_page d 0 (km_mem s)\<rparr>"
  have f2: "frees kend s2 l1"
    by (rule frees_cong [OF kalloc_spec(2) [OF f Cons]]) (use d(2) in \<open>auto simp: s2_def fill_page_def\<close>)
  have al: "aligned d" using d(1) by (simp add: page_ok_def)
  have pd: "pde (km_mem s2) d i = 0" if "i < 1024" for i using page_of_slot [OF al that] by (simp add: pde_def s2_def fill_page_def)
  then have pt: "pt_ok kend (set l1) (km_mem s2) d" and tb: "tables (km_mem s2) d = {}"
    using d by (auto simp: pt_ok_def tables_def)
  have lf: "leaf (km_mem s2) d w = 0" if "w < npages" for w using pd [OF vpn_bounds(1) [OF that]] by (simp add: leaf_def)
  note kr = kregions_ok [OF dat]
  have ins: "set l1 \<union> insert d (tables (km_mem s2) d) = set l" using Cons tb by auto
  have z: "\<forall>w<npages. (\<exists>r\<in>set (kregions dat). in_region w r) \<or> w < upn \<longrightarrow> leaf (km_mem s2) d w = 0" using lf by blast
  obtain r t l' where t: "kvm_loop kend d (kmap dat) s2 = Ok r t" "frees kend t l'" "kmem.more t = kmem.more s2"
      "unchanged (set l) s2 t"
      "if r = 0 then set l' = set l else r = d \<and> grows kend d l1 l' s2 t \<and>
         (\<forall>w<npages. leaf (km_mem t) d w = (if \<exists>r\<in>set (kregions dat). in_region w r then kleaf dat w else leaf (km_mem s2) d w))"
    using kvm_loop_spec [OF f2 pt k kr(1,3) z] unfolding ins kr(2) kleaf_def by blast
  have "unchanged (set l) s s2" using Cons by (auto simp: unchanged_def s2_def fill_page_def)
  then have un: "unchanged (set l) s t" using t(4) by (rule unchanged_trans) simp
  have "\<not> P2V PHYSTOP > DEVSPACE" by (simp add: P2V_def PHYSTOP_def DEVSPACE_def VBASE_def)
  then have e: "setupkvm kend dat s = Ok r t"
    using kalloc_spec(1) [OF f] Cons d0 t(1) by (simp add: setupkvm_def kbind_def s2_def)
  show ?thesis
  proof (cases "r = 0")
    case True
    then show ?thesis using e t(2,3,5) un by (intro exI [of _ r] exI [of _ t] exI [of _ l']) (simp add: s2_def)
  next
    case False
    then have rd: "r = d" and gr: "grows kend d l1 l' s2 t"
      and lt0: "\<forall>w<npages. leaf (km_mem t) d w = (if \<exists>r\<in>set (kregions dat). in_region w r then kleaf dat w else leaf (km_mem s2) d w)"
      using t(5) by auto
    have lt: "leaf (km_mem t) d w = kleaf dat w" if "w < npages" for w
      using lt0 that lf regions_leaf_0 [of "kregions dat" w] by (auto simp: kleaf_def)
    note g = growsD [OF gr]
    have "\<not> present (leaf (km_mem t) d w)" if "w < upn" for w
      using lt [OF upn_npages [OF that]] kleaf_user [OF dat that] by simp
    note eu = empty_user [OF g(2) this]
    have "set l = set l' \<union> owned (km_mem t) d" "d \<in> owned (km_mem t) d" using g(5) eu(2) Cons tb by auto
    then show ?thesis using e t(2,3) un rd lt eu(1) False Cons by (intro exI [of _ r] exI [of _ t] exI [of _ l']) (simp add: s2_def)
  qed
qed

section \<open>Copying a process\<close>

lemma page_of_offset:
  assumes "aligned q" and "aligned p" and "page_of a = p"
  shows "page_of (q + (a - p)) = q"
proof -
  have p: "unat p = unat a div 4096 * 4096" using assms(3) unat_PGROUNDDOWN [of a] by simp
  then have "p \<le> a" by (simp add: word_le_nat_alt)
  then have u: "unat (a - p) = unat a mod 4096" using p by (simp add: unat_sub minus_div_mult_eq_mod)
  obtain j where j: "unat q = 4096 * j" using assms(1) by (auto simp: aligned_def mod_eq_0_iff_dvd dvd_def)
  have "j < 0x100000" using unat_uint_bound [of q] j by simp
  moreover have "unat a mod 4096 < 4096" by simp
  ultimately have "unat q + unat (a - p) < 0x100000000" unfolding j u by linarith
  then have "unat (q + (a - p)) = 4096 * j + unat a mod 4096"
    using j u by (simp add: unat_add_lem [THEN iffD1])
  then have "unat (page_of (q + (a - p))) = (4096 * j + unat a mod 4096) div 4096 * 4096" by (simp only: unat_PGROUNDDOWN)
  also have "\<dots> = unat q" using j by simp
  finally show ?thesis by (simp add: word_unat_eq_iff)
qed

definition copied_flags :: "'z kmem_scheme \<Rightarrow> uint \<Rightarrow> nat \<Rightarrow> uint" where
  "copied_flags s g v = PTE_FLAGS (leaf (km_mem s) g v)"

definition copied_data :: "'z kmem_scheme \<Rightarrow> uint \<Rightarrow> nat \<Rightarrow> uint \<Rightarrow> uint" where
  "copied_data s g v off = km_mem s (upage (km_mem s) g v + off)"

text \<open>A process outside the pages \<open>L\<close> is seen unchanged by a routine that writes \<open>L\<close> only.\<close>

lemma other_space:
  assumes ok: "space_ok kend L (km_mem s0) g" and un: "unchanged L s0 s"
  shows "i < 1024 \<Longrightarrow> pde (km_mem s) g i = pde (km_mem s0) g i"
    and "w < npages \<Longrightarrow> leaf (km_mem s) g w = leaf (km_mem s0) g w"
    and "w < upn \<Longrightarrow> present (leaf (km_mem s0) g w) \<Longrightarrow> page_of a = upage (km_mem s0) g w \<Longrightarrow> km_mem s a = km_mem s0 a"
    and "space_ok kend L (km_mem s) g"
proof -
  note sp = space_okD [OF ok]
  have "page_of a \<notin> L" if "page_of a \<in> insert g (tables (km_mem s0) g)" for a
    using that pt_okD(3,4) [OF sp(1)] by (auto simp: tables_def)
  then have same: "\<forall>a. page_of a \<in> insert g (tables (km_mem s0) g) \<longrightarrow> km_mem s a = km_mem s0 a"
    using unchangedD [OF un] by blast
  note c = pt_cong [OF sp(1) same]
  show "i < 1024 \<Longrightarrow> pde (km_mem s) g i = pde (km_mem s0) g i" by (rule c(1))
  show lf: "w < npages \<Longrightarrow> leaf (km_mem s) g w = leaf (km_mem s0) g w" for w by (rule c(5))
  show "w < upn \<Longrightarrow> present (leaf (km_mem s0) g w) \<Longrightarrow> page_of a = upage (km_mem s0) g w \<Longrightarrow> km_mem s a = km_mem s0 a"
    using sp(2) [of w] unchangedD [OF un, of a] by auto
  have "leaf (km_mem s) g w = leaf (km_mem s0) g w" if "w < upn" for w by (rule lf [OF upn_npages [OF that]])
  then show "space_ok kend L (km_mem s) g"
    using ok c(3,4) unfolding space_ok_def upage_def by auto
qed

lemma copy_loop_spec:
  assumes par: "space_ok kend L (km_mem s0) g" and k: "VBASE < kend" and L: "L = set l1 \<union> owned (km_mem s1) d"
    and un1: "unchanged L s0 s1" and z: "\<forall>v<upn. leaf (km_mem s1) d v = 0"
    and N: "npg sz \<le> upn" and pr: "\<forall>v<npg sz. present (leaf (km_mem s0) g v)"
    and "filled kend d l1 l s1 s 0 w (copied_flags s0 g) (copied_data s0 g)" and "w \<le> npg sz" and "npg sz - w \<le> fuel"
  shows "\<exists>r t l'. copy_loop fuel kend d g (vaddr w) sz s = Ok r t \<and>
    (r = d \<and> filled kend d l1 l' s1 t 0 (npg sz) (copied_flags s0 g) (copied_data s0 g) \<or>
     r = 0 \<and> frees kend t l' \<and> set l' = L \<and> unchanged L s1 t \<and> kmem.more t = kmem.more s1)"
  using assms(8-10)
proof (induction fuel arbitrary: w s l)
  case 0
  have wn: "w < npages" using 0(2) N by (simp add: upn_def npages_def)
  have "w = npg sz" using 0 by simp
  then show ?case using 0(1) vaddr_less [OF wn, of sz] by (intro exI [of _ d] exI [of _ s] exI [of _ l]) simp
next
  case (Suc fuel)
  note fi = Suc.prems(1)
  have wn: "w < npages" using Suc.prems(2) N by (simp add: upn_def npages_def)
  have ex: "extends kend d l1 l s1 s" using fi unfolding filled_def by blast
  note e = extendsD [OF ex]
  have sub: "set l1 \<union> insert d (tables (km_mem s1) d) \<subseteq> L" unfolding L owned_def by blast
  have un: "unchanged L s0 s" by (rule unchanged_trans [OF un1 e(7) sub])
  note os = other_space [OF par un]
  show ?case
  proof (cases "w < npg sz")
    case False
    then have "w = npg sz" using Suc.prems(2) by simp
    then show ?thesis using fi False vaddr_less [OF wn, of sz] by (intro exI [of _ d] exI [of _ s] exI [of _ l]) simp
  next
    case True
    then have lt: "vaddr w < sz" and wu: "w < upn" using vaddr_less [OF wn, of sz] N by simp_all
    have prw: "present (leaf (km_mem s0) g w)" using pr True by blast
    then have prs: "present (leaf (km_mem s) g w)" using os(2) [OF wn] by simp
    then have pd: "present (pde (km_mem s) g (w div 1024))" by (auto simp: leaf_def split: if_splits)
    let ?a = "leaf_addr (km_mem s) g w"
    have lf: "km_mem s ?a = leaf (km_mem s) g w" using pd by (simp add: leaf_def)
    have a0: "?a \<noteq> 0"
      using pt_okD(4) [OF space_okD(1) [OF os(4)] vpn_bounds(1) [OF wn] pd]
        page_ok_not_0 [OF order.strict_implies_order [OF k]] slot_not_0 [of _ "w mod 1024"]
      by (auto simp: leaf_addr_def)
    let ?src = "P2V (PTE_ADDR (leaf (km_mem s) g w))" and ?fl = "PTE_FLAGS (leaf (km_mem s) g w)"
    have src: "?src = upage (km_mem s0) g w" using os(2) [OF wn] by (simp add: upage_def)
    have fl: "?fl = copied_flags s0 g w" using os(2) [OF wn] by (simp add: copied_flags_def)
    have wk: "walkpgdir g (vaddr w) False s = Ok ?a s" using pd by (simp add: walk_lookup [OF wn])
    have own: "set l \<union> owned (km_mem s) d = L" using e(5) L by simp
    show ?thesis
    proof (cases l)
      case Nil
      obtain t l' where t: "freevm kend d s = Ok () t" "frees kend t l'" "set l' = set l \<union> owned (km_mem s) d"
          "unchanged (owned (km_mem s) d) s t" "kmem.more t = kmem.more s"
        using freevm_spec [OF e(1,2) k] by blast
      have "copy_loop (Suc fuel) kend d g (vaddr w) sz s = Ok 0 t"
        using lt a0 prs kalloc_spec(1) [OF e(1)] Nil by (simp add: kbind_def kthen_def wk lf Let_def t(1))
      moreover have "unchanged L s1 t"
        by (rule unchanged_trans [OF unchanged_mono [OF e(7) sub] t(4)]) (use own in blast)
      ultimately show ?thesis using t(2,3,5) own e(3) by auto
    next
      case (Cons p la)
      let ?m = "copy_page p ?src (km_mem s)"
      let ?s2 = "s\<lparr>km_freelist := km_mem s p, km_mem := ?m\<rparr>"
      have pk: "page_ok kend p" using e(1) Cons by (simp add: frees_def)
      then have p0: "p \<noteq> 0" by (rule page_ok_not_0 [OF order.strict_implies_order [OF k]])
      have ka: "kalloc s = Ok p (s\<lparr>km_freelist := km_mem s p\<rparr>)" using kalloc_spec(1) [OF e(1)] Cons by simp
      have "page_has ?m p (copied_data s0 g w)"
        unfolding page_has_def
      proof (intro allI impI)
        fix a assume a: "page_of a = p"
        have "page_ok kend (upage (km_mem s0) g w)" using space_okD(2) [OF par wu prw] by blast
        then have "page_of (upage (km_mem s0) g w + (a - p)) = upage (km_mem s0) g w"
          using page_of_offset [OF _ _ a] pk by (simp add: page_ok_def)
        then show "?m a = copied_data s0 g w (a - p)"
          using os(3) [OF wu prw] a by (simp add: copy_page_def copied_data_def src)
      qed
      moreover have "?m a = km_mem s a" if "page_of a \<noteq> p" for a using that by (simp add: copy_page_def)
      moreover have "\<not> present (leaf (km_mem s1) d w)" using z wu by simp
      ultimately obtain r t l' where t: "mappages d (vaddr w) PGSIZE (V2P p) (copied_flags s0 g w) ?s2 = Ok r t"
          "if r < 0 then stuck kend d l1 l' p s1 t \<and> (\<forall>v<npages. leaf (km_mem t) d v = leaf (km_mem s) d v)
           else filled kend d l1 l' s1 t 0 (Suc w) (copied_flags s0 g) (copied_data s0 g)"
        using fill_step [OF fi [unfolded Cons] k wu le0, of ?m] by (auto simp: copied_flags_def)
      have step: "copy_loop (Suc fuel) kend d g (vaddr w) sz s =
          (if r < 0 then kthen (kfree kend p) (kthen (freevm kend d) (kret 0)) t else copy_loop fuel kend d g (vaddr (Suc w)) sz t)"
        using lt a0 prs p0 by (simp add: kbind_def wk lf Let_def ka fl t(1) vaddr_Suc)
      show ?thesis
      proof (cases "r < 0")
        case True
        then have st: "stuck kend d l1 l' p s1 t" using t(2) by simp
        note st' = st [unfolded stuck_def]
        have spt: "space_ok kend (set l') (km_mem t) d" by (rule space_ok_mono [of kend "insert p (set l')"]) (use st' in auto)
        have pn: "p \<notin> owned (km_mem t) d"
          using st' by (auto simp: owned_def upages_def space_ok_def pt_ok_def tables_def)
        obtain u where u: "kfree kend p t = Ok () u" "frees kend u (p # l')" "\<And>a. page_of a \<noteq> p \<Longrightarrow> km_mem u a = km_mem t a"
            "kmem.more u = kmem.more t"
          using kfree_spec [OF _ _ _ order.strict_implies_order [OF k], of t l' p] st' by blast
        note sf = space_free [OF spt pn u(3)]
        have spu: "space_ok kend (set (p # l')) (km_mem u) d" using sf(1) by simp
        obtain v l2 where v: "freevm kend d u = Ok () v" "frees kend v l2" "set l2 = set (p # l') \<union> owned (km_mem u) d"
            "unchanged (owned (km_mem u) d) u v" "kmem.more v = kmem.more u"
          using freevm_spec [OF u(2) spu k] by blast
        have ow: "insert p (set l') \<union> owned (km_mem t) d = L" using st' L by simp
        then have tu: "unchanged L t u" using u(3) unfolding unchanged_def by blast
        have "unchanged (set l1 \<union> insert d (tables (km_mem s1) d)) s1 t" using st' by blast
        then have "unchanged L s1 u" by (rule unchanged_trans [OF unchanged_mono [OF _ sub] tu]) simp
        then have "unchanged L s1 v" by (rule unchanged_trans [OF _ v(4)]) (use sf(2) ow in auto)
        moreover have "set l2 = L" using v(3) sf(2) ow by auto
        moreover have "copy_loop (Suc fuel) kend d g (vaddr w) sz s = Ok 0 v"
          using step True by (simp add: kthen_def kbind_def u(1) v(1))
        ultimately show ?thesis using v(2,5) u(4) st' by auto
      next
        case False
        then have f2: "filled kend d l1 l' s1 t 0 (Suc w) (copied_flags s0 g) (copied_data s0 g)" using t(2) by simp
        show ?thesis using Suc.IH [OF f2] step False True Suc.prems(3) by simp
      qed
    qed
  qed
qed

lemma copyuvm_spec:
  assumes f: "frees kend s l" and ok: "space_ok kend (set l) (km_mem s) g" and k: "VBASE < kend" and dat: "linked dat"
    and sz: "sz \<le> VBASE" and pr: "\<forall>v<npg sz. present (leaf (km_mem s) g v)"
  shows "\<exists>d t l'. copyuvm kend dat g sz s = Ok d t \<and> frees kend t l' \<and> unchanged (set l) s t \<and>
    (if d = 0 then set l' = set l
     else space_ok kend (set l') (km_mem t) d \<and> set l = set l' \<union> owned (km_mem t) d \<and>
       (\<forall>v<npages. if v < npg sz then \<exists>p\<in>set l. leaf (km_mem t) d v = V2P p OR PTE_FLAGS (leaf (km_mem s) g v) OR PTE_P \<and>
            upage (km_mem t) d v = p \<and> page_has (km_mem t) p (copied_data s g v)
          else leaf (km_mem t) d v = kleaf dat v))"
proof -
  have N: "npg sz \<le> upn" using sz by (intro npg_upn) (simp add: word_le_nat_alt VBASE_def)
  have N2: "npg sz - 0 \<le> npages" using N by (simp add: upn_def npages_def)
  obtain d s1 l1 where d: "setupkvm kend dat s = Ok d s1" "frees kend s1 l1" "unchanged (set l) s s1"
      "if d = 0 then set l1 = set l
       else d \<in> set l \<and> space_ok kend (set l1) (km_mem s1) d \<and> set l = set l1 \<union> owned (km_mem s1) d \<and>
         (\<forall>w<npages. leaf (km_mem s1) d w = kleaf dat w)"
    using setupkvm_spec [OF f k dat] by blast
  show ?thesis
  proof (cases "d = 0")
    case True
    then have "copyuvm kend dat g sz s = Ok 0 s1" by (simp add: copyuvm_def kbind_def d(1))
    then show ?thesis using d(2-4) True by (intro exI [of _ 0] exI [of _ s1] exI [of _ l1]) simp
  next
    case False
    then have sp: "space_ok kend (set l1) (km_mem s1) d" and L: "set l = set l1 \<union> owned (km_mem s1) d"
      and kl: "\<And>w. w < npages \<Longrightarrow> leaf (km_mem s1) d w = kleaf dat w"
      using d(4) by auto
    have z: "\<forall>v<upn. leaf (km_mem s1) d v = 0" using kl kleaf_user [OF dat] upn_npages by simp
    have fi: "filled kend d l1 l1 s1 s1 0 0 (copied_flags s g) (copied_data s g)"
      using extends_refl [OF d(2) sp] by (simp add: filled_def)
    have e: "copyuvm kend dat g sz s = copy_loop npages kend d g (vaddr 0) sz s1"
      using False by (simp add: copyuvm_def kbind_def d(1) vaddr_def)
    obtain r t l' where t: "copy_loop npages kend d g (vaddr 0) sz s1 = Ok r t"
        "r = d \<and> filled kend d l1 l' s1 t 0 (npg sz) (copied_flags s g) (copied_data s g) \<or>
         r = 0 \<and> frees kend t l' \<and> set l' = set l \<and> unchanged (set l) s1 t \<and> kmem.more t = kmem.more s1"
      using copy_loop_spec [OF ok k L d(3) z N pr fi le0 N2] by blast
    show ?thesis
    proof (cases "r = 0")
      case True
      then have "frees kend t l'" "set l' = set l" "unchanged (set l) s1 t" using t(2) False by auto
      moreover from this have "unchanged (set l) s t" using unchanged_trans [OF d(3)] by blast
      ultimately show ?thesis using e t(1) True by (intro exI [of _ 0] exI [of _ t] exI [of _ l']) simp
    next
      case r: False
      then have rd: "r = d" and fi2: "filled kend d l1 l' s1 t 0 (npg sz) (copied_flags s g) (copied_data s g)" using t(2) by auto
      have "extends kend d l1 l' s1 t" using fi2 unfolding filled_def by blast
      note ex = extendsD [OF this]
      have "set l1 \<union> insert d (tables (km_mem s1) d) \<subseteq> set l" unfolding L owned_def by blast
      then have "unchanged (set l) s t" by (rule unchanged_trans [OF d(3) ex(7)])
      moreover have "if v < npg sz then \<exists>p\<in>set l. leaf (km_mem t) d v = V2P p OR PTE_FLAGS (leaf (km_mem s) g v) OR PTE_P \<and>
            upage (km_mem t) d v = p \<and> page_has (km_mem t) p (copied_data s g v)
          else leaf (km_mem t) d v = kleaf dat v" if v: "v < npages" for v
      proof (cases "v < npg sz")
        case True
        then have "v \<in> {0..<npg sz}" by simp
        then show ?thesis using fi2 True L unfolding filled_def copied_flags_def by (metis UnI1)
      next
        case False
        then have "v \<notin> {0..<npg sz}" by simp
        then show ?thesis using fi2 False kl [OF v] v unfolding filled_def by simp
      qed
      moreover have "set l = set l' \<union> owned (km_mem t) d" using ex(5) L by simp
      moreover have "copyuvm kend dat g sz s = Ok d t" using e t(1) rd by simp
      moreover note ex(1,2)
      ultimately have "copyuvm kend dat g sz s = Ok d t \<and> frees kend t l' \<and> unchanged (set l) s t \<and>
          space_ok kend (set l') (km_mem t) d \<and> set l = set l' \<union> owned (km_mem t) d \<and>
          (\<forall>v<npages. if v < npg sz then \<exists>p\<in>set l. leaf (km_mem t) d v = V2P p OR PTE_FLAGS (leaf (km_mem s) g v) OR PTE_P \<and>
            upage (km_mem t) d v = p \<and> page_has (km_mem t) p (copied_data s g v)
          else leaf (km_mem t) d v = kleaf dat v)"
        by blast
      then show ?thesis using \<open>d \<noteq> 0\<close> by (metis (no_types, lifting))
    qed
  qed
qed

section \<open>A small machine\<close>

text \<open>
  A process with one page at address 0, its directory and table at 0x80200000 and 0x80201000, and the
  memory from 0x80300000 free.
\<close>

definition ex_mem :: wmem where
  "ex_mem a =
     (if a = 0x80200000 then 0x201007 else if a = 0x80201000 then 0x202007
      else if aligned a \<and> 0x80300000 \<le> a \<and> unat a + 8192 \<le> 0x8E000000 then a + PGSIZE else 0)"

definition ex_kmem :: kmem where
  "ex_kmem = \<lparr>km_mem = ex_mem, km_freelist = 0x80300000, km_use_lock = True\<rparr>"

definition ex_free :: "uint list" where "ex_free = pages_between 0x80300000 0x8E000000"

lemma ex_flist:
  "aligned p \<Longrightarrow> 0x80300000 \<le> p \<Longrightarrow> unat p + 4096 \<le> 0x8E000000 \<Longrightarrow> flist ex_mem p (pages_between p 0x8E000000)"
proof (induction "0x8E000000 - unat p" arbitrary: p rule: less_induct)
  case less
  have le: "unat p + 4096 \<le> unat (0x8E000000 :: uint)" using less.prems(3) by simp
  note st = pages_between_step [OF le]
  have ge: "unat p \<ge> 0x80300000" using less.prems(2) by (simp add: word_le_nat_alt)
  have ne: "p \<noteq> 0" "p \<noteq> 0x80200000" "p \<noteq> 0x80201000" using ge by auto
  show ?case
  proof (cases "unat p + 8192 \<le> 0x8E000000")
    case True
    have al: "aligned (p + PGSIZE)" "0x80300000 \<le> p + PGSIZE" using less.prems(1) ge st(2) by (simp_all add: aligned_def word_le_nat_alt)
    have "flist ex_mem (p + PGSIZE) (pages_between (p + PGSIZE) 0x8E000000)"
      by (rule less.hyps [OF _ al]) (use True st(2) in auto)
    moreover have "ex_mem p = p + PGSIZE" using less.prems(1,2) ne True by (simp add: ex_mem_def)
    ultimately show ?thesis using st(1) ne(1) by simp
  next
    case False
    then have "pages_between (p + PGSIZE) 0x8E000000 = []" using st(2) by (simp add: pages_between_def)
    moreover have "ex_mem p = 0" using ne False by (simp add: ex_mem_def)
    ultimately show ?thesis using st(1) ne(1) by simp
  qed
qed

lemma ex_free_mem: "v \<in> set ex_free \<longleftrightarrow> aligned v \<and> 0x80300000 \<le> v \<and> unat v + 4096 \<le> 0x8E000000"
  using set_pages_between [of "0x80300000" v "0x8E000000"] by (simp add: ex_free_def aligned_def)

lemma ex_frees: "frees 0x80115000 ex_kmem ex_free"
proof -
  have "page_ok 0x80115000 v" if "v \<in> set ex_free" for v
    using that page_ok_range [of "0x80115000" v]
    by (simp add: ex_free_mem P2V_def PHYSTOP_def VBASE_def word_le_nat_alt)
  moreover have "flist ex_mem 0x80300000 ex_free" unfolding ex_free_def by (rule ex_flist) (simp_all add: aligned_def)
  moreover have "distinct ex_free" unfolding ex_free_def by (rule distinct_pages_between)
  ultimately show ?thesis by (simp add: frees_def ex_kmem_def)
qed

lemma ex_word:
  assumes "i < 1024"
  shows "ex_mem (slot 0x80200000 i) = (if i = 0 then 0x201007 else 0)"
    and "ex_mem (slot 0x80201000 i) = (if i = 0 then 0x202007 else 0)"
proof -
  have al: "aligned 0x80200000" "aligned 0x80201000" by (simp_all add: aligned_def)
  note u = unat_slot [OF al(1) assms] unat_slot [OF al(2) assms]
  have eq: "slot 0x80200000 i = 0x80200000 \<longleftrightarrow> i = 0" "slot 0x80201000 i = 0x80201000 \<longleftrightarrow> i = 0"
    "slot 0x80200000 i \<noteq> 0x80201000" "slot 0x80201000 i \<noteq> 0x80200000"
    "\<not> 0x80300000 \<le> slot 0x80200000 i" "\<not> 0x80300000 \<le> slot 0x80201000 i"
    using u assms by (auto simp: word_unat_eq_iff word_le_nat_alt)
  show "ex_mem (slot 0x80200000 i) = (if i = 0 then 0x201007 else 0)"
    "ex_mem (slot 0x80201000 i) = (if i = 0 then 0x202007 else 0)"
    by (simp_all add: ex_mem_def eq)
qed

lemma ex_bits: "present 0x201007" "present 0x202007" "PTE_ADDR 0x201007 = 0x201000" "PTE_ADDR 0x202007 = 0x202000"
  by (simp_all add: present_def PTE_P_def PTE_ADDR_def)

lemma ex_tree:
  "i < 1024 \<Longrightarrow> pde ex_mem 0x80200000 i = (if i = 0 then 0x201007 else 0)" "ptab ex_mem 0x80200000 0 = 0x80201000"
  "w < npages \<Longrightarrow> leaf ex_mem 0x80200000 w = (if w = 0 then 0x202007 else 0)" "upage ex_mem 0x80200000 0 = 0x80202000"
proof -
  show pd: "i < 1024 \<Longrightarrow> pde ex_mem 0x80200000 i = (if i = 0 then 0x201007 else 0)" for i by (simp add: pde_def ex_word(1))
  show pt: "ptab ex_mem 0x80200000 0 = 0x80201000" by (simp add: ptab_def pd ex_bits P2V_def VBASE_def)
  show lf: "leaf ex_mem 0x80200000 w = (if w = 0 then 0x202007 else 0)" if w: "w < npages" for w
  proof (cases "w div 1024 = 0")
    case True
    then show ?thesis using pt pd [of 0] ex_word(2) [of "w mod 1024"] by (auto simp: leaf_def leaf_addr_def ex_bits)
  next
    case False
    then show ?thesis using pd [OF vpn_bounds(1) [OF w]] by (auto simp: leaf_def)
  qed
  show "upage ex_mem 0x80200000 0 = 0x80202000" using lf [of 0] by (simp add: upage_def npages_def ex_bits P2V_def VBASE_def)
qed

lemma ex_space: "space_ok 0x80115000 (set ex_free) (km_mem ex_kmem) 0x80200000"
proof -
  have ok: "page_ok 0x80115000 p \<and> p \<notin> set ex_free" if "p \<in> {0x80200000, 0x80201000, 0x80202000}" for p
    using that by (auto simp: ex_free_mem page_ok_def aligned_def V2P_def VBASE_def PHYSTOP_def)
  have t: "tables ex_mem 0x80200000 = {0x80201000}"
  proof -
    have "{i. i < 1024 \<and> present (pde ex_mem 0x80200000 i)} = {0}" by (auto simp: ex_tree(1) ex_bits split: if_splits)
    then show ?thesis by (simp add: tables_def ex_tree(2))
  qed
  have "pt_ok 0x80115000 (set ex_free) ex_mem 0x80200000"
    using ok unfolding pt_ok_def by (auto simp: ex_tree(1,2) split: if_splits)
  moreover have lf: "leaf ex_mem 0x80200000 w = (if w = 0 then 0x202007 else 0)" if "w < upn" for w
    using ex_tree(3) [OF upn_npages [OF that]] .
  ultimately show ?thesis
    using ok unfolding space_ok_def ex_kmem_def by (auto simp: lf t ex_tree(4) split: if_splits)
qed

section \<open>The properties\<close>

text \<open>C6: fork's copy is isolated. copyuvm writes only pages that were free, so the parent and every other
  process keep their memory. It either returns 0 with all those pages free again, or a new address
  space made of formerly free pages: each page of the parent below \<open>sz\<close> has a page of its own with
  the parent's contents and flags, the kernel part is the one of kmap, and nothing else is mapped.\<close>

theorem copyuvm_isolated:
  assumes "frees kend s l" and "space_ok kend (set l) (km_mem s) g" and "VBASE < kend" and "linked dat"
    and "sz \<le> VBASE" and "\<forall>v<npg sz. present (leaf (km_mem s) g v)"
  shows "\<exists>d t l'. copyuvm kend dat g sz s = Ok d t \<and> frees kend t l' \<and> unchanged (set l) s t \<and>
    (if d = 0 then set l' = set l
     else space_ok kend (set l') (km_mem t) d \<and> set l = set l' \<union> owned (km_mem t) d \<and>
       (\<forall>v<npages. if v < npg sz then \<exists>p\<in>set l. leaf (km_mem t) d v = V2P p OR PTE_FLAGS (leaf (km_mem s) g v) OR PTE_P \<and>
            upage (km_mem t) d v = p \<and> page_has (km_mem t) p (copied_data s g v)
          else leaf (km_mem t) d v = kleaf dat v))"
  by (rule copyuvm_spec [OF assms])

theorem copyuvm_isolated_witness:
  "\<exists>d t l'. copyuvm 0x80115000 0x80109000 0x80200000 4096 ex_kmem = Ok d t \<and> frees 0x80115000 t l' \<and> unchanged (set ex_free) ex_kmem t"
proof -
  have "linked 0x80109000" by (simp add: linked_def aligned_def KERNLINK_def VBASE_def EXTMEM_def P2V_def PHYSTOP_def)
  moreover have "\<forall>v<npg 4096. present (leaf (km_mem ex_kmem) 0x80200000 v)"
    by (simp add: npg_def ex_kmem_def ex_tree(3) npages_def ex_bits)
  ultimately show ?thesis
    using copyuvm_isolated [OF ex_frees ex_space, of "0x80109000" 4096] by (auto simp: VBASE_def)
qed

text \<open>C7: no page is lost. A fork's copyuvm followed by the freevm of its exit leaves exactly the pages
  free that were free before, whether or not the memory sufficed.\<close>

theorem copy_then_free:
  assumes "frees kend s l" and "space_ok kend (set l) (km_mem s) g" and "VBASE < kend" and "linked dat"
    and "sz \<le> VBASE" and "\<forall>v<npg sz. present (leaf (km_mem s) g v)"
  shows "\<exists>t l'. kbind (copyuvm kend dat g sz) (\<lambda>d. if d = 0 then kret () else freevm kend d) s = Ok () t \<and>
    frees kend t l' \<and> set l' = set l \<and> unchanged (set l) s t"
proof -
  obtain d t l' where t: "copyuvm kend dat g sz s = Ok d t" "frees kend t l'" "unchanged (set l) s t"
      "if d = 0 then set l' = set l else space_ok kend (set l') (km_mem t) d \<and> set l = set l' \<union> owned (km_mem t) d"
    using copyuvm_spec [OF assms] by (metis (no_types, lifting))
  show ?thesis
  proof (cases "d = 0")
    case True
    then show ?thesis using t by (intro exI [of _ t] exI [of _ l']) (simp add: kbind_def)
  next
    case False
    then have sp: "space_ok kend (set l') (km_mem t) d" and L: "set l = set l' \<union> owned (km_mem t) d" using t(4) by simp_all
    obtain u l2 where u: "freevm kend d t = Ok () u" "frees kend u l2" "set l2 = set l' \<union> owned (km_mem t) d"
        "unchanged (owned (km_mem t) d) t u"
      using freevm_spec [OF t(2) sp assms(3)] by blast
    have "unchanged (set l) s u" by (rule unchanged_trans [OF t(3) u(4)]) (use L in blast)
    then show ?thesis using u(1-3) L t(1) False by (intro exI [of _ u] exI [of _ l2]) (simp add: kbind_def)
  qed
qed

theorem copy_then_free_witness:
  "\<exists>t l'. kbind (copyuvm 0x80115000 0x80109000 0x80200000 4096) (\<lambda>d. if d = 0 then kret () else freevm 0x80115000 d) ex_kmem = Ok () t \<and>
    frees 0x80115000 t l' \<and> set l' = set ex_free \<and> unchanged (set ex_free) ex_kmem t"
proof -
  have "linked 0x80109000" by (simp add: linked_def aligned_def KERNLINK_def VBASE_def EXTMEM_def P2V_def PHYSTOP_def)
  moreover have "\<forall>v<npg 4096. present (leaf (km_mem ex_kmem) 0x80200000 v)"
    by (simp add: npg_def ex_kmem_def ex_tree(3) npages_def ex_bits)
  ultimately show ?thesis
    using copy_then_free [OF ex_frees ex_space, of "0x80109000" 4096] by (simp add: VBASE_def)
qed

text \<open>C8: growing keeps the address space well-formed. From \<open>oldsz\<close> to \<open>newsz\<close> below KERNBASE allocuvm
  either maps a fresh zeroed user page at every new page number, changing no other entry, or
  returns 0 with the mapping as before and every page still owned or free.\<close>

theorem allocuvm_grows:
  assumes "frees kend s l" and "space_ok kend (set l) (km_mem s) g" and "VBASE < kend"
    and "newsz < VBASE" and "oldsz \<le> newsz" and "\<forall>v\<in>{npg oldsz..<npg newsz}. leaf (km_mem s) g v = 0"
  shows "\<exists>r t l'. allocuvm kend g oldsz newsz s = Ok r t \<and>
    (r = newsz \<and> filled kend g l l' s t (npg oldsz) (npg newsz) (\<lambda>_. PTE_W OR PTE_U) (\<lambda>_ _. 0) \<or>
     r = 0 \<and> gave_up kend g l l' s t)"
  by (rule allocuvm_spec [OF assms])

theorem allocuvm_grows_witness:
  "\<exists>r t l'. allocuvm 0x80115000 0x80200000 4096 20000 ex_kmem = Ok r t \<and>
    (r = 20000 \<and> filled 0x80115000 0x80200000 ex_free l' ex_kmem t 1 5 (\<lambda>_. PTE_W OR PTE_U) (\<lambda>_ _. 0) \<or>
     r = 0 \<and> gave_up 0x80115000 0x80200000 ex_free l' ex_kmem t)"
proof -
  have "\<forall>v\<in>{npg 4096..<npg 20000}. leaf (km_mem ex_kmem) 0x80200000 v = 0"
    by (auto simp: npg_def ex_kmem_def ex_tree(3) npages_def)
  from allocuvm_grows [OF ex_frees ex_space _ _ _ this] show ?thesis by (simp add: VBASE_def npg_def)
qed

end
