(* ===== verification/Pipe.thy ===== *)
theory Pipe
  imports Prelude
begin

text \<open>
  pipe.c: a ring of 512 bytes between the processes that write and those that read, with two
  counters that wrap around as unsigned integers. A routine runs in critical sections of the
  pipe's lock, from acquire or the return of sleep to the next sleep or release; the step relation
  interleaves the sections of any number of processes with kill and with the closing of either
  end. The theorems: bytes come out in the order they went in, and when a process sleeps there is
  nothing for it to do, unless a killed writer gave up (which loses a wakeup).
\<close>

section \<open>The pipe\<close>

definition PIPESIZE :: nat where "PIPESIZE = 512"

record pipe_buf =
  pi_data :: "nat \<Rightarrow> uchar"
  pi_nread :: uint
  pi_nwrite :: uint
  pi_readopen :: bool
  pi_writeopen :: bool

text \<open>The part of pipealloc that sets up the page it got.\<close>

definition pipe_init :: "pipe_buf \<Rightarrow> pipe_buf" where
  "pipe_init p = p\<lparr>pi_readopen := True, pi_writeopen := True, pi_nwrite := 0, pi_nread := 0\<rparr>"

definition pipe_full :: "pipe_buf \<Rightarrow> bool" where
  "pipe_full p \<longleftrightarrow> pi_nwrite p = pi_nread p + of_nat PIPESIZE"

definition pipe_empty :: "pipe_buf \<Rightarrow> bool" where
  "pipe_empty p \<longleftrightarrow> pi_nread p = pi_nwrite p"

definition put_char :: "uchar \<Rightarrow> pipe_buf \<Rightarrow> pipe_buf" where
  "put_char b p = p\<lparr>pi_data := (pi_data p)(unat (pi_nwrite p) mod PIPESIZE := b), pi_nwrite := pi_nwrite p + 1\<rparr>"

text \<open>
  One critical section of pipewrite with the bytes still to write: it ends with the return of \<open>n\<close>,
  with the return of -1, or in sleep with bytes left. The Boolean tells whether the readers were
  woken.
\<close>

datatype write_result = WDone | WFail | WSleep "uchar list"

fun pipewrite_section :: "bool \<Rightarrow> uchar list \<Rightarrow> pipe_buf \<Rightarrow> write_result \<times> bool \<times> pipe_buf" where
  "pipewrite_section killed [] p = (WDone, True, p)"
| "pipewrite_section killed (b # bs) p =
     (if pipe_full p then
        if \<not> pi_readopen p \<or> killed then (WFail, False, p) else (WSleep (b # bs), True, p)
      else pipewrite_section killed bs (put_char b p))"

fun read_loop :: "nat \<Rightarrow> pipe_buf \<Rightarrow> uchar list \<times> pipe_buf" where
  "read_loop 0 p = ([], p)"
| "read_loop (Suc n) p =
     (if pipe_empty p then ([], p)
      else let b = pi_data p (unat (pi_nread p) mod PIPESIZE);
               (bs, q) = read_loop n (p\<lparr>pi_nread := pi_nread p + 1\<rparr>)
        in (b # bs, q))"

datatype read_result = RDone "uchar list" | RFail | RSleep

text \<open>A section of piperead; a read that gets through wakes the writers.\<close>

definition piperead_section :: "bool \<Rightarrow> nat \<Rightarrow> pipe_buf \<Rightarrow> read_result \<times> pipe_buf" where
  "piperead_section killed n p =
     (if pipe_empty p \<and> pi_writeopen p then (if killed then RFail else RSleep, p)
      else let (bs, q) = read_loop n p in (RDone bs, q))"

text \<open>pipeclose; the Boolean tells whether the page is freed.\<close>

definition pipeclose :: "bool \<Rightarrow> pipe_buf \<Rightarrow> pipe_buf \<times> bool" where
  "pipeclose writable p =
     (let q = (if writable then p\<lparr>pi_writeopen := False\<rparr> else p\<lparr>pi_readopen := False\<rparr>)
      in (q, \<not> pi_readopen q \<and> \<not> pi_writeopen q))"

section \<open>Processes at a pipe\<close>

datatype phase = Idle | Writing "uchar list" | SleepW "uchar list" | Reading nat | SleepR nat

text \<open>\<open>ps_in\<close> and \<open>ps_out\<close> record the bytes put into and taken out of the pipe; no step reads them.\<close>

record pstate =
  ps_pipe :: pipe_buf
  ps_phase :: "nat \<Rightarrow> phase"
  ps_killed :: "nat \<Rightarrow> bool"
  ps_in :: "uchar list"
  ps_out :: "uchar list"

fun wake_readers :: "phase \<Rightarrow> phase" where
  "wake_readers (SleepR n) = Reading n"
| "wake_readers x = x"

fun wake_writers :: "phase \<Rightarrow> phase" where
  "wake_writers (SleepW bs) = Writing bs"
| "wake_writers x = x"

fun at_write :: "phase \<Rightarrow> bool" where
  "at_write (Writing bs) = True" | "at_write (SleepW bs) = True" | "at_write _ = False"

fun at_read :: "phase \<Rightarrow> bool" where
  "at_read (Reading n) = True" | "at_read (SleepR n) = True" | "at_read _ = False"

fun after_write :: "write_result \<Rightarrow> phase" where
  "after_write (WSleep bs) = SleepW bs" | "after_write _ = Idle"

definition write_step :: "nat \<Rightarrow> uchar list \<Rightarrow> pstate \<Rightarrow> pstate" where
  "write_step i bs s =
     (case pipewrite_section (ps_killed s i) bs (ps_pipe s) of
        (r, woke, q) \<Rightarrow>
          let ph = (ps_phase s)(i := after_write r) in
          s\<lparr>ps_pipe := q, ps_phase := (if woke then wake_readers \<circ> ph else ph),
            ps_in := ps_in s @ take (unat (pi_nwrite q - pi_nwrite (ps_pipe s))) bs\<rparr>)"

definition read_step :: "nat \<Rightarrow> nat \<Rightarrow> pstate \<Rightarrow> pstate" where
  "read_step i n s =
     (case piperead_section (ps_killed s i) n (ps_pipe s) of
        (RSleep, q) \<Rightarrow> s\<lparr>ps_pipe := q, ps_phase := (ps_phase s)(i := SleepR n)\<rparr>
      | (RFail, q) \<Rightarrow> s\<lparr>ps_pipe := q, ps_phase := (ps_phase s)(i := Idle)\<rparr>
      | (RDone bs, q) \<Rightarrow> s\<lparr>ps_pipe := q, ps_phase := wake_writers \<circ> (ps_phase s)(i := Idle), ps_out := ps_out s @ bs\<rparr>)"

text \<open>
  A file reference is held during pipewrite and piperead, so an end is closed only when no process
  is in the routine; kill sets the flag and makes a sleeping process run.
\<close>

inductive pipe_step :: "pstate \<Rightarrow> pstate \<Rightarrow> bool" where
  start_write: "ps_phase s i = Idle \<Longrightarrow> pi_writeopen (ps_pipe s) \<Longrightarrow>
     pipe_step s (s\<lparr>ps_phase := (ps_phase s)(i := Writing bs)\<rparr>)"
| start_read: "ps_phase s i = Idle \<Longrightarrow> pi_readopen (ps_pipe s) \<Longrightarrow>
     pipe_step s (s\<lparr>ps_phase := (ps_phase s)(i := Reading n)\<rparr>)"
| do_write: "ps_phase s i = Writing bs \<Longrightarrow> pipe_step s (write_step i bs s)"
| do_read: "ps_phase s i = Reading n \<Longrightarrow> pipe_step s (read_step i n s)"
| close_write: "pi_writeopen (ps_pipe s) \<Longrightarrow> (\<And>i. \<not> at_write (ps_phase s i)) \<Longrightarrow>
     pipe_step s (s\<lparr>ps_pipe := fst (pipeclose True (ps_pipe s)), ps_phase := wake_readers \<circ> ps_phase s\<rparr>)"
| close_read: "pi_readopen (ps_pipe s) \<Longrightarrow> (\<And>i. \<not> at_read (ps_phase s i)) \<Longrightarrow>
     pipe_step s (s\<lparr>ps_pipe := fst (pipeclose False (ps_pipe s)), ps_phase := wake_writers \<circ> ps_phase s\<rparr>)"
| kill_proc: "pipe_step s (s\<lparr>ps_killed := (ps_killed s)(i := True),
     ps_phase := (ps_phase s)(i := wake_writers (wake_readers (ps_phase s i)))\<rparr>)"

inductive pipe_run :: "pstate \<Rightarrow> bool" where
  pipe_start: "pipe_run \<lparr>ps_pipe = pipe_init p, ps_phase = \<lambda>_. Idle, ps_killed = k, ps_in = [], ps_out = []\<rparr>"
| pipe_next: "pipe_run s \<Longrightarrow> pipe_step s t \<Longrightarrow> pipe_run t"

section \<open>The ring refines a queue\<close>

definition used :: "pipe_buf \<Rightarrow> nat" where "used p = unat (pi_nwrite p - pi_nread p)"

definition queue_of :: "pipe_buf \<Rightarrow> uchar list" where
  "queue_of p = map (\<lambda>k. pi_data p ((unat (pi_nread p) + k) mod PIPESIZE)) [0..<used p]"

definition pipe_ok :: "pipe_buf \<Rightarrow> bool" where "pipe_ok p \<longleftrightarrow> used p \<le> PIPESIZE"

lemma slot_add: "unat (r + of_nat k :: uint) mod PIPESIZE = (unat r + k) mod PIPESIZE"
proof -
  have "unat (r + of_nat k :: uint) = (unat r + k) mod 2 ^ 32"
    by (simp add: unat_word_ariths unat_of_nat mod_add_right_eq)
  moreover have "PIPESIZE dvd 2 ^ 32" by (simp add: PIPESIZE_def)
  ultimately show ?thesis by (simp add: mod_mod_cancel)
qed

lemma nwrite_used: "pi_nwrite p = pi_nread p + of_nat (used p)"
  by (simp add: used_def)

lemma length_queue_of [simp]: "length (queue_of p) = used p"
  by (simp add: queue_of_def)

lemma pipe_empty_used: "pipe_empty p \<longleftrightarrow> used p = 0"
  by (auto simp: pipe_empty_def used_def unat_eq_0)

lemma pipe_full_used: "pipe_ok p \<Longrightarrow> pipe_full p \<longleftrightarrow> used p = PIPESIZE"
proof
  assume "pipe_full p"
  then show "used p = PIPESIZE" by (simp add: pipe_full_def used_def PIPESIZE_def)
next
  assume "used p = PIPESIZE"
  then show "pipe_full p" using nwrite_used [of p] by (simp add: pipe_full_def)
qed

lemma put_char_queue:
  assumes ok: "pipe_ok p" and nf: "\<not> pipe_full p"
  shows "used (put_char b p) = Suc (used p)" and "pipe_ok (put_char b p)" and "queue_of (put_char b p) = queue_of p @ [b]"
proof -
  have u: "used p < PIPESIZE" using ok nf pipe_full_used [OF ok] by (simp add: pipe_ok_def)
  have "pi_nwrite p + 1 - pi_nread p = of_nat (Suc (used p))" by (simp add: nwrite_used [of p])
  then show us: "used (put_char b p) = Suc (used p)"
    using u unfolding put_char_def used_def [of "_\<lparr>pi_data := _, pi_nwrite := _\<rparr>"]
    by (simp add: unat_of_nat PIPESIZE_def del: of_nat_Suc)
  show "pipe_ok (put_char b p)" using us u by (simp add: pipe_ok_def)
  have w: "unat (pi_nwrite p) mod PIPESIZE = (unat (pi_nread p) + used p) mod PIPESIZE"
    by (subst nwrite_used) (rule slot_add)
  have ne: "(unat (pi_nread p) + k) mod PIPESIZE \<noteq> (unat (pi_nread p) + used p) mod PIPESIZE" if "k < used p" for k
  proof
    assume "(unat (pi_nread p) + k) mod PIPESIZE = (unat (pi_nread p) + used p) mod PIPESIZE"
    then have "PIPESIZE dvd (unat (pi_nread p) + used p) - (unat (pi_nread p) + k)"
      using mod_eq_dvd_iff_nat [of "unat (pi_nread p) + k" "unat (pi_nread p) + used p" PIPESIZE] that by simp
    then have "PIPESIZE dvd used p - k" by simp
    then have "PIPESIZE \<le> used p - k" by (rule dvd_imp_le) (use that in simp)
    with u show False by simp
  qed
  have "pi_data (put_char b p) ((unat (pi_nread p) + k) mod PIPESIZE) =
      (if k = used p then b else pi_data p ((unat (pi_nread p) + k) mod PIPESIZE))" if "k \<le> used p" for k
    using that ne [of k] by (simp add: put_char_def w)
  moreover have "pi_nread (put_char b p) = pi_nread p" by (simp add: put_char_def)
  ultimately show "queue_of (put_char b p) = queue_of p @ [b]" by (simp add: queue_of_def us)
qed

definition take_char :: "pipe_buf \<Rightarrow> pipe_buf" where "take_char p = p\<lparr>pi_nread := pi_nread p + 1\<rparr>"

lemma take_char_queue:
  assumes "pipe_ok p" and "\<not> pipe_empty p"
  shows "pipe_ok (take_char p)" and "queue_of p = pi_data p (unat (pi_nread p) mod PIPESIZE) # queue_of (take_char p)"
proof -
  obtain u where u: "used p = Suc u" using assms(2) by (cases "used p") (auto simp: pipe_empty_used)
  then have "u < PIPESIZE" using assms(1) by (simp add: pipe_ok_def)
  have "pi_nwrite p - (pi_nread p + 1) = of_nat u" using nwrite_used [of p] u by simp
  then have us: "used (take_char p) = u"
    using \<open>u < PIPESIZE\<close> unfolding take_char_def used_def [of "_\<lparr>pi_nread := _\<rparr>"]
    by (simp add: unat_of_nat PIPESIZE_def)
  then show "pipe_ok (take_char p)" using \<open>u < PIPESIZE\<close> by (simp add: pipe_ok_def)
  have "(unat (pi_nread p + 1) + k) mod PIPESIZE = (unat (pi_nread p) + Suc k) mod PIPESIZE" for k
    using slot_add [of "pi_nread p" 1] mod_add_left_eq [of "unat (pi_nread p + 1)" PIPESIZE k]
      mod_add_left_eq [of "unat (pi_nread p) + 1" PIPESIZE k] by simp
  moreover have "pi_nread (take_char p) = pi_nread p + 1" "pi_data (take_char p) = pi_data p" by (simp_all add: take_char_def)
  moreover have "[0..<Suc u] = 0 # map Suc [0..<u]" by (simp add: upt_conv_Cons map_Suc_upt del: upt_Suc)
  ultimately show "queue_of p = pi_data p (unat (pi_nread p) mod PIPESIZE) # queue_of (take_char p)"
    by (simp add: queue_of_def us u comp_def del: upt_Suc)
qed

lemma pipewrite_section_spec:
  assumes "pipe_ok p" and "pipewrite_section killed bs p = (r, woke, q)"
  shows "\<exists>k\<le>length bs. queue_of q = queue_of p @ take k bs \<and> pipe_ok q \<and> pi_nread q = pi_nread p \<and>
    pi_readopen q = pi_readopen p \<and> pi_writeopen q = pi_writeopen p \<and>
    pi_nwrite q = pi_nwrite p + of_nat k \<and> k \<le> PIPESIZE \<and>
    (case r of WDone \<Rightarrow> k = length bs \<and> woke
     | WSleep rest \<Rightarrow> rest = drop k bs \<and> k < length bs \<and> pipe_full q \<and> pi_readopen p \<and> \<not> killed \<and> woke
     | WFail \<Rightarrow> pipe_full q \<and> k < length bs \<and> (\<not> pi_readopen p \<or> killed) \<and> \<not> woke)"
  using assms
proof (induction bs arbitrary: p)
  case Nil
  then show ?case by auto
next
  case (Cons b bs)
  show ?case
  proof (cases "pipe_full p")
    case True
    then show ?thesis using Cons.prems by (intro exI [of _ 0]) (auto split: if_splits)
  next
    case False
    note pc = put_char_queue [OF Cons.prems(1) False, of b]
    have fs: "pi_nread (put_char b p) = pi_nread p" "pi_readopen (put_char b p) = pi_readopen p"
        "pi_writeopen (put_char b p) = pi_writeopen p" "pi_nwrite (put_char b p) = pi_nwrite p + 1"
      by (simp_all add: put_char_def)
    have "pipewrite_section killed bs (put_char b p) = (r, woke, q)" using Cons.prems(2) False by simp
    from Cons.IH [OF pc(2) this] obtain k where kk: "k \<le> length bs" "queue_of q = (queue_of p @ [b]) @ take k bs"
        "pipe_ok q" "pi_nread q = pi_nread p" "pi_readopen q = pi_readopen p" "pi_writeopen q = pi_writeopen p"
        "pi_nwrite q = pi_nwrite p + 1 + of_nat k"
      and kr: "case r of WDone \<Rightarrow> k = length bs \<and> woke
         | WSleep rest \<Rightarrow> rest = drop k bs \<and> k < length bs \<and> pipe_full q \<and> pi_readopen p \<and> \<not> killed \<and> woke
         | WFail \<Rightarrow> pipe_full q \<and> k < length bs \<and> (\<not> pi_readopen p \<or> killed) \<and> \<not> woke"
      unfolding pc(3) fs by blast
    have k: "Suc k \<le> length (b # bs)" "queue_of q = queue_of p @ take (Suc k) (b # bs)"
        "pi_nwrite q = pi_nwrite p + of_nat (Suc k)"
      using kk by (simp_all add: algebra_simps)
    have kr': "case r of WDone \<Rightarrow> Suc k = length (b # bs) \<and> woke
         | WSleep rest \<Rightarrow> rest = drop (Suc k) (b # bs) \<and> Suc k < length (b # bs) \<and> pipe_full q \<and> pi_readopen p \<and> \<not> killed \<and> woke
         | WFail \<Rightarrow> pipe_full q \<and> Suc k < length (b # bs) \<and> (\<not> pi_readopen p \<or> killed) \<and> \<not> woke"
      using kr by (cases r) auto
    have "length (queue_of q) = used p + Suc k" unfolding k(2) using k(1) by simp
    then have "Suc k \<le> PIPESIZE" using kk(3) by (simp add: pipe_ok_def)
    then show ?thesis using k kk(3-6) kr' by blast
  qed
qed

lemma read_loop_spec:
  assumes "pipe_ok p"
  shows "case read_loop n p of (bs, q) \<Rightarrow> pipe_ok q \<and> queue_of p = bs @ queue_of q \<and>
    length bs = min n (used p) \<and> pi_readopen q = pi_readopen p \<and> pi_writeopen q = pi_writeopen p"
  using assms
proof (induction n arbitrary: p)
  case 0
  then show ?case by simp
next
  case (Suc n)
  show ?case
  proof (cases "pipe_empty p")
    case True
    then show ?thesis using Suc.prems by (simp add: pipe_empty_used)
  next
    case False
    note tc = take_char_queue [OF Suc.prems False]
    have "length (queue_of p) = Suc (used (take_char p))" unfolding tc(2) by simp
    then have "used p = Suc (used (take_char p))" by simp
    then show ?thesis
      using Suc.IH [OF tc(1)] False tc(2) unfolding read_loop.simps take_char_def [symmetric]
      by (auto simp: Let_def split: prod.splits) (simp_all add: take_char_def)
  qed
qed

section \<open>Reachable states\<close>

definition pipe_inv :: "pstate \<Rightarrow> bool" where
  "pipe_inv s \<longleftrightarrow> pipe_ok (ps_pipe s) \<and> ps_in s = ps_out s @ queue_of (ps_pipe s) \<and>
     (\<not> pi_readopen (ps_pipe s) \<longrightarrow> (\<forall>i. \<not> at_read (ps_phase s i))) \<and>
     (\<not> pi_writeopen (ps_pipe s) \<longrightarrow> (\<forall>i. \<not> at_write (ps_phase s i))) \<and>
     (\<forall>i bs. ps_phase s i = SleepW bs \<longrightarrow> pipe_full (ps_pipe s) \<and> pi_readopen (ps_pipe s)) \<and>
     (\<forall>i n. ps_phase s i = SleepR n \<longrightarrow> pi_writeopen (ps_pipe s) \<and> (pipe_empty (ps_pipe s) \<or> (\<exists>j. ps_killed s j)))"

lemma wake_simps [simp]:
  "at_read (wake_readers x) = at_read x" "at_write (wake_readers x) = at_write x"
  "at_read (wake_writers x) = at_read x" "at_write (wake_writers x) = at_write x"
  "wake_readers x \<noteq> SleepR n" "wake_writers x \<noteq> SleepW bs"
  "wake_readers x = SleepW bs \<longleftrightarrow> x = SleepW bs" "wake_writers x = SleepR n \<longleftrightarrow> x = SleepR n"
  by (cases x; simp)+

lemma write_step_inv:
  assumes inv: "pipe_inv s" and ph: "ps_phase s i = Writing bs"
  shows "pipe_inv (write_step i bs s)"
proof -
  let ?p = "ps_pipe s"
  obtain r woke q where w: "pipewrite_section (ps_killed s i) bs ?p = (r, woke, q)" by (cases "pipewrite_section (ps_killed s i) bs ?p") auto
  have ok: "pipe_ok ?p" using inv by (simp add: pipe_inv_def)
  obtain k where k: "k \<le> length bs" "queue_of q = queue_of ?p @ take k bs" "pipe_ok q" "pi_nread q = pi_nread ?p"
      "pi_readopen q = pi_readopen ?p" "pi_writeopen q = pi_writeopen ?p" "pi_nwrite q = pi_nwrite ?p + of_nat k" "k \<le> PIPESIZE"
      "case r of WDone \<Rightarrow> k = length bs \<and> woke
       | WSleep rest \<Rightarrow> rest = drop k bs \<and> k < length bs \<and> pipe_full q \<and> pi_readopen ?p \<and> \<not> ps_killed s i \<and> woke
       | WFail \<Rightarrow> pipe_full q \<and> k < length bs \<and> (\<not> pi_readopen ?p \<or> ps_killed s i) \<and> \<not> woke"
    using pipewrite_section_spec [OF ok w] by blast
  have u: "unat (pi_nwrite q - pi_nwrite ?p) = k" using k(7,8) by (simp add: unat_of_nat PIPESIZE_def)
  have wo: "pi_writeopen ?p" using inv ph unfolding pipe_inv_def by (metis at_write.simps(1))
  have full: "pipe_full q" if "pipe_full ?p"
  proof -
    have "length (queue_of q) = used ?p + k" using k(1,2) by simp
    then show ?thesis using that k(3) ok by (simp add: pipe_full_used pipe_ok_def)
  qed
  let ?ph = "(ps_phase s)(i := after_write r)"
  have t: "write_step i bs s = s\<lparr>ps_pipe := q, ps_phase := (if woke then wake_readers \<circ> ?ph else ?ph),
      ps_in := ps_in s @ take k bs\<rparr>"
    by (simp add: write_step_def w u Let_def)
  have rd: "\<not> pi_readopen ?p \<Longrightarrow> \<not> at_read (ps_phase s j)" for j using inv by (simp add: pipe_inv_def)
  have sw: "ps_phase s j = SleepW bs' \<Longrightarrow> pipe_full ?p \<and> pi_readopen ?p" for j bs' using inv unfolding pipe_inv_def by blast
  have aw: "at_read (after_write r) = False" by (cases r) auto
  have sl: "after_write r = SleepW bs' \<Longrightarrow> pipe_full q \<and> pi_readopen ?p" for bs' using k(9) by (cases r) auto
  have rs: "pi_writeopen ?p \<and> (\<exists>j. ps_killed s j)" if "?ph j = SleepR n" "\<not> woke" for j n
  proof -
    have "j \<noteq> i" using that(1) by (cases r) auto
    then have "at_read (ps_phase s j)" using that(1) by simp
    then have "pi_readopen ?p" using rd by blast
    then show ?thesis using k(9) that(2) wo by (cases r) auto
  qed
  show ?thesis
    unfolding t pipe_inv_def
  proof (intro conjI impI allI)
    show "pipe_ok (ps_pipe (s\<lparr>ps_pipe := q, ps_phase := (if woke then wake_readers \<circ> ?ph else ?ph), ps_in := ps_in s @ take k bs\<rparr>))"
      using k(3) by simp
  qed (use inv k rd sw aw sl rs wo full in \<open>auto simp: pipe_inv_def split: if_splits\<close>)
qed

lemma read_step_inv:
  assumes inv: "pipe_inv s" and ph: "ps_phase s i = Reading n"
  shows "pipe_inv (read_step i n s)"
proof -
  let ?p = "ps_pipe s"
  have ro: "pi_readopen ?p" using inv ph unfolding pipe_inv_def by (metis at_read.simps(1))
  show ?thesis
  proof (cases "pipe_empty ?p \<and> pi_writeopen ?p")
    case True
    then show ?thesis
      using inv ro unfolding read_step_def piperead_section_def pipe_inv_def by (auto split: if_splits)
  next
    case False
    obtain bs q where q: "read_loop n ?p = (bs, q)" by (cases "read_loop n ?p")
    have ok: "pipe_ok ?p" using inv by (simp add: pipe_inv_def)
    have sp: "pipe_ok q" "queue_of ?p = bs @ queue_of q" "pi_readopen q = pi_readopen ?p" "pi_writeopen q = pi_writeopen ?p"
      using read_loop_spec [OF ok, of n] unfolding q by simp_all
    have t: "read_step i n s = s\<lparr>ps_pipe := q, ps_phase := wake_writers \<circ> (ps_phase s)(i := Idle), ps_out := ps_out s @ bs\<rparr>"
      unfolding read_step_def piperead_section_def if_not_P [OF False] by (simp add: q)
    have kl: "pi_writeopen ?p \<and> (\<exists>j. ps_killed s j)" if "ps_phase s j = SleepR m" for j m
      using inv that False unfolding pipe_inv_def by blast
    show ?thesis
      using inv sp ro kl unfolding t pipe_inv_def by (auto split: if_splits)
  qed
qed

lemma pipe_step_inv:
  assumes "pipe_step s t" and "pipe_inv s"
  shows "pipe_inv t"
  using assms(1)
proof (cases rule: pipe_step.cases)
  case (start_write i bs)
  then show ?thesis using assms(2) by (auto simp: pipe_inv_def)
next
  case (start_read i n)
  then show ?thesis using assms(2) by (auto simp: pipe_inv_def)
next
  case (do_write i bs)
  then show ?thesis using write_step_inv assms(2) by simp
next
  case (do_read i n)
  then show ?thesis using read_step_inv assms(2) by simp
next
  case close_write
  then show ?thesis using assms(2)
    by (auto simp: pipe_inv_def pipeclose_def pipe_ok_def queue_of_def used_def pipe_full_def pipe_empty_def)
next
  case close_read
  then show ?thesis using assms(2)
    by (auto simp: pipe_inv_def pipeclose_def pipe_ok_def queue_of_def used_def pipe_full_def pipe_empty_def)
next
  case (kill_proc i)
  then show ?thesis using assms(2) by (auto simp: pipe_inv_def)
qed

lemma pipe_run_inv: "pipe_run s \<Longrightarrow> pipe_inv s"
proof (induction rule: pipe_run.induct)
  case (pipe_start p k)
  then show ?case by (simp add: pipe_inv_def pipe_init_def pipe_ok_def used_def queue_of_def)
next
  case (pipe_next s t)
  then show ?case using pipe_step_inv by blast
qed

section \<open>What processes at a pipe can rely on\<close>

text \<open>C10: the pipe is a queue: in every interleaving of the sections of any number of readers and
  writers, with ends closed and processes killed, and however often the 32-bit counters have wrapped
  around, the bytes taken out, followed by the bytes in the ring, are the bytes put in, in order; the
  ring never holds more than its 512 bytes.\<close>

theorem pipe_fifo:
  assumes "pipe_run s"
  shows "ps_in s = ps_out s @ queue_of (ps_pipe s) \<and> length (queue_of (ps_pipe s)) \<le> PIPESIZE"
  using pipe_run_inv [OF assms] by (simp add: pipe_inv_def pipe_ok_def)

definition empty_pipe :: pipe_buf where
  "empty_pipe = \<lparr>pi_data = \<lambda>_. 0, pi_nread = 7, pi_nwrite = 9, pi_readopen = False, pi_writeopen = False\<rparr>"

definition start_state :: pstate where
  "start_state = \<lparr>ps_pipe = pipe_init empty_pipe, ps_phase = \<lambda>_. Idle, ps_killed = \<lambda>_. False, ps_in = [], ps_out = []\<rparr>"

definition sent_state :: pstate where
  "sent_state = write_step 1 [65, 66] (start_state\<lparr>ps_phase := (ps_phase start_state)(1 := Writing [65, 66])\<rparr>)"

lemma start_run: "pipe_run start_state"
  unfolding start_state_def by (rule pipe_start)

lemma sent_run: "pipe_run sent_state"
  unfolding sent_state_def
proof (rule pipe_next [OF pipe_next [OF start_run]])
  show "pipe_step start_state (start_state\<lparr>ps_phase := (ps_phase start_state)(1 := Writing [65, 66])\<rparr>)"
    by (rule pipe_step.start_write) (simp_all add: start_state_def pipe_init_def)
qed (simp add: pipe_step.do_write)

definition got_state :: pstate where
  "got_state = read_step 2 1 (sent_state\<lparr>ps_phase := (ps_phase sent_state)(2 := Reading 1)\<rparr>)"

lemmas section_defs = write_step_def read_step_def piperead_section_def pipe_full_def pipe_empty_def put_char_def pipe_init_def PIPESIZE_def

lemma got_run: "pipe_run got_state"
  unfolding got_state_def
proof (rule pipe_next [OF pipe_next [OF sent_run]])
  show "pipe_step sent_state (sent_state\<lparr>ps_phase := (ps_phase sent_state)(2 := Reading 1)\<rparr>)"
    by (rule pipe_step.start_read) (simp_all add: sent_state_def start_state_def empty_pipe_def section_defs Let_def)
qed (simp add: pipe_step.do_read)

lemma got_state_eq: "ps_in got_state = [65, 66]" "ps_out got_state = [65]"
  by (simp_all add: got_state_def sent_state_def start_state_def empty_pipe_def section_defs Let_def)

theorem pipe_fifo_witness:
  "queue_of (ps_pipe got_state) = [66]"
  using pipe_fifo [OF got_run] by (simp add: got_state_eq)

text \<open>C11: while no process has been killed no wakeup is lost: a reader sleeps only at an empty pipe
  that a writer may still fill, a writer only at a full pipe that a reader may still drain, so
  readers and writers never sleep at the same time.\<close>

theorem pipe_no_lost_wakeup:
  assumes "pipe_run s" and "\<forall>i. \<not> ps_killed s i"
  shows "(ps_phase s i = SleepR n \<longrightarrow> pipe_empty (ps_pipe s) \<and> pi_writeopen (ps_pipe s)) \<and>
    (ps_phase s j = SleepW bs \<longrightarrow> pipe_full (ps_pipe s) \<and> pi_readopen (ps_pipe s)) \<and>
    \<not> (ps_phase s i = SleepR n \<and> ps_phase s j = SleepW bs)"
proof -
  have inv: "pipe_inv s" by (rule pipe_run_inv [OF assms(1)])
  have r: "ps_phase s i = SleepR n \<Longrightarrow> pipe_empty (ps_pipe s) \<and> pi_writeopen (ps_pipe s)"
    using inv assms(2) unfolding pipe_inv_def by blast
  have w: "ps_phase s j = SleepW bs \<Longrightarrow> pipe_full (ps_pipe s) \<and> pi_readopen (ps_pipe s)"
    using inv unfolding pipe_inv_def by blast
  have "\<not> (pipe_empty (ps_pipe s) \<and> pipe_full (ps_pipe s))"
    by (simp add: pipe_empty_def pipe_full_def PIPESIZE_def)
  with r w show ?thesis by blast
qed

definition waiting_state :: pstate where
  "waiting_state = read_step 0 1 (start_state\<lparr>ps_phase := (ps_phase start_state)(0 := Reading 1)\<rparr>)"

lemma waiting_run: "pipe_run waiting_state"
  unfolding waiting_state_def
proof (rule pipe_next [OF pipe_next [OF start_run]])
  show "pipe_step start_state (start_state\<lparr>ps_phase := (ps_phase start_state)(0 := Reading 1)\<rparr>)"
    by (rule pipe_step.start_read) (simp_all add: start_state_def pipe_init_def)
qed (simp add: pipe_step.do_read)

lemma waiting_state_eq: "waiting_state = start_state\<lparr>ps_phase := (\<lambda>_. Idle)(0 := SleepR 1)\<rparr>"
  by (simp add: waiting_state_def start_state_def section_defs)

theorem pipe_no_lost_wakeup_witness:
  "ps_phase waiting_state 0 = SleepR 1 \<and> pipe_empty (ps_pipe waiting_state) \<and> pi_writeopen (ps_pipe waiting_state)"
  using pipe_no_lost_wakeup [OF waiting_run, of 0 1 0 "[]"]
  by (simp add: waiting_state_eq start_state_def)

text \<open>C12: a killed writer loses a wakeup: it fills the pipe, finds it full and returns -1 without
  waking the readers, so a reader that has not been killed sleeps on while the pipe is full and
  still open, and nobody else is at the pipe.\<close>

theorem killed_writer_loses_wakeup:
  "\<exists>s. pipe_run s \<and> ps_phase s = (\<lambda>_. Idle)(0 := SleepR 1) \<and> \<not> ps_killed s 0 \<and> pipe_full (ps_pipe s) \<and>
     pi_writeopen (ps_pipe s)"
proof -
  let ?bs = "replicate 513 (65 :: uchar)"
  define s1 where "s1 = waiting_state\<lparr>ps_phase := (ps_phase waiting_state)(1 := Writing ?bs)\<rparr>"
  define s2 where "s2 = s1\<lparr>ps_killed := (ps_killed s1)(1 := True), ps_phase := (ps_phase s1)(1 := wake_writers (wake_readers (ps_phase s1 1)))\<rparr>"
  have s1: "pipe_run s1" unfolding s1_def
    by (rule pipe_next [OF waiting_run], rule pipe_step.start_write)
      (simp_all add: waiting_state_eq start_state_def pipe_init_def)
  then have s2: "pipe_run s2" unfolding s2_def by (rule pipe_next) (rule pipe_step.kill_proc)
  have ph: "ps_phase s2 = (\<lambda>_. Idle)(0 := SleepR 1, 1 := Writing ?bs)" and kl: "ps_killed s2 = (\<lambda>_. False)(1 := True)"
    by (simp_all add: s2_def s1_def waiting_state_eq start_state_def)
  have op: "pipe_ok (ps_pipe s2)" "pi_writeopen (ps_pipe s2)"
    by (simp_all add: s2_def s1_def waiting_state_eq start_state_def pipe_init_def pipe_ok_def used_def)
  obtain r woke q where w: "pipewrite_section True ?bs (ps_pipe s2) = (r, woke, q)"
    by (cases "pipewrite_section True ?bs (ps_pipe s2)") auto
  obtain k where k: "k \<le> PIPESIZE" "pi_writeopen q = pi_writeopen (ps_pipe s2)"
      "case r of WDone \<Rightarrow> k = length ?bs \<and> woke
       | WSleep rest \<Rightarrow> rest = drop k ?bs \<and> k < length ?bs \<and> pipe_full q \<and> pi_readopen (ps_pipe s2) \<and> \<not> True \<and> woke
       | WFail \<Rightarrow> pipe_full q \<and> k < length ?bs \<and> (\<not> pi_readopen (ps_pipe s2) \<or> True) \<and> \<not> woke"
    using pipewrite_section_spec [OF op(1) w] by blast
  have r: "r = WFail" "pipe_full q" "\<not> woke" using k(1,3) by (cases r; simp add: PIPESIZE_def)+
  let ?t = "write_step 1 ?bs s2"
  have "pipe_run ?t" by (rule pipe_next [OF s2], rule pipe_step.do_write) (simp add: ph)
  moreover have "ps_phase ?t = (\<lambda>_. Idle)(0 := SleepR 1)" "ps_killed ?t 0 = False" "ps_pipe ?t = q"
    using r w by (auto simp: write_step_def ph kl Let_def)
  ultimately show ?thesis using r(2) k(2) op(2) by metis
qed

end
