(* ===== verification/Fs.thy ===== *)
theory Fs
  imports LogCrash Strings
begin

text \<open>
  fs.c: the block allocator, the inode cache, the contents of inodes, directories and path names,
  as routines over the buffer cache and the log. A pointer to an inode is its index in the cache; a
  pointer that may be null is an option. A name is the characters of its buffer; a path is its
  characters up to the NUL.
\<close>

section \<open>The on-disk format\<close>

definition ROOTINO :: uint where "ROOTINO = 1"
definition ROOTDEV :: uint where "ROOTDEV = 1"
definition NDIRECT :: nat where "NDIRECT = 12"
definition NINDIRECT :: nat where "NINDIRECT = BSIZE div 4"
definition MAXFILE :: nat where "MAXFILE = NDIRECT + NINDIRECT"
definition IPB :: nat where "IPB = BSIZE div 64"
definition BPB :: nat where "BPB = BSIZE * 8"
definition DIRSIZ :: nat where "DIRSIZ = 14"
definition NINODE :: nat where "NINODE = 50"
definition NDEV :: int where "NDEV = 10"

definition T_DIR :: ushort where "T_DIR = 1"
definition T_FILE :: ushort where "T_FILE = 2"
definition T_DEV :: ushort where "T_DEV = 3"

definition IBLOCK :: "uint \<Rightarrow> superblock \<Rightarrow> uint" where
  "IBLOCK i sb = i div of_nat IPB + sb_inodestart sb"

definition BBLOCK :: "uint \<Rightarrow> superblock \<Rightarrow> uint" where
  "BBLOCK b sb = b div of_nat BPB + sb_bmapstart sb"

text \<open>Arrays of words inside a block.\<close>

definition get_words :: "nat \<Rightarrow> nat \<Rightarrow> block \<Rightarrow> uint list" where
  "get_words off n v = map (\<lambda>k. get32 (off + 4 * k) v) [0..<n]"

fun put_words :: "nat \<Rightarrow> uint list \<Rightarrow> block \<Rightarrow> block" where
  "put_words off [] v = v"
| "put_words off (a # as) v = put_words (off + 4) as (put32 off a v)"

record dinode =
  di_type :: ushort
  di_major :: ushort
  di_minor :: ushort
  di_nlink :: ushort
  di_size :: uint
  di_addrs :: "uint list"

text \<open>The fields of the dinode at an offset of a block.\<close>

definition get_dinode :: "nat \<Rightarrow> block \<Rightarrow> dinode" where
  "get_dinode off v = \<lparr>di_type = get16 off v, di_major = get16 (off + 2) v, di_minor = get16 (off + 4) v,
     di_nlink = get16 (off + 6) v, di_size = get32 (off + 8) v, di_addrs = get_words (off + 12) (NDIRECT + 1) v\<rparr>"

definition put_dinode :: "nat \<Rightarrow> dinode \<Rightarrow> block \<Rightarrow> block" where
  "put_dinode off d v =
     put_words (off + 12) (di_addrs d) (put32 (off + 8) (di_size d) (put16 (off + 6) (di_nlink d)
       (put16 (off + 4) (di_minor d) (put16 (off + 2) (di_major d) (put16 off (di_type d) v)))))"

definition dinode_off :: "uint \<Rightarrow> nat" where
  "dinode_off inum = 64 * (unat inum mod IPB)"

section \<open>State\<close>

record inode =
  i_dev :: uint
  i_inum :: uint
  i_ref :: int
  i_lock :: sleeplock
  i_valid :: bool
  i_type :: ushort
  i_major :: ushort
  i_minor :: ushort
  i_nlink :: ushort
  i_size :: uint
  i_addrs :: "uint list"

text \<open>\<open>fs_cwd\<close> is the current directory of the running process.\<close>

record fs_st = log_st +
  fs_sb :: superblock
  fs_inode :: "nat \<Rightarrow> inode"
  fs_cwd :: nat

type_synonym 'z fs_driver = "(('z fs_st_ext) log_st_ext) driver"
type_synonym ('z, 'a) fs_routine = "('z fs_st_scheme, 'a) routine"

definition iupd :: "nat \<Rightarrow> (inode \<Rightarrow> inode) \<Rightarrow> 'z fs_st_scheme \<Rightarrow> 'z fs_st_scheme" where
  "iupd ip f s = s\<lparr>fs_inode := (fs_inode s)(ip := f (fs_inode s ip))\<rparr>"

text \<open>The entries of devsw: the driver's routines, which get the inode, the data or room, and a count.\<close>

record 'z devsw =
  dv_read :: "(nat \<Rightarrow> int \<Rightarrow> ('z, int \<times> uchar list) fs_routine) option"
  dv_write :: "(nat \<Rightarrow> uchar list \<Rightarrow> int \<Rightarrow> ('z, int) fs_routine) option"

section \<open>Blocks\<close>

definition set_data :: "nat \<Rightarrow> (block \<Rightarrow> block) \<Rightarrow> ('z dsk_scheme, unit) routine" where
  "set_data b f = kmod (bupd b (\<lambda>p. p\<lparr>b_data := f (b_data p)\<rparr>))"

definition bzero :: "'z fs_driver \<Rightarrow> uint \<Rightarrow> uint \<Rightarrow> ('z, unit) fs_routine" where
  "bzero rw dev bno =
     kbind (bread rw dev bno) (\<lambda>b.
     kthen (set_data b (\<lambda>_. replicate BSIZE 0))
     (kthen (log_write b)
     (brelse b)))"

definition bit_mask :: "nat \<Rightarrow> uchar" where
  "bit_mask bi = push_bit (bi mod 8) 1"

definition bit_free :: "block \<Rightarrow> nat \<Rightarrow> bool" where
  "bit_free v bi \<longleftrightarrow> and (v ! (bi div 8)) (bit_mask bi) = 0"

definition mark_used :: "nat \<Rightarrow> block \<Rightarrow> block" where
  "mark_used bi v = v[bi div 8 := or (v ! (bi div 8)) (bit_mask bi)]"

definition mark_free :: "nat \<Rightarrow> block \<Rightarrow> block" where
  "mark_free bi v = v[bi div 8 := and (v ! (bi div 8)) (not (bit_mask bi))]"

text \<open>The rounds of balloc, one for each block of the bitmap; the inner loop stops at the first free bit.\<close>

fun balloc_loop :: "'z fs_driver \<Rightarrow> uint \<Rightarrow> nat list \<Rightarrow> ('z, uint) fs_routine" where
  "balloc_loop rw dev [] = kpanic ''balloc: out of blocks''"
| "balloc_loop rw dev (b # bs) =
     kbind (\<lambda>s. bread rw dev (BBLOCK (of_nat b) (fs_sb s)) s) (\<lambda>bp s.
       case find (bit_free (b_data (d_buf s bp))) [0..<min BPB (unat (sb_size (fs_sb s)) - b)] of
         Some bi \<Rightarrow>
           kthen (set_data bp (mark_used bi))
           (kthen (log_write bp)
           (kthen (brelse bp)
           (kthen (bzero rw dev (of_nat (b + bi)))
           (kret (of_nat (b + bi)))))) s
       | None \<Rightarrow> kthen (brelse bp) (balloc_loop rw dev bs) s)"

definition balloc :: "'z fs_driver \<Rightarrow> uint \<Rightarrow> ('z, uint) fs_routine" where
  "balloc rw dev s =
     balloc_loop rw dev (map (\<lambda>k. k * BPB) [0..<(unat (sb_size (fs_sb s)) + BPB - 1) div BPB]) s"

definition bfree :: "'z fs_driver \<Rightarrow> uint \<Rightarrow> uint \<Rightarrow> ('z, unit) fs_routine" where
  "bfree rw dev b =
     kbind (\<lambda>s. bread rw dev (BBLOCK b (fs_sb s)) s) (\<lambda>bp s.
       let bi = unat b mod BPB in
       if bit_free (b_data (d_buf s bp)) bi then Panic ''freeing free block''
       else kthen (set_data bp (mark_free bi))
            (kthen (log_write bp)
            (brelse bp)) s)"

section \<open>Inodes\<close>

definition iinit :: "'z fs_driver \<Rightarrow> uint \<Rightarrow> ('z, unit) fs_routine" where
  "iinit rw dev =
     kthen (for_each (\<lambda>i. kmod (iupd i (\<lambda>p. p\<lparr>i_lock := initsleeplock ''inode'' (i_lock p)\<rparr>))) [0..<NINODE])
     (kbind (readsb rw dev) (\<lambda>sb. kmod (\<lambda>s. s\<lparr>fs_sb := sb\<rparr>)))"

text \<open>The search of iget: the entry of the inode, or else the first free entry.\<close>

fun iget_scan :: "(nat \<Rightarrow> inode) \<Rightarrow> uint \<Rightarrow> uint \<Rightarrow> nat list \<Rightarrow> nat option \<Rightarrow> (bool \<times> nat) option" where
  "iget_scan ic dev inum [] e = map_option (Pair False) e"
| "iget_scan ic dev inum (i # is) e =
     (if i_ref (ic i) > 0 \<and> i_dev (ic i) = dev \<and> i_inum (ic i) = inum then Some (True, i)
      else iget_scan ic dev inum is (if e = None \<and> i_ref (ic i) = 0 then Some i else e))"

definition iget :: "uint \<Rightarrow> uint \<Rightarrow> ('z, nat) fs_routine" where
  "iget dev inum s =
     (case iget_scan (fs_inode s) dev inum [0..<NINODE] None of
        Some (True, ip) \<Rightarrow> Ok ip (iupd ip (\<lambda>p. p\<lparr>i_ref := i_ref p + 1\<rparr>) s)
      | Some (False, ip) \<Rightarrow> Ok ip (iupd ip (\<lambda>p. p\<lparr>i_dev := dev, i_inum := inum, i_ref := 1, i_valid := False\<rparr>) s)
      | None \<Rightarrow> Panic ''iget: no inodes'')"

definition idup :: "nat \<Rightarrow> ('z, nat) fs_routine" where
  "idup ip = kthen (kmod (iupd ip (\<lambda>p. p\<lparr>i_ref := i_ref p + 1\<rparr>))) (kret ip)"

fun ialloc_loop :: "'z fs_driver \<Rightarrow> uint \<Rightarrow> ushort \<Rightarrow> nat list \<Rightarrow> ('z, nat) fs_routine" where
  "ialloc_loop rw dev ty [] = kpanic ''ialloc: no inodes''"
| "ialloc_loop rw dev ty (i # is) =
     kbind (\<lambda>s. bread rw dev (IBLOCK (of_nat i) (fs_sb s)) s) (\<lambda>bp s.
       let off = dinode_off (of_nat i) in
       if get16 off (b_data (d_buf s bp)) = 0 then
         kthen (set_data bp (\<lambda>v. put16 off ty (overwrite off (replicate 64 0) v)))
         (kthen (log_write bp)
         (kthen (brelse bp)
         (iget dev (of_nat i)))) s
       else kthen (brelse bp) (ialloc_loop rw dev ty is) s)"

definition ialloc :: "'z fs_driver \<Rightarrow> uint \<Rightarrow> ushort \<Rightarrow> ('z, nat) fs_routine" where
  "ialloc rw dev ty s = ialloc_loop rw dev ty [1..<unat (sb_ninodes (fs_sb s))] s"

definition dinode_of :: "inode \<Rightarrow> dinode" where
  "dinode_of p = \<lparr>di_type = i_type p, di_major = i_major p, di_minor = i_minor p, di_nlink = i_nlink p,
     di_size = i_size p, di_addrs = i_addrs p\<rparr>"

definition iupdate :: "'z fs_driver \<Rightarrow> nat \<Rightarrow> ('z, unit) fs_routine" where
  "iupdate rw ip =
     kbind (\<lambda>s. bread rw (i_dev (fs_inode s ip)) (IBLOCK (i_inum (fs_inode s ip)) (fs_sb s)) s) (\<lambda>bp.
     kthen (\<lambda>s. set_data bp (put_dinode (dinode_off (i_inum (fs_inode s ip))) (dinode_of (fs_inode s ip))) s)
     (kthen (log_write bp)
     (brelse bp)))"

definition lock_inode :: "nat \<Rightarrow> ('z, unit) fs_routine" where
  "lock_inode ip s =
     (case acquiresleep (d_pid s) (i_lock (fs_inode s ip)) of
        Ok _ l \<Rightarrow> Ok () (iupd ip (\<lambda>p. p\<lparr>i_lock := l\<rparr>) s) | _ \<Rightarrow> Hang)"

definition load_inode :: "dinode \<Rightarrow> inode \<Rightarrow> inode" where
  "load_inode d p = p\<lparr>i_type := di_type d, i_major := di_major d, i_minor := di_minor d,
     i_nlink := di_nlink d, i_size := di_size d, i_addrs := di_addrs d\<rparr>"

definition ilock :: "'z fs_driver \<Rightarrow> nat option \<Rightarrow> ('z, unit) fs_routine" where
  "ilock rw ipp s =
     (case ipp of
        None \<Rightarrow> Panic ''ilock''
      | Some ip \<Rightarrow>
          if i_ref (fs_inode s ip) < 1 then Panic ''ilock''
          else kthen (lock_inode ip) (\<lambda>s.
            if i_valid (fs_inode s ip) then Ok () s
            else kbind (bread rw (i_dev (fs_inode s ip)) (IBLOCK (i_inum (fs_inode s ip)) (fs_sb s))) (\<lambda>bp.
                 kthen (\<lambda>s. kmod (iupd ip (load_inode (get_dinode (dinode_off (i_inum (fs_inode s ip))) (b_data (d_buf s bp))))) s)
                 (kthen (brelse bp)
                 (kthen (kmod (iupd ip (\<lambda>p. p\<lparr>i_valid := True\<rparr>)))
                 (\<lambda>s. if i_type (fs_inode s ip) = 0 then Panic ''ilock: no type'' else Ok () s)))) s) s)"

definition unlock_inode :: "nat \<Rightarrow> ('z, unit) fs_routine" where
  "unlock_inode ip = kmod (iupd ip (\<lambda>p. p\<lparr>i_lock := releasesleep (i_lock p)\<rparr>))"

definition iunlock :: "nat option \<Rightarrow> ('z, unit) fs_routine" where
  "iunlock ipp s =
     (case ipp of
        None \<Rightarrow> Panic ''iunlock''
      | Some ip \<Rightarrow>
          if \<not> holdingsleep (d_pid s) (i_lock (fs_inode s ip)) \<or> i_ref (fs_inode s ip) < 1 then Panic ''iunlock''
          else unlock_inode ip s)"

section \<open>Inode content\<close>

definition set_addr :: "nat \<Rightarrow> nat \<Rightarrow> uint \<Rightarrow> ('z, unit) fs_routine" where
  "set_addr ip i a = kmod (iupd ip (\<lambda>p. p\<lparr>i_addrs := (i_addrs p)[i := a]\<rparr>))"

text \<open>An address of the inode, allocated if it is not there.\<close>

definition addr_or_alloc :: "'z fs_driver \<Rightarrow> nat \<Rightarrow> nat \<Rightarrow> ('z, uint) fs_routine" where
  "addr_or_alloc rw ip i s =
     (let addr = i_addrs (fs_inode s ip) ! i in
      if addr = 0 then kbind (balloc rw (i_dev (fs_inode s ip))) (\<lambda>a. kthen (set_addr ip i a) (kret a)) s
      else Ok addr s)"

definition bmap :: "'z fs_driver \<Rightarrow> nat \<Rightarrow> uint \<Rightarrow> ('z, uint) fs_routine" where
  "bmap rw ip bn =
     (if bn < of_nat NDIRECT then addr_or_alloc rw ip (unat bn)
      else let bn = bn - of_nat NDIRECT in
        if bn < of_nat NINDIRECT then
          kbind (addr_or_alloc rw ip NDIRECT) (\<lambda>addr.
          kbind (\<lambda>s. bread rw (i_dev (fs_inode s ip)) addr s) (\<lambda>bp.
          kbind (\<lambda>s. let addr = get32 (4 * unat bn) (b_data (d_buf s bp)) in
              if addr = 0 then
                kbind (balloc rw (i_dev (fs_inode s ip))) (\<lambda>a.
                kthen (set_data bp (put32 (4 * unat bn) a))
                (kthen (log_write bp)
                (kret a))) s
              else Ok addr s) (\<lambda>addr.
          kthen (brelse bp)
          (kret addr))))
        else kpanic ''bmap: out of range'')"

definition itrunc :: "'z fs_driver \<Rightarrow> nat \<Rightarrow> ('z, unit) fs_routine" where
  "itrunc rw ip =
     kthen (for_each (\<lambda>i s. if i_addrs (fs_inode s ip) ! i \<noteq> 0
         then kthen (bfree rw (i_dev (fs_inode s ip)) (i_addrs (fs_inode s ip) ! i)) (set_addr ip i 0) s
         else Ok () s) [0..<NDIRECT])
     (kthen (\<lambda>s. if i_addrs (fs_inode s ip) ! NDIRECT \<noteq> 0 then
          kbind (bread rw (i_dev (fs_inode s ip)) (i_addrs (fs_inode s ip) ! NDIRECT)) (\<lambda>bp.
          kthen (for_each (\<lambda>j s. if get32 (4 * j) (b_data (d_buf s bp)) \<noteq> 0
              then bfree rw (i_dev (fs_inode s ip)) (get32 (4 * j) (b_data (d_buf s bp))) s
              else Ok () s) [0..<NINDIRECT])
          (kthen (brelse bp)
          (kthen (\<lambda>s. bfree rw (i_dev (fs_inode s ip)) (i_addrs (fs_inode s ip) ! NDIRECT) s)
          (set_addr ip NDIRECT 0)))) s
        else Ok () s)
     (kthen (kmod (iupd ip (\<lambda>p. p\<lparr>i_size := 0\<rparr>)))
     (iupdate rw ip)))"

text \<open>The last critical section of iput under the lock of the inode cache.\<close>

definition drop_ref :: "nat \<Rightarrow> ('z, unit) fs_routine" where
  "drop_ref ip = kmod (iupd ip (\<lambda>p. p\<lparr>i_ref := i_ref p - 1\<rparr>))"

definition iput :: "'z fs_driver \<Rightarrow> nat \<Rightarrow> ('z, unit) fs_routine" where
  "iput rw ip =
     kthen (lock_inode ip)
     (kthen (\<lambda>s. if i_valid (fs_inode s ip) \<and> i_nlink (fs_inode s ip) = 0 \<and> i_ref (fs_inode s ip) = 1 then
          kthen (itrunc rw ip)
          (kthen (kmod (iupd ip (\<lambda>p. p\<lparr>i_type := 0\<rparr>)))
          (kthen (iupdate rw ip)
          (kmod (iupd ip (\<lambda>p. p\<lparr>i_valid := False\<rparr>))))) s
        else Ok () s)
     (kthen (unlock_inode ip)
     (drop_ref ip)))"

definition iunlockput :: "'z fs_driver \<Rightarrow> nat \<Rightarrow> ('z, unit) fs_routine" where
  "iunlockput rw ip = kthen (iunlock (Some ip)) (iput rw ip)"

record stat =
  st_type :: ushort
  st_dev :: uint
  st_ino :: uint
  st_nlink :: ushort
  st_size :: uint

definition stati :: "inode \<Rightarrow> stat" where
  "stati p = \<lparr>st_type = i_type p, st_dev = i_dev p, st_ino = i_inum p, st_nlink = i_nlink p, st_size = i_size p\<rparr>"

text \<open>
  The loops of readi and writei; \<open>rem\<close> is \<open>n - tot\<close>. readi returns its result and the bytes it
  copied.
\<close>

definition chunk :: "uint \<Rightarrow> uint \<Rightarrow> uint" where
  "chunk off rem = min rem (of_nat BSIZE - off mod of_nat BSIZE)"

lemma chunk_bounds: "rem \<noteq> 0 \<Longrightarrow> 0 < unat (chunk off rem) \<and> unat (chunk off rem) \<le> unat rem \<and>
    unat (off mod of_nat BSIZE) + unat (chunk off rem) \<le> BSIZE"
proof -
  assume r: "rem \<noteq> 0"
  have m: "unat (off mod of_nat BSIZE :: uint) < BSIZE" by (simp add: unat_mod BSIZE_def)
  then have "unat (of_nat BSIZE - off mod of_nat BSIZE :: uint) = BSIZE - unat (off mod of_nat BSIZE :: uint)"
    by (subst unat_sub) (simp_all add: word_le_nat_alt BSIZE_def)
  moreover have "unat rem \<noteq> 0" using r by (simp add: unat_eq_0)
  ultimately show ?thesis
    using m by (auto simp: chunk_def min_def word_le_nat_alt)
qed

lemma chunk_less: "rem \<noteq> 0 \<Longrightarrow> unat (rem - chunk off rem) < unat rem"
  using chunk_bounds [of rem off] by (simp add: unat_sub word_le_nat_alt)

function readi_loop :: "'z fs_driver \<Rightarrow> nat \<Rightarrow> uint \<Rightarrow> uint \<Rightarrow> ('z, uchar list) fs_routine" where
  "readi_loop rw ip off rem =
     (if rem = 0 then kret []
      else let m = chunk off rem in
        kbind (bmap rw ip (off div of_nat BSIZE)) (\<lambda>a.
        kbind (\<lambda>s. bread rw (i_dev (fs_inode s ip)) a s) (\<lambda>bp s.
          let v = take (unat m) (drop (unat (off mod of_nat BSIZE)) (b_data (d_buf s bp))) in
          kthen (brelse bp)
          (kbind (readi_loop rw ip (off + m) (rem - m)) (\<lambda>vs. kret (v @ vs))) s)))"
  by pat_completeness auto

termination
  by (relation "measure (\<lambda>(rw, ip, off, rem). unat rem)") (simp_all add: chunk_less)

definition readi :: "'z fs_driver \<Rightarrow> (int \<Rightarrow> 'z devsw) \<Rightarrow> nat \<Rightarrow> uint \<Rightarrow> uint \<Rightarrow> ('z, int \<times> uchar list) fs_routine" where
  "readi rw devs ip off n s =
     (let p = fs_inode s ip; major = sint (i_major p) in
      if i_type p = T_DEV then
        if major < 0 \<or> major \<ge> NDEV then Ok (-1, []) s
        else (case dv_read (devs major) of None \<Rightarrow> Ok (-1, []) s | Some f \<Rightarrow> f ip (sint n) s)
      else if off > i_size p \<or> off + n < off then Ok (-1, []) s
      else let n = (if off + n > i_size p then i_size p - off else n) in
        kbind (readi_loop rw ip off n) (\<lambda>bs. kret (sint n, bs)) s)"

function writei_loop :: "'z fs_driver \<Rightarrow> nat \<Rightarrow> uchar list \<Rightarrow> uint \<Rightarrow> uint \<Rightarrow> ('z, uint) fs_routine" where
  "writei_loop rw ip src off rem =
     (if rem = 0 then kret off
      else let m = chunk off rem in
        kbind (bmap rw ip (off div of_nat BSIZE)) (\<lambda>a.
        kbind (\<lambda>s. bread rw (i_dev (fs_inode s ip)) a s) (\<lambda>bp.
        kthen (set_data bp (overwrite (unat (off mod of_nat BSIZE)) (take (unat m) src)))
        (kthen (log_write bp)
        (kthen (brelse bp)
        (writei_loop rw ip (drop (unat m) src) (off + m) (rem - m)))))))"
  by pat_completeness auto

termination
  by (relation "measure (\<lambda>(rw, ip, src, off, rem). unat rem)") (simp_all add: chunk_less)

declare readi_loop.simps [simp del] writei_loop.simps [simp del]

definition writei :: "'z fs_driver \<Rightarrow> (int \<Rightarrow> 'z devsw) \<Rightarrow> nat \<Rightarrow> uchar list \<Rightarrow> uint \<Rightarrow> uint \<Rightarrow> ('z, int) fs_routine" where
  "writei rw devs ip src off n s =
     (let p = fs_inode s ip; major = sint (i_major p) in
      if i_type p = T_DEV then
        if major < 0 \<or> major \<ge> NDEV then Ok (-1) s
        else (case dv_write (devs major) of None \<Rightarrow> Ok (-1) s | Some f \<Rightarrow> f ip src (sint n) s)
      else if off > i_size p \<or> off + n < off then Ok (-1) s
      else if off + n > of_nat (MAXFILE * BSIZE) then Ok (-1) s
      else kbind (writei_loop rw ip src off n) (\<lambda>off.
           kthen (\<lambda>s. if n > 0 \<and> off > i_size (fs_inode s ip)
               then kthen (kmod (iupd ip (\<lambda>p. p\<lparr>i_size := off\<rparr>))) (iupdate rw ip) s
               else Ok () s)
           (kret (sint n))) s)"

section \<open>Directories\<close>

definition namecmp :: "string \<Rightarrow> string \<Rightarrow> int option" where
  "namecmp s t = strncmp s t DIRSIZ"

text \<open>A struct dirent as it is stored: the inode number and fourteen characters.\<close>

record dirent =
  de_inum :: ushort
  de_name :: string

definition DESIZE :: nat where "DESIZE = 16"

definition get_dirent :: "uchar list \<Rightarrow> dirent" where
  "get_dirent v = \<lparr>de_inum = get16 0 v, de_name = map (\<lambda>b. char_of (unat b)) (take DIRSIZ (drop 2 v))\<rparr>"

definition put_dirent :: "dirent \<Rightarrow> uchar list" where
  "put_dirent de = le_bytes 2 (unat (de_inum de)) @ map of_char (de_name de)"

definition read_dirent :: "'z fs_driver \<Rightarrow> (int \<Rightarrow> 'z devsw) \<Rightarrow> string \<Rightarrow> nat \<Rightarrow> uint \<Rightarrow> ('z, dirent) fs_routine" where
  "read_dirent rw devs msg dp off =
     kbind (readi rw devs dp off (of_nat DESIZE)) (\<lambda>(r, v).
       if r \<noteq> int DESIZE then kpanic msg else kret (get_dirent v))"

text \<open>The offsets the loops over a directory of \<open>sz\<close> bytes visit.\<close>

definition dir_offs :: "uint \<Rightarrow> uint list" where
  "dir_offs sz = map (\<lambda>k. of_nat (k * DESIZE)) [0..<(unat sz + DESIZE - 1) div DESIZE]"

fun dirlookup_loop :: "'z fs_driver \<Rightarrow> (int \<Rightarrow> 'z devsw) \<Rightarrow> nat \<Rightarrow> string \<Rightarrow> uint list \<Rightarrow> ('z, (nat \<times> uint) option) fs_routine" where
  "dirlookup_loop rw devs dp name [] = kret None"
| "dirlookup_loop rw devs dp name (off # offs) =
     kbind (read_dirent rw devs ''dirlookup read'' dp off) (\<lambda>de s.
       if de_inum de = 0 then dirlookup_loop rw devs dp name offs s
       else case namecmp name (de_name de) of
         None \<Rightarrow> Fault
       | Some c \<Rightarrow>
           if c = 0 then kbind (iget (i_dev (fs_inode s dp)) (ucast (de_inum de))) (\<lambda>ip. kret (Some (ip, off))) s
           else dirlookup_loop rw devs dp name offs s)"

definition dirlookup :: "'z fs_driver \<Rightarrow> (int \<Rightarrow> 'z devsw) \<Rightarrow> nat \<Rightarrow> string \<Rightarrow> ('z, (nat \<times> uint) option) fs_routine" where
  "dirlookup rw devs dp name s =
     (if i_type (fs_inode s dp) \<noteq> T_DIR then Panic ''dirlookup not DIR''
      else dirlookup_loop rw devs dp name (dir_offs (i_size (fs_inode s dp))) s)"

text \<open>The offset of the first empty entry; the end of the directory when there is none.\<close>

fun empty_dirent :: "'z fs_driver \<Rightarrow> (int \<Rightarrow> 'z devsw) \<Rightarrow> nat \<Rightarrow> uint \<Rightarrow> uint list \<Rightarrow> ('z, uint) fs_routine" where
  "empty_dirent rw devs dp end_off [] = kret end_off"
| "empty_dirent rw devs dp end_off (off # offs) =
     kbind (read_dirent rw devs ''dirlink read'' dp off) (\<lambda>de.
       if de_inum de = 0 then kret off else empty_dirent rw devs dp end_off offs)"

definition dirlink :: "'z fs_driver \<Rightarrow> (int \<Rightarrow> 'z devsw) \<Rightarrow> nat \<Rightarrow> string \<Rightarrow> uint \<Rightarrow> ('z, int) fs_routine" where
  "dirlink rw devs dp name inum =
     kbind (dirlookup rw devs dp name) (\<lambda>found.
       case found of
         Some (ip, off) \<Rightarrow> kthen (iput rw ip) (kret (-1))
       | None \<Rightarrow>
           kbind (\<lambda>s. let offs = dir_offs (i_size (fs_inode s dp))
               in empty_dirent rw devs dp (of_nat (length offs * DESIZE)) offs s) (\<lambda>off s.
             case strncpy (replicate DIRSIZ NUL) name DIRSIZ of
               None \<Rightarrow> Fault
             | Some nm \<Rightarrow>
                 kbind (writei rw devs dp (put_dirent \<lparr>de_inum = ucast inum, de_name = nm\<rparr>) off (of_nat DESIZE)) (\<lambda>r.
                   if r \<noteq> int DESIZE then kpanic ''dirlink'' else kret 0) s))"

section \<open>Paths\<close>

definition skipelem :: "string \<Rightarrow> string \<Rightarrow> (string \<times> string) option" where
  "skipelem path name =
     (let s = dropWhile (\<lambda>c. c = CHR ''/'') path in
      if s = [] then None
      else let elem = takeWhile (\<lambda>c. c \<noteq> CHR ''/'') s; rest = dropWhile (\<lambda>c. c \<noteq> CHR ''/'') s;
               name' = (if length elem \<ge> DIRSIZ then overwrite 0 (take DIRSIZ elem) name
                        else overwrite 0 (elem @ [NUL]) name)
        in Some (dropWhile (\<lambda>c. c = CHR ''/'') rest, name'))"

lemma length_dropWhile_less: "xs \<noteq> [] \<Longrightarrow> P (hd xs) \<Longrightarrow> length (dropWhile P xs) < length xs"
  by (cases xs) (auto simp: less_Suc_eq_le length_dropWhile_le)

lemma skipelem_shorter: "skipelem path name = Some (path', name') \<Longrightarrow> length path' < length path"
proof -
  let ?sl = "\<lambda>c. c = CHR ''/''" and ?ns = "\<lambda>c. c \<noteq> CHR ''/''"
  assume "skipelem path name = Some (path', name')"
  then have s: "dropWhile ?sl path \<noteq> []" and p: "path' = dropWhile ?sl (dropWhile ?ns (dropWhile ?sl path))"
    by (auto simp: skipelem_def Let_def split: if_splits)
  have "length path' \<le> length (dropWhile ?ns (dropWhile ?sl path))" unfolding p by (rule length_dropWhile_le)
  also have "\<dots> < length (dropWhile ?sl path)"
    by (rule length_dropWhile_less [OF s]) (use hd_dropWhile [OF s] in simp)
  also have "\<dots> \<le> length path" by (rule length_dropWhile_le)
  finally show ?thesis .
qed

text \<open>The loop of namex; it returns the inode and the name buffer.\<close>

function namex_loop :: "'z fs_driver \<Rightarrow> (int \<Rightarrow> 'z devsw) \<Rightarrow> bool \<Rightarrow> string \<Rightarrow> string \<Rightarrow> nat \<Rightarrow> ('z, nat option \<times> string) fs_routine" where
  "namex_loop rw devs parent path name ip =
     (case skipelem path name of
        None \<Rightarrow> if parent then kthen (iput rw ip) (kret (None, name)) else kret (Some ip, name)
      | Some (path', name') \<Rightarrow>
          kthen (ilock rw (Some ip)) (\<lambda>s.
            if i_type (fs_inode s ip) \<noteq> T_DIR then kthen (iunlockput rw ip) (kret (None, name')) s
            else if parent \<and> path' = [] then kthen (iunlock (Some ip)) (kret (Some ip, name')) s
            else kbind (dirlookup rw devs ip name') (\<lambda>found.
              case found of
                None \<Rightarrow> kthen (iunlockput rw ip) (kret (None, name'))
              | Some (nxt, off) \<Rightarrow>
                  kthen (iunlockput rw ip) (namex_loop rw devs parent path' name' nxt)) s))"
  by pat_completeness auto

termination
  by (relation "measure (\<lambda>(rw, devs, parent, path, name, ip). length path)") (auto dest: skipelem_shorter)

declare namex_loop.simps [simp del]

definition namex :: "'z fs_driver \<Rightarrow> (int \<Rightarrow> 'z devsw) \<Rightarrow> string \<Rightarrow> bool \<Rightarrow> string \<Rightarrow> ('z, nat option \<times> string) fs_routine" where
  "namex rw devs path parent name =
     kbind (if path \<noteq> [] \<and> hd path = CHR ''/'' then iget ROOTDEV ROOTINO else (\<lambda>s. idup (fs_cwd s) s)) (\<lambda>ip.
     namex_loop rw devs parent path name ip)"

definition namei :: "'z fs_driver \<Rightarrow> (int \<Rightarrow> 'z devsw) \<Rightarrow> string \<Rightarrow> ('z, nat option) fs_routine" where
  "namei rw devs path = kbind (namex rw devs path False (replicate DIRSIZ NUL)) (\<lambda>(ip, name). kret ip)"

definition nameiparent :: "'z fs_driver \<Rightarrow> (int \<Rightarrow> 'z devsw) \<Rightarrow> string \<Rightarrow> string \<Rightarrow> ('z, nat option \<times> string) fs_routine" where
  "nameiparent rw devs path name = namex rw devs path True name"

end
