(* ===== verification/FsView.thy ===== *)
theory FsView
  imports Fs
begin

text \<open>
  Inside a transaction, with the buffers \<open>H\<close> held, a process sees the file system as blocks \<open>D\<close>:
  bread gives \<open>D\<close>, log_write changes it. The routines of fs.c are sequences of such steps; the block
  allocator is specified here.
\<close>

section \<open>The blocks a transaction sees\<close>

definition log_view :: "('z log_st_scheme \<Rightarrow> uint \<Rightarrow> bool) \<Rightarrow> ('z log_st_scheme \<Rightarrow> uint \<Rightarrow> bool) \<Rightarrow> nat set \<Rightarrow>
    'z log_st_scheme \<Rightarrow> (uint \<Rightarrow> block) \<Rightarrow> uint list \<Rightarrow> bool" where
  "log_view ready has H s D bs \<longleftrightarrow> cache_inv H s \<and> log_names ready has s bs \<and>
     dirty_set s = Pair (lg_dev s) ` set bs \<and> head_n (d_disk s (lg_dev s) (lg_start s)) = 0 \<and>
     lg_outstanding s \<ge> 1 \<and> lg_size s = int LOGSIZE \<and> content s (lg_dev s) = D"

text \<open>What a step leaves alone: the drive, the disk, the place of the log and the buffers of \<open>H\<close>.\<close>

definition keeps :: "nat set \<Rightarrow> 'z log_st_scheme \<Rightarrow> 'z log_st_scheme \<Rightarrow> bool" where
  "keeps H s t \<longleftrightarrow> same_hw s t \<and> lg_dev t = lg_dev s \<and> lg_start t = lg_start s \<and> d_disk t = d_disk s \<and>
     d_trace t = d_trace s \<and> lg_outstanding t = lg_outstanding s \<and> lg_committing t = lg_committing s \<and>
     (\<forall>i\<in>H. d_buf t i = d_buf s i)"

lemma keeps_refl [simp]: "keeps H s s"
  by (simp add: keeps_def same_hw_def)

lemma keeps_trans [trans]: "keeps H s t \<Longrightarrow> keeps H t u \<Longrightarrow> keeps H s u"
  by (simp add: keeps_def same_hw_def)

lemma keeps_mono: "keeps H s t \<Longrightarrow> H' \<subseteq> H \<Longrightarrow> keeps H' s t"
  by (auto simp: keeps_def)

lemma log_area_keeps: "keeps H s t \<Longrightarrow> log_area t = log_area s"
  by (simp add: keeps_def log_area_def)

lemma set_data_apply [simp]:
  "set_data b f s = Ok () (bupd b (\<lambda>p. p\<lparr>b_data := f (b_data (d_buf s b))\<rparr>) s)"
  by (simp add: set_data_def bupd_def)

lemma length_logged: "length (logged bs n) \<le> Suc (length bs)"
  by (simp add: logged_def)

lemma set_logged: "set (logged bs n) = insert n (set bs)"
  by (auto simp: logged_def)

lemma view_length: "log_view ready has H s D bs \<Longrightarrow> length (D n) = BSIZE"
  unfolding log_view_def using length_content by metis

context log_device
begin

lemma keeps_has: "keeps H s t \<Longrightarrow> has t n = has s n"
  unfolding keeps_def using env_ready(2) by blast

lemma keeps_has_fun: "keeps H s t \<Longrightarrow> has t = has s"
  using keeps_has by (rule ext)

lemma bread_view:
  assumes v: "log_view ready has H s D bs" and n: "has s n"
    and nh: "\<forall>i\<in>H. b_blockno (d_buf s i) \<noteq> n" and room: "length bs + card H < NBUF"
  obtains b t where "bread rw (lg_dev s) n s = Ok b t" "log_view ready has (insert b H) t D bs" "b \<notin> H"
    "is_block (lg_dev s) n (d_buf t b)" "b_data (d_buf t b) = D n" "keeps H s t" "log_st.more t = log_st.more s"
proof -
  let ?d = "lg_dev s"
  have inv: "cache_inv H s" and nm: "log_names ready has s bs" and ds: "dirty_set s = Pair ?d ` set bs"
    using v by (simp_all add: log_view_def)
  have d: "?d \<noteq> 0" "ready s ?d" using nm by (simp_all add: log_names_def)
  have "card (dirty_set s) \<le> length bs"
    unfolding ds using card_image_le [of "set bs" "Pair ?d"] card_length [of bs] by simp
  then have rm: "(?d, n) \<in> dirty_set s \<or> card (dirty_set s) + card H < NBUF" using room by simp
  have nb: "\<forall>i\<in>H. \<not> is_block ?d n (d_buf s i)" using nh by (auto simp: is_block_def)
  obtain b t where b: "bread rw ?d n s = Ok b t" "got H ?d n b s t"
    by (rule bread_got [OF inv d n nb rm])
  have g: "b \<notin> H" "cache_inv (insert b H) t" "is_block ?d n (d_buf t b)" "b_data (d_buf t b) = content s ?d n"
      "dirty_set t = dirty_set s" "content t = content s" "d_disk t = d_disk s" "d_trace t = d_trace s"
      "dsk.more t = dsk.more s" "same_hw s t" "\<forall>i\<in>H. d_buf t i = d_buf s i"
    using b(2) by (auto simp: got_def same_env_def same_hw_def)
  note m = more_fields [OF g(9)]
  have "log_view ready has (insert b H) t D bs"
    using v g(2,5,6,7) m log_names_cong [OF g(10,9)] by (simp add: log_view_def)
  moreover have "keeps H s t" using g m by (simp add: keeps_def)
  moreover have "log_st.more t = log_st.more s" using m by blast
  moreover have "b_data (d_buf t b) = D n" using g(4) v by (simp add: log_view_def)
  ultimately show ?thesis using that b(1) g(1,3) by blast
qed

lemma brelse_view:
  assumes v: "log_view ready has H s D bs" and b: "b \<in> H" and n: "is_block (lg_dev s) n (d_buf s b)"
    and dt: "b_data (d_buf s b) = D n"
  obtains t where "brelse b s = Ok () t" "log_view ready has (H - {b}) t D bs" "keeps (H - {b}) s t"
    "log_st.more t = log_st.more s"
proof -
  let ?t = "brelse_state b s"
  have inv: "cache_inv H s" and nm: "log_names ready has s bs" and ct: "content s (lg_dev s) n = D n"
    using v by (auto simp: log_view_def)
  note h = held [OF inv b]
  have dd: "lg_dev s \<noteq> 0" using nm by (simp add: log_names_def)
  have bd: "b_dirty (d_buf s b) \<longleftrightarrow> (lg_dev s, n) \<in> dirty_set s" by (rule dirty_iff [OF inv h(1) n dd])
  have "b_dirty (d_buf s b) \<or> b_data (d_buf s b) = d_disk s (b_dev (d_buf s b)) (b_blockno (d_buf s b))"
    using content_clean [of "lg_dev s" n s] bd dt ct n by (auto simp: is_block_def)
  then have i: "cache_inv (H - {b}) ?t" by (rule brelse_inv [OF inv b])
  have m: "dsk.more ?t = dsk.more s" by simp
  note mf = more_fields [OF m]
  have hw: "same_hw s ?t" by (simp add: same_hw_def)
  have "log_view ready has (H - {b}) ?t D bs"
    using v i mf log_names_cong [OF hw m] brelse_content(2) by (simp add: log_view_def brelse_content fun_eq_iff)
  moreover have "keeps (H - {b}) s ?t" using hw mf by (simp add: keeps_def)
  moreover have "log_st.more ?t = log_st.more s" using mf by blast
  ultimately show ?thesis using that brelse_spec [OF inv b] by blast
qed

lemma log_write_view:
  assumes v: "log_view ready has H s D bs" and b: "b \<in> H" and n: "is_block (lg_dev s) n (d_buf s b)"
    and hn: "has s n" "n \<notin> log_area s" and x: "length x = BSIZE" and room: "length bs < 29"
  obtains t where "log_write b (bupd b (\<lambda>p. p\<lparr>b_data := x\<rparr>) s) = Ok () t"
    "log_view ready has H t (D(n := x)) (logged bs n)" "is_block (lg_dev s) n (d_buf t b)" "b_data (d_buf t b) = x"
    "keeps (H - {b}) s t" "log_st.more t = log_st.more s"
proof -
  let ?d = "lg_dev s"
  let ?s = "bupd b (\<lambda>p. p\<lparr>b_data := x\<rparr>) s"
  let ?t = "bupd b (\<lambda>p. p\<lparr>b_dirty := True\<rparr>) (log_entry n ?s)"
  have inv: "cache_inv H s" and nm: "log_names ready has s bs" and ds: "dirty_set s = Pair ?d ` set bs"
    and out: "lg_outstanding s \<ge> 1" and size: "lg_size s = int LOGSIZE" and ct: "content s ?d = D"
    and hd: "head_n (d_disk s ?d (lg_start s)) = 0"
    using v by (auto simp: log_view_def)
  note facts = nm [unfolded log_names_def]
  have t: "?t = log_entry n (bupd b (\<lambda>p. p\<lparr>b_data := x, b_dirty := True\<rparr>) s)"
    by (simp add: log_entry_def Let_def bupd_def)
  have blk: "blk_of s b = (?d, n)" using n by (simp add: is_block_def)
  have i: "cache_inv H ?t" unfolding t using modify_inv [OF inv b x] by simp
  have dt: "dirty_set ?t = insert (?d, n) (dirty_set s)"
    unfolding t using modify_dirty_set [OF inv b, where v = x and x = True] blk by simp
  have c: "content ?t ?d = D(n := x)"
    unfolding t using modify_content [OF inv b x, of True ?d] blk ct by (auto simp: fun_eq_iff)
  have lw: "log_write b ?s = Ok () ?t"
    using facts out size room blk by (simp add: log_write_def log_entry_def Let_def LOGSIZE_def)
  have f: "lg_dev ?t = ?d" "lg_start ?t = lg_start s" "d_disk ?t = d_disk s" "d_trace ?t = d_trace s"
      "lg_outstanding ?t = lg_outstanding s" "lg_size ?t = lg_size s" "same_hw s ?t" "log_st.more ?t = log_st.more s"
      "lg_committing ?t = lg_committing s"
    by (simp_all add: log_entry_def Let_def same_hw_def bupd_def)
  have en: "lg_n ?t = int (length (logged bs n)) \<and> length (lg_block ?t) = LOGSIZE \<and>
      take (length (logged bs n)) (lg_block ?t) = logged bs n"
    using log_entry_names [of ?s bs n] facts room by (simp add: bupd_def)
  have area: "log_area ?t = log_area s" using f by (simp add: log_area_def)
  have hs: "has ?t m = has s m" "ready ?t d = ready s d" for m d using env_ready [OF f(7)] by simp_all
  have "distinct (logged bs n)" "\<forall>m\<in>set (logged bs n). has s m \<and> m \<notin> log_area s" "length (logged bs n) < LOGSIZE"
    using facts hn room length_logged [of bs n] by (auto simp: logged_def LOGSIZE_def)
  then have "log_names ready has ?t (logged bs n)"
    unfolding log_names_def area f hs using en facts by simp
  moreover have "dirty_set ?t = Pair ?d ` set (logged bs n)" using dt ds by (simp add: set_logged)
  ultimately have "log_view ready has H ?t (D(n := x)) (logged bs n)"
    unfolding log_view_def f using i hd out size c by simp
  moreover have "keeps (H - {b}) s ?t" using f by (simp add: keeps_def)
  moreover have "is_block ?d n (d_buf ?t b)" "b_data (d_buf ?t b) = x" using n by (simp_all add: is_block_def)
  ultimately show ?thesis using that lw f(8) by blast
qed

text \<open>The whole update of a block: what \<open>log_update\<close> does, with other buffers held.\<close>

lemma update_view:
  assumes v: "log_view ready has H s D bs" and n: "has s n" "n \<notin> log_area s"
    and nh: "\<forall>i\<in>H. b_blockno (d_buf s i) \<noteq> n" and room: "length bs + card H < NBUF" "length bs < 29"
    and f: "length (f (D n)) = BSIZE" and dev: "dev = lg_dev s"
  obtains t where
    "kbind (bread rw dev n) (\<lambda>b. kthen (set_data b f) (kthen (log_write b) (brelse b))) s = Ok () t"
    "log_view ready has H t (D(n := f (D n))) (logged bs n)" "keeps H s t" "log_st.more t = log_st.more s"
proof -
  obtain b s1 where 1: "bread rw (lg_dev s) n s = Ok b s1" "log_view ready has (insert b H) s1 D bs" "b \<notin> H"
      "is_block (lg_dev s) n (d_buf s1 b)" "b_data (d_buf s1 b) = D n" "keeps H s s1" "log_st.more s1 = log_st.more s"
    by (rule bread_view [OF v n(1) nh room(1)])
  have d1: "lg_dev s1 = lg_dev s" using 1(6) by (simp add: keeps_def)
  have n1: "has s1 n" "n \<notin> log_area s1" using n keeps_has [OF 1(6)] log_area_keeps [OF 1(6)] by simp_all
  obtain s2 where 2: "log_write b (bupd b (\<lambda>p. p\<lparr>b_data := f (D n)\<rparr>) s1) = Ok () s2"
      "log_view ready has (insert b H) s2 (D(n := f (D n))) (logged bs n)" "is_block (lg_dev s1) n (d_buf s2 b)"
      "b_data (d_buf s2 b) = f (D n)" "keeps (insert b H - {b}) s1 s2" "log_st.more s2 = log_st.more s1"
    by (rule log_write_view [OF 1(2) _ 1(4) [folded d1] n1 f room(2)]) auto
  have d2: "lg_dev s2 = lg_dev s1" using 2(5) by (simp add: keeps_def)
  obtain s3 where 3: "brelse b s2 = Ok () s3" "log_view ready has (insert b H - {b}) s3 (D(n := f (D n))) (logged bs n)"
      "keeps (insert b H - {b}) s2 s3" "log_st.more s3 = log_st.more s2"
    by (rule brelse_view [OF 2(2) _ 2(3) [folded d2]]) (simp_all add: 2(4))
  have H: "insert b H - {b} = H" using 1(3) by auto
  have "keeps H s s3" using keeps_trans [OF 1(6) keeps_trans [OF 2(5) [unfolded H] 3(3) [unfolded H]]] .
  then show ?thesis
    using that [of s3] 1(1,5,7) 2(1,6) 3 by (simp add: kbind_def kthen_def dev H)
qed

text \<open>A block that is only read.\<close>

lemma read_view:
  assumes v: "log_view ready has H s D bs" and n: "has s n"
    and nh: "\<forall>i\<in>H. b_blockno (d_buf s i) \<noteq> n" and room: "length bs + card H < NBUF"
  obtains b t u where "bread rw (lg_dev s) n s = Ok b t" "b_data (d_buf t b) = D n" "log_st.more t = log_st.more s"
    "brelse b t = Ok () u" "log_view ready has H u D bs" "keeps H s u" "log_st.more u = log_st.more s" "keeps H s t"
proof -
  obtain b s1 where 1: "bread rw (lg_dev s) n s = Ok b s1" "log_view ready has (insert b H) s1 D bs" "b \<notin> H"
      "is_block (lg_dev s) n (d_buf s1 b)" "b_data (d_buf s1 b) = D n" "keeps H s s1" "log_st.more s1 = log_st.more s"
    by (rule bread_view [OF v n nh room])
  have d1: "lg_dev s1 = lg_dev s" using 1(6) by (simp add: keeps_def)
  obtain s2 where 2: "brelse b s1 = Ok () s2" "log_view ready has (insert b H - {b}) s2 D bs"
      "keeps (insert b H - {b}) s1 s2" "log_st.more s2 = log_st.more s1"
    by (rule brelse_view [OF 1(2) _ 1(4) [folded d1]]) (simp_all add: 1(5))
  have H: "insert b H - {b} = H" using 1(3) by auto
  show ?thesis
    by (rule that [OF 1(1,5,7) 2(1)]) (use 2 1 H keeps_trans [OF 1(6)] in auto)
qed

end

section \<open>The bitmap\<close>

lemma bit_free_iff: "bit_free v bi \<longleftrightarrow> \<not> bit (v ! (bi div 8)) (bi mod 8)"
  unfolding bit_free_def bit_mask_def by (simp add: push_bit_eq_mult and_exp_eq_0_iff_not_bit)

lemma div_mod_eq: "(a :: nat) div n = b div n \<Longrightarrow> a mod n = b mod n \<Longrightarrow> a = b"
  by (metis div_mult_mod_eq)

lemma bit_bit_mask [simp]: "bit (bit_mask bi) k \<longleftrightarrow> k = bi mod 8"
  by (auto simp: bit_mask_def bit_exp_iff)

lemma bit_free_mark_used:
  assumes "bi div 8 < length v"
  shows "bit_free (mark_used bi v) bj \<longleftrightarrow> bit_free v bj \<and> bi \<noteq> bj"
proof (cases "bi div 8 = bj div 8")
  case True
  then have "bi = bj \<longleftrightarrow> bj mod 8 = bi mod 8" using div_mod_eq [of bi 8 bj] by auto
  with assms True show ?thesis by (simp add: bit_free_iff mark_used_def bit_or_iff)
next
  case False
  then have "bi \<noteq> bj" by blast
  with assms False show ?thesis by (simp add: bit_free_iff mark_used_def)
qed

lemma bit_free_mark_free:
  assumes "bi div 8 < length v"
  shows "bit_free (mark_free bi v) bj \<longleftrightarrow> bit_free v bj \<or> bi = bj"
proof (cases "bi div 8 = bj div 8")
  case True
  then have "bi = bj \<longleftrightarrow> bj mod 8 = bi mod 8" using div_mod_eq [of bi 8 bj] by auto
  with assms True show ?thesis by (simp add: bit_free_iff mark_free_def bit_and_iff bit_not_iff)
next
  case False
  then have "bi \<noteq> bj" by blast
  with assms False show ?thesis by (simp add: bit_free_iff mark_free_def)
qed

lemma length_mark [simp]: "length (mark_used bi v) = length v" "length (mark_free bi v) = length v"
  by (simp_all add: mark_used_def mark_free_def)

definition used :: "superblock \<Rightarrow> (uint \<Rightarrow> block) \<Rightarrow> uint \<Rightarrow> bool" where
  "used sb D b \<longleftrightarrow> \<not> bit_free (D (BBLOCK b sb)) (unat b mod BPB)"

text \<open>The blocks balloc must never hand out: the log, the bitmap and the inodes.\<close>

definition meta_blocks :: "uint set \<Rightarrow> superblock \<Rightarrow> uint set" where
  "meta_blocks area sb = area \<union> (\<lambda>b. BBLOCK b sb) ` {b. b < sb_size sb} \<union> (\<lambda>i. IBLOCK i sb) ` {i. i < sb_ninodes sb}"

definition fs_ok :: "(uint \<Rightarrow> bool) \<Rightarrow> uint set \<Rightarrow> superblock \<Rightarrow> (uint \<Rightarrow> block) \<Rightarrow> bool" where
  "fs_ok h area sb D \<longleftrightarrow> (\<forall>b < sb_size sb. h b) \<and> used sb D 0 \<and>
     (\<forall>m\<in>meta_blocks area sb. m < sb_size sb \<and> used sb D m) \<and>
     (\<forall>b < sb_size sb. BBLOCK b sb \<notin> area \<and> (\<forall>i < sb_ninodes sb. BBLOCK b sb \<noteq> IBLOCK i sb)) \<and>
     (\<forall>i < sb_ninodes sb. IBLOCK i sb \<notin> area)"

definition alloc_view :: "superblock \<Rightarrow> uint \<Rightarrow> (uint \<Rightarrow> block) \<Rightarrow> (uint \<Rightarrow> block)" where
  "alloc_view sb b D = D(BBLOCK b sb := mark_used (unat b mod BPB) (D (BBLOCK b sb)), b := replicate BSIZE 0)"

definition free_view :: "superblock \<Rightarrow> uint \<Rightarrow> (uint \<Rightarrow> block) \<Rightarrow> (uint \<Rightarrow> block)" where
  "free_view sb b D = D(BBLOCK b sb := mark_free (unat b mod BPB) (D (BBLOCK b sb)))"

lemma BBLOCK_inj:
  assumes "BBLOCK a sb = BBLOCK b sb" and "unat a mod BPB = unat b mod BPB"
  shows "a = b"
proof -
  have "a div of_nat BPB = b div of_nat BPB" using assms(1) by (simp add: BBLOCK_def)
  then have "unat (a div of_nat BPB) = unat (b div of_nat BPB)" by simp
  then have "unat a div BPB = unat b div BPB" by (simp add: unat_div BPB_def BSIZE_def)
  with assms(2) have "unat a = unat b" using div_mod_eq by blast
  then show ?thesis by (simp only: word_unat_eq_iff)
qed

lemma bit_index: "unat b mod BPB div 8 < BSIZE"
  by (simp add: BPB_def BSIZE_def)

lemma used_alloc_view:
  assumes len: "\<forall>n. length (D n) = BSIZE" and ne: "b \<noteq> BBLOCK c sb"
  shows "used sb (alloc_view sb b D) c \<longleftrightarrow> used sb D c \<or> c = b"
proof (cases "BBLOCK c sb = BBLOCK b sb")
  case True
  have "alloc_view sb b D (BBLOCK c sb) = mark_used (unat b mod BPB) (D (BBLOCK c sb))"
    using ne True by (simp add: alloc_view_def)
  then have "used sb (alloc_view sb b D) c \<longleftrightarrow> used sb D c \<or> unat b mod BPB = unat c mod BPB"
    using bit_free_mark_used [of "unat b mod BPB" "D (BBLOCK c sb)"] len bit_index [of b] unfolding used_def by metis
  then show ?thesis using BBLOCK_inj [OF True] by metis
next
  case False
  then have "alloc_view sb b D (BBLOCK c sb) = D (BBLOCK c sb)" using ne by (simp add: alloc_view_def)
  then show ?thesis using False by (auto simp: used_def)
qed

lemma used_free_view:
  assumes len: "\<forall>n. length (D n) = BSIZE"
  shows "used sb (free_view sb b D) c \<longleftrightarrow> used sb D c \<and> c \<noteq> b"
proof (cases "BBLOCK c sb = BBLOCK b sb")
  case True
  have "free_view sb b D (BBLOCK c sb) = mark_free (unat b mod BPB) (D (BBLOCK c sb))"
    using True by (simp add: free_view_def)
  then have "used sb (free_view sb b D) c \<longleftrightarrow> used sb D c \<and> unat b mod BPB \<noteq> unat c mod BPB"
    using bit_free_mark_free [of "unat b mod BPB" "D (BBLOCK c sb)"] len bit_index [of b] unfolding used_def by metis
  then show ?thesis using BBLOCK_inj [OF True] by metis
next
  case False
  then have "free_view sb b D (BBLOCK c sb) = D (BBLOCK c sb)" by (simp add: free_view_def)
  then show ?thesis using False by (auto simp: used_def)
qed

lemma fs_okD:
  assumes "fs_ok h area sb D"
  shows "b < sb_size sb \<Longrightarrow> h b" "used sb D 0" "m \<in> meta_blocks area sb \<Longrightarrow> m < sb_size sb \<and> used sb D m"
    "b < sb_size sb \<Longrightarrow> BBLOCK b sb \<in> meta_blocks area sb \<and> BBLOCK b sb \<notin> area"
    "i < sb_ninodes sb \<Longrightarrow> IBLOCK i sb \<in> meta_blocks area sb \<and> IBLOCK i sb \<notin> area"
    "b < sb_size sb \<Longrightarrow> i < sb_ninodes sb \<Longrightarrow> BBLOCK b sb \<noteq> IBLOCK i sb"
    "n \<in> area \<Longrightarrow> n \<in> meta_blocks area sb"
  using assms unfolding fs_ok_def meta_blocks_def by blast+

lemma fs_ok_unused:
  assumes "fs_ok h area sb D" and "\<not> used sb D b"
  shows "b \<notin> meta_blocks area sb" "b \<noteq> 0" "b \<notin> area"
  using fs_okD [OF assms(1)] assms(2) by blast+

lemma fs_ok_mono:
  assumes "fs_ok h area sb D" and "used sb D 0 \<longrightarrow> used sb E 0" and "\<forall>m\<in>meta_blocks area sb. used sb D m \<longrightarrow> used sb E m"
  shows "fs_ok h area sb E"
  using assms unfolding fs_ok_def by blast

lemma fs_ok_alloc:
  assumes ok: "fs_ok h area sb D" and len: "\<forall>n. length (D n) = BSIZE" and b: "b < sb_size sb" "\<not> used sb D b"
  shows "c < sb_size sb \<Longrightarrow> used sb (alloc_view sb b D) c \<longleftrightarrow> used sb D c \<or> c = b" and "fs_ok h area sb (alloc_view sb b D)"
proof -
  show u: "used sb (alloc_view sb b D) c \<longleftrightarrow> used sb D c \<or> c = b" if c: "c < sb_size sb" for c
  proof (rule used_alloc_view [OF len])
    show "b \<noteq> BBLOCK c sb" using fs_ok_unused(1) [OF ok b(2)] fs_okD(4) [OF ok c] by metis
  qed
  have z: "0 < sb_size sb" using b(1) word_coorder.not_eq_extremum by fastforce
  show "fs_ok h area sb (alloc_view sb b D)"
    by (rule fs_ok_mono [OF ok]) (use u [OF z] u fs_okD(3) [OF ok] in blast)+
qed

section \<open>The block allocator\<close>

locale fs_device = log_device rw ready has
  for rw :: "nat \<Rightarrow> 'z fs_st_scheme \<Rightarrow> ('z fs_st_scheme, unit) outcome"
    and ready :: "'z fs_st_scheme \<Rightarrow> uint \<Rightarrow> bool"
    and has :: "'z fs_st_scheme \<Rightarrow> uint \<Rightarrow> bool"

lemma fs_more:
  assumes "log_st.more t = log_st.more s"
  shows "fs_sb t = fs_sb s" "fs_inode t = fs_inode s" "fs_cwd t = fs_cwd s" "fs_st.more t = fs_st.more s"
  using assms by (cases s; cases t; simp)+

lemma find_upt_least:
  assumes "find P [m..<n] = Some k"
  shows "m \<le> k" "k < n" "P k" "\<And>j. m \<le> j \<Longrightarrow> j < k \<Longrightarrow> \<not> P j"
proof -
  obtain i where i: "i < n - m" "P (m + i)" "k = m + i" "\<forall>j<i. \<not> P (m + j)"
    using assms by (auto simp: find_Some_iff)
  then show "m \<le> k" "k < n" "P k" by auto
  show "\<not> P j" if "m \<le> j" "j < k" for j
    using i(3,4) that by (metis le_iff_add nat_add_left_cancel_less)
qed

lemma unat_of_nat32: "n < 2 ^ 32 \<Longrightarrow> unat (of_nat n :: uint) = n"
  by (simp add: unat_of_nat)

lemma BBLOCK_nat:
  assumes "k * BPB + bi < 2 ^ 32" and "bi < BPB"
  shows "BBLOCK (of_nat (k * BPB + bi)) sb = BBLOCK (of_nat (k * BPB)) sb" "unat (of_nat (k * BPB + bi) :: uint) mod BPB = bi"
    "unat (of_nat (k * BPB + bi) :: uint) = k * BPB + bi"
proof -
  show u: "unat (of_nat (k * BPB + bi) :: uint) = k * BPB + bi"
    using assms(1) by (intro unat_of_nat32) simp
  have u': "unat (of_nat (k * BPB) :: uint) = k * BPB" using assms(1) by (intro unat_of_nat32) simp
  show "unat (of_nat (k * BPB + bi) :: uint) mod BPB = bi" unfolding u using assms(2) by simp
  have p: "unat (of_nat BPB :: uint) = BPB" by (simp add: BPB_def BSIZE_def)
  have "unat (of_nat (k * BPB + bi) div of_nat BPB :: uint) = unat (of_nat (k * BPB) div of_nat BPB :: uint)"
    unfolding unat_div u u' p using assms(2) by simp
  then show "BBLOCK (of_nat (k * BPB + bi)) sb = BBLOCK (of_nat (k * BPB)) sb"
    unfolding BBLOCK_def by (simp only: word_unat_eq_iff [symmetric])
qed

text \<open>What the held buffers must not be: blocks the allocator works on.\<close>

definition held_ok :: "nat set \<Rightarrow> 'z fs_st_scheme \<Rightarrow> (uint \<Rightarrow> block) \<Rightarrow> bool" where
  "held_ok H s D \<longleftrightarrow> (\<forall>i\<in>H. used (fs_sb s) D (b_blockno (d_buf s i)) \<and>
     b_blockno (d_buf s i) \<notin> meta_blocks (log_area s) (fs_sb s))"

context fs_device
begin

lemma held_ok_cong:
  "held_ok H s D \<Longrightarrow> keeps H s t \<Longrightarrow> log_st.more t = log_st.more s \<Longrightarrow> held_ok H t D"
  using fs_more [of t s] log_area_keeps [of H s t] by (simp add: held_ok_def keeps_def)

lemma held_not_meta: "held_ok H s D \<Longrightarrow> m \<in> meta_blocks (log_area s) (fs_sb s) \<Longrightarrow> \<forall>i\<in>H. b_blockno (d_buf s i) \<noteq> m"
  unfolding held_ok_def by blast

lemma bzero_view:
  assumes v: "log_view ready has H s D bs" and n: "has s n" "n \<notin> log_area s"
    and nh: "\<forall>i\<in>H. b_blockno (d_buf s i) \<noteq> n" and room: "length bs + card H < NBUF" "length bs < 29"
  obtains t where "bzero rw (lg_dev s) n s = Ok () t"
    "log_view ready has H t (D(n := replicate BSIZE 0)) (logged bs n)" "keeps H s t" "log_st.more t = log_st.more s"
proof -
  obtain t where "kbind (bread rw (lg_dev s) n) (\<lambda>b. kthen (set_data b (\<lambda>_. replicate BSIZE 0)) (kthen (log_write b) (brelse b))) s = Ok () t"
    "log_view ready has H t (D(n := replicate BSIZE 0)) (logged bs n)" "keeps H s t" "log_st.more t = log_st.more s"
    by (rule update_view [OF v n nh room, where f = "\<lambda>_. replicate BSIZE 0"]) auto
  then show ?thesis using that by (simp add: bzero_def)
qed

lemma bfree_view:
  assumes v: "log_view ready has H s D bs" and ok: "fs_ok (has s) (log_area s) (fs_sb s) D"
    and b: "b < sb_size (fs_sb s)" "used (fs_sb s) D b" and h: "held_ok H s D"
    and room: "length bs + card H < NBUF" "length bs < 29"
  obtains t where "bfree rw (lg_dev s) b s = Ok () t"
    "log_view ready has H t (free_view (fs_sb s) b D) (logged bs (BBLOCK b (fs_sb s)))"
    "keeps H s t" "log_st.more t = log_st.more s"
proof -
  let ?n = "BBLOCK b (fs_sb s)" and ?bi = "unat b mod BPB"
  have m: "?n \<in> meta_blocks (log_area s) (fs_sb s)" and na: "?n \<notin> log_area s" using fs_okD(4) [OF ok b(1)] by auto
  have hn: "has s ?n" using fs_okD(1) [OF ok] fs_okD(3) [OF ok m] by blast
  note nh = held_not_meta [OF h m]
  note len = view_length [OF v]
  obtain bp s1 where 1: "bread rw (lg_dev s) ?n s = Ok bp s1" "log_view ready has (insert bp H) s1 D bs" "bp \<notin> H"
      "is_block (lg_dev s) ?n (d_buf s1 bp)" "b_data (d_buf s1 bp) = D ?n" "keeps H s s1" "log_st.more s1 = log_st.more s"
    by (rule bread_view [OF v hn nh room(1)])
  obtain t where t: "kbind (bread rw (lg_dev s) ?n) (\<lambda>b. kthen (set_data b (mark_free ?bi)) (kthen (log_write b) (brelse b))) s = Ok () t"
    "log_view ready has H t (D(?n := mark_free ?bi (D ?n))) (logged bs ?n)" "keeps H s t" "log_st.more t = log_st.more s"
    by (rule update_view [OF v hn na nh room, where f = "mark_free ?bi"]) (auto simp: len)
  have "\<not> bit_free (b_data (d_buf s1 bp)) ?bi" using b(2) 1(5) by (simp add: used_def)
  then have "bfree rw (lg_dev s) b s = Ok () t"
    using t(1) 1(1) by (simp add: bfree_def kbind_def Let_def)
  then show ?thesis using that t by (simp add: free_view_def)
qed

lemma balloc_skip:
  assumes "log_view ready has H s D bs" and "fs_ok (has s) (log_area s) (fs_sb s) D" and "held_ok H s D"
    and "length bs + card H < NBUF"
    and "\<forall>k\<in>set ks. k * BPB < unat (sb_size (fs_sb s)) \<and> (\<forall>bi<min BPB (unat (sb_size (fs_sb s)) - k * BPB).
      \<not> bit_free (D (BBLOCK (of_nat (k * BPB)) (fs_sb s))) bi)"
  shows "\<exists>t. balloc_loop rw (lg_dev s) (map (\<lambda>k. k * BPB) ks @ rest) s = balloc_loop rw (lg_dev s) rest t \<and>
    log_view ready has H t D bs \<and> keeps H s t \<and> log_st.more t = log_st.more s"
  using assms
proof (induction ks arbitrary: s)
  case Nil
  then show ?case by auto
next
  case (Cons k ks)
  let ?n = "BBLOCK (of_nat (k * BPB)) (fs_sb s)"
  have kb: "k * BPB < unat (sb_size (fs_sb s))"
    and kf: "\<forall>bi<min BPB (unat (sb_size (fs_sb s)) - k * BPB). \<not> bit_free (D ?n) bi"
    using Cons.prems(5) by auto
  have "unat (of_nat (k * BPB) :: uint) = k * BPB"
    using kb unat_uint_bound [of "sb_size (fs_sb s)"] by (intro unat_of_nat32) simp
  then have kw: "of_nat (k * BPB) < sb_size (fs_sb s)" using kb by (simp add: word_less_nat_alt)
  have m: "?n \<in> meta_blocks (log_area s) (fs_sb s)" using fs_okD(4) [OF Cons.prems(2) kw] by blast
  have hn: "has s ?n" using fs_okD(1,3) [OF Cons.prems(2)] m by blast
  obtain b t u where r: "bread rw (lg_dev s) ?n s = Ok b t" "b_data (d_buf t b) = D ?n" "log_st.more t = log_st.more s"
      "brelse b t = Ok () u" "log_view ready has H u D bs" "keeps H s u" "log_st.more u = log_st.more s" "keeps H s t"
    by (rule read_view [OF Cons.prems(1) hn held_not_meta [OF Cons.prems(3) m] Cons.prems(4)])
  have "find (bit_free (D ?n)) [0..<min BPB (unat (sb_size (fs_sb s)) - k * BPB)] = None"
    using kf by (auto simp: find_None_iff)
  then have e: "balloc_loop rw (lg_dev s) (map (\<lambda>k. k * BPB) (k # ks) @ rest) s =
      balloc_loop rw (lg_dev s) (map (\<lambda>k. k * BPB) ks @ rest) u"
    using r(1,2,4) fs_more [OF r(3)] by (simp add: kbind_def kthen_def)
  note mu = fs_more [OF r(7)]
  have du: "lg_dev u = lg_dev s" using r(6) by (simp add: keeps_def)
  have "fs_ok (has u) (log_area u) (fs_sb u) D"
    using Cons.prems(2) mu keeps_has_fun [OF r(6)] log_area_keeps [OF r(6)] by simp
  moreover have "held_ok H u D" by (rule held_ok_cong [OF Cons.prems(3) r(6,7)])
  ultimately obtain v where "balloc_loop rw (lg_dev u) (map (\<lambda>k. k * BPB) ks @ rest) u = balloc_loop rw (lg_dev u) rest v"
      "log_view ready has H v D bs" "keeps H u v" "log_st.more v = log_st.more u"
    using Cons.IH [OF r(5) _ _ Cons.prems(4)] Cons.prems(5) mu by auto
  then show ?case using e r(6,7) keeps_trans du by metis
qed

lemma balloc_view:
  assumes v: "log_view ready has H s D bs" and ok: "fs_ok (has s) (log_area s) (fs_sb s) D" and h: "held_ok H s D"
    and room: "length bs + card H + 1 < NBUF" "length bs < 28"
    and b: "b < sb_size (fs_sb s)" "\<not> used (fs_sb s) D b" "\<forall>c<b. used (fs_sb s) D c"
  obtains t where "balloc rw (lg_dev s) s = Ok b t"
    "log_view ready has H t (alloc_view (fs_sb s) b D) (logged (logged bs (BBLOCK b (fs_sb s))) b)"
    "keeps H s t" "log_st.more t = log_st.more s"
proof -
  define sz where "sz = unat (sb_size (fs_sb s))"
  define k where "k = unat b div BPB"
  define bi where "bi = unat b mod BPB"
  have B: "0 < BPB" by (simp add: BPB_def BSIZE_def)
  have bk: "unat b = k * BPB + bi" "bi < BPB" using B by (simp_all add: k_def bi_def)
  have bs: "unat b < sz" using b(1) by (simp add: sz_def word_less_nat_alt)
  have s32: "sz < 2 ^ 32" using unat_uint_bound [of "sb_size (fs_sb s)"] by (simp add: sz_def)
  have used: "\<not> bit_free (D (BBLOCK (of_nat (j * BPB)) (fs_sb s))) bj" if j: "j * BPB + bj < unat b" "bj < BPB" for j bj
  proof -
    have j32: "j * BPB + bj < 2 ^ 32" using j bs s32 by simp
    note n = BBLOCK_nat [OF j32 j(2)]
    have "(of_nat (j * BPB + bj) :: uint) < b" using j(1) n(3) by (simp only: word_less_nat_alt)
    then have "used (fs_sb s) D (of_nat (j * BPB + bj))" using b(3) by blast
    then show ?thesis unfolding used_def n(1,2) .
  qed
  have skip: "\<forall>j\<in>set [0..<k]. j * BPB < unat (sb_size (fs_sb s)) \<and> (\<forall>bi<min BPB (unat (sb_size (fs_sb s)) - j * BPB).
      \<not> bit_free (D (BBLOCK (of_nat (j * BPB)) (fs_sb s))) bi)"
  proof (intro ballI conjI allI impI)
    fix j assume "j \<in> set [0..<k]"
    then have "Suc j \<le> k" by simp
    then have jk: "j * BPB + BPB \<le> k * BPB" using mult_le_mono1 [of "Suc j" k BPB] by simp
    show "j * BPB < unat (sb_size (fs_sb s))" using jk bk bs B unfolding sz_def [symmetric] by linarith
    fix bj assume "bj < min BPB (unat (sb_size (fs_sb s)) - j * BPB)"
    then show "\<not> bit_free (D (BBLOCK (of_nat (j * BPB)) (fs_sb s))) bj" using jk bk by (intro used) auto
  qed
  have kK: "k < (sz + BPB - 1) div BPB"
  proof -
    have "Suc k * BPB \<le> sz + BPB - 1" using bk bs by simp
    then have "Suc k \<le> (sz + BPB - 1) div BPB" using B by (metis div_le_mono nonzero_mult_div_cancel_right less_not_refl2)
    then show ?thesis by simp
  qed
  then have starts: "map (\<lambda>k. k * BPB) [0..<(sz + BPB - 1) div BPB] =
      map (\<lambda>k. k * BPB) [0..<k] @ (k * BPB) # map (\<lambda>k. k * BPB) [Suc k..<(sz + BPB - 1) div BPB]"
    using upt_add_eq_append [of 0 k "(sz + BPB - 1) div BPB - k"] by (simp add: upt_conv_Cons)
  have r1: "length bs + card H < NBUF" using room by simp
  obtain s1 where 1: "balloc_loop rw (lg_dev s) (map (\<lambda>k. k * BPB) [0..<k] @ (k * BPB) # map (\<lambda>k. k * BPB) [Suc k..<(sz + BPB - 1) div BPB]) s =
      balloc_loop rw (lg_dev s) ((k * BPB) # map (\<lambda>k. k * BPB) [Suc k..<(sz + BPB - 1) div BPB]) s1"
      "log_view ready has H s1 D bs" "keeps H s s1" "log_st.more s1 = log_st.more s"
    using balloc_skip [OF v ok h r1 skip] by blast
  note m1 = fs_more [OF 1(4)]
  have d1: "lg_dev s1 = lg_dev s" using 1(3) by (simp add: keeps_def)
  note a1 = log_area_keeps [OF 1(3)]
  have h1: "held_ok H s1 D" by (rule held_ok_cong [OF h 1(3,4)])
  have b32: "k * BPB + bi < 2 ^ 32" using bk bs s32 by simp
  note bn = BBLOCK_nat [OF b32 bk(2), folded bk(1)]
  have beq: "(of_nat (k * BPB + bi) :: uint) = b" unfolding bk(1) [symmetric] by simp
  have nb: "BBLOCK (of_nat (k * BPB)) (fs_sb s) = BBLOCK b (fs_sb s)"
    using bn(1) by simp
  let ?n = "BBLOCK b (fs_sb s)"
  have m: "?n \<in> meta_blocks (log_area s) (fs_sb s)" and na: "?n \<notin> log_area s" using fs_okD(4) [OF ok b(1)] by auto
  have hn: "has s ?n" and hb: "has s b" using fs_okD(1) [OF ok] fs_okD(3) [OF ok m] b(1) by blast+
  have nh1: "\<forall>i\<in>H. b_blockno (d_buf s1 i) \<noteq> ?n" using held_not_meta [OF h1] m m1 a1 by simp
  have hn1: "has s1 ?n" "?n \<notin> log_area s1" using hn na keeps_has [OF 1(3)] a1 by simp_all
  obtain bp s2 where 2: "bread rw (lg_dev s1) ?n s1 = Ok bp s2" "log_view ready has (insert bp H) s2 D bs" "bp \<notin> H"
      "is_block (lg_dev s1) ?n (d_buf s2 bp)" "b_data (d_buf s2 bp) = D ?n" "keeps H s1 s2" "log_st.more s2 = log_st.more s1"
    by (rule bread_view [OF 1(2) hn1(1) nh1 r1])
  note m2 = fs_more [OF 2(7)]
  have find: "find (bit_free (D ?n)) [0..<min BPB (sz - k * BPB)] = Some bi"
  proof -
    have f: "bit_free (D ?n) bi" using b(2) by (simp add: used_def bi_def)
    have lt: "bi < min BPB (sz - k * BPB)" using bk bs by auto
    have "find (bit_free (D ?n)) [0..<min BPB (sz - k * BPB)] \<noteq> None"
      using f lt by (auto simp: find_None_iff)
    then obtain c where c: "find (bit_free (D ?n)) [0..<min BPB (sz - k * BPB)] = Some c" by blast
    note l = find_upt_least [OF c]
    have "\<not> c < bi" using used [of k c] l(3) bk nb by auto
    moreover have "\<not> bi < c" using l(4) [of bi] f by auto
    ultimately show ?thesis using c by simp
  qed
  have len: "\<forall>n. length (D n) = BSIZE" using view_length [OF v] by blast
  obtain s3 where 3: "kbind (bread rw (lg_dev s1) ?n) (\<lambda>b. kthen (set_data b (mark_used bi)) (kthen (log_write b) (brelse b))) s1 = Ok () s3"
      "log_view ready has H s3 (D(?n := mark_used bi (D ?n))) (logged bs ?n)" "keeps H s1 s3" "log_st.more s3 = log_st.more s1"
    by (rule update_view [OF 1(2) hn1 nh1 r1, where f = "mark_used bi"]) (use len room in auto)
  note m3 = fs_more [OF 3(4)]
  have k3: "keeps H s s3" by (rule keeps_trans [OF 1(3) 3(3)])
  have d3: "lg_dev s3 = lg_dev s" using k3 by (simp add: keeps_def)
  have hb3: "has s3 b" "b \<notin> log_area s3"
    using hb fs_ok_unused(3) [OF ok b(2)] keeps_has [OF k3] log_area_keeps [OF k3] by simp_all
  have nh3: "\<forall>i\<in>H. b_blockno (d_buf s3 i) \<noteq> b"
    using h b(2) k3 unfolding held_ok_def keeps_def by metis
  have l3: "length (logged bs ?n) + card H < NBUF" "length (logged bs ?n) < 29"
    using room length_logged [of bs ?n] by simp_all
  obtain s4 where 4: "bzero rw (lg_dev s3) b s3 = Ok () s4"
      "log_view ready has H s4 (D(?n := mark_used bi (D ?n), b := replicate BSIZE 0)) (logged (logged bs ?n) b)"
      "keeps H s3 s4" "log_st.more s4 = log_st.more s3"
    by (rule bzero_view [OF 3(2) hb3 nh3 l3])
  have "balloc_loop rw (lg_dev s) ((k * BPB) # rest) s1 = Ok b s4" for rest
    using 2(1,5) 3(1) 4(1) m1 m2 d1 d3 find
    by (auto simp add: kbind_def kthen_def nb beq sz_def simp del: of_nat_mult of_nat_add split: outcome.splits)
  then have "balloc rw (lg_dev s) s = Ok b s4"
    unfolding balloc_def sz_def [symmetric] starts 1(1) .
  moreover have "log_view ready has H s4 (alloc_view (fs_sb s) b D) (logged (logged bs ?n) b)"
    using 4(2) by (simp add: alloc_view_def bi_def)
  ultimately show ?thesis using that keeps_trans [OF k3 4(3)] 4(4) 3(4) 1(4) by simp
qed

end

end
