(* ===== verification/FsFile.thy ===== *)
theory FsFile
  imports FsView
begin

text \<open>
  The contents of files: the blocks an inode points to, what bmap adds to them, and readi and
  writei as reads and updates of the bytes of the file.
\<close>

section \<open>The blocks of a file\<close>

text \<open>The \<open>k\<close>-th block of a file; the indirect block counts as the last one, \<open>MAXFILE\<close>.\<close>

definition ptr :: "(uint \<Rightarrow> block) \<Rightarrow> inode \<Rightarrow> nat \<Rightarrow> uint" where
  "ptr D p k =
     (if k < NDIRECT then i_addrs p ! k
      else if k = MAXFILE then i_addrs p ! NDIRECT
      else if i_addrs p ! NDIRECT = 0 then 0
      else get32 (4 * (k - NDIRECT)) (D (i_addrs p ! NDIRECT)))"

definition own :: "(uint \<Rightarrow> block) \<Rightarrow> inode \<Rightarrow> uint set" where
  "own D p = ptr D p ` {..MAXFILE} - {0}"

definition file_ok :: "uint set \<Rightarrow> superblock \<Rightarrow> (uint \<Rightarrow> block) \<Rightarrow> inode \<Rightarrow> bool" where
  "file_ok area sb D p \<longleftrightarrow> length (i_addrs p) = NDIRECT + 1 \<and>
     (\<forall>b\<in>own D p. b < sb_size sb \<and> used sb D b \<and> b \<notin> meta_blocks area sb) \<and>
     (\<forall>j\<le>MAXFILE. \<forall>k\<le>MAXFILE. ptr D p j = ptr D p k \<and> ptr D p j \<noteq> 0 \<longrightarrow> j = k)"

definition fdata :: "(uint \<Rightarrow> block) \<Rightarrow> inode \<Rightarrow> nat \<Rightarrow> block" where
  "fdata D p k = (if ptr D p k = 0 then replicate BSIZE 0 else D (ptr D p k))"

text \<open>
  What an operation on the file \<open>p\<close> may do: keep its blocks and add free ones; all other used
  blocks, and the inodes on disk, stay as they are.
\<close>

definition file_grows :: "uint set \<Rightarrow> superblock \<Rightarrow> (uint \<Rightarrow> block) \<Rightarrow> inode \<Rightarrow> (uint \<Rightarrow> block) \<Rightarrow> inode \<Rightarrow> bool" where
  "file_grows area sb D p D' p' \<longleftrightarrow> p' = p\<lparr>i_addrs := i_addrs p'\<rparr> \<and>
     (\<forall>k\<le>MAXFILE. ptr D p k \<noteq> 0 \<longrightarrow> ptr D' p' k = ptr D p k) \<and>
     (\<forall>b < sb_size sb. used sb D b \<longrightarrow> used sb D' b) \<and>
     (\<forall>b\<in>own D' p' - own D p. b < sb_size sb \<and> \<not> used sb D b) \<and>
     (\<forall>b < sb_size sb. used sb D b \<and> b \<notin> meta_blocks area sb \<and> b \<notin> own D p \<longrightarrow> D' b = D b) \<and>
     (\<forall>i < sb_ninodes sb. D' (IBLOCK i sb) = D (IBLOCK i sb))"

lemma file_grows_refl [simp]: "file_grows area sb D p D p"
  by (simp add: file_grows_def)

lemma file_growsD:
  assumes "file_grows area sb D p D' p'"
  shows "p' = p\<lparr>i_addrs := i_addrs p'\<rparr>" "k \<le> MAXFILE \<Longrightarrow> ptr D p k \<noteq> 0 \<Longrightarrow> ptr D' p' k = ptr D p k"
    "b < sb_size sb \<Longrightarrow> used sb D b \<Longrightarrow> used sb D' b"
    "b \<in> own D' p' \<Longrightarrow> b \<notin> own D p \<Longrightarrow> b < sb_size sb \<and> \<not> used sb D b"
    "b < sb_size sb \<Longrightarrow> used sb D b \<Longrightarrow> b \<notin> meta_blocks area sb \<Longrightarrow> b \<notin> own D p \<Longrightarrow> D' b = D b"
    "i < sb_ninodes sb \<Longrightarrow> D' (IBLOCK i sb) = D (IBLOCK i sb)"
  using assms unfolding file_grows_def by blast+

lemma file_grows_trans:
  assumes 1: "file_grows area sb D p D' p'" and 2: "file_grows area sb D' p' D'' p''"
  shows "file_grows area sb D p D'' p''"
  unfolding file_grows_def
proof (intro conjI allI impI ballI)
  note g = file_growsD [OF 1] and g' = file_growsD [OF 2]
  show "p'' = p\<lparr>i_addrs := i_addrs p''\<rparr>"
    by (subst g'(1), subst g(1)) simp
  show "ptr D'' p'' k = ptr D p k" if "k \<le> MAXFILE" "ptr D p k \<noteq> 0" for k
    using g(2) [OF that] g'(2) [of k] that by simp
  show "used sb D'' b" if "b < sb_size sb" "used sb D b" for b
    using g'(3) g(3) that by blast
  show "D'' (IBLOCK i sb) = D (IBLOCK i sb)" if "i < sb_ninodes sb" for i
    using g'(6) [OF that] g(6) [OF that] by simp
  show "b < sb_size sb" and "\<not> used sb D b" if b: "b \<in> own D'' p'' - own D p" for b
    using g(4) [of b] g'(4) [of b] g(3) [of b] b by blast+
  show "D'' b = D b" if b: "b < sb_size sb" "used sb D b \<and> b \<notin> meta_blocks area sb \<and> b \<notin> own D p" for b
  proof -
    have "b \<notin> own D' p'" using g(4) [of b] b by blast
    then show ?thesis using g'(5) [of b] g(5) [of b] g(3) [of b] b by simp
  qed
qed

lemma get32_zero [simp]: "get32 off (replicate n 0) = 0"
proof -
  have "le_val (replicate m 0) = 0" for m by (induction m) auto
  then show ?thesis by (simp add: get32_def)
qed

lemma ptr_eqs:
  "k < NDIRECT \<Longrightarrow> ptr D p k = i_addrs p ! k"
  "ptr D p MAXFILE = i_addrs p ! NDIRECT"
  "NDIRECT \<le> k \<Longrightarrow> k < MAXFILE \<Longrightarrow> ptr D p k =
     (if ptr D p MAXFILE = 0 then 0 else get32 (4 * (k - NDIRECT)) (D (ptr D p MAXFILE)))"
  by (simp_all add: ptr_def MAXFILE_def NDIRECT_def NINDIRECT_def BSIZE_def)

lemma own_ptr: "k \<le> MAXFILE \<Longrightarrow> ptr D p k \<noteq> 0 \<Longrightarrow> ptr D p k \<in> own D p"
  by (auto simp: own_def)

lemma file_okD:
  assumes "file_ok area sb D p"
  shows "length (i_addrs p) = NDIRECT + 1"
    "b \<in> own D p \<Longrightarrow> b < sb_size sb \<and> used sb D b \<and> b \<notin> meta_blocks area sb"
    "j \<le> MAXFILE \<Longrightarrow> k \<le> MAXFILE \<Longrightarrow> ptr D p j = ptr D p k \<Longrightarrow> ptr D p j \<noteq> 0 \<Longrightarrow> j = k"
  using assms unfolding file_ok_def by blast+

text \<open>A free block becomes the missing block \<open>k\<close> of the file.\<close>

lemma new_ptr:
  assumes ok: "fs_ok h area sb D" and fo: "file_ok area sb D p" and b: "b < sb_size sb" "\<not> used sb D b"
    and k: "k \<le> MAXFILE" "ptr D p k = 0"
    and p': "p' = p\<lparr>i_addrs := i_addrs p'\<rparr>" "length (i_addrs p') = NDIRECT + 1"
    and ptr': "\<forall>j\<le>MAXFILE. ptr D' p' j = (if j = k then b else ptr D p j)"
    and D': "\<forall>n. n \<noteq> b \<and> n \<noteq> BBLOCK b sb \<and> (n = 0 \<or> n \<noteq> ptr D p MAXFILE) \<longrightarrow> D' n = D n" "D' b = replicate BSIZE 0"
    and us: "\<forall>c < sb_size sb. used sb D' c \<longleftrightarrow> used sb D c \<or> c = b"
  shows "file_grows area sb D p D' p'" and "file_ok area sb D' p'" and "j < MAXFILE \<Longrightarrow> fdata D' p' j = fdata D p j"
proof -
  note bu = fs_ok_unused [OF ok b(2)]
  have bm: "BBLOCK b sb \<in> meta_blocks area sb" using fs_okD(4) [OF ok b(1)] by blast
  have nown: "b \<notin> own D p" using file_okD(2) [OF fo] b(2) by blast
  have own': "own D' p' \<subseteq> insert b (own D p)"
  proof
    fix c assume "c \<in> own D' p'"
    then obtain j where j: "j \<le> MAXFILE" "c = ptr D' p' j" "c \<noteq> 0" by (auto simp: own_def)
    then show "c \<in> insert b (own D p)" using ptr' own_ptr [of j D p] by (auto split: if_splits)
  qed
  have mx: "n = 0 \<or> n \<noteq> ptr D p MAXFILE" if "n \<notin> own D p" for n using that own_ptr [of MAXFILE D p] by auto
  have keep: "D' n = D n" if "n \<notin> own D p" "n \<noteq> b" "n \<noteq> BBLOCK b sb" for n using D'(1) mx [OF that(1)] that(2,3) by blast
  show "file_grows area sb D p D' p'"
    unfolding file_grows_def
  proof (intro conjI allI impI ballI)
    show "p' = p\<lparr>i_addrs := i_addrs p'\<rparr>" by (rule p'(1))
    show "ptr D' p' j = ptr D p j" if "j \<le> MAXFILE" "ptr D p j \<noteq> 0" for j using ptr' that k(2) by auto
    show "used sb D' c" if "c < sb_size sb" "used sb D c" for c using us that by blast
    show "c < sb_size sb" "\<not> used sb D c" if "c \<in> own D' p' - own D p" for c using own' that b by blast+
    show "D' (IBLOCK i sb) = D (IBLOCK i sb)" if i: "i < sb_ninodes sb" for i
    proof (rule keep)
      have m: "IBLOCK i sb \<in> meta_blocks area sb" using fs_okD(5) [OF ok i] by blast
      show "IBLOCK i sb \<noteq> BBLOCK b sb" using fs_okD(6) [OF ok b(1) i] by metis
      show "IBLOCK i sb \<notin> own D p" using m file_okD(2) [OF fo] by blast
      show "IBLOCK i sb \<noteq> b" using m bu(1) by blast
    qed
    show "D' c = D c" if c: "c < sb_size sb" "used sb D c \<and> c \<notin> meta_blocks area sb \<and> c \<notin> own D p" for c
      by (rule keep) (use c b bm in auto)
  qed
  show "file_ok area sb D' p'"
    unfolding file_ok_def
  proof (intro conjI allI impI ballI)
    show "length (i_addrs p') = NDIRECT + 1" by (rule p'(2))
    fix c assume "c \<in> own D' p'"
    then have c: "c = b \<or> c \<in> own D p" using own' by blast
    then show "c < sb_size sb" using b(1) file_okD(2) [OF fo] by blast
    then show "used sb D' c" using us c file_okD(2) [OF fo] by blast
    show "c \<notin> meta_blocks area sb" using c bu(1) file_okD(2) [OF fo] by blast
  next
    fix i j assume ij: "i \<le> MAXFILE" "j \<le> MAXFILE" "ptr D' p' i = ptr D' p' j \<and> ptr D' p' i \<noteq> 0"
    have "ptr D p m \<noteq> b" if "m \<le> MAXFILE" for m using own_ptr [OF that, of D p] nown bu(2) by auto
    then show "i = j" using ij ptr' file_okD(3) [OF fo ij(1,2)] by (auto split: if_splits)
  qed
  show "fdata D' p' j = fdata D p j" if j: "j < MAXFILE"
  proof (cases "ptr D p j = 0")
    case True
    then show ?thesis using ptr' j D'(2) by (auto simp: fdata_def)
  next
    case False
    then have o: "ptr D p j \<in> own D p" using j by (simp add: own_ptr)
    have "ptr D p j \<noteq> ptr D p MAXFILE" using file_okD(3) [OF fo, of j MAXFILE] False j by auto
    moreover have "ptr D p j \<noteq> b" "ptr D p j \<noteq> BBLOCK b sb" using o nown bm file_okD(2) [OF fo o] by auto
    ultimately have "D' (ptr D p j) = D (ptr D p j)" using D'(1) by blast
    moreover have "ptr D' p' j = ptr D p j" using ptr' j False k(2) by auto
    ultimately show ?thesis using False by (simp add: fdata_def)
  qed
qed

text \<open>New contents for a block of the file.\<close>

lemma set_block:
  fixes v :: block
  assumes ok: "fs_ok h area sb D" and fo: "file_ok area sb D p"
    and k: "k < MAXFILE" "ptr D p k \<noteq> 0"
  defines "D' \<equiv> D(ptr D p k := v)"
  shows "file_grows area sb D p D' p" and "file_ok area sb D' p" and "fs_ok h area sb D'"
    and "j < MAXFILE \<Longrightarrow> fdata D' p j = (if j = k then v else fdata D p j)"
    and "c < sb_size sb \<Longrightarrow> used sb D' c = used sb D c"
    and "j \<le> MAXFILE \<Longrightarrow> ptr D' p j = ptr D p j"
proof -
  let ?b = "ptr D p k"
  have o: "?b \<in> own D p" using k by (simp add: own_ptr)
  note ob = file_okD(2) [OF fo o]
  have nm: "?b \<noteq> BBLOCK c sb" if "c < sb_size sb" for c using fs_okD(4) [OF ok that] ob by auto
  have ni: "?b \<noteq> IBLOCK i sb" if "i < sb_ninodes sb" for i using fs_okD(5) [OF ok that] ob by auto
  show us: "used sb D' c = used sb D c" if "c < sb_size sb" for c
    using nm [OF that] by (simp add: used_def D'_def)
  have "?b \<noteq> ptr D p MAXFILE" using file_okD(3) [OF fo, of k MAXFILE] k by auto
  then show pt: "ptr D' p j = ptr D p j" if "j \<le> MAXFILE" for j
    by (simp add: ptr_def D'_def MAXFILE_def)
  have own': "own D' p = own D p" using pt by (auto simp: own_def image_iff)
  show "file_grows area sb D p D' p"
    unfolding file_grows_def own' using pt us o ni ni [THEN not_sym] by (auto simp: D'_def)
  show "file_ok area sb D' p"
    unfolding file_ok_def own' using file_okD [OF fo] pt us by metis
  have z: "0 < sb_size sb" using ob word_coorder.not_eq_extremum by fastforce
  show "fs_ok h area sb D'"
    by (rule fs_ok_mono [OF ok]) (use us [OF z] us fs_okD(3) [OF ok] in blast)+
  show "fdata D' p j = (if j = k then v else fdata D p j)" if "j < MAXFILE"
    using that k pt [of j] file_okD(3) [OF fo, of j k] by (auto simp: fdata_def D'_def)
qed

definition free_blocks :: "superblock \<Rightarrow> (uint \<Rightarrow> block) \<Rightarrow> uint set" where
  "free_blocks sb D = {b. b < sb_size sb \<and> \<not> used sb D b}"

lemma least_free:
  assumes "free_blocks sb D \<noteq> {}"
  obtains b where "b < sb_size sb" "\<not> used sb D b" "\<forall>c<b. used sb D c"
proof -
  define b where "b = Min (free_blocks sb D)"
  have f: "finite (free_blocks sb D)" by simp
  have "b \<in> free_blocks sb D" unfolding b_def by (rule Min_in [OF f assms])
  then have m: "b < sb_size sb" "\<not> used sb D b" by (simp_all add: free_blocks_def)
  have "used sb D c" if c: "c < b" for c
  proof (rule ccontr)
    assume "\<not> used sb D c"
    moreover have "c < sb_size sb" using c m(1) by simp
    ultimately have "c \<in> free_blocks sb D" by (simp add: free_blocks_def)
    then have "b \<le> c" unfolding b_def by (rule Min_le [OF f])
    with c show False by simp
  qed
  with m that show ?thesis by blast
qed

lemma card_free_alloc:
  assumes "b < sb_size sb" "\<not> used sb D b" "\<forall>c < sb_size sb. used sb D' c \<longleftrightarrow> used sb D c \<or> c = b"
  shows "card (free_blocks sb D) = Suc (card (free_blocks sb D'))"
proof -
  have "free_blocks sb D' = free_blocks sb D - {b}" using assms(3) by (auto simp: free_blocks_def)
  moreover have "b \<in> free_blocks sb D" using assms by (simp add: free_blocks_def)
  ultimately show ?thesis using card_Suc_Diff1 [of "free_blocks sb D" b] by simp
qed

lemma card_free_same: "(\<And>c. c < sb_size sb \<Longrightarrow> used sb D' c = used sb D c) \<Longrightarrow> card (free_blocks sb D') = card (free_blocks sb D)"
  unfolding free_blocks_def by (rule arg_cong [of _ _ card]) auto

section \<open>bmap\<close>

text \<open>A state in which the process works on the file \<open>p\<close> in slot \<open>ip\<close> of the inode cache.\<close>

definition file_view :: "('z fs_st_scheme \<Rightarrow> uint \<Rightarrow> bool) \<Rightarrow> ('z fs_st_scheme \<Rightarrow> uint \<Rightarrow> bool) \<Rightarrow> 
    'z fs_st_scheme \<Rightarrow> (uint \<Rightarrow> block) \<Rightarrow> uint list \<Rightarrow> nat \<Rightarrow> inode \<Rightarrow> bool" where
  "file_view ready has s D bs ip p \<longleftrightarrow> log_view ready has {} s D bs \<and> fs_inode s ip = p \<and> i_dev p = lg_dev s \<and>
     fs_ok (has s) (log_area s) (fs_sb s) D \<and> file_ok (log_area s) (fs_sb s) D p"

text \<open>What a routine on the file has done, with at most \<open>m\<close> more log entries and \<open>m\<close> blocks.\<close>

definition file_step :: "('z fs_st_scheme \<Rightarrow> uint \<Rightarrow> bool) \<Rightarrow> ('z fs_st_scheme \<Rightarrow> uint \<Rightarrow> bool) \<Rightarrow> 
    nat \<Rightarrow> nat \<Rightarrow> 'z fs_st_scheme \<Rightarrow> (uint \<Rightarrow> block) \<Rightarrow> uint list \<Rightarrow> inode \<Rightarrow>
    'z fs_st_scheme \<Rightarrow> (uint \<Rightarrow> block) \<Rightarrow> uint list \<Rightarrow> inode \<Rightarrow> bool" where
  "file_step ready has m ip s D bs p t D' bs' p' \<longleftrightarrow> file_view ready has t D' bs' ip p' \<and>
     file_grows (log_area s) (fs_sb s) D p D' p' \<and> keeps {} s t \<and> fs_sb t = fs_sb s \<and> fs_cwd t = fs_cwd s \<and>
     fs_st.more t = fs_st.more s \<and> fs_inode t = (fs_inode s)(ip := p') \<and> length bs' \<le> length bs + m \<and>
     card (free_blocks (fs_sb s) D) \<le> card (free_blocks (fs_sb s) D') + m"

context fs_device
begin

lemma file_step_refl: "file_view ready has s D bs ip p \<Longrightarrow> file_step ready has m ip s D bs p s D bs p"
  by (auto simp: file_step_def file_view_def)

lemma file_step_trans:
  assumes 1: "file_step ready has m ip s D bs p t D' bs' p'" and 2: "file_step ready has n ip t D' bs' p' u D'' bs'' p''"
  shows "file_step ready has (m + n) ip s D bs p u D'' bs'' p''"
proof -
  have "keeps {} s t" "fs_sb t = fs_sb s" using 1 by (simp_all add: file_step_def)
  note a = log_area_keeps [OF this(1)] this
  show ?thesis
    using 1 2 file_grows_trans [of "log_area s" "fs_sb s" D p D' p' D'' p''] keeps_trans [of "{}" s t u] a
    unfolding file_step_def by auto
qed

lemma file_step_mono: "file_step ready has m ip s D bs p t D' bs' p' \<Longrightarrow> m \<le> n \<Longrightarrow> file_step ready has n ip s D bs p t D' bs' p'"
  by (simp add: file_step_def)

lemma file_view_area: "file_step ready has m ip s D bs p t D' bs' p' \<Longrightarrow> log_area t = log_area s \<and> fs_sb t = fs_sb s \<and> has t = has s \<and> lg_dev t = lg_dev s"
  unfolding file_step_def using log_area_keeps keeps_has_fun by (metis keeps_def)

lemma set_addr_apply [simp]: "set_addr ip i a s = Ok () (iupd ip (\<lambda>p. p\<lparr>i_addrs := (i_addrs p)[i := a]\<rparr>) s)"
  by (simp add: set_addr_def)

lemma iupd_fields [simp]:
  "fs_inode (iupd ip f s) = (fs_inode s)(ip := f (fs_inode s ip))" "fs_sb (iupd ip f s) = fs_sb s"
  "fs_cwd (iupd ip f s) = fs_cwd s" "fs_st.more (iupd ip f s) = fs_st.more s" "lg_dev (iupd ip f s) = lg_dev s"
  "lg_start (iupd ip f s) = lg_start s" "d_buf (iupd ip f s) = d_buf s" "keeps H s' (iupd ip f s) = keeps H s' s"
  "log_area (iupd ip f s) = log_area s" "d_pid (iupd ip f s) = d_pid s"
  for s :: "'a fs_st_scheme"
  by (simp_all add: iupd_def keeps_def same_hw_def log_area_def)

lemma iupd_view: "log_view ready has H (iupd ip f s) D bs = log_view ready has H s D bs"
proof -
  have hw: "same_hw s (iupd ip f s)" by (simp add: same_hw_def iupd_def)
  have "log_names ready has (iupd ip f s) bs = log_names ready has s bs"
    using env_ready [OF hw] by (simp add: log_names_def log_area_def iupd_def)
  moreover have "content (iupd ip f s) = content s" by (simp add: content_def fun_eq_iff iupd_def split: option.split)
  ultimately show ?thesis
    by (simp add: log_view_def cache_inv_def ring_def buf_ok_def holds_def dirty_set_def iupd_def Let_def)
qed

lemma has_iupd: "has (iupd ip f s) = has s"
  using keeps_has_fun [of "{}" s "iupd ip f s"] by simp

text \<open>Allocating a block for the file and storing its address in the inode.\<close>

definition ptr_index :: "nat \<Rightarrow> nat" where
  "ptr_index i = (if i < NDIRECT then i else MAXFILE)"

lemma alloc_addr:
  assumes fv: "file_view ready has s D bs ip p" and i: "i \<le> NDIRECT" "i_addrs p ! i = 0"
    and b: "b < sb_size (fs_sb s)" "\<not> used (fs_sb s) D b"
  defines "p' \<equiv> p\<lparr>i_addrs := (i_addrs p)[i := b]\<rparr>" and "D' \<equiv> alloc_view (fs_sb s) b D"
  shows "file_grows (log_area s) (fs_sb s) D p D' p'" and "file_ok (log_area s) (fs_sb s) D' p'"
    and "j < MAXFILE \<Longrightarrow> fdata D' p' j = fdata D p j" and "ptr D' p' (ptr_index i) = b"
    and "fs_ok (has s) (log_area s) (fs_sb s) D'"
    and "card (free_blocks (fs_sb s) D) = Suc (card (free_blocks (fs_sb s) D'))"
proof -
  have ok: "fs_ok (has s) (log_area s) (fs_sb s) D" and fo: "file_ok (log_area s) (fs_sb s) D p"
    and len: "\<forall>n. length (D n) = BSIZE"
    using fv view_length unfolding file_view_def by blast+
  have al: "length (i_addrs p) = NDIRECT + 1" by (rule file_okD(1) [OF fo])
  have k: "ptr_index i \<le> MAXFILE" "ptr D p (ptr_index i) = 0"
    using i ptr_eqs(1) [of i D p] ptr_eqs(2) [of D p] by (cases "i = NDIRECT"; simp add: ptr_index_def MAXFILE_def)+
  have eq: "p' = p\<lparr>i_addrs := i_addrs p'\<rparr>" "length (i_addrs p') = NDIRECT + 1"
    using al by (simp_all add: p'_def)
  note fa = fs_ok_alloc [OF ok len b, folded D'_def]
  show "fs_ok (has s) (log_area s) (fs_sb s) D'" by (rule fa(2))
  have us: "\<forall>c < sb_size (fs_sb s). used (fs_sb s) D' c \<longleftrightarrow> used (fs_sb s) D c \<or> c = b" using fa(1) by blast
  show "card (free_blocks (fs_sb s) D) = Suc (card (free_blocks (fs_sb s) D'))"
    by (rule card_free_alloc [OF b us])
  have nown: "b \<notin> own D p" using file_okD(2) [OF fo] b(2) by blast
  have D': "\<forall>n. n \<noteq> b \<and> n \<noteq> BBLOCK b (fs_sb s) \<and> (n = 0 \<or> n \<noteq> ptr D p MAXFILE) \<longrightarrow> D' n = D n" "D' b = replicate BSIZE 0"
    by (simp_all add: D'_def alloc_view_def)
  have ind: "D' (ptr D p MAXFILE) = D (ptr D p MAXFILE)" if "ptr D p MAXFILE \<noteq> 0"
  proof -
    have o: "ptr D p MAXFILE \<in> own D p" by (rule own_ptr) (use that in simp_all)
    then have "ptr D p MAXFILE \<noteq> BBLOCK b (fs_sb s)" using fs_okD(4) [OF ok b(1)] file_okD(2) [OF fo o] by auto
    moreover have "ptr D p MAXFILE \<noteq> b" using o nown by auto
    ultimately show ?thesis by (simp add: D'_def alloc_view_def)
  qed
  have ptr': "\<forall>j\<le>MAXFILE. ptr D' p' j = (if j = ptr_index i then b else ptr D p j)"
  proof (intro allI impI)
    fix j assume j: "j \<le> MAXFILE"
    have mx: "ptr D' p' MAXFILE = (if i = NDIRECT then b else ptr D p MAXFILE)"
      using i al by (simp add: ptr_eqs p'_def)
    consider "j < NDIRECT" | "j = MAXFILE" | "NDIRECT \<le> j" "j < MAXFILE" using j by linarith
    then show "ptr D' p' j = (if j = ptr_index i then b else ptr D p j)"
    proof cases
      case 1
      then show ?thesis using i al by (auto simp: ptr_eqs p'_def ptr_index_def MAXFILE_def nth_list_update)
    next
      case 2
      then show ?thesis using mx i by (auto simp: ptr_index_def MAXFILE_def NINDIRECT_def BSIZE_def)
    next
      case 3
      then have jn: "j \<noteq> ptr_index i" by (auto simp: ptr_index_def)
      show ?thesis
      proof (cases "i = NDIRECT")
        case True
        then have "ptr D p MAXFILE = 0" using i by (simp add: ptr_eqs)
        then show ?thesis using 3 jn mx True D'(2) by (simp add: ptr_eqs(3))
      next
        case False
        then show ?thesis using 3 jn mx ind by (simp add: ptr_eqs(3))
      qed
    qed
  qed
  then show "ptr D' p' (ptr_index i) = b" using k(1) by simp
  note np = new_ptr [OF ok fo b k eq ptr' D' us]
  show "file_grows (log_area s) (fs_sb s) D p D' p'" and "file_ok (log_area s) (fs_sb s) D' p'"
    and "j < MAXFILE \<Longrightarrow> fdata D' p' j = fdata D p j"
    using np by blast+
qed

lemma addr_or_alloc_view:
  assumes fv: "file_view ready has s D bs ip p" and i: "i \<le> NDIRECT" and room: "length bs < 28"
    and free: "i_addrs p ! i = 0 \<Longrightarrow> free_blocks (fs_sb s) D \<noteq> {}"
  obtains t D' bs' p' where "addr_or_alloc rw ip i s = Ok (ptr D' p' (ptr_index i)) t" "ptr D' p' (ptr_index i) \<noteq> 0"
    "file_step ready has (if i_addrs p ! i = 0 then 2 else 0) ip s D bs p t D' bs' p'" "\<forall>j<MAXFILE. fdata D' p' j = fdata D p j"
    "i_addrs p ! i \<noteq> 0 \<longrightarrow> t = s \<and> D' = D \<and> bs' = bs \<and> p' = p"
proof (cases "i_addrs p ! i = 0")
  case False
  have p: "fs_inode s ip = p" using fv by (simp add: file_view_def)
  have pi: "ptr D p (ptr_index i) = i_addrs p ! i" using i by (auto simp: ptr_index_def ptr_eqs)
  show ?thesis
    by (rule that [of D p s bs]) (use False p pi file_step_refl [OF fv] in \<open>auto simp: addr_or_alloc_def Let_def\<close>)
next
  case True
  have v: "log_view ready has {} s D bs" and p: "fs_inode s ip = p" and dev: "i_dev p = lg_dev s"
    and ok: "fs_ok (has s) (log_area s) (fs_sb s) D"
    using fv by (simp_all add: file_view_def)
  obtain b where b: "b < sb_size (fs_sb s)" "\<not> used (fs_sb s) D b" "\<forall>c<b. used (fs_sb s) D c"
    by (rule least_free [OF free [OF True]])
  define D' where "D' = alloc_view (fs_sb s) b D"
  define bs' where "bs' = logged (logged bs (BBLOCK b (fs_sb s))) b"
  define p' where "p' = p\<lparr>i_addrs := (i_addrs p)[i := b]\<rparr>"
  have h: "held_ok {} s D" and r: "length bs + card ({} :: nat set) + 1 < NBUF" using room by (simp_all add: held_ok_def NBUF_def)
  obtain t where t: "balloc rw (lg_dev s) s = Ok b t" "log_view ready has {} t D' bs'" "keeps {} s t" "log_st.more t = log_st.more s"
    by (rule balloc_view [OF v ok h r room b, folded D'_def bs'_def])
  note m = fs_more [OF t(4)]
  note aa = alloc_addr [OF fv i True b(1,2), folded D'_def p'_def]
  define u where "u = iupd ip (\<lambda>p. p\<lparr>i_addrs := (i_addrs p)[i := b]\<rparr>) t"
  have e: "addr_or_alloc rw ip i s = Ok b u"
    using True p dev t(1) by (simp add: addr_or_alloc_def kbind_def kthen_def u_def)
  have a: "log_area t = log_area s" "has t = has s" "lg_dev t = lg_dev s"
    using log_area_keeps [OF t(3)] keeps_has_fun [OF t(3)] t(3) by (simp_all add: keeps_def)
  have pu: "fs_inode u = (fs_inode s)(ip := p')" using m p by (simp add: u_def p'_def)
  have dp: "i_dev p' = lg_dev s" using dev by (simp add: p'_def)
  have uf: "log_area u = log_area s" "has u = has s" "lg_dev u = lg_dev s" "fs_sb u = fs_sb s" "fs_cwd u = fs_cwd s"
      "fs_st.more u = fs_st.more s" "keeps {} s u" "log_view ready has {} u D' bs'"
    using a m t(2,3) by (simp_all add: u_def iupd_view has_iupd)
  have fvu: "file_view ready has u D' bs' ip p'"
    unfolding file_view_def uf(1-4) using uf(8) pu dp aa(2,5) by simp
  have "length bs' \<le> length bs + 2"
    using length_logged [of bs "BBLOCK b (fs_sb s)"] length_logged [of "logged bs (BBLOCK b (fs_sb s))" b] by (simp add: bs'_def)
  then have fs: "file_step ready has 2 ip s D bs p u D' bs' p'"
    unfolding file_step_def using fvu aa(1,6) uf pu by simp
  have b0: "b \<noteq> 0" using fs_ok_unused(2) [OF ok b(2)] .
  show ?thesis
    by (rule that [of D' p' u bs']) (use e aa(3,4) fs b0 True in simp_all)
qed

text \<open>A block of the file through its indirect block.\<close>

lemma alloc_indirect:
  assumes fv: "file_view ready has s D bs ip p" and k: "NDIRECT \<le> k" "k < MAXFILE" "ptr D p k = 0" "ptr D p MAXFILE \<noteq> 0"
    and b: "b < sb_size (fs_sb s)" "\<not> used (fs_sb s) D b"
  defines "D' \<equiv> (alloc_view (fs_sb s) b D)
    (ptr D p MAXFILE := put32 (4 * (k - NDIRECT)) b (D (ptr D p MAXFILE)))"
  shows "file_grows (log_area s) (fs_sb s) D p D' p" and "file_ok (log_area s) (fs_sb s) D' p"
    and "j < MAXFILE \<Longrightarrow> fdata D' p j = fdata D p j" and "ptr D' p k = b"
    and "fs_ok (has s) (log_area s) (fs_sb s) D'"
    and "card (free_blocks (fs_sb s) D) = Suc (card (free_blocks (fs_sb s) D'))"
proof -
  let ?a = "ptr D p MAXFILE" and ?sb = "fs_sb s"
  have ok: "fs_ok (has s) (log_area s) (fs_sb s) D" and fo: "file_ok (log_area s) (fs_sb s) D p"
    and len: "\<forall>n. length (D n) = BSIZE"
    using fv view_length unfolding file_view_def by blast+
  have o: "?a \<in> own D p" by (rule own_ptr) (use k in simp_all)
  note oa = file_okD(2) [OF fo o]
  have nB: "?a \<noteq> BBLOCK c ?sb" if "c < sb_size ?sb" for c using fs_okD(4) [OF ok that] oa by auto
  have ab: "?a \<noteq> b" using oa b by auto
  have us: "used ?sb D' c \<longleftrightarrow> used ?sb D c \<or> c = b" if "c < sb_size ?sb" for c
    using fs_ok_alloc(1) [OF ok len b that] nB [OF that] by (simp add: used_def D'_def)
  then have us': "\<forall>c < sb_size ?sb. used ?sb D' c \<longleftrightarrow> used ?sb D c \<or> c = b" by blast
  show "card (free_blocks ?sb D) = Suc (card (free_blocks ?sb D'))" by (rule card_free_alloc [OF b us'])
  have z: "0 < sb_size ?sb" using b(1) word_coorder.not_eq_extremum by fastforce
  show "fs_ok (has s) (log_area s) ?sb D'"
    by (rule fs_ok_mono [OF ok]) (use us [OF z] us fs_okD(3) [OF ok] in blast)+
  have D': "\<forall>n. n \<noteq> b \<and> n \<noteq> BBLOCK b ?sb \<and> (n = 0 \<or> n \<noteq> ?a) \<longrightarrow> D' n = D n" "D' b = replicate BSIZE 0"
    using k(4) ab by (auto simp: D'_def alloc_view_def)
  have ptr': "\<forall>j\<le>MAXFILE. ptr D' p j = (if j = k then b else ptr D p j)"
  proof (intro allI impI)
    fix j assume "j \<le> MAXFILE"
    then consider "j < NDIRECT" | "j = MAXFILE" | "NDIRECT \<le> j" "j < MAXFILE" by linarith
    then show "ptr D' p j = (if j = k then b else ptr D p j)"
    proof cases
      case 1
      then show ?thesis using k by (simp add: ptr_eqs)
    next
      case 2
      then show ?thesis using k by (simp add: ptr_eqs)
    next
      case 3
      have a': "ptr D' p MAXFILE = ?a" by (simp add: ptr_eqs(2))
      have bd: "4 * (i - NDIRECT) + 4 \<le> BSIZE" if "NDIRECT \<le> i" "i < MAXFILE" for i
        using that by (simp add: MAXFILE_def NDIRECT_def NINDIRECT_def BSIZE_def)
      have da: "D' ?a = put32 (4 * (k - NDIRECT)) b (D ?a)" by (simp add: D'_def)
      have "get32 (4 * (j - NDIRECT)) (D' ?a) = (if j = k then b else get32 (4 * (j - NDIRECT)) (D ?a))"
      proof (cases "j = k")
        case True
        then show ?thesis unfolding da using bd [OF k(1,2)] len by (simp add: get32_put32)
      next
        case False
        then have "4 * (j - NDIRECT) + 4 \<le> 4 * (k - NDIRECT) \<or> 4 * (k - NDIRECT) + 4 \<le> 4 * (j - NDIRECT)"
          using 3 k(1) by linarith
        then show ?thesis unfolding da using False bd [OF k(1,2)] bd [OF 3] len by (simp add: get32_put32_other)
      qed
      then show ?thesis using 3 k(4) a' by (simp add: ptr_eqs(3))
    qed
  qed
  then show "ptr D' p k = b" using k(2) by simp
  have k': "k \<le> MAXFILE" using k(2) by simp
  have eq: "p = p\<lparr>i_addrs := i_addrs p\<rparr>" "length (i_addrs p) = NDIRECT + 1" using file_okD(1) [OF fo] by simp_all
  note np = new_ptr [OF ok fo b k' k(3) eq ptr' D' us']
  show "file_grows (log_area s) ?sb D p D' p" and "file_ok (log_area s) ?sb D' p"
    and "j < MAXFILE \<Longrightarrow> fdata D' p j = fdata D p j"
    using np by blast+
qed

end

text \<open>The part of bmap behind the indirect block.\<close>

definition indirect_addr :: "'z fs_driver \<Rightarrow> nat \<Rightarrow> nat \<Rightarrow> uint \<Rightarrow> ('z, uint) fs_routine" where
  "indirect_addr rw ip i addr =
     kbind (\<lambda>s. bread rw (i_dev (fs_inode s ip)) addr s) (\<lambda>bp.
     kbind (\<lambda>s. let addr = get32 (4 * i) (b_data (d_buf s bp)) in
         if addr = 0 then
           kbind (balloc rw (i_dev (fs_inode s ip))) (\<lambda>a.
           kthen (set_data bp (put32 (4 * i) a))
           (kthen (log_write bp)
           (kret a))) s
         else Ok addr s) (\<lambda>addr.
     kthen (brelse bp)
     (kret addr)))"

context fs_device
begin

lemma indirect_addr_view:
  assumes fv: "file_view ready has s D bs ip p" and k: "NDIRECT \<le> k" "k < MAXFILE" "ptr D p MAXFILE \<noteq> 0" and room: "length bs < 26"
    and free: "ptr D p k = 0 \<Longrightarrow> free_blocks (fs_sb s) D \<noteq> {}"
  obtains t D' bs' where "indirect_addr rw ip (k - NDIRECT) (ptr D p MAXFILE) s = Ok (ptr D' p k) t" "ptr D' p k \<noteq> 0"
    "file_step ready has (if ptr D p k = 0 then 3 else 0) ip s D bs p t D' bs' p" "\<forall>j<MAXFILE. fdata D' p j = fdata D p j"
    "ptr D p k \<noteq> 0 \<longrightarrow> D' = D \<and> bs' = bs"
proof -
  let ?a = "ptr D p MAXFILE" and ?sb = "fs_sb s" and ?i = "k - NDIRECT"
  have v: "log_view ready has {} s D bs" and p: "fs_inode s ip = p" and dev: "i_dev p = lg_dev s"
    and ok: "fs_ok (has s) (log_area s) ?sb D" and fo: "file_ok (log_area s) ?sb D p"
    using fv by (simp_all add: file_view_def)
  have o: "?a \<in> own D p" by (rule own_ptr) (use k in simp_all)
  note oa = file_okD(2) [OF fo o]
  have ha: "has s ?a" "?a \<notin> log_area s" using fs_okD(1) [OF ok] fs_okD(7) [OF ok, of ?a] oa by blast+
  have r0: "length bs + card ({} :: nat set) < NBUF" using room by (simp add: NBUF_def)
  obtain bp s1 where 1: "bread rw (lg_dev s) ?a s = Ok bp s1" "log_view ready has {bp} s1 D bs"
      "is_block (lg_dev s) ?a (d_buf s1 bp)" "b_data (d_buf s1 bp) = D ?a" "keeps {} s s1" "log_st.more s1 = log_st.more s"
    by (rule bread_view [OF v ha(1) _ r0]) auto
  note m1 = fs_more [OF 1(6)]
  have e1: "lg_dev s1 = lg_dev s" "log_area s1 = log_area s" "has s1 = has s"
    using 1(5) log_area_keeps [OF 1(5)] keeps_has_fun [OF 1(5)] by (simp_all add: keeps_def)
  have word: "get32 (4 * ?i) (b_data (d_buf s1 bp)) = ptr D p k"
    unfolding 1(4) using ptr_eqs(3) [OF k(1,2), of D p] k(3) by simp
  show ?thesis
  proof (cases "ptr D p k = 0")
    case False
    obtain t where t: "brelse bp s1 = Ok () t" "log_view ready has ({bp} - {bp}) t D bs" "keeps ({bp} - {bp}) s1 t" "log_st.more t = log_st.more s1"
      by (rule brelse_view [OF 1(2) _ 1(3) [folded e1(1)]]) (simp_all add: 1(4))
    note mt = fs_more [OF t(4)]
    have kt: "keeps {} s t" using keeps_trans [OF 1(5)] t(3) by simp
    have et: "log_area t = log_area s" "has t = has s" "lg_dev t = lg_dev s"
      using log_area_keeps [OF kt] keeps_has_fun [OF kt] kt by (simp_all add: keeps_def)
    have e: "indirect_addr rw ip ?i ?a s = Ok (ptr D p k) t"
      using 1(1) t(1) p dev word False by (simp add: indirect_addr_def kbind_def kthen_def Let_def)
    have "file_view ready has t D bs ip p"
      unfolding file_view_def using t(2) mt m1 p dev et ok fo by simp
    then have "file_step ready has 0 ip s D bs p t D bs p"
      unfolding file_step_def using kt mt m1 p by (auto simp: fun_eq_iff)
    then show ?thesis by (intro that [of D t bs]) (use e False in simp_all)
  next
    case True
    obtain b where b: "b < sb_size ?sb" "\<not> used ?sb D b" "\<forall>c<b. used ?sb D c"
      by (rule least_free [OF free [OF True]])
    have ok1: "fs_ok (has s1) (log_area s1) (fs_sb s1) D" using ok e1 m1 by simp
    have h1: "held_ok {bp} s1 D" using 1(3) oa e1 m1 by (simp add: held_ok_def is_block_def)
    have r1: "length bs + card {bp} + 1 < NBUF" "length bs < 28" using room by (simp_all add: NBUF_def)
    define bs2 where "bs2 = logged (logged bs (BBLOCK b ?sb)) b"
    obtain s2 where 2: "balloc rw (lg_dev s1) s1 = Ok b s2" "log_view ready has {bp} s2 (alloc_view ?sb b D) bs2"
        "keeps {bp} s1 s2" "log_st.more s2 = log_st.more s1"
      by (rule balloc_view [OF 1(2) ok1 h1 r1]) (use b m1 in \<open>auto simp: bs2_def\<close>)
    note m2 = fs_more [OF 2(4)]
    have b2: "d_buf s2 bp = d_buf s1 bp" using 2(3) by (simp add: keeps_def)
    have k2: "keeps {} s s2" using keeps_trans [OF 1(5) keeps_mono [OF 2(3)]] by simp
    have e2: "log_area s2 = log_area s" "has s2 = has s" "lg_dev s2 = lg_dev s"
      using log_area_keeps [OF k2] keeps_has_fun [OF k2] k2 by (simp_all add: keeps_def)
    let ?x = "put32 (4 * ?i) b (D ?a)"
    have x: "length ?x = BSIZE"
      using view_length [OF v] k by (simp add: MAXFILE_def NDIRECT_def NINDIRECT_def BSIZE_def)
    have l2: "length bs2 \<le> length bs + 2"
      using length_logged [of bs "BBLOCK b ?sb"] length_logged [of "logged bs (BBLOCK b ?sb)" b] by (simp add: bs2_def)
    define D' where "D' = (alloc_view ?sb b D)(?a := ?x)"
    define bs' where "bs' = logged bs2 ?a"
    have n2: "is_block (lg_dev s2) ?a (d_buf s2 bp)" "has s2 ?a" "?a \<notin> log_area s2" "length bs2 < 29"
      using 1(3) b2 e2 ha l2 room by simp_all
    obtain s3 where 3: "log_write bp (bupd bp (\<lambda>p. p\<lparr>b_data := ?x\<rparr>) s2) = Ok () s3" "log_view ready has {bp} s3 D' bs'"
        "is_block (lg_dev s2) ?a (d_buf s3 bp)" "b_data (d_buf s3 bp) = ?x" "keeps ({bp} - {bp}) s2 s3" "log_st.more s3 = log_st.more s2"
      by (rule log_write_view [OF 2(2) _ n2(1-3) x n2(4)]) (auto simp: D'_def bs'_def)
    note m3 = fs_more [OF 3(6)]
    have k3: "keeps {} s s3" using keeps_trans [OF k2] 3(5) by simp
    have d3: "lg_dev s3 = lg_dev s2" using 3(5) by (simp add: keeps_def)
    obtain t where t: "brelse bp s3 = Ok () t" "log_view ready has ({bp} - {bp}) t D' bs'" "keeps ({bp} - {bp}) s3 t" "log_st.more t = log_st.more s3"
      by (rule brelse_view [OF 3(2) _ 3(3) [folded d3]]) (simp_all add: 3(4) D'_def)
    note mt = fs_more [OF t(4)]
    have kt: "keeps {} s t" using keeps_trans [OF k3] t(3) by simp
    have et: "log_area t = log_area s" "has t = has s" "lg_dev t = lg_dev s"
      using log_area_keeps [OF kt] keeps_has_fun [OF kt] kt by (simp_all add: keeps_def)
    have "get32 (4 * ?i) (D ?a) = 0" using word True 1(4) by simp
    then have e: "indirect_addr rw ip ?i ?a s = Ok b t"
      using 1(1,4) 2(1) 3(1) t(1) p dev b2 m1 e1 by (simp add: indirect_addr_def kbind_def kthen_def Let_def)
    note ai = alloc_indirect [OF fv k(1,2) True k(3) b(1,2), folded D'_def]
    have pt: "fs_inode t = fs_inode s" "fs_sb t = ?sb" "fs_cwd t = fs_cwd s" "fs_st.more t = fs_st.more s"
      using mt m3 m2 m1 by simp_all
    have "file_view ready has t D' bs' ip p"
      unfolding file_view_def using t(2) pt p dev et ai(2,5) by simp
    moreover have "length bs' \<le> length bs + 3" using l2 length_logged [of bs2 ?a] by (simp add: bs'_def)
    ultimately have "file_step ready has 3 ip s D bs p t D' bs' p"
      unfolding file_step_def using kt pt p ai(1,6) by (auto simp: fun_eq_iff)
    moreover have "b \<noteq> 0" using fs_ok_unused(2) [OF ok b(2)] .
    ultimately show ?thesis by (intro that [of D' t bs']) (use e ai(3,4) True in simp_all)
  qed
qed

text \<open>bmap gives the block, which is there afterwards, and changes no byte of the file.\<close>

lemma bmap_view:
  assumes fv: "file_view ready has s D bs ip p" and k: "k < MAXFILE" and room: "length bs < 24"
    and free: "ptr D p k = 0 \<Longrightarrow> 3 \<le> card (free_blocks (fs_sb s) D)"
  obtains t D' bs' p' where "bmap rw ip (of_nat k) s = Ok (ptr D' p' k) t" "ptr D' p' k \<noteq> 0"
    "file_step ready has (if ptr D p k = 0 then 5 else 0) ip s D bs p t D' bs' p'" "\<forall>j<MAXFILE. fdata D' p' j = fdata D p j"
    "ptr D p k \<noteq> 0 \<longrightarrow> D' = D \<and> bs' = bs \<and> p' = p"
proof -
  have k32: "unat (of_nat k :: uint) = k" using k by (intro unat_of_nat32) (simp add: MAXFILE_def NDIRECT_def NINDIRECT_def BSIZE_def)
  have nd: "(of_nat k :: uint) < of_nat NDIRECT \<longleftrightarrow> k < NDIRECT"
    using k32 by (simp add: word_less_nat_alt NDIRECT_def)
  have fne: "free_blocks (fs_sb s) D \<noteq> {}" if "ptr D p k = 0" using free [OF that] by auto
  have p: "fs_inode s ip = p" using fv by (simp add: file_view_def)
  show ?thesis
  proof (cases "k < NDIRECT")
    case True
    have e: "bmap rw ip (of_nat k) s = addr_or_alloc rw ip k s" using True nd k32 by (simp add: bmap_def)
    have pk: "ptr_index k = k" "i_addrs p ! k = ptr D p k" using True by (simp_all add: ptr_index_def ptr_eqs)
    have kd: "k \<le> NDIRECT" "length bs < 28" using True room by simp_all
    obtain t D' bs' p' where t: "addr_or_alloc rw ip k s = Ok (ptr D' p' (ptr_index k)) t" "ptr D' p' (ptr_index k) \<noteq> 0"
      "file_step ready has (if i_addrs p ! k = 0 then 2 else 0) ip s D bs p t D' bs' p'" "\<forall>j<MAXFILE. fdata D' p' j = fdata D p j"
      "i_addrs p ! k \<noteq> 0 \<longrightarrow> t = s \<and> D' = D \<and> bs' = bs \<and> p' = p"
      by (rule addr_or_alloc_view [OF fv kd]) (use fne pk in auto)
    have "file_step ready has (if ptr D p k = 0 then 5 else 0) ip s D bs p t D' bs' p'"
      using t(3) unfolding pk by (auto simp: file_step_def split: if_splits)
    then show ?thesis by (intro that [of D' p' t bs']) (use t e pk in simp_all)
  next
    case False
    then have kn: "NDIRECT \<le> k" by simp
    have u: "unat (of_nat k - of_nat NDIRECT :: uint) = k - NDIRECT"
      using kn k32 by (subst unat_sub) (simp_all add: word_le_nat_alt NDIRECT_def)
    have ni: "of_nat k - of_nat NDIRECT < (of_nat NINDIRECT :: uint)"
      using u k kn by (simp add: word_less_nat_alt MAXFILE_def NDIRECT_def NINDIRECT_def BSIZE_def)
    have e: "bmap rw ip (of_nat k) = kbind (addr_or_alloc rw ip NDIRECT) (indirect_addr rw ip (k - NDIRECT))"
      using False nd ni by (simp add: bmap_def indirect_addr_def [abs_def] Let_def u cong: if_cong)
    have px: "ptr_index NDIRECT = MAXFILE" "i_addrs p ! NDIRECT = ptr D p MAXFILE" by (simp_all add: ptr_index_def ptr_eqs)
    have pz: "ptr D p k = 0" if "ptr D p MAXFILE = 0" using ptr_eqs(3) [OF kn k, of D p] that by simp
    have r28: "length bs < 28" using room by simp
    obtain s1 D1 bs1 p1 where 1: "addr_or_alloc rw ip NDIRECT s = Ok (ptr D1 p1 MAXFILE) s1" "ptr D1 p1 MAXFILE \<noteq> 0"
      "file_step ready has (if ptr D p MAXFILE = 0 then 2 else 0) ip s D bs p s1 D1 bs1 p1" "\<forall>j<MAXFILE. fdata D1 p1 j = fdata D p j"
      "ptr D p MAXFILE \<noteq> 0 \<longrightarrow> s1 = s \<and> D1 = D \<and> bs1 = bs \<and> p1 = p"
      by (rule addr_or_alloc_view [OF fv order.refl r28, unfolded px]) (use fne pz in auto)
    have fv1: "file_view ready has s1 D1 bs1 ip p1" using 1(3) by (simp add: file_step_def)
    have r1: "length bs1 < 26" using 1(3) room by (auto simp: file_step_def split: if_splits)
    have sb1: "fs_sb s1 = fs_sb s" using 1(3) by (simp add: file_step_def)
    have pk1: "ptr D p k = 0" if "ptr D1 p1 k = 0"
      using 1(3) that file_growsD(2) [of "log_area s" "fs_sb s" D p D1 p1 k] k by (auto simp: file_step_def)
    have f1: "free_blocks (fs_sb s1) D1 \<noteq> {}" if z: "ptr D1 p1 k = 0"
    proof (cases "ptr D p MAXFILE = 0")
      case False
      then show ?thesis using 1(5) fne [OF pk1 [OF z]] by simp
    next
      case True
      have "1 \<le> card (free_blocks (fs_sb s) D1)"
        using 1(3) True free [OF pk1 [OF z]] by (simp add: file_step_def)
      then show ?thesis using sb1 by auto
    qed
    obtain t D' bs' where t: "indirect_addr rw ip (k - NDIRECT) (ptr D1 p1 MAXFILE) s1 = Ok (ptr D' p1 k) t" "ptr D' p1 k \<noteq> 0"
      "file_step ready has (if ptr D1 p1 k = 0 then 3 else 0) ip s1 D1 bs1 p1 t D' bs' p1" "\<forall>j<MAXFILE. fdata D' p1 j = fdata D1 p1 j"
      "ptr D1 p1 k \<noteq> 0 \<longrightarrow> D' = D1 \<and> bs' = bs1"
      by (rule indirect_addr_view [OF fv1 kn k 1(2) r1 f1])
    have "file_step ready has (if ptr D p k = 0 then 5 else 0) ip s D bs p t D' bs' p1"
    proof (cases "ptr D p k = 0")
      case True
      then show ?thesis using file_step_trans [OF 1(3) t(3)] by (auto elim!: file_step_mono split: if_splits)
    next
      case False
      then have "ptr D p MAXFILE \<noteq> 0" "ptr D1 p1 k \<noteq> 0" using pz pk1 by blast+
      then show ?thesis using file_step_trans [OF 1(3) t(3)] False by simp
    qed
    then show ?thesis
      by (intro that [of D' p1 t bs']) (use e 1 t pz in \<open>auto simp: kbind_def\<close>)
  qed
qed

end

end
