(* ===== verification/FsIO.thy ===== *)
theory FsIO
  imports FsFile
begin

text \<open>
  readi and writei on the bytes of a file, and what is found on the disk inode afterwards.
\<close>

section \<open>Bytes of a file\<close>

definition fbyte :: "(uint \<Rightarrow> block) \<Rightarrow> inode \<Rightarrow> nat \<Rightarrow> uchar" where
  "fbyte D p x = fdata D p (x div BSIZE) ! (x mod BSIZE)"

text \<open>The number of blocks that hold some byte of the range.\<close>

definition nblocks :: "nat \<Rightarrow> nat \<Rightarrow> nat" where
  "nblocks off n = (if n = 0 then 0 else (off mod BSIZE + n + BSIZE - 1) div BSIZE)"

lemma BSIZE_pos [simp]: "0 < BSIZE" "BSIZE \<noteq> 0"
  by (simp_all add: BSIZE_def)

lemma in_block: "x div BSIZE = k \<longleftrightarrow> k * BSIZE \<le> x \<and> x < k * BSIZE + BSIZE"
proof
  assume k: "x div BSIZE = k"
  have "x = x div BSIZE * BSIZE + x mod BSIZE" "x mod BSIZE < BSIZE" by simp_all
  then show "k * BSIZE \<le> x \<and> x < k * BSIZE + BSIZE" unfolding k by linarith
next
  assume x: "k * BSIZE \<le> x \<and> x < k * BSIZE + BSIZE"
  then obtain r where "x = k * BSIZE + r" "r < BSIZE" using le_Suc_ex by fastforce
  then show "x div BSIZE = k" by simp
qed

lemma block_offset: "x div BSIZE = k \<Longrightarrow> x mod BSIZE = x - k * BSIZE"
  using minus_div_mult_eq_mod [of x BSIZE] by simp

text \<open>One round of the loops takes \<open>m\<close> bytes of the block \<open>off div BSIZE\<close>.\<close>

lemma nblocks_step:
  assumes "n \<noteq> 0" and m: "m = min n (BSIZE - off mod BSIZE)"
  shows "nblocks off n = Suc (nblocks (off + m) (n - m))"
proof (cases "n \<le> BSIZE - off mod BSIZE")
  case True
  then have "m = n" using m by simp
  moreover have o: "off mod BSIZE < BSIZE" by simp
  then have "off mod BSIZE + n + BSIZE - 1 < BSIZE + BSIZE" "BSIZE \<le> off mod BSIZE + n + BSIZE - 1"
    using True assms(1) by linarith+
  then have "(off mod BSIZE + n + BSIZE - 1) div BSIZE = 1" by (simp add: in_block)
  ultimately show ?thesis using assms(1) by (simp add: nblocks_def)
next
  case False
  have o: "off mod BSIZE < BSIZE" by simp
  have mm: "m = BSIZE - off mod BSIZE" using False m by simp
  then have "off + m = off div BSIZE * BSIZE + BSIZE"
    using o div_mult_mod_eq [of off BSIZE] by linarith
  then have "(off + m) mod BSIZE = 0" by simp
  moreover have "n - m \<noteq> 0" using False mm by simp
  moreover have "off mod BSIZE + n + BSIZE - 1 = BSIZE + (n - m + BSIZE - 1)" using False mm o by linarith
  ultimately have "nblocks off n = (BSIZE + (n - m + BSIZE - 1)) div BSIZE" "nblocks (off + m) (n - m) = (n - m + BSIZE - 1) div BSIZE"
    using assms(1) by (simp_all add: nblocks_def)
  then show ?thesis using div_add_self1 [OF BSIZE_pos(2), of "n - m + BSIZE - 1"] by simp
qed

lemma unat_of_nat_uint: "of_nat (unat x) = (x :: uint)"
  by simp

lemma chunk_unat:
  assumes "rem \<noteq> 0"
  shows "unat (chunk off rem) = min (unat rem) (BSIZE - unat off mod BSIZE)"
    and "unat (off mod of_nat BSIZE :: uint) = unat off mod BSIZE"
    and "off div of_nat BSIZE = (of_nat (unat off div BSIZE) :: uint)"
proof -
  have B: "unat (of_nat BSIZE :: uint) = BSIZE" by (simp add: BSIZE_def)
  show o: "unat (off mod of_nat BSIZE :: uint) = unat off mod BSIZE" by (simp add: unat_mod B)
  have "unat (of_nat BSIZE - off mod of_nat BSIZE :: uint) = BSIZE - unat off mod BSIZE"
    using o B by (subst unat_sub) (simp_all add: word_le_nat_alt less_imp_le)
  then show "unat (chunk off rem) = min (unat rem) (BSIZE - unat off mod BSIZE)"
    by (auto simp: chunk_def min_def word_le_nat_alt)
  have "unat (off div of_nat BSIZE :: uint) = unat off div BSIZE" by (simp add: unat_div B)
  then show "off div of_nat BSIZE = (of_nat (unat off div BSIZE) :: uint)" by (metis unat_of_nat_uint)
qed

lemma round_bounds:
  assumes "n \<noteq> 0" and m: "m = min n (BSIZE - off mod BSIZE)" and lim: "off + n \<le> MAXFILE * BSIZE"
  shows "off div BSIZE < MAXFILE" "0 < m" "m \<le> n" "off mod BSIZE + m \<le> BSIZE"
    "off div BSIZE * BSIZE + off mod BSIZE = off"
proof -
  have o: "off mod BSIZE < BSIZE" by simp
  show "off div BSIZE * BSIZE + off mod BSIZE = off" by simp
  have "off < MAXFILE * BSIZE" using assms(1) lim by simp
  then show "off div BSIZE < MAXFILE" by (simp add: div_less_iff_less_mult)
  show "0 < m" "m \<le> n" "off mod BSIZE + m \<le> BSIZE" using assms(1) m o by (auto simp: min_def)
qed

lemma round_block:
  assumes "n \<noteq> 0" and m: "m = min n (BSIZE - off mod BSIZE)" and lim: "off + n \<le> MAXFILE * BSIZE"
    and x: "off \<le> x" "x < off + m"
  shows "x div BSIZE = off div BSIZE" "x mod BSIZE = off mod BSIZE + (x - off)"
proof -
  note rb = round_bounds [OF assms(1-3)]
  show 1: "x div BSIZE = off div BSIZE" using rb x by (subst in_block) linarith
  show "x mod BSIZE = off mod BSIZE + (x - off)" using block_offset [OF 1] rb x by linarith
qed

lemma read_chunk:
  assumes "n \<noteq> 0" and m: "m = min n (BSIZE - off mod BSIZE)" and lim: "off + n \<le> MAXFILE * BSIZE"
    and len: "length (fdata D p (off div BSIZE)) = BSIZE"
  shows "take m (drop (off mod BSIZE) (fdata D p (off div BSIZE))) = map (fbyte D p) [off..<off + m]"
proof (rule nth_equalityI)
  note rb = round_bounds [OF assms(1-3)]
  show "length (take m (drop (off mod BSIZE) (fdata D p (off div BSIZE)))) = length (map (fbyte D p) [off..<off + m])"
    using len rb by simp
  fix i assume "i < length (take m (drop (off mod BSIZE) (fdata D p (off div BSIZE))))"
  then have i: "i < m" by simp
  have "fbyte D p (off + i) = fdata D p (off div BSIZE) ! (off mod BSIZE + i)"
    using round_block [OF assms(1-3), of "off + i"] i by (simp add: fbyte_def)
  then show "take m (drop (off mod BSIZE) (fdata D p (off div BSIZE))) ! i = map (fbyte D p) [off..<off + m] ! i"
    using i len rb by simp
qed

section \<open>readi\<close>

lemma length_fdata: "log_view ready has H s D bs \<Longrightarrow> length (fdata D p k) = BSIZE"
  using view_length [of ready has H s D bs] by (simp add: fdata_def)

context fs_device
begin

lemma unat_round:
  fixes off rem :: uint
  assumes "rem \<noteq> 0" and "unat off + unat rem \<le> MAXFILE * BSIZE"
  defines "m \<equiv> chunk off rem"
  shows "unat (off + m) = unat off + unat m" "unat (rem - m) = unat rem - unat m" "unat (off + m) + unat (rem - m) = unat off + unat rem"
proof -
  have r: "unat rem \<noteq> 0" using assms(1) by (simp add: unat_eq_0)
  have mr: "unat m \<le> unat rem" unfolding m_def chunk_unat(1) [OF assms(1)] by simp
  then show 2: "unat (rem - m) = unat rem - unat m" by (simp add: unat_sub word_le_nat_alt)
  have "unat off + unat m < 2 ^ LENGTH(32)"
    using mr assms(2) by (simp add: MAXFILE_def NDIRECT_def NINDIRECT_def BSIZE_def)
  then show 1: "unat (off + m) = unat off + unat m" by (simp add: unat_word_ariths)
  show "unat (off + m) + unat (rem - m) = unat off + unat rem" using 1 2 mr by simp
qed

text \<open>A read of blocks that are there returns the bytes and leaves everything as it was.\<close>

lemma readi_loop_view:
  assumes "file_view ready has s D bs ip p" and "unat off + unat rem \<le> MAXFILE * BSIZE" and "length bs < 24"
    and "\<forall>x. unat off \<le> x \<and> x < unat off + unat rem \<longrightarrow> ptr D p (x div BSIZE) \<noteq> 0"
  shows "\<exists>t. readi_loop rw ip off rem s = Ok (map (fbyte D p) [unat off..<unat off + unat rem]) t \<and>
    file_step ready has 0 ip s D bs p t D bs p"
  using assms
proof (induction "unat rem" arbitrary: off rem s rule: less_induct)
  case less
  note fv = less.prems(1) and lim = less.prems(2) and room = less.prems(3) and there = less.prems(4)
  show ?case
  proof (cases "rem = 0")
    case True
    then show ?thesis using file_step_refl [OF fv] by (auto simp: readi_loop.simps)
  next
    case False
    then have r0: "unat rem \<noteq> 0" by (simp add: unat_eq_0)
    define m where "m = chunk off rem"
    note ch = chunk_unat [OF False, of off, folded m_def]
    define k where "k = unat off div BSIZE"
    note rb = round_bounds [OF r0 ch(1) lim, folded k_def]
    note ur = unat_round [OF False lim, folded m_def]
    have pk: "ptr D p k \<noteq> 0" using there r0 by (simp add: k_def)
    obtain s1 D1 bs1 p1 where 1: "bmap rw ip (of_nat k) s = Ok (ptr D1 p1 k) s1"
      "file_step ready has (if ptr D p k = 0 then 5 else 0) ip s D bs p s1 D1 bs1 p1" "ptr D p k \<noteq> 0 \<longrightarrow> D1 = D \<and> bs1 = bs \<and> p1 = p"
      by (rule bmap_view [OF fv rb(1) room]) (use pk in auto)
    have b: "bmap rw ip (of_nat k) s = Ok (ptr D p k) s1" and st1: "file_step ready has 0 ip s D bs p s1 D bs p"
      using 1 pk by simp_all
    have fv1: "file_view ready has s1 D bs ip p" using st1 by (simp add: file_step_def)
    have v1: "log_view ready has {} s1 D bs" and p1: "fs_inode s1 ip = p" and dev: "i_dev p = lg_dev s1"
      and ok: "fs_ok (has s1) (log_area s1) (fs_sb s1) D" and fo: "file_ok (log_area s1) (fs_sb s1) D p"
      using fv1 by (simp_all add: file_view_def)
    have o: "ptr D p k \<in> own D p" by (rule own_ptr) (use pk rb(1) in simp_all)
    have ha: "has s1 (ptr D p k)" using fs_okD(1) [OF ok] file_okD(2) [OF fo o] by blast
    have r: "length bs + card ({} :: nat set) < NBUF" using room by (simp add: NBUF_def)
    obtain bp t u where 2: "bread rw (lg_dev s1) (ptr D p k) s1 = Ok bp t" "b_data (d_buf t bp) = D (ptr D p k)"
        "brelse bp t = Ok () u" "log_view ready has {} u D bs" "keeps {} s1 u" "log_st.more u = log_st.more s1"
      by (rule read_view [OF v1 ha _ r]) auto
    note mu = fs_more [OF 2(6)]
    have eu: "log_area u = log_area s1" "has u = has s1" "lg_dev u = lg_dev s1"
      using log_area_keeps [OF 2(5)] keeps_has_fun [OF 2(5)] 2(5) by (simp_all add: keeps_def)
    have fvu: "file_view ready has u D bs ip p"
      unfolding file_view_def using 2(4) mu p1 dev eu ok fo by simp
    have "file_step ready has 0 ip s1 D bs p u D bs p"
      unfolding file_step_def using fvu 2(5) mu p1 by (auto simp: fun_eq_iff)
    from file_step_trans [OF st1 this] have st: "file_step ready has 0 ip s D bs p u D bs p" by simp
    obtain w where w: "readi_loop rw ip (off + m) (rem - m) u =
        Ok (map (fbyte D p) [unat (off + m)..<unat (off + m) + unat (rem - m)]) w" "file_step ready has 0 ip u D bs p w D bs p"
      using less.hyps [OF _ fvu, of "rem - m" "off + m"] ur rb(2,3) lim room there by auto
    have v: "take (unat m) (drop (unat (off mod of_nat BSIZE)) (b_data (d_buf t bp))) = map (fbyte D p) [unat off..<unat off + unat m]"
      using read_chunk [OF r0 ch(1) lim length_fdata [OF v1], folded k_def, of p] pk 2(2) ch(2) by (simp add: fdata_def)
    have "readi_loop rw ip off rem s = Ok (map (fbyte D p) [unat off..<unat off + unat m] @
        map (fbyte D p) [unat (off + m)..<unat (off + m) + unat (rem - m)]) w"
      using False b 2(1,3) w(1) p1 dev v ch(3)
      by (subst readi_loop.simps) (simp add: m_def [symmetric] k_def [symmetric] kbind_def kthen_def Let_def)
    moreover have "[unat off..<unat off + unat m] @ [unat (off + m)..<unat (off + m) + unat (rem - m)] = [unat off..<unat off + unat rem]"
      using ur rb(3) upt_add_eq_append [of "unat off" "unat off + unat m" "unat rem - unat m"] by simp
    ultimately have "readi_loop rw ip off rem s = Ok (map (fbyte D p) [unat off..<unat off + unat rem]) w"
      by (metis map_append)
    then show ?thesis using file_step_trans [OF st w(2)] by auto
  qed
qed

end

section \<open>writei\<close>

lemma write_chunk:
  assumes "n \<noteq> 0" and m: "m = min n (BSIZE - off mod BSIZE)" and lim: "off + n \<le> MAXFILE * BSIZE"
    and len: "length (fdata D p (off div BSIZE)) = BSIZE" and src: "length src = m"
    and fd: "\<forall>j<MAXFILE. fdata D' p' j = (if j = off div BSIZE then overwrite (off mod BSIZE) src (fdata D p j) else fdata D p j)"
    and x: "x < MAXFILE * BSIZE"
  shows "fbyte D' p' x = (if off \<le> x \<and> x < off + m then src ! (x - off) else fbyte D p x)"
proof -
  note rb = round_bounds [OF assms(1-3)]
  have xb: "x div BSIZE < MAXFILE" using x by (simp add: div_less_iff_less_mult)
  show ?thesis
  proof (cases "x div BSIZE = off div BSIZE")
    case False
    then have "\<not> (off \<le> x \<and> x < off + m)" using round_block [OF assms(1-3), of x] by blast
    then show ?thesis using fd xb False by (auto simp: fbyte_def)
  next
    case True
    have xm: "x mod BSIZE < BSIZE" by simp
    have "off div BSIZE * BSIZE + x mod BSIZE = x" using div_mult_mod_eq [of x BSIZE] unfolding True .
    then have xo: "x + off mod BSIZE = off + x mod BSIZE" using rb(5) by linarith
    then have "off \<le> x \<and> x < off + m \<longleftrightarrow> off mod BSIZE \<le> x mod BSIZE \<and> x mod BSIZE < off mod BSIZE + m" by linarith
    moreover have "off mod BSIZE \<le> x mod BSIZE \<Longrightarrow> x mod BSIZE - off mod BSIZE = x - off" using xo by linarith
    ultimately have "off \<le> x \<and> x < off + m \<longleftrightarrow> off mod BSIZE \<le> x mod BSIZE \<and> x mod BSIZE < off mod BSIZE + m"
        "off \<le> x \<and> x < off + m \<Longrightarrow> x mod BSIZE - off mod BSIZE = x - off"
      by blast+
    then show ?thesis
      using fd xb True len src rb(4) xm by (simp add: fbyte_def nth_overwrite)
  qed
qed

lemma file_step_blocks: "file_step ready has m ip s D bs p t D' bs' p' \<Longrightarrow> k < MAXFILE \<Longrightarrow> ptr D p k \<noteq> 0 \<Longrightarrow> ptr D' p' k \<noteq> 0"
  unfolding file_step_def using file_growsD(2) [of "log_area s" "fs_sb s" D p D' p' k] by auto

context fs_device
begin

text \<open>One block of the file is rewritten, and whatever follows runs in the new state.\<close>

lemma write_block_view:
  assumes fv: "file_view ready has s D bs ip p" and k: "k < MAXFILE" and room: "length bs < 24"
    and free: "3 \<le> card (free_blocks (fs_sb s) D)" and f: "\<And>v. length v = BSIZE \<Longrightarrow> length (f v) = BSIZE"
  obtains t D' bs' p' where
    "\<forall>rest :: ('z, uint) fs_routine. kbind (bmap rw ip (of_nat k)) (\<lambda>a. kbind (\<lambda>s. bread rw (i_dev (fs_inode s ip)) a s) (\<lambda>bp.
       kthen (set_data bp f) (kthen (log_write bp) (kthen (brelse bp) rest)))) s = rest t"
    "file_step ready has 6 ip s D bs p t D' bs' p'" "ptr D' p' k \<noteq> 0"
    "\<forall>j<MAXFILE. fdata D' p' j = (if j = k then f (fdata D p j) else fdata D p j)"
proof -
  obtain s1 D1 bs1 p1 where 1: "bmap rw ip (of_nat k) s = Ok (ptr D1 p1 k) s1" "ptr D1 p1 k \<noteq> 0"
      "file_step ready has (if ptr D p k = 0 then 5 else 0) ip s D bs p s1 D1 bs1 p1" "\<forall>j<MAXFILE. fdata D1 p1 j = fdata D p j"
    by (rule bmap_view [OF fv k room free])
  have st1: "file_step ready has 5 ip s D bs p s1 D1 bs1 p1" using 1(3) by (auto elim: file_step_mono split: if_splits)
  then have fv1: "file_view ready has s1 D1 bs1 ip p1" and l1: "length bs1 < 29" using room by (auto simp: file_step_def)
  have v1: "log_view ready has {} s1 D1 bs1" and p1: "fs_inode s1 ip = p1" and dev: "i_dev p1 = lg_dev s1"
    and ok: "fs_ok (has s1) (log_area s1) (fs_sb s1) D1" and fo: "file_ok (log_area s1) (fs_sb s1) D1 p1"
    using fv1 by (simp_all add: file_view_def)
  let ?a = "ptr D1 p1 k"
  have o: "?a \<in> own D1 p1" by (rule own_ptr) (use 1(2) k in simp_all)
  note oa = file_okD(2) [OF fo o]
  have ha: "has s1 ?a" "?a \<notin> log_area s1" using fs_okD(1) [OF ok] fs_okD(7) [OF ok, of ?a] oa by blast+
  have r: "length bs1 + card ({} :: nat set) < NBUF" using l1 by (simp add: NBUF_def)
  define D' where "D' = D1(?a := f (D1 ?a))"
  define bs' where "bs' = logged bs1 ?a"
  obtain t where t: "kbind (bread rw (lg_dev s1) ?a) (\<lambda>b. kthen (set_data b f) (kthen (log_write b) (brelse b))) s1 = Ok () t"
      "log_view ready has {} t D' bs'" "keeps {} s1 t" "log_st.more t = log_st.more s1"
    by (rule update_view [OF v1 ha _ r l1, where f = f]) (use f view_length [OF v1] in \<open>auto simp: D'_def bs'_def\<close>)
  note mt = fs_more [OF t(4)]
  have et: "log_area t = log_area s1" "has t = has s1" "lg_dev t = lg_dev s1"
    using log_area_keeps [OF t(3)] keeps_has_fun [OF t(3)] t(3) by (simp_all add: keeps_def)
  note sb = set_block [OF ok fo k 1(2), where v = "f (D1 ?a)", folded D'_def]
  have fvt: "file_view ready has t D' bs' ip p1"
    unfolding file_view_def using t(2) mt p1 dev et sb(2,3) by simp
  have "card (free_blocks (fs_sb s1) D') = card (free_blocks (fs_sb s1) D1)" by (rule card_free_same [OF sb(5)])
  moreover have "length bs' \<le> length bs1 + 1" using length_logged [of bs1 ?a] by (simp add: bs'_def)
  ultimately have "file_step ready has 1 ip s1 D1 bs1 p1 t D' bs' p1"
    unfolding file_step_def using fvt sb(1) t(3) mt p1 by (auto simp: fun_eq_iff)
  from file_step_trans [OF st1 this] have st: "file_step ready has 6 ip s D bs p t D' bs' p1" by simp
  have "kbind (bmap rw ip (of_nat k)) (\<lambda>a. kbind (\<lambda>s. bread rw (i_dev (fs_inode s ip)) a s) (\<lambda>bp.
       kthen (set_data bp f) (kthen (log_write bp) (kthen (brelse bp) rest)))) s = rest t" for rest :: "('z, uint) fs_routine"
    using 1(1) t(1) p1 dev by (auto simp: kbind_def kthen_def split: outcome.splits)
  moreover have "fdata D1 p1 k = D1 ?a" using 1(2) by (simp add: fdata_def)
  then have "\<forall>j<MAXFILE. fdata D' p1 j = (if j = k then f (fdata D p j) else fdata D p j)"
    using sb(4) 1(4) k by auto
  moreover have "ptr D' p1 k \<noteq> 0" using sb(6) [of k] k 1(2) by simp
  ultimately show ?thesis using that st by blast
qed

lemma writei_loop_view:
  assumes "file_view ready has s D bs ip p" and "unat off + unat rem \<le> MAXFILE * BSIZE"
    and "length bs + 6 * nblocks (unat off) (unat rem) \<le> 29" and "6 * nblocks (unat off) (unat rem) \<le> card (free_blocks (fs_sb s) D)"
    and "length src = unat rem"
  shows "\<exists>t D' bs' p'. writei_loop rw ip src off rem s = Ok (off + rem) t \<and>
    file_step ready has (6 * nblocks (unat off) (unat rem)) ip s D bs p t D' bs' p' \<and>
    (\<forall>x. unat off \<le> x \<and> x < unat off + unat rem \<longrightarrow> ptr D' p' (x div BSIZE) \<noteq> 0) \<and>
    (\<forall>x<MAXFILE * BSIZE. fbyte D' p' x =
      (if unat off \<le> x \<and> x < unat off + unat rem then src ! (x - unat off) else fbyte D p x))"
  using assms
proof (induction "unat rem" arbitrary: off rem s D bs p src rule: less_induct)
  case less
  note fv = less.prems(1) and lim = less.prems(2) and room = less.prems(3) and free = less.prems(4) and src = less.prems(5)
  show ?case
  proof (cases "rem = 0")
    case True
    then show ?thesis using file_step_refl [OF fv, of 0] by (intro exI [of _ s] exI [of _ D] exI [of _ bs] exI [of _ p]) (auto simp: writei_loop.simps nblocks_def)
  next
    case False
    then have r0: "unat rem \<noteq> 0" by (simp add: unat_eq_0)
    define m where "m = chunk off rem"
    note ch = chunk_unat [OF False, of off, folded m_def]
    define k where "k = unat off div BSIZE"
    define o' where "o' = unat off mod BSIZE"
    note rb = round_bounds [OF r0 ch(1) lim, folded k_def]
    note ur = unat_round [OF False lim, folded m_def]
    define n where "n = nblocks (unat (off + m)) (unat (rem - m))"
    have nb: "nblocks (unat off) (unat rem) = Suc n" using nblocks_step [OF r0 ch(1)] ur by (simp add: n_def)
    define f where "f = overwrite o' (take (unat m) src)"
    have sl: "length (take (unat m) src) = unat m" using src rb(3) by simp
    have f: "length (f v) = BSIZE" if "length v = BSIZE" for v
      using that sl rb(4) by (simp add: f_def o'_def)
    have rm: "length bs < 24" "3 \<le> card (free_blocks (fs_sb s) D)" using room free nb by simp_all
    obtain s1 D1 bs1 p1 where
      e: "\<forall>rest :: ('z, uint) fs_routine. kbind (bmap rw ip (of_nat k)) (\<lambda>a. kbind (\<lambda>s. bread rw (i_dev (fs_inode s ip)) a s) (\<lambda>bp.
         kthen (set_data bp f) (kthen (log_write bp) (kthen (brelse bp) rest)))) s = rest s1"
      and st: "file_step ready has 6 ip s D bs p s1 D1 bs1 p1" and pk: "ptr D1 p1 k \<noteq> 0"
      and fd: "\<forall>j<MAXFILE. fdata D1 p1 j = (if j = k then f (fdata D p j) else fdata D p j)"
      by (rule write_block_view [OF fv rb(1) rm f])
    have fv1: "file_view ready has s1 D1 bs1 ip p1" and sb1: "fs_sb s1 = fs_sb s"
      and c1: "length bs1 \<le> length bs + 6" "card (free_blocks (fs_sb s) D) \<le> card (free_blocks (fs_sb s) D1) + 6"
      using st by (simp_all add: file_step_def)
    have e1: "writei_loop rw ip src off rem s = writei_loop rw ip (drop (unat m) src) (off + m) (rem - m) s1"
      using False e ch(2,3) by (subst writei_loop.simps) (simp add: m_def [symmetric] k_def [symmetric] o'_def [symmetric] f_def Let_def)
    have pre: "unat (rem - m) < unat rem" "unat (off + m) + unat (rem - m) \<le> MAXFILE * BSIZE" "length bs1 + 6 * n \<le> 29"
        "6 * n \<le> card (free_blocks (fs_sb s1) D1)" "length (drop (unat m) src) = unat (rem - m)"
      using ur rb(2,3) lim c1 room free nb sb1 src by simp_all
    obtain t D' bs' p' where w: "writei_loop rw ip (drop (unat m) src) (off + m) (rem - m) s1 = Ok (off + m + (rem - m)) t"
        "file_step ready has (6 * n) ip s1 D1 bs1 p1 t D' bs' p'"
        "\<forall>x. unat (off + m) \<le> x \<and> x < unat (off + m) + unat (rem - m) \<longrightarrow> ptr D' p' (x div BSIZE) \<noteq> 0"
        "\<forall>x<MAXFILE * BSIZE. fbyte D' p' x =
          (if unat (off + m) \<le> x \<and> x < unat (off + m) + unat (rem - m) then drop (unat m) src ! (x - unat (off + m)) else fbyte D1 p1 x)"
      using less.hyps [OF pre(1) fv1 pre(2) pre(3,4) [unfolded n_def] pre(5), folded n_def] by blast
    have v: "log_view ready has {} s D bs" using fv by (simp add: file_view_def)
    have fd': "\<forall>j<MAXFILE. fdata D1 p1 j = (if j = unat off div BSIZE then overwrite (unat off mod BSIZE) (take (unat m) src) (fdata D p j) else fdata D p j)"
      using fd by (simp add: f_def k_def o'_def)
    note wc = write_chunk [OF r0 ch(1) lim length_fdata [OF v] sl fd']
    have bytes: "fbyte D' p' x = (if unat off \<le> x \<and> x < unat off + unat rem then src ! (x - unat off) else fbyte D p x)"
      if x: "x < MAXFILE * BSIZE" for x
    proof (cases "unat (off + m) \<le> x \<and> x < unat (off + m) + unat (rem - m)")
      case True
      then have "unat m + (x - (unat off + unat m)) = x - unat off" "unat m \<le> length src" using ur rb(3) src by linarith+
      then show ?thesis using w(4) x True ur by simp
    next
      case False
      have "fbyte D' p' x = fbyte D1 p1 x" using w(4) [rule_format, OF x] unfolding if_not_P [OF False] .
      then show ?thesis using wc [OF x] False ur rb(3) by (auto simp: not_le)
    qed
    have there: "ptr D' p' (x div BSIZE) \<noteq> 0" if x: "unat off \<le> x" "x < unat off + unat rem" for x
    proof (cases "x < unat off + unat m")
      case True
      then have "x div BSIZE = k" using round_block(1) [OF r0 ch(1) lim x(1)] by (simp add: k_def)
      then show ?thesis using file_step_blocks [OF w(2) rb(1) pk] by simp
    next
      case False
      then show ?thesis using w(3) x ur by simp
    qed
    have "file_step ready has (6 * Suc n) ip s D bs p t D' bs' p'" using file_step_trans [OF st w(2)] by simp
    moreover have "writei_loop rw ip src off rem s = Ok (off + rem) t" using e1 w(1) by simp
    ultimately show ?thesis unfolding nb using bytes there by blast
  qed
qed

end

section \<open>The inode on the disk\<close>

lemma put_words_other:
  "off + 4 * length as \<le> length v \<Longrightarrow> length (put_words off as v) = length v \<and>
   (o2 + n \<le> off \<longrightarrow> take n (drop o2 (put_words off as v)) = take n (drop o2 v))"
proof (induction as arbitrary: off v)
  case (Cons a as)
  have "take n (drop o2 (put32 off a v)) = take n (drop o2 v)" if "o2 + n \<le> off"
    unfolding put32_def using that Cons.prems by (intro take_drop_overwrite_other) auto
  then show ?case using Cons.IH [of "off + 4" "put32 off a v"] Cons.prems by auto
qed simp

lemma get_put_words:
  assumes "off + 4 * length as \<le> length v" and "k < length as"
  shows "get32 (off + 4 * k) (put_words off as v) = as ! k"
  using assms
proof (induction as arbitrary: off v k)
  case (Cons a as)
  show ?case
  proof (cases k)
    case 0
    have "take 4 (drop off (put_words (off + 4) as (put32 off a v))) = take 4 (drop off (put32 off a v))"
      using put_words_other [of "off + 4" as "put32 off a v" off 4] Cons.prems by auto
    then show ?thesis using 0 Cons.prems get32_put32 [of off v a] by (simp add: get32_def)
  next
    case (Suc j)
    then show ?thesis using Cons.IH [of "off + 4" "put32 off a v" j] Cons.prems by (simp add: algebra_simps)
  qed
qed simp

lemma get16_cong: "take 2 (drop o2 v) = take 2 (drop o2 w) \<Longrightarrow> get16 o2 v = get16 o2 w"
  by (simp add: get16_def)

lemma get32_cong: "take 4 (drop o2 v) = take 4 (drop o2 w) \<Longrightarrow> get32 o2 v = get32 o2 w"
  by (simp add: get32_def)

lemma get16_put_other:
  assumes "off + 2 \<le> length v" "o2 + 2 \<le> off" shows "get16 o2 (put16 off x v) = get16 o2 v"
  using assms unfolding put16_def by (intro get16_cong take_drop_overwrite_other) auto

lemma get16_put32_other:
  assumes "off + 4 \<le> length v" "o2 + 2 \<le> off" shows "get16 o2 (put32 off x v) = get16 o2 v"
  using assms unfolding put32_def by (intro get16_cong take_drop_overwrite_other) auto

lemma get16_put_words:
  assumes "off + 4 * length as \<le> length v" "o2 + 2 \<le> off" shows "get16 o2 (put_words off as v) = get16 o2 v"
  using put_words_other [OF assms(1), of o2 2] assms(2) by (intro get16_cong) simp

lemma get32_put_words:
  assumes "off + 4 * length as \<le> length v" "o2 + 4 \<le> off" shows "get32 o2 (put_words off as v) = get32 o2 v"
  using put_words_other [OF assms(1), of o2 4] assms(2) by (intro get32_cong) simp

lemma dinode_round_trip:
  assumes "off + 64 \<le> length v" and "length (di_addrs d) = NDIRECT + 1"
  shows "get_dinode off (put_dinode off d v) = d" and "length (put_dinode off d v) = length v"
proof -
  define w where "w = put32 (off + 8) (di_size d) (put16 (off + 6) (di_nlink d)
       (put16 (off + 4) (di_minor d) (put16 (off + 2) (di_major d) (put16 off (di_type d) v))))"
  have lw: "length w = length v" using assms by (simp add: w_def)
  have pw: "put_dinode off d v = put_words (off + 12) (di_addrs d) w" by (simp add: put_dinode_def w_def)
  have room: "off + 12 + 4 * length (di_addrs d) \<le> length w" using assms lw by (simp add: NDIRECT_def)
  show "length (put_dinode off d v) = length v" unfolding pw using put_words_other [OF room] lw by simp
  have a: "get_words (off + 12) (NDIRECT + 1) (put_dinode off d v) = di_addrs d"
    unfolding pw get_words_def using get_put_words [OF room] assms(2) by (intro nth_equalityI) (simp_all del: upt_Suc)
  have f: "get16 off w = di_type d" "get16 (off + 2) w = di_major d" "get16 (off + 4) w = di_minor d"
      "get16 (off + 6) w = di_nlink d" "get32 (off + 8) w = di_size d"
    using assms by (simp_all add: w_def get16_put32_other get16_put_other get16_put16 get32_put32)
  have g: "get16 (off + i) (put_dinode off d v) = get16 (off + i) w" if "i \<le> 10" for i
    unfolding pw using room that by (intro get16_put_words) auto
  have "get32 (off + 8) (put_dinode off d v) = get32 (off + 8) w"
    unfolding pw using room by (intro get32_put_words) auto
  then show "get_dinode off (put_dinode off d v) = d"
    using a f g [of 0] g [of 2] g [of 4] g [of 6] by (simp add: get_dinode_def)
qed

lemma dinode_off_room: "dinode_off inum + 64 \<le> BSIZE"
  by (simp add: dinode_off_def IPB_def BSIZE_def)

lemma set_inode_block:
  fixes v :: block
  assumes ok: "fs_ok h area sb D" and fo: "file_ok area sb D p" and i: "i < sb_ninodes sb"
  defines "D' \<equiv> D(IBLOCK i sb := v)"
  shows "file_ok area sb D' p" and "fs_ok h area sb D'" and "fdata D' p j = fdata D p j \<or> MAXFILE \<le> j"
    and "c < sb_size sb \<Longrightarrow> used sb D' c = used sb D c" and "k \<le> MAXFILE \<Longrightarrow> ptr D' p k = ptr D p k"
proof -
  let ?n = "IBLOCK i sb"
  have m: "?n \<in> meta_blocks area sb" using fs_okD(5) [OF ok i] by blast
  have no: "?n \<notin> own D p" using file_okD(2) [OF fo] m by blast
  show us: "used sb D' c = used sb D c" if "c < sb_size sb" for c
    using fs_okD(6) [OF ok that i] by (simp add: used_def D'_def)
  have "ptr D p MAXFILE \<noteq> ?n \<or> ptr D p MAXFILE = 0" using no own_ptr [of MAXFILE D p] by (metis order.refl)
  then show pt: "ptr D' p k = ptr D p k" if "k \<le> MAXFILE" for k
    by (auto simp: ptr_def D'_def MAXFILE_def NDIRECT_def NINDIRECT_def BSIZE_def)
  have own': "own D' p = own D p" using pt by (auto simp: own_def image_iff)
  show "file_ok area sb D' p"
    unfolding file_ok_def own' using file_okD [OF fo] pt us by metis
  have z: "0 < sb_size sb" using fs_okD(3) [OF ok m] word_coorder.not_eq_extremum by fastforce
  show "fs_ok h area sb D'"
    by (rule fs_ok_mono [OF ok]) (use us [OF z] us fs_okD(3) [OF ok] in blast)+
  show "fdata D' p j = fdata D p j \<or> MAXFILE \<le> j"
    using pt [of j] no own_ptr [of j D p] by (auto simp: fdata_def D'_def)
qed

lemma same_addrs:
  assumes "i_addrs q = i_addrs p"
  shows "ptr D q = ptr D p" "own D q = own D p" "fdata D q = fdata D p" "fbyte D q = fbyte D p"
    "file_ok area sb D q = file_ok area sb D p"
proof -
  show p: "ptr D q = ptr D p" using assms by (simp add: ptr_def fun_eq_iff)
  then show o: "own D q = own D p" and f: "fdata D q = fdata D p" by (simp_all add: own_def fdata_def fun_eq_iff)
  show "fbyte D q = fbyte D p" using f by (simp add: fbyte_def fun_eq_iff)
  show "file_ok area sb D q = file_ok area sb D p" using p o assms by (simp add: file_ok_def)
qed

text \<open>Every byte of the file has a block.\<close>

definition no_holes :: "(uint \<Rightarrow> block) \<Rightarrow> inode \<Rightarrow> bool" where
  "no_holes D p \<longleftrightarrow> unat (i_size p) \<le> MAXFILE * BSIZE \<and> (\<forall>x<unat (i_size p). ptr D p (x div BSIZE) \<noteq> 0)"

lemma small_sint: "unat n \<le> MAXFILE * BSIZE \<Longrightarrow> sint (n :: uint) = int (unat n)"
proof -
  assume "unat n \<le> MAXFILE * BSIZE"
  then have "unat n \<le> 71680" by (simp add: MAXFILE_def NDIRECT_def NINDIRECT_def BSIZE_def)
  then have "int (unat n) \<le> int 71680" by (simp only: of_nat_le_iff)
  then have l: "Word.uint n \<le> 71680" by simp
  have "sint n = signed_take_bit 31 (Word.uint n)" by (simp add: sint_uint)
  also have "\<dots> = Word.uint n" using l order_trans [OF _ uint_ge_0 [of n], of "-2147483648"]
    by (intro signed_take_bit_int_eq_self) simp_all
  finally have "sint n = Word.uint n" .
  then show "sint n = int (unat n)" by simp
qed

context fs_device
begin

lemma iupdate_view:
  assumes fv: "file_view ready has s D bs ip p" and i: "i_inum p < sb_ninodes (fs_sb s)" and room: "length bs < 29"
  obtains t bs' where "iupdate rw ip s = Ok () t"
    "file_view ready has t (D(IBLOCK (i_inum p) (fs_sb s) :=
       put_dinode (dinode_off (i_inum p)) (dinode_of p) (D (IBLOCK (i_inum p) (fs_sb s))))) bs' ip p"
    "keeps {} s t" "log_st.more t = log_st.more s" "length bs' \<le> length bs + 1"
proof -
  let ?n = "IBLOCK (i_inum p) (fs_sb s)" and ?f = "put_dinode (dinode_off (i_inum p)) (dinode_of p)"
  have v: "log_view ready has {} s D bs" and p: "fs_inode s ip = p" and dev: "i_dev p = lg_dev s"
    and ok: "fs_ok (has s) (log_area s) (fs_sb s) D" and fo: "file_ok (log_area s) (fs_sb s) D p"
    using fv by (simp_all add: file_view_def)
  have m: "?n \<in> meta_blocks (log_area s) (fs_sb s)" "?n \<notin> log_area s" using fs_okD(5) [OF ok i] by blast+
  have hn: "has s ?n" using fs_okD(1) [OF ok] fs_okD(3) [OF ok m(1)] by blast
  have r: "length bs + card ({} :: nat set) < NBUF" using room by (simp add: NBUF_def)
  have len: "length (?f (D ?n)) = BSIZE"
    using dinode_round_trip(2) [of "dinode_off (i_inum p)" "D ?n" "dinode_of p"] dinode_off_room view_length [OF v] file_okD(1) [OF fo]
    by (simp add: dinode_of_def)
  obtain t where t: "kbind (bread rw (lg_dev s) ?n) (\<lambda>b. kthen (set_data b ?f) (kthen (log_write b) (brelse b))) s = Ok () t"
      "log_view ready has {} t (D(?n := ?f (D ?n))) (logged bs ?n)" "keeps {} s t" "log_st.more t = log_st.more s"
    by (rule update_view [OF v hn m(2) _ r room, where f = ?f]) (use len in auto)
  obtain bp s1 where 1: "bread rw (lg_dev s) ?n s = Ok bp s1" "log_st.more s1 = log_st.more s"
    by (rule bread_view [OF v hn _ r]) auto
  note mt = fs_more [OF t(4)]
  have et: "log_area t = log_area s" "has t = has s" "lg_dev t = lg_dev s"
    using log_area_keeps [OF t(3)] keeps_has_fun [OF t(3)] t(3) by (simp_all add: keeps_def)
  note sb = set_inode_block [OF ok fo i, where v = "?f (D ?n)"]
  have fvt: "file_view ready has t (D(?n := ?f (D ?n))) (logged bs ?n) ip p"
    unfolding file_view_def using t(2) mt p dev et sb(1,2) by simp
  have "iupdate rw ip s = Ok () t"
    using t(1) 1 p dev fs_more [OF 1(2)] by (simp add: iupdate_def kbind_def kthen_def)
  then show ?thesis using that fvt t(3,4) length_logged by simp
qed

lemma writei_view:
  assumes fv: "file_view ready has s D bs ip p" and ty: "i_type p \<noteq> T_DEV" and i: "i_inum p < sb_ninodes (fs_sb s)"
    and off: "unat off \<le> unat (i_size p)" "unat off + unat n \<le> MAXFILE * BSIZE" and src: "length src = unat n"
    and room: "length bs + 6 * nblocks (unat off) (unat n) < 29" and free: "6 * nblocks (unat off) (unat n) \<le> card (free_blocks (fs_sb s) D)"
    and nh: "no_holes D p"
  shows "\<exists>t D' bs' p'. writei rw devs ip src off n s = Ok (int (unat n)) t \<and> file_view ready has t D' bs' ip p' \<and>
    p' = p\<lparr>i_addrs := i_addrs p', i_size := i_size p'\<rparr> \<and> unat (i_size p') = max (unat (i_size p)) (unat off + unat n) \<and>
    no_holes D' p' \<and> fs_sb t = fs_sb s \<and> fs_inode t = (fs_inode s)(ip := p') \<and> fs_st.more t = fs_st.more s \<and> keeps {} s t \<and>
    card (free_blocks (fs_sb s) D) \<le> card (free_blocks (fs_sb s) D') + 6 * nblocks (unat off) (unat n) \<and>
    length bs' \<le> length bs + 6 * nblocks (unat off) (unat n) + 1 \<and>
    (\<forall>x<MAXFILE * BSIZE. fbyte D' p' x =
      (if unat off \<le> x \<and> x < unat off + unat n then src ! (x - unat off) else fbyte D p x)) \<and>
    (\<forall>b < sb_size (fs_sb s). used (fs_sb s) D b \<and> b \<notin> meta_blocks (log_area s) (fs_sb s) \<and> b \<notin> own D p \<longrightarrow> D' b = D b) \<and>
    (unat (i_size p) < unat off + unat n \<longrightarrow>
      get_dinode (dinode_off (i_inum p)) (D' (IBLOCK (i_inum p) (fs_sb s))) = dinode_of p')"
proof -
  have p: "fs_inode s ip = p" using fv by (simp add: file_view_def)
  have lim32: "unat off + unat n < 2 ^ 32" using off(2) by (simp add: MAXFILE_def NDIRECT_def NINDIRECT_def BSIZE_def)
  then have u: "unat (off + n) = unat off + unat n" by (simp add: unat_word_ariths)
  have g: "\<not> off > i_size p" "\<not> off + n < off" "\<not> off + n > of_nat (MAXFILE * BSIZE)"
    using off u by (auto simp: word_less_nat_alt MAXFILE_def NDIRECT_def NINDIRECT_def BSIZE_def)
  have sn: "sint n = int (unat n)" using off(2) by (intro small_sint) simp
  have rm: "length bs + 6 * nblocks (unat off) (unat n) \<le> 29" using room by simp
  obtain t D1 bs1 p1 where w: "writei_loop rw ip src off n s = Ok (off + n) t"
      "file_step ready has (6 * nblocks (unat off) (unat n)) ip s D bs p t D1 bs1 p1"
      "\<forall>x. unat off \<le> x \<and> x < unat off + unat n \<longrightarrow> ptr D1 p1 (x div BSIZE) \<noteq> 0"
      "\<forall>x<MAXFILE * BSIZE. fbyte D1 p1 x = (if unat off \<le> x \<and> x < unat off + unat n then src ! (x - unat off) else fbyte D p x)"
    using writei_loop_view [OF fv off(2) rm free src] by blast
  have fv1: "file_view ready has t D1 bs1 ip p1" and gr: "file_grows (log_area s) (fs_sb s) D p D1 p1" and sb1: "fs_sb t = fs_sb s"
    and l1: "length bs1 \<le> length bs + 6 * nblocks (unat off) (unat n)" and in1: "fs_inode t = (fs_inode s)(ip := p1)" and k1: "keeps {} s t" "fs_st.more t = fs_st.more s"
    and c1: "card (free_blocks (fs_sb s) D) \<le> card (free_blocks (fs_sb s) D1) + 6 * nblocks (unat off) (unat n)"
    using w(2) by (simp_all add: file_step_def)
  note gD = file_growsD [OF gr]
  have ps: "i_size p1 = i_size p" "i_inum p1 = i_inum p" "p1 = p\<lparr>i_addrs := i_addrs p1, i_size := i_size p1\<rparr>"
    by (subst gD(1); simp)+
  have there: "ptr D1 p1 (x div BSIZE) \<noteq> 0" if x: "x < max (unat (i_size p)) (unat off + unat n)" "x < MAXFILE * BSIZE" for x
  proof (cases "unat off \<le> x \<and> x < unat off + unat n")
    case True
    then show ?thesis using w(3) by blast
  next
    case False
    then have "x < unat (i_size p)" using x(1) off(1) by auto
    then have "ptr D p (x div BSIZE) \<noteq> 0" using nh by (simp add: no_holes_def)
    moreover have "x div BSIZE < MAXFILE" using x(2) by (simp add: div_less_iff_less_mult)
    ultimately show ?thesis using file_step_blocks [OF w(2)] by blast
  qed
  show ?thesis
  proof (cases "n > 0 \<and> off + n > i_size p")
    case False
    have e: "writei rw devs ip src off n s = Ok (int (unat n)) t"
      using w(1) p ty g False in1 ps(1) sn by (auto simp: writei_def Let_def kbind_def kthen_def)
    have sz: "unat off + unat n \<le> unat (i_size p)" using False off(1) u by (auto simp: word_less_nat_alt)
    have "no_holes D1 p1" using there nh sz unfolding no_holes_def ps(1) by simp
    then show ?thesis using e fv1 ps sb1 l1 w(4) gD(5) sz in1 k1 c1 by (intro exI [of _ t] exI [of _ D1] exI [of _ bs1] exI [of _ p1]) auto
  next
    case True
    have sz: "unat (i_size p) < unat off + unat n" using True u by (simp add: word_less_nat_alt)
    define q where "q = p1\<lparr>i_size := off + n\<rparr>"
    define v where "v = iupd ip (\<lambda>p. p\<lparr>i_size := off + n\<rparr>) t"
    have qa: "i_addrs q = i_addrs p1" and qi: "i_inum q = i_inum p" and qd: "i_dev q = i_dev p1" and qs: "i_size q = off + n"
      using ps(2) by (simp_all add: q_def)
    note sa = same_addrs [OF qa]
    have fvv: "file_view ready has v D1 bs1 ip q"
      using fv1 qd sa(5) by (simp add: file_view_def v_def q_def iupd_view has_iupd)
    have iv: "i_inum q < sb_ninodes (fs_sb v)" "length bs1 < 29" using i qi sb1 l1 room by (simp_all add: v_def)
    define n' where "n' = IBLOCK (i_inum p) (fs_sb s)"
    define x where "x = put_dinode (dinode_off (i_inum p)) (dinode_of q) (D1 n')"
    have sbv: "fs_sb v = fs_sb s" using sb1 by (simp add: v_def)
    obtain w' bs' where 2: "iupdate rw ip v = Ok () w'" "file_view ready has w' (D1(n' := x)) bs' ip q" "log_st.more w' = log_st.more v"
        "length bs' \<le> length bs1 + 1" "keeps {} v w'"
      by (rule iupdate_view [OF fvv iv, unfolded qi sbv, folded n'_def, folded x_def]) blast
    have v1: "log_view ready has {} t D1 bs1" and ok1: "fs_ok (has t) (log_area t) (fs_sb s) D1" and fo1: "file_ok (log_area t) (fs_sb s) D1 p1"
      using fv1 sb1 by (simp_all add: file_view_def)
    note sib = set_inode_block [OF ok1 fo1 i, where v = x, folded n'_def]
    have e: "writei rw devs ip src off n s = Ok (int (unat n)) w'"
      using w(1) p ty g True in1 ps(1) sn 2(1) by (auto simp: writei_def Let_def kbind_def kthen_def v_def)
    have fb: "fbyte (D1(n' := x)) q y = fbyte D1 p1 y" if y: "y < MAXFILE * BSIZE" for y
    proof -
      have "y div BSIZE < MAXFILE" using y by (simp add: div_less_iff_less_mult)
      then show ?thesis using sib(3) [of "y div BSIZE"] sa(3) by (simp add: fbyte_def)
    qed
    have nh': "no_holes (D1(n' := x)) q"
      unfolding no_holes_def qs u sa(1)
    proof (intro conjI allI impI)
      show "unat off + unat n \<le> MAXFILE * BSIZE" by (rule off(2))
      fix y assume y: "y < unat off + unat n"
      have yb: "y div BSIZE < MAXFILE" using y off(2) by (simp add: div_less_iff_less_mult)
      then show "ptr (D1(n' := x)) p1 (y div BSIZE) \<noteq> 0" using there [of y] y off(2) sib(5) [of "y div BSIZE"] by simp
    qed
    have m: "n' \<in> meta_blocks (log_area s) (fs_sb s)"
      using fv i fs_okD(5) unfolding file_view_def n'_def by blast
    have fr: "(D1(n' := x)) b = D b" if "b < sb_size (fs_sb s)" "used (fs_sb s) D b" "b \<notin> meta_blocks (log_area s) (fs_sb s)" "b \<notin> own D p" for b
      using gD(5) [OF that] m that(3) by auto
    have lx: "length (D1 n') = BSIZE" by (rule view_length [OF v1])
    have "get_dinode (dinode_off (i_inum p)) x = dinode_of q"
      unfolding x_def using dinode_round_trip(1) [of "dinode_off (i_inum p)" "D1 n'" "dinode_of q"] dinode_off_room lx file_okD(1) [OF fo1] qa
      by (simp add: dinode_of_def)
    moreover have "q = p\<lparr>i_addrs := i_addrs q, i_size := i_size q\<rparr>" unfolding q_def by (subst ps(3)) simp
    moreover have "fs_sb w' = fs_sb s" using fs_more [OF 2(3)] sbv by simp
    moreover have "fs_inode w' = (fs_inode s)(ip := q)" "fs_st.more w' = fs_st.more s"
      using fs_more [OF 2(3)] in1 k1(2) by (simp_all add: v_def q_def)
    moreover have "keeps {} s w'" using keeps_trans [OF k1(1), of v] keeps_trans [of "{}" s v w'] 2(5) by (simp add: v_def)
    moreover have "free_blocks (fs_sb s) (D1(n' := x)) = free_blocks (fs_sb s) D1"
      using sib(4) by (auto simp: free_blocks_def)
    then have "card (free_blocks (fs_sb s) D) \<le> card (free_blocks (fs_sb s) (D1(n' := x))) + 6 * nblocks (unat off) (unat n)"
      using c1 by simp
    moreover have "length bs' \<le> length bs + 6 * nblocks (unat off) (unat n) + 1" using 2(4) l1 by simp
    moreover have "unat (i_size q) = max (unat (i_size p)) (unat off + unat n)" using sz u qs by simp
    moreover have "\<forall>y<MAXFILE * BSIZE. fbyte (D1(n' := x)) q y =
        (if unat off \<le> y \<and> y < unat off + unat n then src ! (y - unat off) else fbyte D p y)"
      using fb w(4) by simp
    ultimately show ?thesis
      using e 2(2) nh' fr
      by (intro exI [of _ w'] exI [of _ "D1(n' := x)"] exI [of _ bs'] exI [of _ q] conjI) (simp_all add: n'_def [symmetric])
  qed
qed

text \<open>A read inside a file without holes.\<close>

lemma readi_view:
  assumes fv: "file_view ready has s D bs ip p" and ty: "i_type p \<noteq> T_DEV" and nh: "no_holes D p"
    and off: "unat off + unat n \<le> unat (i_size p)" and room: "length bs < 24"
  shows "\<exists>t. readi rw devs ip off n s = Ok (int (unat n), map (fbyte D p) [unat off..<unat off + unat n]) t \<and>
    file_step ready has 0 ip s D bs p t D bs p"
proof -
  have p: "fs_inode s ip = p" using fv by (simp add: file_view_def)
  have lim: "unat off + unat n \<le> MAXFILE * BSIZE" using off nh by (simp add: no_holes_def)
  have "unat off + unat n < 2 ^ 32" using lim by (simp add: MAXFILE_def NDIRECT_def NINDIRECT_def BSIZE_def)
  then have u: "unat (off + n) = unat off + unat n" by (simp add: unat_word_ariths)
  have g: "\<not> off > i_size p" "\<not> off + n < off" "\<not> off + n > i_size p"
    using off u by (auto simp: word_less_nat_alt)
  have sn: "sint n = int (unat n)" using lim by (intro small_sint) simp
  have th: "\<forall>x. unat off \<le> x \<and> x < unat off + unat n \<longrightarrow> ptr D p (x div BSIZE) \<noteq> 0" using nh off by (simp add: no_holes_def)
  obtain t where "readi_loop rw ip off n s = Ok (map (fbyte D p) [unat off..<unat off + unat n]) t"
      "file_step ready has 0 ip s D bs p t D bs p"
    using readi_loop_view [OF fv lim room th] by blast
  then show ?thesis using p ty g sn by (auto simp: readi_def Let_def kbind_def)
qed

end

end
