(* ===== verification/FsProps.thy ===== *)
theory FsProps
  imports FsIO
begin

text \<open>
  The properties of the file system on the IDE disk, with a small file system they apply to.
\<close>

section \<open>A small file system\<close>

interpretation ide_fs: fs_device iderw ide_ready "\<lambda>s n. n < FSSIZE"
  by unfold_locales

interpretation mem_fs: fs_device mem_iderw "\<lambda>s d. d = 1" "\<lambda>s n. n < d_memsize s"
  by unfold_locales

text \<open>The log at blocks 2 to 32, inodes at 33 to 57, the bitmap in block 58; the first 64 blocks are in use.\<close>

definition ex_sb :: superblock where
  "ex_sb = \<lparr>sb_size = 1000, sb_nblocks = 941, sb_ninodes = 200, sb_nlog = 30, sb_logstart = 2, sb_inodestart = 33, sb_bmapstart = 58\<rparr>"

definition ex_image :: "uint \<Rightarrow> uint \<Rightarrow> block" where
  "ex_image d n = (if n = 58 then replicate 8 255 @ replicate 504 0 else replicate BSIZE 0)"

definition ex_inode :: inode where
  "ex_inode = \<lparr>i_dev = 1, i_inum = 1, i_ref = 1, i_lock = \<lparr>sl_locked = True, sl_name = ''inode'', sl_pid = 1\<rparr>, i_valid = True,
     i_type = T_FILE, i_major = 0, i_minor = 0, i_nlink = 1, i_size = 0, i_addrs = replicate 13 0\<rparr>"

definition ex_fs :: fs_st where
  "ex_fs = binit \<lparr>d_buf = (\<lambda>_. buf0), d_next = (\<lambda>_. 0), d_prev = (\<lambda>_. 0), d_disk = ex_image, d_trace = [],
     d_queue = [], d_cmd = None, d_havedisk1 = True, d_memsize = 1000, d_pid = 1, lg_start = 2,
     lg_size = 30, lg_outstanding = 1, lg_committing = False, lg_dev = 1, lg_n = 0, lg_block = replicate 30 0,
     fs_sb = ex_sb, fs_inode = (\<lambda>_. ex_inode), fs_cwd = 0\<rparr>"

lemma length_ex_image: "length (ex_image d n) = BSIZE"
  by (simp add: ex_image_def BSIZE_def)

lemma ex_fs_facts:
  "cache_inv {} ex_fs" "dirty_set ex_fs = {}" "d_disk ex_fs = ex_image" "content ex_fs = ex_image"
  "d_queue ex_fs = []" "d_cmd ex_fs = None" "d_havedisk1 ex_fs" "lg_start ex_fs = 2" "lg_size ex_fs = 30"
  "lg_outstanding ex_fs = 1" "lg_dev ex_fs = 1" "lg_n ex_fs = 0" "lg_block ex_fs = replicate 30 0"
  "fs_sb ex_fs = ex_sb" "fs_inode ex_fs = (\<lambda>_. ex_inode)"
proof -
  let ?s = "\<lparr>d_buf = (\<lambda>_. buf0), d_next = (\<lambda>_. 0), d_prev = (\<lambda>_. 0), d_disk = ex_image, d_trace = [],
     d_queue = [], d_cmd = None, d_havedisk1 = True, d_memsize = 1000, d_pid = 1, lg_start = 2,
     lg_size = 30, lg_outstanding = 1, lg_committing = False, lg_dev = 1, lg_n = 0, lg_block = replicate 30 0,
     fs_sb = ex_sb, fs_inode = (\<lambda>_. ex_inode), fs_cwd = 0\<rparr> :: fs_st"
  have e: "all_empty ?s" by (simp add: all_empty_def buf0_def)
  note b = binit_inv [OF e, folded ex_fs_def]
  show "cache_inv {} ex_fs" "dirty_set ex_fs = {}" "d_disk ex_fs = ex_image" "content ex_fs = ex_image"
    using b length_ex_image by simp_all
  have hw: "same_hw ?s ex_fs" and m: "dsk.more ex_fs = dsk.more ?s" using b length_ex_image by simp_all
  show "d_queue ex_fs = []" "d_cmd ex_fs = None" "d_havedisk1 ex_fs" using hw by (simp_all add: same_hw_def)
  note mf = more_fields [OF m]
  show "lg_start ex_fs = 2" "lg_size ex_fs = 30" "lg_outstanding ex_fs = 1" "lg_dev ex_fs = 1" "lg_n ex_fs = 0"
    "lg_block ex_fs = replicate 30 0"
    using mf by simp_all
  show "fs_sb ex_fs = ex_sb" "fs_inode ex_fs = (\<lambda>_. ex_inode)" using fs_more [OF mf(8)] by simp_all
qed

lemma ex_BBLOCK: "b < 4096 \<Longrightarrow> BBLOCK b ex_sb = 58"
proof -
  assume "b < 4096"
  then have "unat (b div of_nat BPB) = 0" by (simp add: word_less_nat_alt unat_div BPB_def BSIZE_def)
  then have "b div of_nat BPB = 0" by (simp only: unat_eq_0)
  then show ?thesis by (simp add: BBLOCK_def ex_sb_def)
qed

lemma ex_bit: "b < 1000 \<Longrightarrow> used ex_sb (ex_image d) b \<longleftrightarrow> b < 64"
proof -
  assume b: "b < 1000"
  then have u: "unat b < 1000" by (simp add: word_less_nat_alt)
  then have bi: "unat b mod BPB = unat b" by (simp add: BPB_def BSIZE_def)
  have B: "BBLOCK b ex_sb = 58" using u by (intro ex_BBLOCK) (simp add: word_less_nat_alt)
  have "(255 :: uchar) = - 1" by simp
  then have all: "bit (255 :: uchar) (unat b mod 8)" by (simp only: bit_minus_1_iff) (simp add: possible_bit_word)
  have "(replicate 8 255 @ replicate 504 0 :: block) ! (unat b div 8) = (if unat b < 64 then 255 else 0)"
    using u by (simp only: nth_append length_replicate) auto
  then have "used ex_sb (ex_image d) b \<longleftrightarrow> unat b < 64"
    using all by (simp only: used_def B bi bit_free_iff ex_image_def) auto
  then show ?thesis by (simp add: word_less_nat_alt)
qed

lemma ex_area_bounds: "n \<in> log_area ex_fs \<Longrightarrow> 2 \<le> unat n \<and> unat n < 33"
proof -
  assume "n \<in> log_area ex_fs"
  then obtain k where k: "k \<le> 30" "n = 2 + of_nat k" using ex_area ex_fs_facts(8) by blast
  then have "n = of_nat (2 + k)" by simp
  then have "unat n = 2 + k" using k(1) unat_small [of "2 + k"] by simp
  then show ?thesis using k(1) by simp
qed

lemma ex_IBLOCK: "i < 200 \<Longrightarrow> 33 \<le> unat (IBLOCK i ex_sb) \<and> unat (IBLOCK i ex_sb) < 58"
proof -
  assume i: "i < 200"
  then have "unat i div 8 < 25" by (simp add: word_less_nat_alt)
  moreover have "unat (i div of_nat IPB) = unat i div 8" by (simp add: unat_div IPB_def BSIZE_def)
  ultimately have "unat (IBLOCK i ex_sb) = unat i div 8 + 33"
    by (simp add: IBLOCK_def ex_sb_def unat_word_ariths)
  then show ?thesis using \<open>unat i div 8 < 25\<close> by simp
qed

lemma ex_meta: "m \<in> meta_blocks (log_area ex_fs) ex_sb \<Longrightarrow> 2 \<le> unat m \<and> unat m < 59"
proof -
  assume "m \<in> meta_blocks (log_area ex_fs) ex_sb"
  then consider "m \<in> log_area ex_fs" | b where "b < 1000" "m = BBLOCK b ex_sb" | i where "i < 200" "m = IBLOCK i ex_sb"
    by (auto simp: meta_blocks_def ex_sb_def)
  then show ?thesis
  proof cases
    case 1
    then show ?thesis using ex_area_bounds by fastforce
  next
    case 2
    then have "m = 58" using ex_BBLOCK [of b] by (simp add: word_less_nat_alt)
    then show ?thesis by simp
  next
    case 3
    then show ?thesis using ex_IBLOCK by fastforce
  qed
qed

lemma ex_fs_ok: "fs_ok (\<lambda>n. n < FSSIZE) (log_area ex_fs) ex_sb (ex_image d)"
  unfolding fs_ok_def
proof (intro conjI allI impI ballI)
  have sz: "sb_size ex_sb = 1000" and ni: "sb_ninodes ex_sb = 200" by (simp_all add: ex_sb_def)
  show "b < FSSIZE" if "b < sb_size ex_sb" for b using that by (simp add: ex_sb_def FSSIZE_def)
  show "used ex_sb (ex_image d) 0" using ex_bit [of 0 d] by simp
  fix m assume "m \<in> meta_blocks (log_area ex_fs) ex_sb"
  then have "2 \<le> unat m \<and> unat m < 59" by (rule ex_meta)
  then have m: "m < 1000" "m < 64" by (simp_all add: word_less_nat_alt)
  show "m < sb_size ex_sb" using m by (simp add: sz)
  show "used ex_sb (ex_image d) m" using ex_bit [OF m(1)] m(2) by simp
next
  fix b assume "b < sb_size ex_sb"
  then have B: "BBLOCK b ex_sb = 58" by (intro ex_BBLOCK) (simp add: ex_sb_def word_less_nat_alt)
  show "BBLOCK b ex_sb \<notin> log_area ex_fs" unfolding B using ex_area_bounds [of 58] by auto
  show "BBLOCK b ex_sb \<noteq> IBLOCK i ex_sb" if "i < sb_ninodes ex_sb" for i
    unfolding B using ex_IBLOCK [of i] that by (auto simp: ex_sb_def)
next
  fix i assume "i < sb_ninodes ex_sb"
  then show "IBLOCK i ex_sb \<notin> log_area ex_fs"
    using ex_IBLOCK [of i] ex_area_bounds [of "IBLOCK i ex_sb"] by (auto simp: ex_sb_def)
qed

lemma ex_file: "ptr (ex_image 1) ex_inode k = 0" "no_holes (ex_image 1) ex_inode"
  by (auto simp: ptr_def ex_inode_def NDIRECT_def no_holes_def)

lemma ex_log_view: "log_view ide_ready (\<lambda>s n. n < FSSIZE) {} ex_fs (ex_image 1) []"
proof -
  note f = ex_fs_facts
  have "n < FSSIZE" if "n \<in> log_area ex_fs" for n
    using ex_area_bounds [OF that] by (simp add: FSSIZE_def word_less_nat_alt)
  moreover have "head_n (ex_image 1 2) = 0"
    by (simp add: head_n_def ex_image_def)
  ultimately show ?thesis
    unfolding log_view_def log_names_def ide_ready_def by (simp add: f LOGSIZE_def)
qed

lemma ex_file_view: "file_view ide_ready (\<lambda>s n. n < FSSIZE) ex_fs (ex_image 1) [] 0 ex_inode"
proof -
  have "file_ok (log_area ex_fs) ex_sb (ex_image 1) ex_inode"
    by (auto simp: file_ok_def own_def ex_file(1)) (simp add: ex_inode_def NDIRECT_def)
  then have f: "file_ok (log_area ex_fs) (fs_sb ex_fs) (ex_image 1) ex_inode" by (simp only: ex_fs_facts)
  have d: "i_dev ex_inode = lg_dev ex_fs" unfolding ex_fs_facts by (simp add: ex_inode_def)
  have o: "fs_ok (\<lambda>n. n < FSSIZE) (log_area ex_fs) (fs_sb ex_fs) (ex_image 1)" unfolding ex_fs_facts by (rule ex_fs_ok)
  have i: "fs_inode ex_fs 0 = ex_inode" by (simp only: ex_fs_facts)
  show ?thesis unfolding file_view_def using ex_log_view i d o f by blast
qed

lemma ex_free: "6 \<le> card (free_blocks ex_sb (ex_image 1))"
proof -
  have "set [100, 101, 102, 103, 104, 105 :: uint] \<subseteq> free_blocks ex_sb (ex_image 1)"
    by (simp add: free_blocks_def ex_bit) (simp add: ex_sb_def)
  from card_mono [OF _ this] show ?thesis by simp
qed

lemma mark_free_mark_used: "bit_free v bi \<Longrightarrow> mark_free bi (mark_used bi v) = v"
proof -
  assume f: "bit_free v bi"
  let ?x = "v ! (bi div 8)" and ?m = "bit_mask bi"
  have "and (or ?x ?m) (not ?m) = ?x"
    using f unfolding bit_free_iff by (intro bit_eqI) (auto simp: bit_and_iff bit_or_iff bit_not_iff)
  then show ?thesis
    by (cases "bi div 8 < length v") (simp_all add: mark_free_def mark_used_def list_update_beyond)
qed

section \<open>Properties\<close>

text \<open>C5: what is written to a file is read back. In a transaction with room in the log and on the
  disk, writei of \<open>n\<close> bytes at an offset inside the file (or at its end) returns \<open>n\<close>, and
  a later readi of that range returns the bytes written. All other bytes of the file are unchanged, as are
  all blocks in use by other files; the file has no holes, its size grows to the end of the range, and
  when it grows the inode on disk is the one in memory.\<close>

theorem file_write_read:
  assumes "file_view ide_ready (\<lambda>s n. n < FSSIZE) s D bs ip p" and "i_type p \<noteq> T_DEV" and "i_inum p < sb_ninodes (fs_sb s)"
    and "unat off \<le> unat (i_size p)" and "unat off + unat n \<le> MAXFILE * BSIZE" and "length src = unat n"
    and "length bs + 6 * nblocks (unat off) (unat n) < 23" and "6 * nblocks (unat off) (unat n) \<le> card (free_blocks (fs_sb s) D)"
    and "no_holes D p"
  shows "\<exists>t u D' bs' p'. writei iderw devs ip src off n s = Ok (int (unat n)) t \<and>
    readi iderw devs ip off n t = Ok (int (unat n), src) u \<and>
    file_view ide_ready (\<lambda>s n. n < FSSIZE) u D' bs' ip p' \<and> no_holes D' p' \<and>
    unat (i_size p') = max (unat (i_size p)) (unat off + unat n) \<and>
    (\<forall>x<MAXFILE * BSIZE. x < unat off \<or> unat off + unat n \<le> x \<longrightarrow> fbyte D' p' x = fbyte D p x) \<and>
    (\<forall>b < sb_size (fs_sb s). used (fs_sb s) D b \<and> b \<notin> meta_blocks (log_area s) (fs_sb s) \<and> b \<notin> own D p \<longrightarrow> D' b = D b) \<and>
    (unat (i_size p) < unat off + unat n \<longrightarrow>
      get_dinode (dinode_off (i_inum p)) (D' (IBLOCK (i_inum p) (fs_sb s))) = dinode_of p')"
proof -
  have room: "length bs + 6 * nblocks (unat off) (unat n) < 29" using assms(7) by simp
  obtain t D' bs' p' where w: "writei iderw devs ip src off n s = Ok (int (unat n)) t"
      "file_view ide_ready (\<lambda>s n. n < FSSIZE) t D' bs' ip p'"
      "p' = p\<lparr>i_addrs := i_addrs p', i_size := i_size p'\<rparr>" "unat (i_size p') = max (unat (i_size p)) (unat off + unat n)"
      "no_holes D' p'" "length bs' \<le> length bs + 6 * nblocks (unat off) (unat n) + 1"
      "\<forall>x<MAXFILE * BSIZE. fbyte D' p' x = (if unat off \<le> x \<and> x < unat off + unat n then src ! (x - unat off) else fbyte D p x)"
      "\<forall>b < sb_size (fs_sb s). used (fs_sb s) D b \<and> b \<notin> meta_blocks (log_area s) (fs_sb s) \<and> b \<notin> own D p \<longrightarrow> D' b = D b"
      "unat (i_size p) < unat off + unat n \<longrightarrow>
        get_dinode (dinode_off (i_inum p)) (D' (IBLOCK (i_inum p) (fs_sb s))) = dinode_of p'"
    using ide_fs.writei_view [OF assms(1-6) room assms(8,9), of devs] by (elim exE conjE) (rule that; assumption)
  have ty: "i_type p' \<noteq> T_DEV" using assms(2) by (subst w(3)) simp
  have r: "unat off + unat n \<le> unat (i_size p')" "length bs' < 24" using w(4,6) assms(7) by simp_all
  obtain u where u: "readi iderw devs ip off n t = Ok (int (unat n), map (fbyte D' p') [unat off..<unat off + unat n]) u"
      "file_step ide_ready (\<lambda>s n. n < FSSIZE) 0 ip t D' bs' p' u D' bs' p'"
    using ide_fs.readi_view [OF w(2) ty w(5) r, of devs] by (elim exE conjE) (rule that; assumption)
  have ms: "map (fbyte D' p') [unat off..<unat off + unat n] = src"
    using w(7) assms(5,6) by (intro nth_equalityI) auto
  have r: "readi iderw devs ip off n t = Ok (int (unat n), src) u" using u(1) unfolding ms .
  have fu: "file_view ide_ready (\<lambda>s n. n < FSSIZE) u D' bs' ip p'" using u(2) unfolding file_step_def by blast
  have fb: "\<forall>x<MAXFILE * BSIZE. x < unat off \<or> unat off + unat n \<le> x \<longrightarrow> fbyte D' p' x = fbyte D p x"
    using w(7) by auto
  show ?thesis
    by (rule exI [of _ t], rule exI [of _ u], rule exI [of _ D'], rule exI [of _ bs'], rule exI [of _ p'])
      (intro conjI w(1,4,5,8,9) r fu fb)
qed

theorem file_write_read_witness:
  "\<exists>t u. writei iderw (\<lambda>_. \<lparr>dv_read = None, dv_write = None\<rparr>) 0 [65, 66, 67] 0 3 ex_fs = Ok 3 t \<and>
     readi iderw (\<lambda>_. \<lparr>dv_read = None, dv_write = None\<rparr>) 0 0 3 t = Ok (3, [65, 66, 67]) u"
proof -
  let ?devs = "\<lambda>_. \<lparr>dv_read = None, dv_write = None\<rparr> :: unit devsw"
  have three: "unat (3 :: uint) = 3" by simp
  have n: "nblocks 0 3 = 1" by (simp add: nblocks_def BSIZE_def)
  have e: "i_type ex_inode \<noteq> T_DEV" "i_inum ex_inode < sb_ninodes (fs_sb ex_fs)" "unat (0 :: uint) \<le> unat (i_size ex_inode)"
      "unat (0 :: uint) + unat (3 :: uint) \<le> MAXFILE * BSIZE" "length [65, 66, 67 :: uchar] = unat (3 :: uint)"
      "length ([] :: uint list) + 6 * nblocks (unat (0 :: uint)) (unat (3 :: uint)) < 23"
      "6 * nblocks (unat (0 :: uint)) (unat (3 :: uint)) \<le> card (free_blocks (fs_sb ex_fs) (ex_image 1))"
    using ex_free by (simp_all add: ex_fs_facts n)
      (simp_all add: ex_inode_def T_FILE_def T_DEV_def ex_sb_def MAXFILE_def NDIRECT_def NINDIRECT_def BSIZE_def)
  show ?thesis using file_write_read [OF ex_file_view e ex_file(2), of ?devs] by (elim exE conjE) (intro exI conjI, simp_all only: three of_nat_numeral)
qed

text \<open>C17: balloc takes the lowest free block, which reads as zeroes and is marked, and bfree of that
  block restores the bitmap: no other block changes in either step, and the drive keeps the old
  contents until the transaction commits. With no free block balloc would panic instead.\<close>

theorem alloc_then_free:
  assumes "log_view ide_ready (\<lambda>s n. n < FSSIZE) {} s D bs" and "fs_ok (\<lambda>n. n < FSSIZE) (log_area s) (fs_sb s) D"
    and "length bs < 26" and "free_blocks (fs_sb s) D \<noteq> {}"
  shows "\<exists>b t u bs' bs''. balloc iderw (lg_dev s) s = Ok b t \<and> b \<in> free_blocks (fs_sb s) D \<and> (\<forall>c<b. used (fs_sb s) D c) \<and>
    (\<exists>D'. log_view ide_ready (\<lambda>s n. n < FSSIZE) {} t D' bs' \<and> D' b = replicate BSIZE 0 \<and>
       (\<forall>c < sb_size (fs_sb s). used (fs_sb s) D' c \<longleftrightarrow> used (fs_sb s) D c \<or> c = b)) \<and>
    bfree iderw (lg_dev s) b t = Ok () u \<and> d_disk u = d_disk s \<and>
    log_view ide_ready (\<lambda>s n. n < FSSIZE) {} u (D(b := replicate BSIZE 0)) bs''"
proof -
  let ?has = "\<lambda>s n. n < FSSIZE"
  obtain b where b: "b < sb_size (fs_sb s)" "\<not> used (fs_sb s) D b" "\<forall>c<b. used (fs_sb s) D c"
    by (rule least_free [OF assms(4)])
  define D' where "D' = alloc_view (fs_sb s) b D"
  define bs' where "bs' = logged (logged bs (BBLOCK b (fs_sb s))) b"
  have h: "held_ok {} s D" for s :: "'a fs_st_scheme" by (simp add: held_ok_def)
  have r: "length bs + card ({} :: nat set) + 1 < NBUF" "length bs < 28" using assms(3) by (simp_all add: NBUF_def)
  obtain t where t: "balloc iderw (lg_dev s) s = Ok b t" "log_view ide_ready ?has {} t D' bs'" "keeps {} s t" "log_st.more t = log_st.more s"
    by (rule ide_fs.balloc_view [OF assms(1,2) h r b, folded D'_def bs'_def])
  note m = fs_more [OF t(4)]
  have a: "log_area t = log_area s" "lg_dev t = lg_dev s" using log_area_keeps [OF t(3)] t(3) by (simp_all add: keeps_def)
  have len: "\<forall>n. length (D n) = BSIZE" using view_length [OF assms(1)] by blast
  note fa = fs_ok_alloc [OF assms(2) len b(1,2), folded D'_def]
  have l': "length bs' < 28" using assms(3) length_logged [of bs "BBLOCK b (fs_sb s)"] length_logged [of "logged bs (BBLOCK b (fs_sb s))" b]
    by (simp add: bs'_def)
  have ub: "used (fs_sb t) D' b" "b < sb_size (fs_sb t)" using fa(1) [OF b(1)] b(1) m by simp_all
  have ok: "fs_ok (?has t) (log_area t) (fs_sb t) D'" using fa(2) a m by simp
  have h': "held_ok {} t D'" by (simp add: held_ok_def)
  have r': "length bs' + card ({} :: nat set) < NBUF" "length bs' < 29" using l' by (simp_all add: NBUF_def)
  obtain u where u: "bfree iderw (lg_dev t) b t = Ok () u"
      "log_view ide_ready ?has {} u (free_view (fs_sb t) b D') (logged bs' (BBLOCK b (fs_sb t)))" "keeps {} t u"
    by (rule ide_fs.bfree_view [OF t(2) ok ub(2,1) h' r'])
  have nb: "b \<noteq> BBLOCK b (fs_sb s)" using fs_ok_unused(1) [OF assms(2) b(2)] fs_okD(4) [OF assms(2) b(1)] by auto
  have "mark_free (unat b mod BPB) (mark_used (unat b mod BPB) (D (BBLOCK b (fs_sb s)))) = D (BBLOCK b (fs_sb s))"
    by (rule mark_free_mark_used) (use b(2) in \<open>simp add: used_def\<close>)
  then have "free_view (fs_sb t) b D' = D(b := replicate BSIZE 0)"
    using nb m by (auto simp: free_view_def D'_def alloc_view_def fun_eq_iff)
  moreover have "D' b = replicate BSIZE 0" by (simp add: D'_def alloc_view_def)
  moreover have "d_disk u = d_disk s" using u(3) t(3) by (simp add: keeps_def)
  moreover have "b \<in> free_blocks (fs_sb s) D" using b by (simp add: free_blocks_def)
  ultimately show ?thesis using t(1,2) u(1,2) fa(1) b(3) a(2) by metis
qed

theorem alloc_then_free_witness:
  "\<exists>t u. balloc iderw 1 ex_fs = Ok 64 t \<and> bfree iderw 1 64 t = Ok () u"
proof -
  have f: "free_blocks (fs_sb ex_fs) (ex_image 1) \<noteq> {}" using ex_free unfolding ex_fs_facts by auto
  have o: "fs_ok (\<lambda>n. n < FSSIZE) (log_area ex_fs) (fs_sb ex_fs) (ex_image 1)" unfolding ex_fs_facts by (rule ex_fs_ok)
  obtain b t u where b: "balloc iderw (lg_dev ex_fs) ex_fs = Ok b t" "b \<in> free_blocks (fs_sb ex_fs) (ex_image 1)"
      "\<forall>c<b. used (fs_sb ex_fs) (ex_image 1) c" "bfree iderw (lg_dev ex_fs) b t = Ok () u"
    using alloc_then_free [OF ex_log_view o _ f] by auto
  have s: "sb_size ex_sb = 1000" by (simp add: ex_sb_def)
  have b1: "b < 1000" "\<not> used ex_sb (ex_image 1) b" using b(2) by (simp_all add: free_blocks_def ex_fs_facts s)
  then have "\<not> b < 64" using ex_bit [of b 1] by blast
  moreover have "\<not> 64 < b" using b(3) ex_bit [of 64 1] by (auto simp: ex_fs_facts)
  ultimately have "b = 64" by simp
  then show ?thesis using b(1,4) by (auto simp: ex_fs_facts)
qed

section \<open>Path names\<close>

fun split_slash :: "string \<Rightarrow> string list" where
  "split_slash [] = [[]]"
| "split_slash (c # cs) =
     (if c = CHR ''/'' then [] # split_slash cs
      else (case split_slash cs of [] \<Rightarrow> [[c]] | w # ws \<Rightarrow> (c # w) # ws))"

text \<open>The names of a path: what is between slashes, empty pieces left out, cut to 14 characters.\<close>

definition path_names :: "string \<Rightarrow> string list" where
  "path_names path = map (take DIRSIZ) (filter (\<lambda>w. w \<noteq> []) (split_slash path))"

definition name_into :: "string \<Rightarrow> string \<Rightarrow> string" where
  "name_into w name = overwrite 0 (if length w = DIRSIZ then w else w @ [NUL]) name"

text \<open>The walk along a list of names.\<close>

fun walk :: "'z fs_driver \<Rightarrow> (int \<Rightarrow> 'z devsw) \<Rightarrow> bool \<Rightarrow> string list \<Rightarrow> string \<Rightarrow> nat \<Rightarrow> ('z, nat option \<times> string) fs_routine" where
  "walk rw devs parent [] name ip = (if parent then kthen (iput rw ip) (kret (None, name)) else kret (Some ip, name))"
| "walk rw devs parent (w # ws) name ip =
     kthen (ilock rw (Some ip)) (\<lambda>s.
       if i_type (fs_inode s ip) \<noteq> T_DIR then kthen (iunlockput rw ip) (kret (None, name_into w name)) s
       else if parent \<and> ws = [] then kthen (iunlock (Some ip)) (kret (Some ip, name_into w name)) s
       else kbind (dirlookup rw devs ip (name_into w name)) (\<lambda>found.
         case found of
           None \<Rightarrow> kthen (iunlockput rw ip) (kret (None, name_into w name))
         | Some (nxt, off) \<Rightarrow> kthen (iunlockput rw ip) (walk rw devs parent ws (name_into w name) nxt)) s)"

abbreviation slash :: "char \<Rightarrow> bool" where "slash c \<equiv> c = CHR ''/''"

lemma split_slash_not_Nil [simp]: "split_slash s \<noteq> []"
  by (induction s) (auto split: list.splits)

lemma names_skip: "filter (\<lambda>w. w \<noteq> []) (split_slash (dropWhile slash s)) = filter (\<lambda>w. w \<noteq> []) (split_slash s)"
  by (induction s) auto

lemma split_elem:
  "split_slash s = takeWhile (\<lambda>c. \<not> slash c) s #
     (case dropWhile (\<lambda>c. \<not> slash c) s of [] \<Rightarrow> [] | c # cs \<Rightarrow> split_slash cs)"
  by (induction s) auto

lemma path_names_skipelem:
  shows "skipelem path name =
     (case path_names path of
        [] \<Rightarrow> None
      | w # ws \<Rightarrow> Some (dropWhile slash (dropWhile (\<lambda>c. \<not> slash c) (dropWhile slash path)), name_into w name))"
  and "path_names path \<noteq> [] \<Longrightarrow>
    tl (path_names path) = path_names (dropWhile slash (dropWhile (\<lambda>c. \<not> slash c) (dropWhile slash path)))"
proof -
  let ?s = "dropWhile slash path"
  let ?e = "takeWhile (\<lambda>c. \<not> slash c) ?s" and ?r = "dropWhile (\<lambda>c. \<not> slash c) ?s"
  have pn: "path_names path = map (take DIRSIZ) (filter (\<lambda>w. w \<noteq> []) (split_slash ?s))"
    by (simp only: path_names_def names_skip)
  have ne: "?s \<noteq> [] \<Longrightarrow> ?e \<noteq> []" using hd_dropWhile [of slash path] by (cases ?s) auto
  have tl: "filter (\<lambda>w. w \<noteq> []) (split_slash (dropWhile slash ?r)) =
      filter (\<lambda>w. w \<noteq> []) (case ?r of [] \<Rightarrow> [] | c # cs \<Rightarrow> split_slash cs)"
  proof (cases ?r)
    case Nil
    show ?thesis unfolding Nil by simp
  next
    case (Cons c cs)
    then have "slash c" using hd_dropWhile [of "\<lambda>c. \<not> slash c" ?s] by simp
    then have "dropWhile slash (c # cs) = dropWhile slash cs" by simp
    then show ?thesis unfolding Cons by (simp only: names_skip list.case)
  qed
  have split: "?s \<noteq> [] \<Longrightarrow> path_names path = take DIRSIZ ?e # path_names (dropWhile slash ?r)"
    unfolding pn using ne tl by (subst split_elem) (simp add: path_names_def)
  have nil: "path_names path = []" if s: "?s = []" unfolding pn s by simp
  show "skipelem path name =
     (case path_names path of [] \<Rightarrow> None | w # ws \<Rightarrow> Some (dropWhile slash ?r, name_into w name))"
    using split nil by (cases "?s = []") (auto simp: skipelem_def Let_def name_into_def)
  show "path_names path \<noteq> [] \<Longrightarrow> tl (path_names path) = path_names (dropWhile slash ?r)"
    using split nil by (metis list.sel(3))
qed

lemma path_names_Nil: "path_names (dropWhile slash s) = [] \<longleftrightarrow> dropWhile slash s = []"
proof (cases "dropWhile slash s")
  case Nil
  then show ?thesis by (simp only:) (simp add: path_names_def)
next
  case (Cons c cs)
  then have c: "\<not> slash c" using hd_dropWhile [of slash s] by simp
  have "path_names (c # cs) \<noteq> []" using c by (cases "split_slash cs") (auto simp: path_names_def)
  then show ?thesis unfolding Cons by simp
qed

lemma namex_loop_walk: "namex_loop rw devs parent path name ip = walk rw devs parent (path_names path) name ip"
proof (induction "length path" arbitrary: path name ip rule: less_induct)
  case less
  show ?case
  proof (cases "path_names path")
    case Nil
    then have "skipelem path name = None" using path_names_skipelem(1) [of path name] by simp
    then show ?thesis using Nil by (subst namex_loop.simps) simp
  next
    case (Cons w ws)
    define path' where "path' = dropWhile slash (dropWhile (\<lambda>c. \<not> slash c) (dropWhile slash path))"
    have sk: "skipelem path name = Some (path', name_into w name)"
      using path_names_skipelem(1) [of path name] Cons by (simp add: path'_def)
    have ws: "ws = path_names path'" using path_names_skipelem(2) [of path] Cons by (simp add: path'_def)
    have e: "path' = [] \<longleftrightarrow> ws = []" unfolding ws path'_def using path_names_Nil by blast
    have ih: "namex_loop rw devs parent path' (name_into w name) nxt = walk rw devs parent ws (name_into w name) nxt" for nxt
      unfolding ws by (rule less.hyps [OF skipelem_shorter [OF sk]])
    show ?thesis unfolding Cons using sk e by (subst namex_loop.simps) (simp add: ih cong: if_cong option.case_cong)
  qed
qed

text \<open>C13: namex resolves a path name by name: whatever the file system, it does exactly what the walk
  along the pieces between the slashes does, with empty pieces skipped and long names cut to 14
  characters, starting at the root for an absolute path and at the current directory otherwise.\<close>

theorem namex_walks_names:
  "namex rw devs path parent name =
     kbind (if path \<noteq> [] \<and> hd path = CHR ''/'' then iget ROOTDEV ROOTINO else (\<lambda>s. idup (fs_cwd s) s))
       (walk rw devs parent (path_names path) name)"
  unfolding namex_def namex_loop_walk ..

end
