(* ===== verification/FsDir.thy ===== *)
theory FsDir
  imports FsProps
begin

text \<open>
  Directories as lists of entries: dirlink adds an entry in the first empty place, and dirlookup
  finds it there.
\<close>

section \<open>Names\<close>

text \<open>A name the code can compare and copy: ended by a NUL, or at least as long as an entry has room for.\<close>

definition good_name :: "nat \<Rightarrow> string \<Rightarrow> bool" where
  "good_name n name \<longleftrightarrow> NUL \<in> set name \<or> n \<le> length name"

lemma strncmp_good: "good_name n s \<Longrightarrow> length t = n \<Longrightarrow> \<exists>c. strncmp s t n = Some c"
proof (induction s t n rule: strncmp.induct)
  case (2 p ps q qs n)
  then show ?case by (auto simp: good_name_def)
qed (auto simp: good_name_def)

lemma nul_fill_all: "length s = n \<Longrightarrow> nul_fill s n = Some (replicate n NUL)"
  by (induction n arbitrary: s) (auto simp: length_Suc_conv)

lemma strncpy_good: "good_name n t \<Longrightarrow> length s = n \<Longrightarrow> \<exists>nm. strncpy s t n = Some nm \<and> length nm = n \<and> strncmp t nm n = Some 0"
proof (induction s t n rule: strncpy.induct)
  case (2 x s c t n)
  show ?case
  proof (cases "c = NUL")
    case True
    then show ?thesis using 2(3) by (simp add: nul_fill_all)
  next
    case False
    then have "good_name n t" "length s = n" using 2(2,3) by (auto simp: good_name_def)
    then show ?thesis using 2(1) [OF False] False by auto
  qed
qed (auto simp: good_name_def)

section \<open>Entries\<close>

lemma length_put_dirent: "length (de_name de) = DIRSIZ \<Longrightarrow> length (put_dirent de) = DESIZE"
  by (simp add: put_dirent_def DIRSIZ_def DESIZE_def)

lemma char_byte: "char_of (unat (of_char c :: uchar)) = c"
proof -
  have "(of_char c :: uchar) = of_nat (of_char c)" by (cases c) simp
  then have "unat (of_char c :: uchar) = of_char c" by (simp only: unat_of_nat) simp
  then show ?thesis by simp
qed

lemma dirent_round_trip:
  assumes "length (de_name de) = DIRSIZ"
  shows "get_dirent (put_dirent de) = de"
proof -
  have "get16 0 (put_dirent de) = de_inum de"
    using unat_short_bound [of "de_inum de"] by (simp add: get16_def put_dirent_def le_val_le_bytes)
  moreover have "map (\<lambda>b. char_of (unat b)) (take DIRSIZ (drop 2 (put_dirent de))) = de_name de"
    using assms by (simp add: put_dirent_def comp_def char_byte)
  ultimately show ?thesis by (simp add: get_dirent_def)
qed

text \<open>The entries of a directory, and the number of them.\<close>

definition dent :: "(uint \<Rightarrow> block) \<Rightarrow> inode \<Rightarrow> nat \<Rightarrow> dirent" where
  "dent D p k = get_dirent (map (fbyte D p) [k * DESIZE..<k * DESIZE + DESIZE])"

definition nents :: "inode \<Rightarrow> nat" where
  "nents p = unat (i_size p) div DESIZE"

definition dir_off :: "nat \<Rightarrow> uint" where
  "dir_off k = of_nat (k * DESIZE)"

text \<open>The entry is in use and has the name.\<close>

definition names :: "string \<Rightarrow> dirent \<Rightarrow> bool" where
  "names name de \<longleftrightarrow> de_inum de \<noteq> 0 \<and> namecmp name (de_name de) = Some 0"

definition free_ent :: "(uint \<Rightarrow> block) \<Rightarrow> inode \<Rightarrow> nat" where
  "free_ent D p = (case find (\<lambda>k. de_inum (dent D p k) = 0) [0..<nents p] of Some k \<Rightarrow> k | None \<Rightarrow> nents p)"

definition dir_view :: "('z fs_st_scheme \<Rightarrow> uint \<Rightarrow> bool) \<Rightarrow> ('z fs_st_scheme \<Rightarrow> uint \<Rightarrow> bool) \<Rightarrow>
    'z fs_st_scheme \<Rightarrow> (uint \<Rightarrow> block) \<Rightarrow> uint list \<Rightarrow> nat \<Rightarrow> inode \<Rightarrow> bool" where
  "dir_view ready has s D bs ip p \<longleftrightarrow> file_view ready has s D bs ip p \<and> i_type p = T_DIR \<and>
     unat (i_size p) = nents p * DESIZE \<and> no_holes D p"

lemma dir_offs_view: "unat sz = n * DESIZE \<Longrightarrow> dir_offs sz = map dir_off [0..<n]"
  by (simp add: dir_offs_def dir_off_def DESIZE_def)

lemma unat_dir_off: "k * DESIZE + DESIZE \<le> MAXFILE * BSIZE \<Longrightarrow> unat (dir_off k) = k * DESIZE"
  unfolding dir_off_def by (subst unat_of_nat) (simp add: DESIZE_def MAXFILE_def NDIRECT_def NINDIRECT_def BSIZE_def)

lemma length_dent [simp]: "length (de_name (dent D p k)) = DIRSIZ"
  by (simp add: dent_def get_dirent_def DIRSIZ_def DESIZE_def)

lemma dent_cong:
  "(\<And>x. k * DESIZE \<le> x \<Longrightarrow> x < k * DESIZE + DESIZE \<Longrightarrow> fbyte D' p' x = fbyte D p x) \<Longrightarrow> dent D' p' k = dent D p k"
  unfolding dent_def by (intro arg_cong [where f = get_dirent] map_cong) auto

lemma one_block: "nblocks (k * DESIZE) DESIZE = 1"
proof -
  have m: "k * DESIZE mod BSIZE = DESIZE * (k mod 32)"
    by (simp add: DESIZE_def BSIZE_def mult_mod_right mult.commute)
  have "k mod 32 \<le> 31" by simp
  then show ?thesis unfolding nblocks_def m by (simp add: DESIZE_def BSIZE_def div_nat_eqI)
qed

lemma free_ent_le: "free_ent D p \<le> nents p"
  by (auto simp: free_ent_def split: option.splits dest: find_SomeD)

lemma free_ent_before: "j < free_ent D p \<Longrightarrow> de_inum (dent D p j) \<noteq> 0"
proof (cases "find (\<lambda>k. de_inum (dent D p k) = 0) [0..<nents p]")
  case None
  assume "j < free_ent D p"
  then show ?thesis using None by (auto simp: free_ent_def find_None_iff)
next
  case (Some k)
  assume "j < free_ent D p"
  then have j: "j < k" using Some by (simp add: free_ent_def)
  obtain i where "i < nents p" "k = [0..<nents p] ! i" "\<forall>j<i. de_inum (dent D p ([0..<nents p] ! j)) \<noteq> 0"
    using Some by (auto simp: find_Some_iff)
  then show ?thesis using j by auto
qed

lemma free_ent_at: "free_ent D p < nents p \<Longrightarrow> de_inum (dent D p (free_ent D p)) = 0"
  by (auto simp: free_ent_def split: option.splits dest: find_SomeD)

section \<open>Searching\<close>

lemma dir_size: "dir_view ready has s D bs ip p \<Longrightarrow> k < nents p \<Longrightarrow> k * DESIZE + DESIZE \<le> unat (i_size p) \<and> unat (i_size p) \<le> MAXFILE * BSIZE"
proof -
  assume v: "dir_view ready has s D bs ip p" and k: "k < nents p"
  have "Suc k * DESIZE \<le> nents p * DESIZE" using k by (intro mult_le_mono1) simp
  then show ?thesis using v by (simp add: dir_view_def no_holes_def)
qed

context fs_device
begin

lemma dir_view_step:
  "dir_view ready has s D bs ip p \<Longrightarrow> file_step ready has 0 ip s D bs p t D bs p \<Longrightarrow> dir_view ready has t D bs ip p"
  unfolding dir_view_def file_step_def by blast

lemma read_dirent_view:
  assumes v: "dir_view ready has s D bs ip p" and k: "k < nents p" and room: "length bs < 24"
  shows "\<exists>t. read_dirent rw devs msg ip (dir_off k) s = Ok (dent D p k) t \<and> file_step ready has 0 ip s D bs p t D bs p"
proof -
  note sz = dir_size [OF v k]
  have fv: "file_view ready has s D bs ip p" and nh: "no_holes D p" and ty: "i_type p \<noteq> T_DEV"
    using v by (auto simp: dir_view_def T_DIR_def T_DEV_def)
  have u: "unat (dir_off k) = k * DESIZE" "unat (of_nat DESIZE :: uint) = DESIZE"
    using sz by (intro unat_dir_off) (simp_all add: DESIZE_def)
  have off: "unat (dir_off k) + unat (of_nat DESIZE :: uint) \<le> unat (i_size p)" using sz u by simp
  obtain t where "readi rw devs ip (dir_off k) (of_nat DESIZE) s = Ok (int DESIZE, map (fbyte D p) [k * DESIZE..<k * DESIZE + DESIZE]) t"
      "file_step ready has 0 ip s D bs p t D bs p"
    using readi_view [OF fv ty nh off room, of devs] unfolding u by blast
  then show ?thesis by (intro exI [of _ t]) (simp add: read_dirent_def kbind_def dent_def)
qed

text \<open>The loops pass entries that do not match; what follows runs in a state with the same directory.\<close>

lemma lookup_pass:
  assumes "dir_view ready has s D bs ip p" and "length bs < 24" and "good_name DIRSIZ name"
    and "\<forall>k\<in>set ks. k < nents p \<and> \<not> names name (dent D p k)"
  shows "\<exists>t. (\<forall>rest. dirlookup_loop rw devs ip name (map dir_off ks @ rest) s = dirlookup_loop rw devs ip name rest t) \<and>
    file_step ready has 0 ip s D bs p t D bs p"
  using assms
proof (induction ks arbitrary: s)
  case Nil
  have "file_step ready has 0 ip s D bs p s D bs p" by (rule file_step_refl) (use Nil(1) in \<open>simp add: dir_view_def\<close>)
  then show ?case by auto
next
  case (Cons k ks)
  have k: "k < nents p" "\<not> names name (dent D p k)" using Cons.prems(4) by auto
  obtain t where t: "read_dirent rw devs ''dirlookup read'' ip (dir_off k) s = Ok (dent D p k) t" "file_step ready has 0 ip s D bs p t D bs p"
    using read_dirent_view [OF Cons.prems(1) k(1) Cons.prems(2)] by blast
  obtain u where u: "\<forall>rest. dirlookup_loop rw devs ip name (map dir_off ks @ rest) t = dirlookup_loop rw devs ip name rest u"
      "file_step ready has 0 ip t D bs p u D bs p"
    using Cons.IH [OF dir_view_step [OF Cons.prems(1) t(2)]] Cons.prems(2-4) by auto
  obtain c where c: "namecmp name (de_name (dent D p k)) = Some c"
    using strncmp_good [OF Cons.prems(3) length_dent] unfolding namecmp_def by blast
  have "file_step ready has 0 ip s D bs p u D bs p" using file_step_trans [OF t(2) u(2)] by simp
  moreover have "\<forall>rest. dirlookup_loop rw devs ip name (map dir_off (k # ks) @ rest) s = dirlookup_loop rw devs ip name rest u"
    using t(1) u(1) k(2) c by (auto simp: kbind_def names_def)
  ultimately show ?case by blast
qed

lemma empty_pass:
  assumes "dir_view ready has s D bs ip p" and "length bs < 24"
    and "\<forall>k\<in>set ks. k < nents p \<and> de_inum (dent D p k) \<noteq> 0"
  shows "\<exists>t. (\<forall>rest. empty_dirent rw devs ip e (map dir_off ks @ rest) s = empty_dirent rw devs ip e rest t) \<and>
    file_step ready has 0 ip s D bs p t D bs p"
  using assms
proof (induction ks arbitrary: s)
  case Nil
  have "file_step ready has 0 ip s D bs p s D bs p" by (rule file_step_refl) (use Nil(1) in \<open>simp add: dir_view_def\<close>)
  then show ?case by auto
next
  case (Cons k ks)
  have k: "k < nents p" "de_inum (dent D p k) \<noteq> 0" using Cons.prems(3) by auto
  obtain t where t: "read_dirent rw devs ''dirlink read'' ip (dir_off k) s = Ok (dent D p k) t" "file_step ready has 0 ip s D bs p t D bs p"
    using read_dirent_view [OF Cons.prems(1) k(1) Cons.prems(2)] by blast
  obtain u where u: "\<forall>rest. empty_dirent rw devs ip e (map dir_off ks @ rest) t = empty_dirent rw devs ip e rest u"
      "file_step ready has 0 ip t D bs p u D bs p"
    using Cons.IH [OF dir_view_step [OF Cons.prems(1) t(2)]] Cons.prems(2,3) by auto
  have "file_step ready has 0 ip s D bs p u D bs p" using file_step_trans [OF t(2) u(2)] by simp
  moreover have "\<forall>rest. empty_dirent rw devs ip e (map dir_off (k # ks) @ rest) s = empty_dirent rw devs ip e rest u"
    using t(1) u(1) k(2) by (simp add: kbind_def)
  ultimately show ?case by blast
qed

lemma dirlookup_none:
  assumes v: "dir_view ready has s D bs ip p" and "length bs < 24" and "good_name DIRSIZ name"
    and "\<forall>k<nents p. \<not> names name (dent D p k)"
  shows "\<exists>t. dirlookup rw devs ip name s = Ok None t \<and> file_step ready has 0 ip s D bs p t D bs p"
proof -
  have p: "fs_inode s ip = p" "i_type p = T_DIR" "dir_offs (i_size p) = map dir_off [0..<nents p]"
    using v dir_offs_view by (auto simp: dir_view_def file_view_def)
  have "\<forall>k\<in>set [0..<nents p]. k < nents p \<and> \<not> names name (dent D p k)" using assms(4) by simp
  then obtain t where t: "\<forall>rest. dirlookup_loop rw devs ip name (map dir_off [0..<nents p] @ rest) s = dirlookup_loop rw devs ip name rest t"
      "file_step ready has 0 ip s D bs p t D bs p"
    using lookup_pass [OF assms(1-3)] by blast
  have "dirlookup rw devs ip name s = Ok None t" using t(1) [rule_format, of "[]"] p by (simp add: dirlookup_def kret_def)
  then show ?thesis using t(2) by blast
qed

text \<open>The first entry with the name is the one found, and iget gets its inode.\<close>

lemma dirlookup_hit:
  assumes v: "dir_view ready has s D bs ip p" and "length bs < 24" and "good_name DIRSIZ name"
    and k: "k < nents p" "names name (dent D p k)" "\<forall>j<k. \<not> names name (dent D p j)"
  shows "\<exists>t. dirlookup rw devs ip name s =
      kbind (iget (i_dev p) (ucast (de_inum (dent D p k)))) (\<lambda>jp. kret (Some (jp, dir_off k))) t \<and>
    file_step ready has 0 ip s D bs p t D bs p"
proof -
  have p: "fs_inode s ip = p" "i_type p = T_DIR" "dir_offs (i_size p) = map dir_off [0..<nents p]"
    using v dir_offs_view by (auto simp: dir_view_def file_view_def)
  have sp: "[0..<nents p] = [0..<k] @ k # [Suc k..<nents p]" using k(1) upt_add_eq_append [of 0 k "nents p - k"] upt_conv_Cons [of k "nents p"] by simp
  have "\<forall>j\<in>set [0..<k]. j < nents p \<and> \<not> names name (dent D p j)" using k by simp
  then obtain t where t: "\<forall>rest. dirlookup_loop rw devs ip name (map dir_off [0..<k] @ rest) s = dirlookup_loop rw devs ip name rest t"
      "file_step ready has 0 ip s D bs p t D bs p"
    using lookup_pass [OF assms(1-3)] by blast
  obtain u where u: "read_dirent rw devs ''dirlookup read'' ip (dir_off k) t = Ok (dent D p k) u" "file_step ready has 0 ip t D bs p u D bs p"
    using read_dirent_view [OF dir_view_step [OF v t(2)] k(1) assms(2)] by blast
  have "file_view ready has u D bs ip p" using u(2) by (simp add: file_step_def)
  then have pu: "fs_inode u ip = p" by (simp add: file_view_def)
  have "file_step ready has 0 ip s D bs p u D bs p" using file_step_trans [OF t(2) u(2)] by simp
  moreover have "dirlookup rw devs ip name s = dirlookup_loop rw devs ip name (map dir_off [0..<k] @ dir_off k # map dir_off [Suc k..<nents p]) s"
    using p sp by (simp add: dirlookup_def)
  moreover have "\<dots> = kbind (iget (i_dev p) (ucast (de_inum (dent D p k)))) (\<lambda>jp. kret (Some (jp, dir_off k))) u"
    using t(1) u(1) k(2) pu by (simp add: kbind_def names_def)
  ultimately show ?thesis by metis
qed

lemma empty_dirent_view:
  assumes v: "dir_view ready has s D bs ip p" and room: "length bs < 24"
  shows "\<exists>t. empty_dirent rw devs ip (dir_off (nents p)) (map dir_off [0..<nents p]) s = Ok (dir_off (free_ent D p)) t \<and>
    file_step ready has 0 ip s D bs p t D bs p"
proof -
  let ?k = "free_ent D p"
  have "\<forall>k\<in>set [0..<?k]. k < nents p \<and> de_inum (dent D p k) \<noteq> 0"
    using free_ent_before [of _ D p] free_ent_le [of D p] by simp
  then obtain t where t: "\<forall>rest. empty_dirent rw devs ip (dir_off (nents p)) (map dir_off [0..<?k] @ rest) s =
        empty_dirent rw devs ip (dir_off (nents p)) rest t" "file_step ready has 0 ip s D bs p t D bs p"
    using empty_pass [OF v room] by blast
  show ?thesis
  proof (cases "?k = nents p")
    case True
    then show ?thesis using t(1) [rule_format, of "[]"] t(2) by auto
  next
    case False
    then have k: "?k < nents p" using free_ent_le [of D p] by simp
    have sp: "[0..<nents p] = [0..<?k] @ ?k # [Suc ?k..<nents p]"
      using k upt_add_eq_append [of 0 ?k "nents p - ?k"] upt_conv_Cons [of ?k "nents p"] by simp
    obtain u where u: "read_dirent rw devs ''dirlink read'' ip (dir_off ?k) t = Ok (dent D p ?k) u" "file_step ready has 0 ip t D bs p u D bs p"
      using read_dirent_view [OF dir_view_step [OF v t(2)] k room] by blast
    have "empty_dirent rw devs ip (dir_off (nents p)) (map dir_off [0..<?k] @ dir_off ?k # map dir_off [Suc ?k..<nents p]) s = Ok (dir_off ?k) u"
      using t(1) u(1) free_ent_at [OF k] by (simp add: kbind_def kret_def)
    moreover have "file_step ready has 0 ip s D bs p u D bs p" using file_step_trans [OF t(2) u(2)] by simp
    ultimately show ?thesis by (subst sp) auto
  qed
qed

end

section \<open>Adding an entry\<close>

context fs_device
begin

lemma dirlink_view:
  assumes v: "dir_view ready has s D bs ip p" and i: "i_inum p < sb_ninodes (fs_sb s)" and nm: "good_name DIRSIZ name"
    and fresh: "\<forall>k<nents p. \<not> names name (dent D p k)" and lim: "unat (i_size p) + DESIZE \<le> MAXFILE * BSIZE"
    and room: "length bs < 17" and free: "6 \<le> card (free_blocks (fs_sb s) D)"
  shows "\<exists>t D' bs' p' nm. dirlink rw devs ip name inum s = Ok 0 t \<and> dir_view ready has t D' bs' ip p' \<and>
    p' = p\<lparr>i_addrs := i_addrs p', i_size := i_size p'\<rparr> \<and> namecmp name nm = Some 0 \<and> length bs' \<le> length bs + 7 \<and>
    dent D' p' (free_ent D p) = \<lparr>de_inum = ucast inum, de_name = nm\<rparr> \<and>
    (\<forall>j<nents p. j \<noteq> free_ent D p \<longrightarrow> dent D' p' j = dent D p j) \<and> nents p' = max (nents p) (Suc (free_ent D p))"
proof -
  let ?k = "free_ent D p"
  have l24: "length bs < 24" using room by simp
  obtain s1 where 1: "dirlookup rw devs ip name s = Ok None s1" "file_step ready has 0 ip s D bs p s1 D bs p"
    using dirlookup_none [OF v l24 nm fresh] by blast
  have v1: "dir_view ready has s1 D bs ip p" by (rule dir_view_step [OF v 1(2)])
  obtain s2 where 2: "empty_dirent rw devs ip (dir_off (nents p)) (map dir_off [0..<nents p]) s1 = Ok (dir_off ?k) s2"
      "file_step ready has 0 ip s1 D bs p s2 D bs p"
    using empty_dirent_view [OF v1 l24] by blast
  have v2: "dir_view ready has s2 D bs ip p" by (rule dir_view_step [OF v1 2(2)])
  have sb: "fs_sb s2 = fs_sb s" using 1(2) 2(2) by (simp add: file_step_def)
  obtain nm where n: "strncpy (replicate DIRSIZ NUL) name DIRSIZ = Some nm" "length nm = DIRSIZ" "namecmp name nm = Some 0"
    using strncpy_good [OF nm, of "replicate DIRSIZ NUL"] unfolding namecmp_def by auto
  define de where "de = \<lparr>de_inum = ucast inum, de_name = nm\<rparr>"
  have ld: "length (put_dirent de) = DESIZE" using n(2) by (intro length_put_dirent) (simp add: de_def)
  have sz: "unat (i_size p) = nents p * DESIZE" and ty: "i_type p = T_DIR" "i_type p \<noteq> T_DEV" and nh: "no_holes D p"
    and fv2: "file_view ready has s2 D bs ip p" and p1: "fs_inode s1 ip = p"
    using v2 v1 by (auto simp: dir_view_def file_view_def T_DIR_def T_DEV_def)
  have kn: "?k * DESIZE \<le> nents p * DESIZE" using free_ent_le [of D p] by simp
  have kl: "?k * DESIZE + DESIZE \<le> MAXFILE * BSIZE" using kn lim unfolding sz by linarith
  have u: "unat (dir_off ?k) = ?k * DESIZE" "unat (of_nat DESIZE :: uint) = DESIZE"
    using unat_dir_off [OF kl] by (simp_all add: DESIZE_def)
  have w0: "i_inum p < sb_ninodes (fs_sb s2)" "unat (dir_off ?k) \<le> unat (i_size p)"
      "unat (dir_off ?k) + unat (of_nat DESIZE :: uint) \<le> MAXFILE * BSIZE" "length (put_dirent de) = unat (of_nat DESIZE :: uint)"
      "length bs + 6 * nblocks (unat (dir_off ?k)) (unat (of_nat DESIZE :: uint)) < 29"
      "6 * nblocks (unat (dir_off ?k)) (unat (of_nat DESIZE :: uint)) \<le> card (free_blocks (fs_sb s2) D)"
    using i sb sz kn kl ld room free unfolding u one_block by simp_all
  obtain t D' bs' p' where w: "writei rw devs ip (put_dirent de) (dir_off ?k) (of_nat DESIZE) s2 = Ok (int DESIZE) t"
      "file_view ready has t D' bs' ip p'" "p' = p\<lparr>i_addrs := i_addrs p', i_size := i_size p'\<rparr>"
      "unat (i_size p') = max (unat (i_size p)) (?k * DESIZE + DESIZE)" "no_holes D' p'" "length bs' \<le> length bs + 6 * 1 + 1"
      "\<forall>x<MAXFILE * BSIZE. fbyte D' p' x = (if ?k * DESIZE \<le> x \<and> x < ?k * DESIZE + DESIZE then put_dirent de ! (x - ?k * DESIZE) else fbyte D p x)"
    using writei_view [OF fv2 ty(2) w0 nh, of devs, unfolded u one_block] by (elim exE conjE) (rule that; assumption)
  have "unat (i_size p') = max (nents p) (Suc ?k) * DESIZE" unfolding w(4) sz by (simp add: max_def DESIZE_def)
  then have np: "nents p' = max (nents p) (Suc ?k)" and sz': "unat (i_size p') = nents p' * DESIZE" by (simp_all add: nents_def DESIZE_def)
  have "i_type p' = T_DIR" using ty(1) by (subst w(3)) simp
  then have v': "dir_view ready has t D' bs' ip p'" using w(2,5) sz' by (simp add: dir_view_def)
  have "dirlink rw devs ip name inum s = Ok 0 t"
    using 1(1) 2(1) w(1) n(1) p1 dir_offs_view [OF sz]
    by (simp add: dirlink_def kbind_def Let_def dir_off_def [symmetric] de_def [symmetric] kret_def del: of_nat_mult)
  moreover have "map (fbyte D' p') [?k * DESIZE..<?k * DESIZE + DESIZE] = put_dirent de"
    using w(7) kl ld by (intro nth_equalityI) auto
  then have "dent D' p' ?k = de" unfolding dent_def using dirent_round_trip [of de] n(2) by (simp add: de_def)
  moreover have "dent D' p' j = dent D p j" if j: "j < nents p" "j \<noteq> ?k" for j
  proof (rule dent_cong)
    fix x assume x: "j * DESIZE \<le> x" "x < j * DESIZE + DESIZE"
    have "x div DESIZE = j" using x by (intro div_nat_eqI) (simp_all add: DESIZE_def)
    then have o: "\<not> (?k * DESIZE \<le> x \<and> x < ?k * DESIZE + DESIZE)" using j(2) div_nat_eqI [of DESIZE ?k x] by (auto simp: DESIZE_def)
    have "x < MAXFILE * BSIZE" using x dir_size [OF v j(1)] by simp
    then show "fbyte D' p' x = fbyte D p x" using w(7) o by auto
  qed
  ultimately show ?thesis using v' w(3,6) n(3) np unfolding de_def
    by (intro exI [of _ t] exI [of _ D'] exI [of _ bs'] exI [of _ p'] exI [of _ nm]) simp
qed

end

text \<open>C14: what dirlink adds to a directory dirlookup finds. For a name that is not in the directory, dirlink
  returns 0 and puts the entry in the first empty place, or at the end; every other entry keeps its place and
  its content. A lookup of the name then gets, by iget, the inode that was linked, at the offset of the entry:
  names longer than 14 characters are cut, and still found.\<close>

theorem dirlink_then_lookup:
  assumes "dir_view ide_ready (\<lambda>s n. n < FSSIZE) s D bs ip p" and "i_inum p < sb_ninodes (fs_sb s)" and "good_name DIRSIZ name"
    and "\<forall>k<nents p. \<not> names name (dent D p k)" and "unat (i_size p) + DESIZE \<le> MAXFILE * BSIZE"
    and "length bs < 17" and "6 \<le> card (free_blocks (fs_sb s) D)" and "(ucast inum :: ushort) \<noteq> 0"
  shows "\<exists>t u D' bs' p'. dirlink iderw devs ip name inum s = Ok 0 t \<and>
    dirlookup iderw devs ip name t =
      kbind (iget (i_dev p) (ucast (ucast inum :: ushort))) (\<lambda>jp. kret (Some (jp, dir_off (free_ent D p)))) u \<and>
    dir_view ide_ready (\<lambda>s n. n < FSSIZE) u D' bs' ip p' \<and> nents p' = max (nents p) (Suc (free_ent D p)) \<and>
    (\<forall>j<nents p. j \<noteq> free_ent D p \<longrightarrow> dent D' p' j = dent D p j)"
proof -
  let ?k = "free_ent D p"
  obtain t D' bs' p' nm where t: "dirlink iderw devs ip name inum s = Ok 0 t" "dir_view ide_ready (\<lambda>s n. n < FSSIZE) t D' bs' ip p'"
      "p' = p\<lparr>i_addrs := i_addrs p', i_size := i_size p'\<rparr>" "namecmp name nm = Some 0" "length bs' \<le> length bs + 7"
      "dent D' p' ?k = \<lparr>de_inum = ucast inum, de_name = nm\<rparr>" "\<forall>j<nents p. j \<noteq> ?k \<longrightarrow> dent D' p' j = dent D p j"
      "nents p' = max (nents p) (Suc ?k)"
    using ide_fs.dirlink_view [OF assms(1-7), of devs inum] by (elim exE conjE) (rule that; assumption)
  have l: "length bs' < 24" using t(5) assms(6) by simp
  have k: "?k < nents p'" "names name (dent D' p' ?k)" using t(4,6,8) assms(8) by (simp_all add: names_def)
  have b: "\<forall>j<?k. \<not> names name (dent D' p' j)"
  proof (intro allI impI)
    fix j assume "j < ?k"
    then have "j < nents p" "j \<noteq> ?k" using free_ent_le [of D p] by simp_all
    then show "\<not> names name (dent D' p' j)" using t(7) assms(4) by simp
  qed
  have d: "i_dev p' = i_dev p" by (subst t(3)) simp
  obtain u where u: "dirlookup iderw devs ip name t =
        kbind (iget (i_dev p') (ucast (de_inum (dent D' p' ?k)))) (\<lambda>jp. kret (Some (jp, dir_off ?k))) u"
      "file_step ide_ready (\<lambda>s n. n < FSSIZE) 0 ip t D' bs' p' u D' bs' p'"
    using ide_fs.dirlookup_hit [OF t(2) l assms(3) k b, of devs] by blast
  have "dir_view ide_ready (\<lambda>s n. n < FSSIZE) u D' bs' ip p'" by (rule ide_fs.dir_view_step [OF t(2) u(2)])
  moreover have "dirlookup iderw devs ip name t =
        kbind (iget (i_dev p) (ucast (ucast inum :: ushort))) (\<lambda>jp. kret (Some (jp, dir_off ?k))) u"
    using u(1) unfolding t(6) d by simp
  ultimately show ?thesis using t(1,7,8)
    by (intro exI [of _ t] exI [of _ u] exI [of _ D'] exI [of _ bs'] exI [of _ p']) simp
qed

text \<open>An empty directory in the example file system.\<close>

definition ex_dir :: inode where
  "ex_dir = ex_inode\<lparr>i_type := T_DIR\<rparr>"

definition ex_dir_fs :: fs_st where
  "ex_dir_fs = iupd 0 (\<lambda>p. p\<lparr>i_type := T_DIR\<rparr>) ex_fs"

lemma ex_dir_view: "dir_view ide_ready (\<lambda>s n. n < FSSIZE) ex_dir_fs (ex_image 1) [] 0 ex_dir"
proof -
  have a: "i_addrs ex_dir = i_addrs ex_inode" "i_dev ex_dir = i_dev ex_inode" "i_size ex_dir = 0" "i_type ex_dir = T_DIR"
    by (simp_all add: ex_dir_def ex_inode_def)
  note sa = same_addrs [OF a(1)]
  have "file_view ide_ready (\<lambda>s n. n < FSSIZE) ex_dir_fs (ex_image 1) [] 0 ex_dir"
    using ex_file_view a(2) sa(5) by (simp add: file_view_def ex_dir_fs_def ide_fs.iupd_view ex_dir_def [symmetric])
  then show ?thesis using a by (simp add: dir_view_def nents_def no_holes_def)
qed

theorem dirlink_then_lookup_witness:
  "\<exists>t u. dirlink iderw (\<lambda>_. \<lparr>dv_read = None, dv_write = None\<rparr>) 0 [CHR ''a'', NUL] 7 ex_dir_fs = Ok 0 t \<and>
     dirlookup iderw (\<lambda>_. \<lparr>dv_read = None, dv_write = None\<rparr>) 0 [CHR ''a'', NUL] t = kbind (iget 1 7) (\<lambda>jp. kret (Some (jp, 0))) u"
proof -
  have f: "fs_sb ex_dir_fs = ex_sb" by (simp add: ex_dir_fs_def ex_fs_facts iupd_def)
  have i: "i_inum ex_dir = 1" "i_dev ex_dir = 1" "i_size ex_dir = 0" by (simp_all add: ex_dir_def ex_inode_def)
  have n: "nents ex_dir = 0" "free_ent (ex_image 1) ex_dir = 0" by (simp_all add: nents_def free_ent_def i)
  have e: "i_inum ex_dir < sb_ninodes (fs_sb ex_dir_fs)" "good_name DIRSIZ [CHR ''a'', NUL]"
      "\<forall>k<nents ex_dir. \<not> names [CHR ''a'', NUL] (dent (ex_image 1) ex_dir k)" "unat (i_size ex_dir) + DESIZE \<le> MAXFILE * BSIZE"
      "length ([] :: uint list) < 17" "6 \<le> card (free_blocks (fs_sb ex_dir_fs) (ex_image 1))" "(ucast (7 :: uint) :: ushort) \<noteq> 0"
    using ex_free n unfolding f by (simp_all add: i good_name_def ex_sb_def DESIZE_def MAXFILE_def NDIRECT_def NINDIRECT_def BSIZE_def)
  have u: "(ucast (ucast (7 :: uint) :: ushort) :: uint) = 7" "dir_off 0 = 0" by (simp_all add: dir_off_def)
  show ?thesis using dirlink_then_lookup [OF ex_dir_view e] unfolding n i u by blast
qed

end
