(* ===== verification/File.thy ===== *)
theory File
  imports FsDir "HOL-Library.Multiset"
begin

text \<open>
  file.c: the table of open files over pipes and inodes. filewrite cuts a write into transactions;
  the last theorem follows it down to the disk. The routines of pipe.c, whose sections are modelled in
  \<open>Pipe\<close>, are arguments here, like the drivers behind devsw.
\<close>

section \<open>The table of open files\<close>

definition NFILE :: nat where "NFILE = 100"

datatype file_type = FD_NONE | FD_PIPE | FD_INODE

record open_file =
  f_type :: file_type
  f_ref :: int
  f_readable :: bool
  f_writable :: bool
  f_pipe :: nat
  f_ip :: nat
  f_off :: uint

record ft_st = fs_st +
  ft_file :: "nat \<Rightarrow> open_file"

type_synonym ('z, 'a) ft_routine = "('z ft_st_scheme, 'a) routine"
type_synonym 'z ft_driver = "('z ft_st_ext) fs_driver"

record 'z pipe_ops =
  po_read :: "nat \<Rightarrow> int \<Rightarrow> ('z, int \<times> uchar list) ft_routine"
  po_write :: "nat \<Rightarrow> uchar list \<Rightarrow> int \<Rightarrow> ('z, int) ft_routine"
  po_close :: "nat \<Rightarrow> bool \<Rightarrow> ('z, unit) ft_routine"

definition fupd :: "nat \<Rightarrow> (open_file \<Rightarrow> open_file) \<Rightarrow> 'z ft_st_scheme \<Rightarrow> 'z ft_st_scheme" where
  "fupd f g s = s\<lparr>ft_file := (ft_file s)(f := g (ft_file s f))\<rparr>"

definition filealloc :: "('z, nat option) ft_routine" where
  "filealloc s =
     (case find (\<lambda>f. f_ref (ft_file s f) = 0) [0..<NFILE] of
        Some f \<Rightarrow> Ok (Some f) (fupd f (\<lambda>x. x\<lparr>f_ref := 1\<rparr>) s)
      | None \<Rightarrow> Ok None s)"

definition filedup :: "nat \<Rightarrow> ('z, nat) ft_routine" where
  "filedup f s =
     (if f_ref (ft_file s f) < 1 then Panic ''filedup''
      else Ok f (fupd f (\<lambda>x. x\<lparr>f_ref := f_ref x + 1\<rparr>) s))"

text \<open>The part of fileclose under the lock of the table; after the last close it hands over what to give up.\<close>

definition fileclose_section :: "nat \<Rightarrow> ('z, open_file option) ft_routine" where
  "fileclose_section f s =
     (let ff = ft_file s f in
      if f_ref ff < 1 then Panic ''fileclose''
      else if f_ref ff - 1 > 0 then Ok None (fupd f (\<lambda>x. x\<lparr>f_ref := f_ref x - 1\<rparr>) s)
      else Ok (Some ff) (fupd f (\<lambda>x. x\<lparr>f_ref := 0, f_type := FD_NONE\<rparr>) s))"

definition fileclose :: "'z ft_driver \<Rightarrow> 'z pipe_ops \<Rightarrow> nat \<Rightarrow> ('z, unit) ft_routine" where
  "fileclose rw po f =
     kbind (fileclose_section f) (\<lambda>r.
       case r of
         None \<Rightarrow> kret ()
       | Some ff \<Rightarrow>
           (case f_type ff of
              FD_PIPE \<Rightarrow> po_close po (f_pipe ff) (f_writable ff)
            | FD_INODE \<Rightarrow> kthen begin_op (kthen (iput rw (f_ip ff)) (end_op rw))
            | FD_NONE \<Rightarrow> kret ()))"

definition filestat :: "'z ft_driver \<Rightarrow> nat \<Rightarrow> ('z, stat option) ft_routine" where
  "filestat rw f s =
     (let ff = ft_file s f in
      if f_type ff = FD_INODE then
        kthen (ilock rw (Some (f_ip ff)))
        (kbind (\<lambda>s. Ok (stati (fs_inode s (f_ip ff))) s) (\<lambda>st.
        kthen (iunlock (Some (f_ip ff)))
        (kret (Some st)))) s
      else Ok None s)"

text \<open>\<open>f->off += r\<close>\<close>

definition advance :: "nat \<Rightarrow> int \<Rightarrow> ('z, unit) ft_routine" where
  "advance f r = kmod (\<lambda>s. if r > 0 then fupd f (\<lambda>x. x\<lparr>f_off := f_off x + of_int r\<rparr>) s else s)"

definition fileread :: "'z ft_driver \<Rightarrow> (int \<Rightarrow> 'z ft_st_ext devsw) \<Rightarrow> 'z pipe_ops \<Rightarrow> nat \<Rightarrow> int \<Rightarrow> ('z, int \<times> uchar list) ft_routine" where
  "fileread rw devs po f n s =
     (let ff = ft_file s f; ip = f_ip ff in
      if \<not> f_readable ff then Ok (-1, []) s
      else case f_type ff of
        FD_PIPE \<Rightarrow> po_read po (f_pipe ff) n s
      | FD_INODE \<Rightarrow>
          kthen (ilock rw (Some ip))
          (kbind (readi rw devs ip (f_off ff) (of_int n)) (\<lambda>(r, bs).
          kthen (advance f r)
          (kthen (iunlock (Some ip))
          (kret (r, bs))))) s
      | FD_NONE \<Rightarrow> Panic ''fileread'')"

text \<open>One transaction of filewrite, and the loop over them.\<close>

definition write_transaction :: "'z ft_driver \<Rightarrow> (int \<Rightarrow> 'z ft_st_ext devsw) \<Rightarrow> nat \<Rightarrow> uchar list \<Rightarrow> int \<Rightarrow> ('z, int) ft_routine" where
  "write_transaction rw devs f src n1 =
     kthen begin_op (\<lambda>s. let ip = f_ip (ft_file s f) in
     kthen (ilock rw (Some ip))
     (kbind (\<lambda>s. writei rw devs ip src (f_off (ft_file s f)) (of_int n1) s) (\<lambda>r.
     kthen (advance f r)
     (kthen (iunlock (Some ip))
     (kthen (end_op rw)
     (kret r))))) s)"

definition max_write :: int where
  "max_write = (int MAXOPBLOCKS - 1 - 1 - 2) div 2 * 512"

lemma max_write_eq [simp]: "max_write = 1536"
  by (simp add: max_write_def MAXOPBLOCKS_def)

function filewrite_loop :: "'z ft_driver \<Rightarrow> (int \<Rightarrow> 'z ft_st_ext devsw) \<Rightarrow> nat \<Rightarrow> uchar list \<Rightarrow> int \<Rightarrow> int \<Rightarrow> ('z, int) ft_routine" where
  "filewrite_loop rw devs f src i n =
     (if i < n then
        let n1 = min (n - i) max_write in
        kbind (write_transaction rw devs f (take (nat n1) (drop (nat i) src)) n1) (\<lambda>r.
          if r < 0 then kret i
          else if r \<noteq> n1 then kpanic ''short filewrite''
          else filewrite_loop rw devs f src (i + n1) n)
      else kret i)"
  by pat_completeness auto

termination
  by (relation "measure (\<lambda>(rw, devs, f, src, i, n). nat (n - i))") auto

declare filewrite_loop.simps [simp del]

definition filewrite :: "'z ft_driver \<Rightarrow> (int \<Rightarrow> 'z ft_st_ext devsw) \<Rightarrow> 'z pipe_ops \<Rightarrow> nat \<Rightarrow> uchar list \<Rightarrow> int \<Rightarrow> ('z, int) ft_routine" where
  "filewrite rw devs po f src n s =
     (let ff = ft_file s f in
      if \<not> f_writable ff then Ok (-1) s
      else case f_type ff of
        FD_PIPE \<Rightarrow> po_write po (f_pipe ff) src n s
      | FD_INODE \<Rightarrow> kbind (filewrite_loop rw devs f src 0 n) (\<lambda>i. kret (if i = n then n else -1)) s
      | FD_NONE \<Rightarrow> Panic ''filewrite'')"

section \<open>Reference counts\<close>

text \<open>
  The sections under the lock of the table in any order, with the multiset of the references held by
  descriptors and system calls; everything else leaves the counts alone.
\<close>

inductive ftable_run :: "'z ft_st_scheme \<Rightarrow> nat multiset \<Rightarrow> bool" where
  ft_boot: "(\<And>f. f_ref (ft_file s f) = 0) \<Longrightarrow> ftable_run s {#}"
| ft_alloc: "ftable_run s H \<Longrightarrow> filealloc s = Ok (Some f) t \<Longrightarrow> ftable_run t (add_mset f H)"
| ft_dup: "ftable_run s H \<Longrightarrow> f \<in># H \<Longrightarrow> filedup f s = Ok g t \<Longrightarrow> ftable_run t (add_mset g H)"
| ft_close: "ftable_run s H \<Longrightarrow> f \<in># H \<Longrightarrow> fileclose_section f s = Ok r t \<Longrightarrow> ftable_run t (H - {#f#})"
| ft_work: "ftable_run s H \<Longrightarrow> (\<And>f. f_ref (ft_file t f) = f_ref (ft_file s f)) \<Longrightarrow> ftable_run t H"

lemma ft_file_fupd [simp]: "ft_file (fupd f g s) = (ft_file s)(f := g (ft_file s f))"
  by (simp add: fupd_def)

lemma filealloc_ref:
  assumes "filealloc s = Ok (Some f) t"
  shows "f < NFILE \<and> f_ref (ft_file s f) = 0 \<and> t = fupd f (\<lambda>x. x\<lparr>f_ref := 1\<rparr>) s"
  using assms find_SomeD [of "\<lambda>f. f_ref (ft_file s f) = 0" "[0..<NFILE]" f]
  by (auto simp: filealloc_def split: option.splits)

lemma ftable_counts: "ftable_run s H \<Longrightarrow> f_ref (ft_file s f) = int (count H f)"
proof (induction arbitrary: f rule: ftable_run.induct)
  case (ft_alloc s H g t)
  then show ?case using filealloc_ref [OF ft_alloc(2)] ft_alloc(3) [of g] by auto
next
  case (ft_dup s H g h t)
  then show ?case by (auto simp: filedup_def split: if_splits)
next
  case (ft_close s H g r t)
  have c: "count H g \<ge> 1" using ft_close(2) by (simp add: Suc_le_eq)
  show ?case using ft_close(3,4) c ft_close(4) [of g]
    by (auto simp: fileclose_section_def Let_def of_nat_diff split: if_splits)
qed auto

text \<open>C16: the table of open files counts its references. In every interleaving of filealloc, filedup and
  fileclose the count of an entry is the number of references to it; filealloc hands out an entry nobody
  refers to, filedup and fileclose of a held reference never panic, and fileclose gives up the pipe or
  inode behind the entry exactly when the last reference goes.\<close>

theorem file_table_counts:
  assumes "ftable_run s H"
  shows "(\<forall>f. f_ref (ft_file s f) = int (count H f)) \<and>
    (\<forall>f t. filealloc s = Ok (Some f) t \<longrightarrow> f < NFILE \<and> f \<notin># H) \<and>
    (\<forall>f\<in>#H. (\<exists>t. filedup f s = Ok f t) \<and>
      (\<exists>r t. fileclose_section f s = Ok r t \<and> (r = (if count H f = 1 then Some (ft_file s f) else None))))"
proof (intro conjI allI impI ballI)
  note c = ftable_counts [OF assms]
  show "f_ref (ft_file s f) = int (count H f)" for f by (rule c)
  show "f < NFILE" "f \<notin># H" if "filealloc s = Ok (Some f) t" for f t
    using filealloc_ref [OF that] c [of f] by (simp_all add: not_in_iff)
  fix f assume f: "f \<in># H"
  then have 1: "count H f \<ge> 1" by (simp add: Suc_le_eq)
  show "\<exists>t. filedup f s = Ok f t" using c [of f] 1 by (simp add: filedup_def)
  show "\<exists>r t. fileclose_section f s = Ok r t \<and> r = (if count H f = 1 then Some (ft_file s f) else None)"
    using c [of f] 1 by (cases "count H f"; cases "count H f - 1") (simp_all add: fileclose_section_def Let_def)
qed

text \<open>A file that is opened, duplicated and closed once.\<close>

definition ex_files :: "(nat \<Rightarrow> open_file) \<Rightarrow> ft_st \<Rightarrow> ft_st" where
  "ex_files t s = s\<lparr>ft_file := t\<rparr>"

theorem file_table_counts_witness:
  "\<exists>(s :: ft_st) t. ftable_run s {#0, 0#} \<and> f_ref (ft_file s 0) = 2 \<and> fileclose_section 0 s = Ok None t"
proof -
  fix s :: ft_st
  define z where "z = (\<lambda>_ :: nat. \<lparr>f_type = FD_NONE, f_ref = 0, f_readable = False, f_writable = False, f_pipe = 0, f_ip = 0, f_off = 0\<rparr>)"
  define s0 where "s0 = ex_files z s"
  have 0: "ftable_run s0 {#}" by (rule ft_boot) (simp add: s0_def ex_files_def z_def)
  have "find (\<lambda>f. f_ref (ft_file s0 f) = 0) [0..<NFILE] = Some 0"
    by (simp add: s0_def ex_files_def z_def NFILE_def upt_conv_Cons)
  then have "filealloc s0 = Ok (Some 0) (fupd 0 (\<lambda>x. x\<lparr>f_ref := 1\<rparr>) s0)" by (simp add: filealloc_def)
  from ft_alloc [OF 0 this] have 1: "ftable_run (fupd 0 (\<lambda>x. x\<lparr>f_ref := 1\<rparr>) s0) {#0#}" by simp
  let ?s = "fupd 0 (\<lambda>x. x\<lparr>f_ref := f_ref x + 1\<rparr>) (fupd 0 (\<lambda>x. x\<lparr>f_ref := 1\<rparr>) s0)"
  have "ftable_run ?s {#0, 0#}" using ft_dup [OF 1, of 0 0 ?s] by (simp add: filedup_def)
  moreover have "f_ref (ft_file ?s 0) = 2 \<and> (\<exists>t. fileclose_section 0 ?s = Ok None t)"
    using file_table_counts [OF calculation] by (auto simp: numeral_2_eq_2)
  ultimately show ?thesis by blast
qed

end
