(* ===== verification/FileWrite.thy ===== *)
theory FileWrite
  imports File
begin

text \<open>
  filewrite from the table of open files down to the disk: each transaction fits into the log, and
  after the last one the blocks of the disk hold the bytes written.
\<close>

section \<open>Between transactions\<close>

text \<open>No operation is under way and the log is empty; \<open>D\<close> is what the disk holds.\<close>

definition at_rest :: "('z fs_st_scheme \<Rightarrow> uint \<Rightarrow> bool) \<Rightarrow> ('z fs_st_scheme \<Rightarrow> uint \<Rightarrow> bool) \<Rightarrow>
    'z fs_st_scheme \<Rightarrow> (uint \<Rightarrow> block) \<Rightarrow> nat \<Rightarrow> inode \<Rightarrow> bool" where
  "at_rest ready has s D ip p \<longleftrightarrow> cache_inv {} s \<and> log_names ready has s [] \<and> dirty_set s = {} \<and>
     head_n (d_disk s (lg_dev s) (lg_start s)) = 0 \<and> lg_outstanding s = 0 \<and> \<not> lg_committing s \<and> lg_size s = int LOGSIZE \<and>
     d_disk s (lg_dev s) = D \<and> fs_inode s ip = p \<and> i_dev p = lg_dev s \<and>
     fs_ok (has s) (log_area s) (fs_sb s) D \<and> file_ok (log_area s) (fs_sb s) D p"

text \<open>The log area is not part of any file, nor of the bitmap or the inodes.\<close>

lemma outside_log:
  assumes ok: "fs_ok h area sb D" and fo: "file_ok area sb D p" and o: "\<forall>n. n \<notin> area \<longrightarrow> D' n = D n"
  shows "fs_ok h area sb D'" "file_ok area sb D' p" "k \<le> MAXFILE \<Longrightarrow> ptr D' p k = ptr D p k"
    "k < MAXFILE \<Longrightarrow> fdata D' p k = fdata D p k" "free_blocks sb D' = free_blocks sb D"
proof -
  have us: "used sb D' b = used sb D b" if "b < sb_size sb" for b
    using o fs_okD(4) [OF ok that] by (simp add: used_def)
  have area: "n \<in> area \<Longrightarrow> n \<notin> own D p" for n using file_okD(2) [OF fo, of n] by (auto simp: meta_blocks_def)
  have keep: "D' (ptr D p k) = D (ptr D p k)" if "k \<le> MAXFILE" "ptr D p k \<noteq> 0" for k
    using o area own_ptr [OF that] by blast
  have pM: "ptr D' p MAXFILE = ptr D p MAXFILE" by (simp add: ptr_def MAXFILE_def NDIRECT_def NINDIRECT_def BSIZE_def)
  show pt: "ptr D' p k = ptr D p k" if "k \<le> MAXFILE" for k
  proof (cases "k < NDIRECT \<or> k = MAXFILE")
    case True
    then show ?thesis using pM by (auto simp: ptr_eqs(1))
  next
    case False
    then show ?thesis using that keep [of MAXFILE] pM by (simp add: ptr_eqs(3))
  qed
  show "fdata D' p k = fdata D p k" if "k < MAXFILE"
    using that keep [of k] pt [of k] by (simp add: fdata_def)
  have ow: "own D' p = own D p" using pt by (auto simp: own_def)
  have m: "m \<in> meta_blocks area sb \<Longrightarrow> m < sb_size sb" for m using fs_okD(3) [OF ok] by blast
  have z: "0 < sb_size sb \<Longrightarrow> used sb D' 0 = used sb D 0" using us by blast
  show "free_blocks sb D' = free_blocks sb D" using us by (auto simp: free_blocks_def)
  have z: "used sb D' 0 = used sb D 0"
  proof (cases "sb_size sb = 0")
    case False
    then show ?thesis using us [of 0] by (simp add: word_neq_0_conv)
  next
    case True
    then have "area = {}" using m by (auto simp: meta_blocks_def)
    then show ?thesis using o by (simp add: used_def)
  qed
  show "fs_ok h area sb D'" using ok us m z unfolding fs_ok_def by blast
  show "file_ok area sb D' p"
    unfolding file_ok_def ow
  proof (intro conjI ballI allI impI)
    show "length (i_addrs p) = NDIRECT + 1" by (rule file_okD(1) [OF fo])
    show "b < sb_size sb" "used sb D' b" "b \<notin> meta_blocks area sb" if "b \<in> own D p" for b
      using file_okD(2) [OF fo that] us by simp_all
    show "j = k" if "j \<le> MAXFILE" "k \<le> MAXFILE" "ptr D' p j = ptr D' p k \<and> ptr D' p j \<noteq> 0" for j k
      using file_okD(3) [OF fo that(1,2)] that(3) pt that(1,2) by metis
  qed
qed

lemma fbyte_cong: "(\<And>k. k < MAXFILE \<Longrightarrow> fdata D' q k = fdata D p k) \<Longrightarrow> x < MAXFILE * BSIZE \<Longrightarrow> fbyte D' q x = fbyte D p x"
  by (simp add: fbyte_def div_less_iff_less_mult)

lemma counters_simps [simp]:
  fixes s :: "'z log_st_scheme"
  shows "cache_inv H (s\<lparr>lg_outstanding := k\<rparr>) = cache_inv H s" "cache_inv H (s\<lparr>lg_committing := c\<rparr>) = cache_inv H s"
    "dirty_set (s\<lparr>lg_outstanding := k\<rparr>) = dirty_set s" "dirty_set (s\<lparr>lg_committing := c\<rparr>) = dirty_set s"
    "content (s\<lparr>lg_outstanding := k\<rparr>) = content s" "content (s\<lparr>lg_committing := c\<rparr>) = content s"
    "cache_inv H (s\<lparr>lg_outstanding := k, lg_committing := c\<rparr>) = cache_inv H s"
    "dirty_set (s\<lparr>lg_outstanding := k, lg_committing := c\<rparr>) = dirty_set s"
    "content (s\<lparr>lg_outstanding := k, lg_committing := c\<rparr>) = content s"
  by (simp_all add: cache_inv_def ring_def buf_ok_def holds_def dirty_set_def Let_def content_def fun_eq_iff split: option.split)

context fs_device
begin

lemma begin_op_view:
  assumes "at_rest ready has s D ip p"
  shows "begin_op s = Ok () (s\<lparr>lg_outstanding := 1\<rparr>)" "file_view ready has (s\<lparr>lg_outstanding := 1\<rparr>) D [] ip p"
proof -
  let ?t = "s\<lparr>lg_outstanding := 1\<rparr>"
  note r = assms [unfolded at_rest_def]
  have hw: "same_hw s ?t" by (simp add: same_hw_def)
  note hs = env_ready [OF hw]
  show "begin_op s = Ok () ?t" using r by (simp add: begin_op_def log_names_def LOGSIZE_def MAXOPBLOCKS_def)
  have a: "log_area ?t = log_area s" by (simp add: log_area_def)
  have "log_names ready has ?t []" using r hs by (simp add: log_names_def a)
  moreover have "content s (lg_dev s) = D" using r content_clean [of "lg_dev s" _ s] by (auto simp: fun_eq_iff)
  moreover have "has ?t = has s" using hs(2) by (rule ext)
  moreover have "head_n (D (lg_start s)) = 0" using r by metis
  ultimately show "file_view ready has ?t D [] ip p"
    using r by (simp add: file_view_def log_view_def a)
qed

lemma end_op_view:
  assumes v: "file_view ready has s D bs ip p" and out: "lg_outstanding s = 1" "\<not> lg_committing s"
  shows "\<exists>t D'. end_op rw s = Ok () t \<and> at_rest ready has t D' ip p \<and> (\<forall>n. n \<notin> log_area s \<longrightarrow> D' n = D n) \<and>
    same_hw s t \<and> log_st.more t = log_st.more s \<and> lg_dev t = lg_dev s \<and> lg_start t = lg_start s"
proof -
  let ?d = "lg_dev s"
  have lv: "log_view ready has {} s D bs" and ok: "fs_ok (has s) (log_area s) (fs_sb s) D"
    and fo: "file_ok (log_area s) (fs_sb s) D p" and p: "fs_inode s ip = p" "i_dev p = ?d"
    using v by (simp_all add: file_view_def)
  note l = lv [unfolded log_view_def] and nm = lv [unfolded log_view_def log_names_def]
  define s1 where "s1 = s\<lparr>lg_outstanding := 0, lg_committing := True\<rparr>"
  have hw1: "same_hw s s1" by (simp add: same_hw_def s1_def)
  note hs1 = env_ready [OF hw1]
  have a1: "log_area s1 = log_area s" by (simp add: log_area_def s1_def)
  have i1: "cache_inv {} s1" and d1: "dirty_set s1 = Pair (lg_dev s1) ` set bs" and f1: "lg_dev s1 = ?d" "lg_start s1 = lg_start s"
    "d_disk s1 = d_disk s" "lg_size s1 = lg_size s" "lg_block s1 = lg_block s" "lg_n s1 = lg_n s"
    using l by (simp_all add: s1_def)
  have n1: "log_names ready has s1 bs" using l hs1 by (simp add: log_names_def a1 f1)
  have c1: "content s1 = content s" by (simp add: s1_def)
  have pin: "content s1 (lg_dev s1) n = d_disk s1 (lg_dev s1) n" if "n \<notin> set bs" for n
    using that d1 by (intro content_clean) auto
  have "\<exists>t. commit rw s1 = Ok () t \<and> cache_inv {} t \<and> dirty_set t = {} \<and> same_hw s1 t \<and>
      dsk.more t = dsk.more (s1\<lparr>lg_n := 0\<rparr>) \<and> head_n (d_disk t ?d (lg_start s)) = 0 \<and>
      (\<forall>n. n \<notin> log_area s \<longrightarrow> d_disk t ?d n = D n)"
  proof (cases "bs = []")
    case True
    have "lg_n s1 = 0" using nm True f1 by simp
    then have "commit rw s1 = Ok () s1" "s1\<lparr>lg_n := 0\<rparr> = s1" by (simp_all add: commit_def)
    moreover have "d_disk s1 ?d n = D n" for n using pin [of n] True f1(1) c1 l by simp
    ultimately show ?thesis using i1 d1 True l f1 by (intro exI [of _ s1]) (simp add: same_hw_def)
  next
    case False
    obtain t where t: "commit rw s1 = Ok () t" "cache_inv {} t" "dirty_set t = {}" "d_disk t = apply_writes (commit_trace s1) (d_disk s1)"
        "same_hw s1 t" "dsk.more t = dsk.more (s1\<lparr>lg_n := 0\<rparr>)" "head_n (d_disk t (lg_dev s1) (lg_start s1)) = 0"
      using commit_spec [OF i1 n1 False d1] by blast
    have "agrees s1 (d_disk t) (content s1)"
      unfolding t(4) by (rule commit_all_new) (use n1 pin in \<open>auto simp: log_names_def\<close>)
    then have "\<forall>n. n \<notin> log_area s \<longrightarrow> d_disk t ?d n = D n" using c1 f1(1) a1 l by (simp add: agrees_def)
    then show ?thesis using t f1(1,2) by auto
  qed
  then obtain u where u: "commit rw s1 = Ok () u" "cache_inv {} u" "dirty_set u = {}" "same_hw s1 u"
      "dsk.more u = dsk.more (s1\<lparr>lg_n := 0\<rparr>)" "head_n (d_disk u ?d (lg_start s)) = 0"
      "\<forall>n. n \<notin> log_area s \<longrightarrow> d_disk u ?d n = D n"
    by blast
  note m = more_fields [OF u(5)]
  have mu: "lg_dev u = ?d" "lg_start u = lg_start s" "lg_n u = 0" "lg_size u = lg_size s" "lg_outstanding u = 0"
      "lg_block u = lg_block s" "log_st.more u = log_st.more s" using m by (simp_all add: s1_def)
  define t where "t = u\<lparr>lg_committing := False\<rparr>"
  have hw: "same_hw s t" using hw1 u(4) by (simp add: same_hw_def t_def)
  note hs = env_ready [OF hw]
  have at: "log_area t = log_area s" using mu by (simp add: log_area_def t_def)
  have mt: "log_st.more t = log_st.more s" using mu by (simp add: t_def)
  note fm = fs_more [OF mt]
  have e: "end_op rw s = Ok () t"
    using out u(1) by (simp add: end_op_def kthen_def kbind_def s1_def [symmetric] t_def)
  have "log_names ready has t []" using nm hs at mu by (simp add: log_names_def t_def)
  moreover have "has t = has s" using hs(2) by (rule ext)
  moreover have "fs_ok (has s) (log_area s) (fs_sb s) (d_disk t ?d)" "file_ok (log_area s) (fs_sb s) (d_disk t ?d) p"
    using outside_log(1,2) [OF ok fo] u(7) by (simp_all add: t_def)
  ultimately have "at_rest ready has t (d_disk t ?d) ip p"
    using u(2,3,6) mu l p fm at by (simp add: at_rest_def t_def)
  then show ?thesis using e u(7) hw mt mu by (intro exI [of _ t] exI [of _ "d_disk t ?d"]) (simp add: t_def)
qed

text \<open>The steps of a transaction on an inode that is in memory.\<close>

lemma file_view_iupd:
  assumes "file_view ready has s D bs ip p" "i_addrs (g p) = i_addrs p" "i_dev (g p) = i_dev p"
  shows "file_view ready has (iupd ip g s) D bs ip (g p)"
  using assms same_addrs(5) [OF assms(2)] by (simp add: file_view_def iupd_view has_iupd)

lemma ilock_apply:
  assumes "fs_inode s ip = p" "i_ref p \<ge> 1" "\<not> sl_locked (i_lock p)" "i_valid p"
  shows "ilock rw (Some ip) s = Ok () (iupd ip (\<lambda>p. p\<lparr>i_lock := (i_lock p)\<lparr>sl_locked := True, sl_pid := d_pid s\<rparr>\<rparr>) s)"
  using assms by (simp add: ilock_def lock_inode_def acquiresleep_def kthen_def kbind_def iupd_def)

lemma iunlock_apply:
  assumes "fs_inode s ip = p" "i_ref p \<ge> 1" "holdingsleep (d_pid s) (i_lock p)"
  shows "iunlock (Some ip) s = Ok () (iupd ip (\<lambda>p. p\<lparr>i_lock := releasesleep (i_lock p)\<rparr>) s)"
  using assms by (simp add: iunlock_def unlock_inode_def)

end

section \<open>One transaction of filewrite\<close>

text \<open>The inode is referenced, read from the disk and not locked; it is not a device.\<close>

definition open_inode :: "superblock \<Rightarrow> inode \<Rightarrow> bool" where
  "open_inode sb p \<longleftrightarrow> i_ref p \<ge> 1 \<and> i_valid p \<and> \<not> sl_locked (i_lock p) \<and> i_type p \<noteq> T_DEV \<and> i_inum p < sb_ninodes sb"

locale file_device = fs_device rw ready has
  for rw :: "'z ft_driver" and ready :: "'z ft_st_scheme \<Rightarrow> uint \<Rightarrow> bool" and has :: "'z ft_st_scheme \<Rightarrow> uint \<Rightarrow> bool"
begin

lemma ft_more: "fs_st.more t = fs_st.more s \<Longrightarrow> ft_file t = ft_file s" for s t :: "'z ft_st_scheme"
  by (cases s; cases t; simp)

lemma fupd_fields [simp]:
  "fs_inode (fupd f g s) = fs_inode s" "fs_sb (fupd f g s) = fs_sb s" "lg_dev (fupd f g s) = lg_dev s"
  "lg_start (fupd f g s) = lg_start s" "d_pid (fupd f g s) = d_pid s" "log_area (fupd f g s) = log_area s"
  "lg_outstanding (fupd f g s) = lg_outstanding s" "lg_committing (fupd f g s) = lg_committing s"
  "same_hw s' (fupd f g s) = same_hw s' s" "ft_file (fupd f g s) = (ft_file s)(f := g (ft_file s f))"
  for s :: "'z ft_st_scheme"
  by (simp_all add: fupd_def log_area_def same_hw_def)

lemma fupd_view: "file_view ready has (fupd f g s) D bs ip p = file_view ready has s D bs ip p"
proof -
  have hw: "same_hw s (fupd f g s)" by (simp add: same_hw_def fupd_def)
  note hs = env_ready [OF hw]
  have "log_names ready has (fupd f g s) bs = log_names ready has s bs"
    using hs by (simp add: log_names_def log_area_def fupd_def)
  moreover have "content (fupd f g s) = content s" by (simp add: content_def fun_eq_iff fupd_def split: option.split)
  ultimately have "log_view ready has {} (fupd f g s) D bs = log_view ready has {} s D bs"
    by (simp add: log_view_def cache_inv_def ring_def buf_ok_def holds_def dirty_set_def fupd_def Let_def)
  moreover have "has (fupd f g s) = has s" using hs(2) by (rule ext)
  ultimately show ?thesis by (simp add: file_view_def)
qed

lemma iupd_file [simp]: "ft_file (iupd ip g s) = ft_file s" "lg_outstanding (iupd ip g s) = lg_outstanding s"
  "lg_committing (iupd ip g s) = lg_committing s" for s :: "'z ft_st_scheme"
  by (simp_all add: iupd_def)

lemma few_blocks: "k \<le> 1536 \<Longrightarrow> nblocks off k \<le> 4"
proof -
  assume k: "k \<le> 1536"
  have "off mod BSIZE \<le> 511" by (simp add: BSIZE_def)
  then have "off mod BSIZE + k + BSIZE - 1 < 5 * BSIZE" using k by (simp add: BSIZE_def)
  then have "(off mod BSIZE + k + BSIZE - 1) div BSIZE < 5" by (subst div_less_iff_less_mult) simp_all
  then show ?thesis by (simp add: nblocks_def)
qed

lemma write_transaction_view:
  fixes s :: "'z ft_st_scheme"
  assumes r: "at_rest ready has s D ip p" and op: "open_inode (fs_sb s) p" and f: "f_ip (ft_file s f) = ip"
    and off: "off = unat (f_off (ft_file s f))" "off \<le> unat (i_size p)" "off + k \<le> MAXFILE * BSIZE"
    and k: "0 < k" "k \<le> 1536" "length src = k" and free: "24 \<le> card (free_blocks (fs_sb s) D)" and nh: "no_holes D p"
  shows "\<exists>t D' p'. write_transaction rw devs f src (int k) s = Ok (int k) t \<and> at_rest ready has t D' ip p' \<and>
    open_inode (fs_sb s) p' \<and> i_inum p' = i_inum p \<and> fs_sb t = fs_sb s \<and> log_area t = log_area s \<and> no_holes D' p' \<and>
    ft_file t = (ft_file s)(f := (ft_file s f)\<lparr>f_off := of_nat (off + k)\<rparr>) \<and>
    unat (i_size p') = max (unat (i_size p)) (off + k) \<and> card (free_blocks (fs_sb s) D) \<le> card (free_blocks (fs_sb s) D') + 24 \<and>
    (\<forall>x<MAXFILE * BSIZE. fbyte D' p' x = (if off \<le> x \<and> x < off + k then src ! (x - off) else fbyte D p x)) \<and>
    (unat (i_size p) < off + k \<longrightarrow> get_dinode (dinode_off (i_inum p)) (D' (IBLOCK (i_inum p) (fs_sb s))) = dinode_of p')"
proof -
  define s1 where "s1 = s\<lparr>lg_outstanding := 1\<rparr>"
  note b = begin_op_view [OF r, folded s1_def]
  have p: "fs_inode s ip = p" and c: "\<not> lg_committing s" using r by (simp_all add: at_rest_def)
  have f1: "fs_inode s1 = fs_inode s" "fs_sb s1 = fs_sb s" "ft_file s1 = ft_file s" "log_area s1 = log_area s" "d_pid s1 = d_pid s"
    "lg_outstanding s1 = 1" "\<not> lg_committing s1" using c by (simp_all add: s1_def log_area_def)
  note o = op [unfolded open_inode_def]
  let ?g = "\<lambda>p. p\<lparr>i_lock := (i_lock p)\<lparr>sl_locked := True, sl_pid := d_pid s\<rparr>\<rparr>"
  define s2 where "s2 = iupd ip ?g s1"
  have l2: "ilock rw (Some ip) s1 = Ok () s2" using ilock_apply [of s1 ip p] o p f1 by (simp add: s2_def)
  have v2: "file_view ready has s2 D [] ip (?g p)" unfolding s2_def by (rule file_view_iupd [OF b(2)]) simp_all
  have f2: "fs_sb s2 = fs_sb s" "ft_file s2 = ft_file s" "log_area s2 = log_area s" "d_pid s2 = d_pid s" using f1 by (simp_all add: s2_def)
  have sg: "i_addrs (?g p) = i_addrs p" "i_size (?g p) = i_size p" "i_inum (?g p) = i_inum p" "i_type (?g p) = i_type p" by simp_all
  note sa = same_addrs [OF sg(1)]
  have "off + k < 2 ^ 32" using off(3) by (simp add: MAXFILE_def NDIRECT_def NINDIRECT_def BSIZE_def)
  then have uk: "unat (of_nat k :: uint) = k" by (subst unat_of_nat) simp
  have nb: "nblocks off k \<le> 4" by (rule few_blocks [OF k(2)])
  have w0: "i_type (?g p) \<noteq> T_DEV" "i_inum (?g p) < sb_ninodes (fs_sb s2)" "unat (f_off (ft_file s f)) \<le> unat (i_size (?g p))"
      "unat (f_off (ft_file s f)) + unat (of_nat k :: uint) \<le> MAXFILE * BSIZE" "length src = unat (of_nat k :: uint)"
      "length ([] :: uint list) + 6 * nblocks (unat (f_off (ft_file s f))) (unat (of_nat k :: uint)) < 29"
      "6 * nblocks (unat (f_off (ft_file s f))) (unat (of_nat k :: uint)) \<le> card (free_blocks (fs_sb s2) D)" "no_holes D (?g p)"
    using o off k free nb nh sa(1) unfolding uk f2 off(1) [symmetric] by (simp_all add: no_holes_def)
  obtain s3 D1 bs p1 where w: "writei rw devs ip src (f_off (ft_file s f)) (of_nat k) s2 = Ok (int k) s3"
      "file_view ready has s3 D1 bs ip p1" "p1 = (?g p)\<lparr>i_addrs := i_addrs p1, i_size := i_size p1\<rparr>"
      "unat (i_size p1) = max (unat (i_size (?g p))) (off + k)" "no_holes D1 p1" "fs_sb s3 = fs_sb s2"
      "fs_st.more s3 = fs_st.more s2" "keeps {} s2 s3"
      "card (free_blocks (fs_sb s2) D) \<le> card (free_blocks (fs_sb s2) D1) + 6 * nblocks off k"
      "\<forall>x<MAXFILE * BSIZE. fbyte D1 p1 x = (if off \<le> x \<and> x < off + k then src ! (x - off) else fbyte D (?g p) x)"
      "unat (i_size (?g p)) < off + k \<longrightarrow> get_dinode (dinode_off (i_inum (?g p))) (D1 (IBLOCK (i_inum (?g p)) (fs_sb s2))) = dinode_of p1"
    using writei_view [OF v2 w0, of devs, unfolded uk off(1) [symmetric]] by (elim exE conjE) (rule that; assumption)
  note w = w [unfolded sg sa f2]
  have k3: "log_area s3 = log_area s" "lg_outstanding s3 = 1" "\<not> lg_committing s3" "d_pid s3 = d_pid s"
    using w(8) log_area_keeps [OF w(8)] f1 f2 by (simp_all add: keeps_def same_hw_def s2_def)
  have ft3: "ft_file s3 = ft_file s" using ft_more [OF w(7)] f2 by simp
  define s4 where "s4 = fupd f (\<lambda>x. x\<lparr>f_off := f_off x + of_nat k\<rparr>) s3"
  have a4: "advance f (int k) s3 = Ok () s4" using k(1) by (simp add: advance_def s4_def)
  have v4: "file_view ready has s4 D1 bs ip p1" using w(2) by (simp add: s4_def fupd_view)
  let ?h = "\<lambda>p. p\<lparr>i_lock := releasesleep (i_lock p)\<rparr>"
  define s5 where "s5 = iupd ip ?h s4"
  have p4: "fs_inode s4 ip = p1" and pl: "i_lock p1 = (i_lock p)\<lparr>sl_locked := True, sl_pid := d_pid s\<rparr>" and pr: "i_ref p1 \<ge> 1"
    using v4 o by (simp add: file_view_def, (subst w(3), simp)+)
  have u5: "iunlock (Some ip) s4 = Ok () s5"
    using iunlock_apply [of s4 ip p1] p4 pl pr k3(4) by (simp add: s5_def holdingsleep_def s4_def)
  have v5: "file_view ready has s5 D1 bs ip (?h p1)" unfolding s5_def by (rule file_view_iupd [OF v4]) simp_all
  have f5: "fs_sb s5 = fs_sb s" "log_area s5 = log_area s" "lg_outstanding s5 = 1" "\<not> lg_committing s5"
    "ft_file s5 = (ft_file s)(f := (ft_file s f)\<lparr>f_off := of_nat (off + k)\<rparr>)"
    using w(6) k3 ft3 off(1) by (simp_all add: s5_def s4_def)
  obtain t D' where e: "end_op rw s5 = Ok () t" "at_rest ready has t D' ip (?h p1)" "\<forall>n. n \<notin> log_area s \<longrightarrow> D' n = D1 n"
      "log_st.more t = log_st.more s5" "lg_start t = lg_start s5"
    using end_op_view [OF v5 f5(3,4), unfolded f5(2)] by blast
  have ft: "fs_sb t = fs_sb s" "ft_file t = ft_file s5" "log_area t = log_area s"
    using fs_more [OF e(4)] ft_more [of t s5] f5(1,2) e(5) by (simp_all add: log_area_def)
  have ok1: "fs_ok (has s3) (log_area s) (fs_sb s) D1" and fo1: "file_ok (log_area s) (fs_sb s) D1 p1"
    using w(2,6) k3(1) by (simp_all add: file_view_def)
  note out = outside_log [OF ok1 fo1 e(3)]
  have sh: "i_addrs (?h p1) = i_addrs p1" "i_size (?h p1) = i_size p1" by simp_all
  note sah = same_addrs [OF sh(1)]
  have fb: "fbyte D' (?h p1) x = fbyte D1 p1 x" if "x < MAXFILE * BSIZE" for x
    unfolding sah using fbyte_cong [of D' p1 D1 p1, OF out(4) that] .
  have in1: "i_inum p1 = i_inum p" "i_type p1 = i_type p" "i_valid p1 = i_valid p" by (subst w(3), simp)+
  have "write_transaction rw devs f src (int k) s = Ok (int k) t"
    using b(1) l2 w(1) a4 u5 e(1) f f1(3) f2(2) by (simp add: write_transaction_def kthen_def kbind_def Let_def kret_def)
  moreover have "open_inode (fs_sb s) (?h p1)" using o pr in1 by (simp add: open_inode_def releasesleep_def)
  moreover have "no_holes D' (?h p1)"
  proof -
    have "ptr D' p1 (x div BSIZE) = ptr D1 p1 (x div BSIZE)" if "x < unat (i_size p1)" "unat (i_size p1) \<le> MAXFILE * BSIZE" for x
    proof -
      have "x div BSIZE < MAXFILE" using that by (simp add: div_less_iff_less_mult)
      then show ?thesis by (intro out(3)) simp
    qed
    then show ?thesis using w(5) unfolding no_holes_def sah sh by simp
  qed
  moreover have "card (free_blocks (fs_sb s) D) \<le> card (free_blocks (fs_sb s) D') + 24" using w(9) nb out(5) by simp
  moreover have "unat (i_size p) < off + k \<longrightarrow> get_dinode (dinode_off (i_inum p)) (D' (IBLOCK (i_inum p) (fs_sb s))) = dinode_of (?h p1)"
  proof -
    have "D' (IBLOCK (i_inum p) (fs_sb s)) = D1 (IBLOCK (i_inum p) (fs_sb s))" using e(3) fs_okD(5) [OF ok1, of "i_inum p"] o by blast
    then show ?thesis using w(11) by (simp add: dinode_of_def)
  qed
  ultimately show ?thesis using e(2) ft f5(5) w(4,10) fb in1(1)
    by (intro exI [of _ t] exI [of _ D'] exI [of _ "?h p1"]) simp
qed

lemma filewrite_loop_view:
  fixes s :: "'z ft_st_scheme"
  assumes "at_rest ready has s D ip p" and "open_inode (fs_sb s) p" and "f_ip (ft_file s f) = ip"
    and "off = unat (f_off (ft_file s f))" and "off \<le> unat (i_size p)" and "off + (n - i) \<le> MAXFILE * BSIZE"
    and "i \<le> n" and "length src = n" and "24 * ((n - i + 1535) div 1536) \<le> card (free_blocks (fs_sb s) D)" and "no_holes D p"
  shows "\<exists>t D' p'. filewrite_loop rw devs f src (int i) (int n) s = Ok (int n) t \<and> at_rest ready has t D' ip p' \<and>
    fs_sb t = fs_sb s \<and> no_holes D' p' \<and> unat (f_off (ft_file t f)) = off + (n - i) \<and>
    unat (i_size p') = max (unat (i_size p)) (off + (n - i)) \<and>
    (\<forall>x<MAXFILE * BSIZE. fbyte D' p' x = (if off \<le> x \<and> x < off + (n - i) then src ! (i + (x - off)) else fbyte D p x)) \<and>
    (unat (i_size p) < off + (n - i) \<longrightarrow> get_dinode (dinode_off (i_inum p)) (D' (IBLOCK (i_inum p) (fs_sb s))) = dinode_of p')"
  using assms
proof (induction "n - i" arbitrary: i off s D p rule: less_induct)
  case less
  note a = less.prems
  show ?case
  proof (cases "i = n")
    case True
    then have "filewrite_loop rw devs f src (int i) (int n) s = Ok (int n) s" by (subst filewrite_loop.simps) (simp add: kret_def)
    then show ?thesis using True a by (intro exI [of _ s] exI [of _ D] exI [of _ p]) auto
  next
    case False
    define k where "k = min (n - i) 1536"
    have k: "0 < k" "k \<le> 1536" "i + k \<le> n" using False a(7) by (auto simp: k_def)
    have lk: "length (take k (drop i src)) = k" using k(3) a(8) by simp
    have "1 \<le> (n - i + 1535) div 1536" using False a(7) by (simp add: less_eq_div_iff_mult_less_eq)
    then have fr: "24 \<le> card (free_blocks (fs_sb s) D)" using a(9) by linarith
    have off: "off + k \<le> MAXFILE * BSIZE" using a(6) k by simp
    obtain t D1 p1 where t: "write_transaction rw devs f (take k (drop i src)) (int k) s = Ok (int k) t" "at_rest ready has t D1 ip p1"
        "open_inode (fs_sb s) p1" "i_inum p1 = i_inum p" "fs_sb t = fs_sb s" "no_holes D1 p1"
        "ft_file t = (ft_file s)(f := (ft_file s f)\<lparr>f_off := of_nat (off + k)\<rparr>)" "unat (i_size p1) = max (unat (i_size p)) (off + k)"
        "card (free_blocks (fs_sb s) D) \<le> card (free_blocks (fs_sb s) D1) + 24"
        "\<forall>x<MAXFILE * BSIZE. fbyte D1 p1 x = (if off \<le> x \<and> x < off + k then take k (drop i src) ! (x - off) else fbyte D p x)"
        "unat (i_size p) < off + k \<longrightarrow> get_dinode (dinode_off (i_inum p)) (D1 (IBLOCK (i_inum p) (fs_sb s))) = dinode_of p1"
      using write_transaction_view [OF a(1-5) off k(1,2) lk fr a(10), of devs] by (elim exE conjE) (rule that; assumption)
    have "off + k < 2 ^ 32" using off by (simp add: MAXFILE_def NDIRECT_def NINDIRECT_def BSIZE_def)
    then have uo: "unat (of_nat (off + k) :: uint) = off + k" by (subst unat_of_nat) simp
    have n': "off + k + (n - (i + k)) = off + (n - i)" using k(3) by simp
    have fr': "24 * ((n - (i + k) + 1535) div 1536) \<le> card (free_blocks (fs_sb s) D1)"
    proof (cases "n - i \<le> 1536")
      case True
      then show ?thesis by (simp add: k_def)
    next
      case False
      then have "n - i + 1535 = (n - (i + k) + 1535) + 1536" by (simp add: k_def)
      then have "(n - i + 1535) div 1536 = Suc ((n - (i + k) + 1535) div 1536)" by (simp only: div_add_self2)
      then show ?thesis using a(9) t(9) by linarith
    qed
    have ih: "n - (i + k) < n - i" "f_ip (ft_file t f) = ip" "off + k = unat (f_off (ft_file t f))" "off + k \<le> unat (i_size p1)"
        "off + k + (n - (i + k)) \<le> MAXFILE * BSIZE"
      using k a(3,6,7) uo t(7,8) n' by simp_all
    obtain u D' p' where u: "filewrite_loop rw devs f src (int (i + k)) (int n) t = Ok (int n) u" "at_rest ready has u D' ip p'"
        "fs_sb u = fs_sb s" "no_holes D' p'" "unat (f_off (ft_file u f)) = off + (n - i)"
        "unat (i_size p') = max (unat (i_size p1)) (off + (n - i))"
        "\<forall>x<MAXFILE * BSIZE. fbyte D' p' x = (if off + k \<le> x \<and> x < off + (n - i) then src ! (i + k + (x - (off + k))) else fbyte D1 p1 x)"
        "unat (i_size p1) < off + (n - i) \<longrightarrow> get_dinode (dinode_off (i_inum p1)) (D' (IBLOCK (i_inum p1) (fs_sb s))) = dinode_of p'"
      using less.hyps [OF ih(1) t(2) _ ih(2-5) k(3) a(8) _ t(6), unfolded t(5) n', OF t(3) fr'] by (elim exE conjE) (rule that; assumption)
    have "min (int n - int i) max_write = int k" using k(3) by (simp add: k_def)
    then have "filewrite_loop rw devs f src (int i) (int n) s = Ok (int n) u"
      using k u(1) t(1) by (subst filewrite_loop.simps) (simp add: kbind_def Let_def)
    moreover have "unat (i_size p') = max (unat (i_size p)) (off + (n - i))" using u(6) t(8) k by simp
    moreover have "fbyte D' p' x = (if off \<le> x \<and> x < off + (n - i) then src ! (i + (x - off)) else fbyte D p x)"
      if x: "x < MAXFILE * BSIZE" for x
    proof (cases "off + k \<le> x")
      case True
      then have "i + k + (x - (off + k)) = i + (x - off)" by simp
      then show ?thesis using True u(7) t(10) x k(3) by simp
    next
      case False
      have m: "take k (drop i src) ! (x - off) = src ! (i + (x - off))" if "off \<le> x"
        using that False k(3) a(7,8) by simp
      have e: "off \<le> x \<and> x < off + (n - i) \<longleftrightarrow> off \<le> x \<and> x < off + k" using False k(3) by auto
      show ?thesis using u(7) t(10) x False m unfolding e by simp
    qed
    moreover have "get_dinode (dinode_off (i_inum p)) (D' (IBLOCK (i_inum p) (fs_sb s))) = dinode_of p'" if g: "unat (i_size p) < off + (n - i)"
    proof (cases "i + k = n")
      case True
      then have "u = t" using u(1) by (subst (asm) filewrite_loop.simps) (simp add: kret_def)
      then have "D' = D1" "p' = p1" using u(2) t(2) by (simp_all add: at_rest_def)
      then show ?thesis using t(11) g True by auto
    next
      case False
      then have "unat (i_size p1) < off + (n - i)" using g t(8) k(3) by auto
      then show ?thesis using u(8) t(4) by simp
    qed
    ultimately show ?thesis using u(2-5) by (intro exI [of _ u] exI [of _ D'] exI [of _ p'] conjI) auto
  qed
qed

end

interpretation ide_file: file_device iderw ide_ready "\<lambda>s n. n < FSSIZE"
  by unfold_locales

interpretation mem_file: file_device mem_iderw "\<lambda>s d. d = 1" "\<lambda>s n. n < d_memsize s"
  by unfold_locales

section \<open>Properties\<close>

text \<open>C4: a write through an open file reaches the disk. Between transactions, with the inode open and
  enough free blocks, filewrite of \<open>n\<close> bytes within or at the end of a file returns \<open>n\<close>: every transaction it is
  cut into fits into the log, so no log_write panics. When it returns the system is at rest again,
  the blocks of the disk, not only the cache, hold the bytes written at the old offset of the file and the old
  bytes elsewhere, the offset has moved by \<open>n\<close>, and where the file grew the inode on the disk has
  the new size and addresses.\<close>

theorem filewrite_reaches_disk:
  assumes "at_rest ide_ready (\<lambda>s n. n < FSSIZE) s D ip p" and "open_inode (fs_sb s) p" and "no_holes D p"
    and "f_writable (ft_file s f)" and "f_type (ft_file s f) = FD_INODE" and "f_ip (ft_file s f) = ip"
    and "off = unat (f_off (ft_file s f))" and "off \<le> unat (i_size p)" and "off + n \<le> MAXFILE * BSIZE"
    and "length src = n" and "24 * ((n + 1535) div 1536) \<le> card (free_blocks (fs_sb s) D)"
  shows "\<exists>t p'. filewrite iderw devs po f src (int n) s = Ok (int n) t \<and>
    at_rest ide_ready (\<lambda>s n. n < FSSIZE) t (d_disk t (lg_dev t)) ip p' \<and> no_holes (d_disk t (lg_dev t)) p' \<and>
    unat (f_off (ft_file t f)) = off + n \<and> unat (i_size p') = max (unat (i_size p)) (off + n) \<and>
    (\<forall>x<MAXFILE * BSIZE. fbyte (d_disk t (lg_dev t)) p' x = (if off \<le> x \<and> x < off + n then src ! (x - off) else fbyte D p x)) \<and>
    (unat (i_size p) < off + n \<longrightarrow>
      get_dinode (dinode_off (i_inum p)) (d_disk t (lg_dev t) (IBLOCK (i_inum p) (fs_sb s))) = dinode_of p')"
proof -
  have z: "off + (n - 0) \<le> MAXFILE * BSIZE" "0 \<le> n" "24 * ((n - 0 + 1535) div 1536) \<le> card (free_blocks (fs_sb s) D)"
    using assms(9,11) by simp_all
  obtain t D' p' where t: "filewrite_loop iderw devs f src (int 0) (int n) s = Ok (int n) t" "at_rest ide_ready (\<lambda>s n. n < FSSIZE) t D' ip p'"
      "no_holes D' p'" "unat (f_off (ft_file t f)) = off + (n - 0)" "unat (i_size p') = max (unat (i_size p)) (off + (n - 0))"
      "\<forall>x<MAXFILE * BSIZE. fbyte D' p' x = (if off \<le> x \<and> x < off + (n - 0) then src ! (0 + (x - off)) else fbyte D p x)"
      "unat (i_size p) < off + (n - 0) \<longrightarrow> get_dinode (dinode_off (i_inum p)) (D' (IBLOCK (i_inum p) (fs_sb s))) = dinode_of p'"
    using ide_file.filewrite_loop_view [OF assms(1,2,6,7,8) z(1,2) assms(10) z(3) assms(3), of devs]
    by (elim exE conjE) (rule that; assumption)
  have D': "D' = d_disk t (lg_dev t)" using t(2) by (simp add: at_rest_def)
  have "filewrite iderw devs po f src (int n) s = Ok (int n) t"
    using assms(4,5) t(1) by (simp add: filewrite_def Let_def kbind_def kret_def)
  then show ?thesis using t(2-7) unfolding D' by (intro exI [of _ t] exI [of _ p']) simp
qed

text \<open>The example file system at rest, its inode open as file 0.\<close>

definition ex_open_inode :: inode where
  "ex_open_inode = ex_inode\<lparr>i_lock := releasesleep (i_lock ex_inode)\<rparr>"

definition ex_file0 :: open_file where
  "ex_file0 = \<lparr>f_type = FD_INODE, f_ref = 1, f_readable = True, f_writable = True, f_pipe = 0, f_ip = 0, f_off = 0\<rparr>"

definition ex_open :: ft_st where
  "ex_open = fs_st.extend (ex_fs\<lparr>lg_outstanding := 0, lg_committing := False, fs_inode := (\<lambda>_. ex_open_inode)\<rparr>)
     \<lparr>ft_file = (\<lambda>_. ex_file0)\<rparr>"

lemma ex_open_facts:
  "cache_inv {} ex_open" "dirty_set ex_open = {}" "d_disk ex_open = ex_image" "d_queue ex_open = []" "d_cmd ex_open = None"
  "d_havedisk1 ex_open" "lg_start ex_open = 2" "lg_size ex_open = 30" "lg_outstanding ex_open = 0" "\<not> lg_committing ex_open"
  "lg_dev ex_open = 1" "lg_n ex_open = 0" "lg_block ex_open = replicate 30 0" "fs_sb ex_open = ex_sb"
  "fs_inode ex_open = (\<lambda>_. ex_open_inode)" "ft_file ex_open = (\<lambda>_. ex_file0)"
proof -
  note u = ex_open_def fs_st.defs ex_fs_facts
  have "cache_inv {} ex_open = cache_inv {} ex_fs"
    by (simp only: cache_inv_def ring_def buf_ok_def holds_def Let_def) (simp add: u)
  then show "cache_inv {} ex_open" using ex_fs_facts(1) by simp
  show "dirty_set ex_open = {}" using ex_fs_facts(2) by (simp add: u dirty_set_def)
qed (simp_all add: ex_open_def fs_st.defs ex_fs_facts)

lemma ex_open_area: "log_area ex_open = log_area ex_fs"
  by (simp add: log_area_def ex_open_facts ex_fs_facts)

lemma ex_at_rest: "at_rest ide_ready (\<lambda>s n. n < FSSIZE) ex_open (ex_image 1) 0 ex_open_inode"
proof -
  have sa: "i_addrs ex_open_inode = i_addrs ex_inode" "i_dev ex_open_inode = 1" by (simp_all add: ex_open_inode_def ex_inode_def)
  note fo = ex_file_view [unfolded file_view_def ex_fs_facts(14)]
  have "file_ok (log_area ex_open) ex_sb (ex_image 1) ex_open_inode" using fo same_addrs(5) [OF sa(1)] ex_open_area by simp
  moreover have "n < FSSIZE" if "n \<in> log_area ex_open" for n
    using ex_area_bounds [of n] that unfolding ex_open_area by (simp add: FSSIZE_def word_less_nat_alt)
  moreover have "head_n (ex_image 1 2) = 0" by (simp add: head_n_def ex_image_def)
  moreover have "fs_ok (\<lambda>n. n < FSSIZE) (log_area ex_open) ex_sb (ex_image 1)" unfolding ex_open_area by (rule ex_fs_ok)
  ultimately show ?thesis
    using sa(2) unfolding at_rest_def log_names_def ide_ready_def by (simp add: ex_open_facts LOGSIZE_def)
qed

lemma ex_free24: "24 \<le> card (free_blocks ex_sb (ex_image 1))"
proof -
  have "of_nat ` {100..<124 :: nat} \<subseteq> free_blocks ex_sb (ex_image 1)"
  proof
    fix b :: uint assume "b \<in> of_nat ` {100..<124}"
    then obtain k where k: "b = of_nat k" "100 \<le> k" "k < 124" by auto
    then have "unat b = k" by (simp add: unat_of_nat)
    then have "b < 1000" "\<not> b < 64" using k by (simp_all add: word_less_nat_alt)
    then show "b \<in> free_blocks ex_sb (ex_image 1)" by (simp add: free_blocks_def ex_bit) (simp add: ex_sb_def)
  qed
  moreover have "card (of_nat ` {100..<124 :: nat} :: uint set) = 24"
  proof (subst card_image)
    show "inj_on (of_nat :: nat \<Rightarrow> uint) {100..<124}"
    proof (rule inj_onI)
      fix x y :: nat assume "x \<in> {100..<124}" "y \<in> {100..<124}" "(of_nat x :: uint) = of_nat y"
      then have "unat (of_nat x :: uint) = unat (of_nat y :: uint)" "x < 2 ^ 32" "y < 2 ^ 32" by simp_all
      then show "x = y" by (simp add: unat_of_nat)
    qed
  qed simp
  ultimately show ?thesis using card_mono [of "free_blocks ex_sb (ex_image 1)" "of_nat ` {100..<124}"] by simp
qed

theorem filewrite_reaches_disk_witness:
  "\<exists>t p'. filewrite iderw (\<lambda>_. \<lparr>dv_read = None, dv_write = None\<rparr>)
      \<lparr>po_read = (\<lambda>_ _. kret (0, [])), po_write = (\<lambda>_ _ _. kret 0), po_close = (\<lambda>_ _. kret ())\<rparr> 0 [65, 66, 67] 3 ex_open = Ok 3 t \<and>
    fbyte (d_disk t (lg_dev t)) p' 0 = 65 \<and> fbyte (d_disk t (lg_dev t)) p' 2 = 67"
proof -
  let ?devs = "\<lambda>_. \<lparr>dv_read = None, dv_write = None\<rparr> :: unit ft_st_ext devsw"
  let ?po = "\<lparr>po_read = (\<lambda>_ _. kret (0, [])), po_write = (\<lambda>_ _ _. kret 0), po_close = (\<lambda>_ _. kret ())\<rparr> :: unit pipe_ops"
  have i: "i_size ex_open_inode = 0" "i_addrs ex_open_inode = i_addrs ex_inode" by (simp_all add: ex_open_inode_def ex_inode_def)
  have m: "3 \<le> MAXFILE * BSIZE" "0 < MAXFILE" by (simp_all add: MAXFILE_def NDIRECT_def NINDIRECT_def BSIZE_def)
  have "open_inode (fs_sb ex_open) ex_open_inode"
    by (simp add: open_inode_def ex_open_facts ex_open_inode_def ex_inode_def ex_sb_def releasesleep_def T_FILE_def T_DEV_def)
  moreover have "no_holes (ex_image 1) ex_open_inode" using i by (simp add: no_holes_def)
  moreover have "24 * ((3 + 1535) div 1536) \<le> card (free_blocks (fs_sb ex_open) (ex_image 1))"
    using ex_free24 by (simp add: ex_open_facts)
  ultimately obtain t p' where t: "filewrite iderw ?devs ?po 0 [65, 66, 67] (int 3) ex_open = Ok (int 3) t"
      "\<forall>x<MAXFILE * BSIZE. fbyte (d_disk t (lg_dev t)) p' x =
        (if 0 \<le> x \<and> x < 0 + 3 then [65, 66, 67] ! (x - 0) else fbyte (ex_image 1) ex_open_inode x)"
    using filewrite_reaches_disk [OF ex_at_rest, of 0 0 3 "[65, 66, 67]" ?devs ?po] m
    by (simp only: ex_open_facts ex_file0_def i) auto
  have "fbyte (d_disk t (lg_dev t)) p' 0 = 65" "fbyte (d_disk t (lg_dev t)) p' 2 = 67"
    using t(2) [rule_format, of 0] t(2) [rule_format, of 2] m by simp_all
  then show ?thesis using t(1) by auto
qed

end
