(* ===== verification/Syscall.thy ===== *)
theory Syscall
  imports File
begin

text \<open>
  syscall.c and sysfile.c: fetching the arguments of a system call from the memory of the process, and
  the system calls on files. The state is that of the file layer and the running process: the size and
  contents of its memory, its saved registers esp and eax, its descriptors. What the kernel stack
  holds in a local array before it is written is an argument (\<open>g\<close>); pipealloc and exec are arguments as well.
\<close>

section \<open>The running process\<close>

definition FD_MAX :: nat where "FD_MAX = 16"
definition MAXARG :: nat where "MAXARG = 32"

record sys_st = ft_st +
  u_sz :: uint
  u_mem :: "uint \<Rightarrow> uchar"
  u_esp :: uint
  u_eax :: uint
  u_ofile :: "nat \<Rightarrow> nat option"

type_synonym ('z, 'a) sys_routine = "('z sys_st_scheme, 'a) routine"
type_synonym 'z sys_driver = "('z sys_st_ext) ft_driver"
type_synonym 'z sys_devs = "int \<Rightarrow> ('z sys_st_ext) ft_st_ext devsw"

definition bytes_at :: "(uint \<Rightarrow> uchar) \<Rightarrow> uint \<Rightarrow> nat \<Rightarrow> uchar list" where
  "bytes_at m a n = map (\<lambda>k. m (a + of_nat k)) [0..<n]"

definition store_bytes :: "uint \<Rightarrow> uchar list \<Rightarrow> ('z, unit) sys_routine" where
  "store_bytes a bs = kmod (\<lambda>s. s\<lparr>u_mem := (\<lambda>x. let k = unat (x - a) in if k < length bs then bs ! k else u_mem s x)\<rparr>)"

section \<open>Arguments\<close>

definition fetchint :: "uint \<Rightarrow> 'z sys_st_scheme \<Rightarrow> uint option" where
  "fetchint addr s =
     (if addr \<ge> u_sz s \<or> addr + 4 > u_sz s then None else Some (get32 0 (bytes_at (u_mem s) addr 4)))"

text \<open>The string at an address, without its NUL.\<close>

definition fetchstr :: "uint \<Rightarrow> 'z sys_st_scheme \<Rightarrow> string option" where
  "fetchstr addr s =
     (if addr \<ge> u_sz s then None
      else map_option (\<lambda>k. map (\<lambda>b. char_of (unat b)) (bytes_at (u_mem s) addr k))
        (find (\<lambda>k. u_mem s (addr + of_nat k) = 0) [0..<unat (u_sz s) - unat addr]))"

definition argint :: "nat \<Rightarrow> 'z sys_st_scheme \<Rightarrow> uint option" where
  "argint n s = fetchint (u_esp s + 4 + 4 * of_nat n) s"

definition argptr :: "nat \<Rightarrow> int \<Rightarrow> 'z sys_st_scheme \<Rightarrow> uint option" where
  "argptr n len s =
     (case argint n s of
        None \<Rightarrow> None
      | Some i \<Rightarrow> if len < 0 \<or> i \<ge> u_sz s \<or> i + of_int len > u_sz s then None else Some i)"

definition argstr :: "nat \<Rightarrow> 'z sys_st_scheme \<Rightarrow> string option" where
  "argstr n s = (case argint n s of None \<Rightarrow> None | Some a \<Rightarrow> fetchstr a s)"

definition syscall :: "(int \<Rightarrow> ('z, int) sys_routine option) \<Rightarrow> nat \<Rightarrow> ('z, unit) sys_routine" where
  "syscall tab nelem s =
     (let num = sint (u_eax s) in
      case (if 0 < num \<and> num < int nelem then tab num else None) of
        Some f \<Rightarrow> kbind f (\<lambda>r. kmod (\<lambda>s. s\<lparr>u_eax := of_int r\<rparr>)) s
      | None \<Rightarrow> Ok () (s\<lparr>u_eax := - 1\<rparr>))"

section \<open>Descriptors\<close>

definition argfd :: "nat \<Rightarrow> 'z sys_st_scheme \<Rightarrow> (nat \<times> nat) option" where
  "argfd n s =
     (case argint n s of
        None \<Rightarrow> None
      | Some v \<Rightarrow> let fd = sint v in
          if fd < 0 \<or> fd \<ge> int FD_MAX then None else map_option (Pair (nat fd)) (u_ofile s (nat fd)))"

definition set_fd :: "nat \<Rightarrow> nat option \<Rightarrow> 'z sys_st_scheme \<Rightarrow> 'z sys_st_scheme" where
  "set_fd fd f s = s\<lparr>u_ofile := (u_ofile s)(fd := f)\<rparr>"

definition fdalloc :: "nat \<Rightarrow> ('z, nat option) sys_routine" where
  "fdalloc f s =
     (case find (\<lambda>fd. u_ofile s fd = None) [0..<FD_MAX] of
        Some fd \<Rightarrow> Ok (Some fd) (set_fd fd (Some f) s)
      | None \<Rightarrow> Ok None s)"

definition sys_dup :: "('z, int) sys_routine" where
  "sys_dup s =
     (case argfd 0 s of
        None \<Rightarrow> Ok (-1) s
      | Some (_, f) \<Rightarrow> kbind (fdalloc f) (\<lambda>r.
          case r of None \<Rightarrow> kret (-1) | Some fd \<Rightarrow> kthen (filedup f) (kret (int fd))) s)"

definition sys_read :: "'z sys_driver \<Rightarrow> 'z sys_devs \<Rightarrow> 'z sys_st_ext pipe_ops \<Rightarrow> ('z, int) sys_routine" where
  "sys_read rw devs po s =
     (case argfd 0 s of None \<Rightarrow> Ok (-1) s | Some (_, f) \<Rightarrow>
     (case argint 2 s of None \<Rightarrow> Ok (-1) s | Some n \<Rightarrow>
     (case argptr 1 (sint n) s of None \<Rightarrow> Ok (-1) s | Some p \<Rightarrow>
        kbind (fileread rw devs po f (sint n)) (\<lambda>(r, bs). kthen (store_bytes p bs) (kret r)) s)))"

definition sys_write :: "'z sys_driver \<Rightarrow> 'z sys_devs \<Rightarrow> 'z sys_st_ext pipe_ops \<Rightarrow> ('z, int) sys_routine" where
  "sys_write rw devs po s =
     (case argfd 0 s of None \<Rightarrow> Ok (-1) s | Some (_, f) \<Rightarrow>
     (case argint 2 s of None \<Rightarrow> Ok (-1) s | Some n \<Rightarrow>
     (case argptr 1 (sint n) s of None \<Rightarrow> Ok (-1) s | Some p \<Rightarrow>
        filewrite rw devs po f (bytes_at (u_mem s) p (nat (sint n))) (sint n) s)))"

definition sys_close :: "'z sys_driver \<Rightarrow> 'z sys_st_ext pipe_ops \<Rightarrow> ('z, int) sys_routine" where
  "sys_close rw po s =
     (case argfd 0 s of
        None \<Rightarrow> Ok (-1) s
      | Some (fd, f) \<Rightarrow> kthen (kmod (set_fd fd None)) (kthen (fileclose rw po f) (kret 0)) s)"

text \<open>struct stat in the memory of the process; the bytes between the fields are left as they are.\<close>

definition store_stat :: "uint \<Rightarrow> stat \<Rightarrow> ('z, unit) sys_routine" where
  "store_stat a st =
     kthen (store_bytes a (le_bytes 2 (unat (st_type st))))
     (kthen (store_bytes (a + 4) (le_bytes 4 (unat (st_dev st))))
     (kthen (store_bytes (a + 8) (le_bytes 4 (unat (st_ino st))))
     (kthen (store_bytes (a + 12) (le_bytes 2 (unat (st_nlink st))))
     (store_bytes (a + 16) (le_bytes 4 (unat (st_size st)))))))"

definition sys_fstat :: "'z sys_driver \<Rightarrow> ('z, int) sys_routine" where
  "sys_fstat rw s =
     (case argfd 0 s of None \<Rightarrow> Ok (-1) s | Some (_, f) \<Rightarrow>
     (case argptr 1 20 s of None \<Rightarrow> Ok (-1) s | Some p \<Rightarrow>
        kbind (filestat rw f) (\<lambda>r. case r of None \<Rightarrow> kret (-1) | Some st \<Rightarrow> kthen (store_stat p st) (kret 0)) s))"

section \<open>Paths\<close>

text \<open>A field of an inode is changed and written to the disk.\<close>

definition set_nlink :: "'z sys_driver \<Rightarrow> nat \<Rightarrow> (ushort \<Rightarrow> ushort) \<Rightarrow> ('z, unit) sys_routine" where
  "set_nlink rw ip f = kthen (kmod (iupd ip (\<lambda>p. p\<lparr>i_nlink := f (i_nlink p)\<rparr>))) (iupdate rw ip)"

definition link_bad :: "'z sys_driver \<Rightarrow> nat \<Rightarrow> ('z, int) sys_routine" where
  "link_bad rw ip =
     kthen (ilock rw (Some ip))
     (kthen (set_nlink rw ip (\<lambda>n. n - 1))
     (kthen (iunlockput rw ip)
     (kthen (end_op rw)
     (kret (-1)))))"

definition sys_link :: "'z sys_driver \<Rightarrow> 'z sys_devs \<Rightarrow> string \<Rightarrow> ('z, int) sys_routine" where
  "sys_link rw devs g s =
     (case argstr 0 s of None \<Rightarrow> Ok (-1) s | Some old \<Rightarrow>
     (case argstr 1 s of None \<Rightarrow> Ok (-1) s | Some new \<Rightarrow>
        kthen begin_op (kbind (namei rw devs old) (\<lambda>r.
        case r of
          None \<Rightarrow> kthen (end_op rw) (kret (-1))
        | Some ip \<Rightarrow>
            kthen (ilock rw (Some ip)) (\<lambda>s.
            if i_type (fs_inode s ip) = T_DIR then kthen (iunlockput rw ip) (kthen (end_op rw) (kret (-1))) s
            else kthen (set_nlink rw ip (\<lambda>n. n + 1))
              (kthen (iunlock (Some ip))
              (kbind (nameiparent rw devs new g) (\<lambda>(r, name).
               case r of
                 None \<Rightarrow> link_bad rw ip
               | Some dp \<Rightarrow>
                   kthen (ilock rw (Some dp)) (\<lambda>s.
                   if i_dev (fs_inode s dp) \<noteq> i_dev (fs_inode s ip) then kthen (iunlockput rw dp) (link_bad rw ip) s
                   else kbind (dirlink rw devs dp name (i_inum (fs_inode s ip))) (\<lambda>r.
                     if r < 0 then kthen (iunlockput rw dp) (link_bad rw ip)
                     else kthen (iunlockput rw dp) (kthen (iput rw ip) (kthen (end_op rw) (kret 0)))) s)))) s))) s))"

text \<open>The loop of isdirempty over the offsets after the first two entries.\<close>

fun isdirempty_loop :: "'z sys_driver \<Rightarrow> 'z sys_devs \<Rightarrow> nat \<Rightarrow> uint list \<Rightarrow> ('z, bool) sys_routine" where
  "isdirempty_loop rw devs dp [] = kret True"
| "isdirempty_loop rw devs dp (off # offs) =
     kbind (read_dirent rw devs ''isdirempty: readi'' dp off) (\<lambda>de.
       if de_inum de \<noteq> 0 then kret False else isdirempty_loop rw devs dp offs)"

definition isdirempty :: "'z sys_driver \<Rightarrow> 'z sys_devs \<Rightarrow> nat \<Rightarrow> ('z, bool) sys_routine" where
  "isdirempty rw devs dp s = isdirempty_loop rw devs dp (drop 2 (dir_offs (i_size (fs_inode s dp)))) s"

definition unlink_bad :: "'z sys_driver \<Rightarrow> nat \<Rightarrow> ('z, int) sys_routine" where
  "unlink_bad rw dp = kthen (iunlockput rw dp) (kthen (end_op rw) (kret (-1)))"

definition is_dot :: "string \<Rightarrow> bool" where
  "is_dot name \<longleftrightarrow> namecmp name (CHR ''.'' # [NUL]) = Some 0 \<or> namecmp name (CHR ''.'' # CHR ''.'' # [NUL]) = Some 0"

definition sys_unlink :: "'z sys_driver \<Rightarrow> 'z sys_devs \<Rightarrow> string \<Rightarrow> ('z, int) sys_routine" where
  "sys_unlink rw devs g s =
     (case argstr 0 s of None \<Rightarrow> Ok (-1) s | Some path \<Rightarrow>
        kthen begin_op (kbind (nameiparent rw devs path g) (\<lambda>(r, name).
        case r of
          None \<Rightarrow> kthen (end_op rw) (kret (-1))
        | Some dp \<Rightarrow>
            kthen (ilock rw (Some dp))
            (if is_dot name then unlink_bad rw dp
             else kbind (dirlookup rw devs dp name) (\<lambda>r.
               case r of
                 None \<Rightarrow> unlink_bad rw dp
               | Some (ip, off) \<Rightarrow>
                   kthen (ilock rw (Some ip)) (\<lambda>s.
                   if sint (i_nlink (fs_inode s ip)) < 1 then Panic ''unlink: nlink < 1''
                   else kbind (\<lambda>s. if i_type (fs_inode s ip) = T_DIR then isdirempty rw devs ip s else Ok True s) (\<lambda>ok.
                     if \<not> ok then kthen (iunlockput rw ip) (unlink_bad rw dp)
                     else kbind (writei rw devs dp (replicate DESIZE 0) off (of_nat DESIZE)) (\<lambda>r.
                       if r \<noteq> int DESIZE then kpanic ''unlink: writei''
                       else kthen (\<lambda>s. if i_type (fs_inode s ip) = T_DIR then set_nlink rw dp (\<lambda>n. n - 1) s else Ok () s)
                         (kthen (iunlockput rw dp)
                         (kthen (set_nlink rw ip (\<lambda>n. n - 1))
                         (kthen (iunlockput rw ip)
                         (kthen (end_op rw)
                         (kret 0))))))) s))))) s)"

text \<open>create, in a transaction of its caller; the inode it returns is locked.\<close>

definition create :: "'z sys_driver \<Rightarrow> 'z sys_devs \<Rightarrow> string \<Rightarrow> string \<Rightarrow> ushort \<Rightarrow> ushort \<Rightarrow> ushort \<Rightarrow> ('z, nat option) sys_routine" where
  "create rw devs g path ty major minor =
     kbind (nameiparent rw devs path g) (\<lambda>(r, name).
     case r of
       None \<Rightarrow> kret None
     | Some dp \<Rightarrow>
         kthen (ilock rw (Some dp))
         (kbind (dirlookup rw devs dp name) (\<lambda>r.
          case r of
            Some (ip, off) \<Rightarrow>
              kthen (iunlockput rw dp)
              (kthen (ilock rw (Some ip)) (\<lambda>s.
               if ty = T_FILE \<and> i_type (fs_inode s ip) = T_FILE then Ok (Some ip) s
               else kthen (iunlockput rw ip) (kret None) s))
          | None \<Rightarrow>
              kbind (\<lambda>s. ialloc rw (i_dev (fs_inode s dp)) ty s) (\<lambda>ip.
              kthen (ilock rw (Some ip))
              (kthen (kmod (iupd ip (\<lambda>p. p\<lparr>i_major := major, i_minor := minor, i_nlink := 1\<rparr>)))
              (kthen (iupdate rw ip)
              (kthen (if ty = T_DIR then
                  kthen (set_nlink rw dp (\<lambda>n. n + 1))
                  (kbind (\<lambda>s. dirlink rw devs ip (CHR ''.'' # [NUL]) (i_inum (fs_inode s ip)) s) (\<lambda>r1.
                   if r1 < 0 then kpanic ''create dots''
                   else kbind (\<lambda>s. dirlink rw devs ip (CHR ''.'' # CHR ''.'' # [NUL]) (i_inum (fs_inode s dp)) s) (\<lambda>r2.
                     if r2 < 0 then kpanic ''create dots'' else kret ())))
                else kret ())
              (kbind (\<lambda>s. dirlink rw devs dp name (i_inum (fs_inode s ip)) s) (\<lambda>r.
               if r < 0 then kpanic ''create: dirlink''
               else kthen (iunlockput rw dp) (kret (Some ip)))))))))))"

text \<open>The bits of omode.\<close>

definition O_WRONLY_bit :: "uint \<Rightarrow> bool" where "O_WRONLY_bit m \<longleftrightarrow> bit m 0"
definition O_RDWR_bit :: "uint \<Rightarrow> bool" where "O_RDWR_bit m \<longleftrightarrow> bit m 1"
definition O_CREATE_bit :: "uint \<Rightarrow> bool" where "O_CREATE_bit m \<longleftrightarrow> bit m 9"

text \<open>The second half of sys_open, with the inode locked: a file and a descriptor for it.\<close>

definition open_inode_fd :: "'z sys_driver \<Rightarrow> 'z sys_st_ext pipe_ops \<Rightarrow> nat \<Rightarrow> uint \<Rightarrow> ('z, int) sys_routine" where
  "open_inode_fd rw po ip omode =
     kbind filealloc (\<lambda>fo.
     case fo of
       None \<Rightarrow> kthen (iunlockput rw ip) (kthen (end_op rw) (kret (-1)))
     | Some f \<Rightarrow>
         kbind (fdalloc f) (\<lambda>r.
         case r of
           None \<Rightarrow> kthen (fileclose rw po f) (kthen (iunlockput rw ip) (kthen (end_op rw) (kret (-1))))
         | Some fd \<Rightarrow>
             kthen (iunlock (Some ip))
             (kthen (end_op rw)
             (kthen (kmod (fupd f (\<lambda>x. x\<lparr>f_type := FD_INODE, f_ip := ip, f_off := 0, f_readable := \<not> O_WRONLY_bit omode,
                f_writable := O_WRONLY_bit omode \<or> O_RDWR_bit omode\<rparr>)))
             (kret (int fd))))))"

definition sys_open :: "'z sys_driver \<Rightarrow> 'z sys_devs \<Rightarrow> 'z sys_st_ext pipe_ops \<Rightarrow> string \<Rightarrow> ('z, int) sys_routine" where
  "sys_open rw devs po g s =
     (case argstr 0 s of None \<Rightarrow> Ok (-1) s | Some path \<Rightarrow>
     (case argint 1 s of None \<Rightarrow> Ok (-1) s | Some omode \<Rightarrow>
        kthen begin_op
        (if O_CREATE_bit omode then
           kbind (create rw devs g path T_FILE 0 0) (\<lambda>r.
             case r of None \<Rightarrow> kthen (end_op rw) (kret (-1)) | Some ip \<Rightarrow> open_inode_fd rw po ip omode)
         else
           kbind (namei rw devs path) (\<lambda>r.
             case r of
               None \<Rightarrow> kthen (end_op rw) (kret (-1))
             | Some ip \<Rightarrow>
                 kthen (ilock rw (Some ip)) (\<lambda>s.
                 if i_type (fs_inode s ip) = T_DIR \<and> omode \<noteq> 0
                 then kthen (iunlockput rw ip) (kthen (end_op rw) (kret (-1))) s
                 else open_inode_fd rw po ip omode s))) s))"

text \<open>The end of sys_mkdir and sys_mknod.\<close>

definition made :: "'z sys_driver \<Rightarrow> nat option \<Rightarrow> ('z, int) sys_routine" where
  "made rw r =
     (case r of
        None \<Rightarrow> kthen (end_op rw) (kret (-1))
      | Some ip \<Rightarrow> kthen (iunlockput rw ip) (kthen (end_op rw) (kret 0)))"

definition sys_mkdir :: "'z sys_driver \<Rightarrow> 'z sys_devs \<Rightarrow> string \<Rightarrow> ('z, int) sys_routine" where
  "sys_mkdir rw devs g =
     kthen begin_op (\<lambda>s.
     case argstr 0 s of
       None \<Rightarrow> made rw None s
     | Some path \<Rightarrow> kbind (create rw devs g path T_DIR 0 0) (made rw) s)"

definition sys_mknod :: "'z sys_driver \<Rightarrow> 'z sys_devs \<Rightarrow> string \<Rightarrow> ('z, int) sys_routine" where
  "sys_mknod rw devs g =
     kthen begin_op (\<lambda>s.
     case (argstr 0 s, argint 1 s, argint 2 s) of
       (Some path, Some major, Some minor) \<Rightarrow> kbind (create rw devs g path T_DEV (ucast major) (ucast minor)) (made rw) s
     | _ \<Rightarrow> made rw None s)"

definition sys_chdir :: "'z sys_driver \<Rightarrow> 'z sys_devs \<Rightarrow> ('z, int) sys_routine" where
  "sys_chdir rw devs =
     kthen begin_op (\<lambda>s.
     case argstr 0 s of
       None \<Rightarrow> kthen (end_op rw) (kret (-1)) s
     | Some path \<Rightarrow>
         kbind (namei rw devs path) (\<lambda>r.
         case r of
           None \<Rightarrow> kthen (end_op rw) (kret (-1))
         | Some ip \<Rightarrow>
             kthen (ilock rw (Some ip)) (\<lambda>s.
             if i_type (fs_inode s ip) \<noteq> T_DIR then kthen (iunlockput rw ip) (kthen (end_op rw) (kret (-1))) s
             else kthen (iunlock (Some ip))
               (kthen (\<lambda>s. iput rw (fs_cwd s) s)
               (kthen (end_op rw)
               (kthen (kmod (\<lambda>s. s\<lparr>fs_cwd := ip\<rparr>))
               (kret 0)))) s)) s)"

text \<open>The loop of sys_exec over argv; \<open>None\<close> is a bad pointer or too many arguments.\<close>

fun exec_args :: "nat \<Rightarrow> uint \<Rightarrow> 'z sys_st_scheme \<Rightarrow> string list option" where
  "exec_args 0 uargv s = None"
| "exec_args (Suc k) uargv s =
     (case fetchint uargv s of
        None \<Rightarrow> None
      | Some a \<Rightarrow> if a = 0 then Some []
          else (case fetchstr a s of None \<Rightarrow> None | Some x \<Rightarrow> map_option ((#) x) (exec_args k (uargv + 4) s)))"

definition sys_exec :: "(string \<Rightarrow> string list \<Rightarrow> ('z, int) sys_routine) \<Rightarrow> ('z, int) sys_routine" where
  "sys_exec ex s =
     (case argstr 0 s of None \<Rightarrow> Ok (-1) s | Some path \<Rightarrow>
     (case argint 1 s of None \<Rightarrow> Ok (-1) s | Some uargv \<Rightarrow>
     (case exec_args MAXARG uargv s of None \<Rightarrow> Ok (-1) s | Some argv \<Rightarrow> ex path argv s)))"

definition sys_pipe :: "'z sys_driver \<Rightarrow> 'z sys_st_ext pipe_ops \<Rightarrow> ('z, (nat \<times> nat) option) sys_routine \<Rightarrow> ('z, int) sys_routine" where
  "sys_pipe rw po pipealloc s =
     (case argptr 0 8 s of None \<Rightarrow> Ok (-1) s | Some p \<Rightarrow>
        kbind pipealloc (\<lambda>r.
        case r of
          None \<Rightarrow> kret (-1)
        | Some (rf, wrf) \<Rightarrow>
            let bad = kthen (fileclose rw po rf) (kthen (fileclose rw po wrf) (kret (-1))) in
            kbind (fdalloc rf) (\<lambda>r0.
            case r0 of
              None \<Rightarrow> bad
            | Some fd0 \<Rightarrow>
                kbind (fdalloc wrf) (\<lambda>r1.
                case r1 of
                  None \<Rightarrow> kthen (kmod (set_fd fd0 None)) bad
                | Some fd1 \<Rightarrow>
                    kthen (store_bytes p (le_bytes 4 fd0))
                    (kthen (store_bytes (p + 4) (le_bytes 4 fd1))
                    (kret 0))))) s)"

end
