(* ===== verification/SysProps.thy ===== *)
theory SysProps
  imports Syscall
begin

text \<open>
  What the system call layer ensures: pointers from the process are checked before the kernel follows
  them, and every call on files ends the transactions it begins, on every path.
\<close>

section \<open>Transactions under way\<close>

text \<open>If the routine returns, \<open>k\<close> operations are under way.\<close>

definition bal :: "int \<Rightarrow> ('z log_st_scheme, 'a) outcome \<Rightarrow> bool" where
  "bal k x \<longleftrightarrow> (\<forall>a t. x = Ok a t \<longrightarrow> lg_outstanding t = k)"

named_theorems bal \<open>routines that leave the number of operations alone\<close>

lemma bal_simps [simp]: "bal k (Ok a t) \<longleftrightarrow> lg_outstanding t = k" "bal k (Panic e)" "bal k Hang" "bal k Fault"
  by (auto simp: bal_def)

lemma bal_bind:
  "bal (lg_outstanding s) (r s) \<Longrightarrow> (\<And>a t. lg_outstanding t = lg_outstanding s \<Longrightarrow> bal k (f a t)) \<Longrightarrow> bal k (kbind r f s)"
  by (cases "r s") (simp_all add: kbind_def)

lemma bal_then:
  "bal (lg_outstanding s) (r s) \<Longrightarrow> (\<And>t. lg_outstanding t = lg_outstanding s \<Longrightarrow> bal k (f t)) \<Longrightarrow> bal k (kthen r f s)"
  unfolding kthen_def by (rule bal_bind)

lemma bal_begin:
  "(\<And>t. lg_outstanding t = lg_outstanding s + 1 \<Longrightarrow> bal k (f t)) \<Longrightarrow> bal k (kthen begin_op f s)"
  by (auto simp: begin_op_def kthen_def kbind_def)

lemmas bal_seq = bal_bind bal_then

lemma bal_for_each:
  assumes "\<And>i s. bal (lg_outstanding s) (f i s)"
  shows "lg_outstanding s = k \<Longrightarrow> bal k (for_each f is s)"
proof (induction "is" arbitrary: s)
  case (Cons i "is")
  then show ?case using assms by (auto intro!: bal_then)
qed simp

section \<open>Drivers and the buffer cache\<close>

lemma bupd_out [simp]: "lg_outstanding (bupd b f s) = lg_outstanding s"
  by (simp add: bupd_def)

lemma disk_write_out [simp]: "lg_outstanding (disk_write d n v s) = lg_outstanding s"
  by (simp add: disk_write_def)

lemma ring_find_bal: "ring_find n link P b s = Ok r t \<Longrightarrow> t = s"
  by (induction n link P b s rule: ring_find.induct) (auto split: if_splits)

lemma bget_bal [bal]: "lg_outstanding s = k \<Longrightarrow> bal k (bget d n s)"
  by (auto simp: bget_def lock_buf_def acquiresleep_def kthen_def kbind_def split: outcome.splits option.splits dest!: ring_find_bal)

lemma brelse_bal [bal]: "lg_outstanding s = k \<Longrightarrow> bal k (brelse b s)"
  by (simp add: brelse_def Let_def insert_front_def unlink_buf_def)

lemma idestart_bal: "lg_outstanding s = k \<Longrightarrow> bal k (idestart b s)"
  by (simp add: idestart_def Let_def)

lemma ideintr_bal: "lg_outstanding s = k \<Longrightarrow> bal k (ideintr e s)"
  by (auto simp: ideintr_def Let_def idestart_bal split: list.splits option.splits)

lemma ide_loop_bal: "lg_outstanding s = k \<Longrightarrow> bal k (ide_loop n b s)"
proof (induction n arbitrary: s)
  case (Suc n)
  then show ?case by (auto intro!: bal_then ideintr_bal)
qed simp

lemma iderw_bal: "bal (lg_outstanding s) (iderw b s)"
proof -
  have "bal (lg_outstanding s) (iderw_submit b s)" by (simp add: iderw_submit_def Let_def idestart_bal)
  then show ?thesis unfolding iderw_def by (rule bal_then) (rule ide_loop_bal)
qed

lemma mem_iderw_bal: "bal (lg_outstanding s) (mem_iderw b s)"
  by (simp add: mem_iderw_def Let_def)

section \<open>The interface of the layers below\<close>

text \<open>The driver, the devices and the pipes neither begin nor end operations.\<close>

locale quiet =
  fixes rw :: "'z sys_driver" and devs :: "'z sys_devs" and po :: "'z sys_st_ext pipe_ops"
  assumes rw_bal: "bal (lg_outstanding s) (rw b s)"
    and dev_bal: "dv_read (devs m) = Some f \<Longrightarrow> bal (lg_outstanding s) (f ip n s)" "dv_write (devs m) = Some g \<Longrightarrow> bal (lg_outstanding s) (g ip bs n s)"
    and pipe_bal: "bal (lg_outstanding s) (po_read po q n s)" "bal (lg_outstanding s) (po_write po q bs n s)" "bal (lg_outstanding s) (po_close po q w s)"
begin

lemma rw_out [bal]: "lg_outstanding s = k \<Longrightarrow> bal k (rw b s)"
  using rw_bal by blast

lemma bread_bal [bal]: "lg_outstanding s = k \<Longrightarrow> bal k (bread rw d n s)"
  unfolding bread_def
  by (rule bal_bind) (auto intro!: bget_bal bal_then rw_out)

lemma bwrite_bal [bal]: "lg_outstanding s = k \<Longrightarrow> bal k (bwrite rw b s)"
  by (auto simp: bwrite_def intro!: bal)

lemma log_write_bal [bal]: "lg_outstanding s = k \<Longrightarrow> bal k (log_write b s)"
  by (simp add: log_write_def Let_def)

lemma commit_bal [bal]: "lg_outstanding s = k \<Longrightarrow> bal k (commit rw s)"
  unfolding commit_def write_log_def write_log_one_def write_head_def install_trans_def install_one_def
  by (auto intro!: bal_seq bal bal_for_each)

lemma bal_end:
  "(\<And>t. lg_outstanding t = lg_outstanding s - 1 \<Longrightarrow> bal k (f t)) \<Longrightarrow> bal k (kthen (end_op rw) f s)"
proof -
  assume f: "\<And>t. lg_outstanding t = lg_outstanding s - 1 \<Longrightarrow> bal k (f t)"
  have "bal (lg_outstanding s - 1) (end_op rw s)"
    unfolding end_op_def Let_def by (auto intro!: bal_seq bal)
  then show ?thesis using f by (cases "end_op rw s") (simp_all add: kthen_def kbind_def)
qed

section \<open>The file system\<close>

lemma set_data_bal [bal]: "lg_outstanding s = k \<Longrightarrow> bal k (set_data b f s)"
  by (simp add: set_data_def)

lemma bzero_bal [bal]: "lg_outstanding s = k \<Longrightarrow> bal k (bzero rw d b s)"
  unfolding bzero_def by (auto intro!: bal_seq bal)

lemma balloc_bal [bal]: "lg_outstanding s = k \<Longrightarrow> bal k (balloc rw d s)"
proof -
  have "bal k (balloc_loop rw d bs s)" if "lg_outstanding s = k" for bs s
    using that
  proof (induction bs arbitrary: s)
    case (Cons b bs)
    show ?case using Cons by (auto intro!: bal_seq bal split: option.splits)
  qed simp
  then show "lg_outstanding s = k \<Longrightarrow> bal k (balloc rw d s)" by (simp add: balloc_def)
qed

lemma bfree_bal [bal]: "lg_outstanding s = k \<Longrightarrow> bal k (bfree rw d b s)"
  unfolding bfree_def by (auto simp: Let_def intro!: bal_seq bal)

lemma iupd_out [simp]: "lg_outstanding (iupd ip f s) = lg_outstanding s"
  by (simp add: iupd_def)

lemma iget_bal [bal]: "lg_outstanding s = k \<Longrightarrow> bal k (iget d n s)"
  by (auto simp: iget_def split: option.splits bool.splits)

lemma idup_bal [bal]: "lg_outstanding s = k \<Longrightarrow> bal k (idup ip s)"
  by (simp add: idup_def kthen_def kbind_def)

lemma ialloc_bal [bal]: "lg_outstanding s = k \<Longrightarrow> bal k (ialloc rw d ty s)"
proof -
  have "bal k (ialloc_loop rw d ty is s)" if "lg_outstanding s = k" for "is" s
    using that
  proof (induction "is" arbitrary: s)
    case (Cons i "is")
    show ?case using Cons by (auto simp: Let_def intro!: bal_seq bal)
  qed simp
  then show "lg_outstanding s = k \<Longrightarrow> bal k (ialloc rw d ty s)" by (simp add: ialloc_def)
qed

lemma iupdate_bal [bal]: "lg_outstanding s = k \<Longrightarrow> bal k (iupdate rw ip s)"
  unfolding iupdate_def by (auto intro!: bal_seq bal)

lemma lock_inode_bal [bal]: "lg_outstanding s = k \<Longrightarrow> bal k (lock_inode ip s)"
  by (auto simp: lock_inode_def acquiresleep_def)

lemma ilock_bal [bal]: "lg_outstanding s = k \<Longrightarrow> bal k (ilock rw ipp s)"
  unfolding ilock_def by (auto intro!: bal_seq bal split: option.splits)

lemma unlock_inode_bal [bal]: "lg_outstanding s = k \<Longrightarrow> bal k (unlock_inode ip s)"
  by (simp add: unlock_inode_def)

lemma iunlock_bal [bal]: "lg_outstanding s = k \<Longrightarrow> bal k (iunlock ipp s)"
  unfolding iunlock_def by (auto intro!: bal split: option.splits)

lemma itrunc_bal [bal]: "lg_outstanding s = k \<Longrightarrow> bal k (itrunc rw ip s)"
  unfolding itrunc_def set_addr_def by (auto intro!: bal_seq bal bal_for_each)

lemma iput_bal [bal]: "lg_outstanding s = k \<Longrightarrow> bal k (iput rw ip s)"
  unfolding iput_def drop_ref_def by (auto intro!: bal_seq bal)

lemma iunlockput_bal [bal]: "lg_outstanding s = k \<Longrightarrow> bal k (iunlockput rw ip s)"
  unfolding iunlockput_def by (auto intro!: bal_seq bal)

lemma bmap_bal [bal]: "lg_outstanding s = k \<Longrightarrow> bal k (bmap rw ip n s)"
  unfolding bmap_def addr_or_alloc_def set_addr_def by (auto simp: Let_def intro!: bal_seq bal)

lemma readi_bal [bal]: "lg_outstanding s = k \<Longrightarrow> bal k (readi rw devs ip off n s)"
proof -
  have "bal k (readi_loop rw ip off n s)" if "lg_outstanding s = k" for off n s
    using that
  proof (induction "unat n" arbitrary: off n s rule: less_induct)
    case less
    show ?case
    proof (cases "n = 0")
      case False
      then have "unat (n - chunk off n) < unat n" by (rule chunk_less)
      then show ?thesis using less by (subst readi_loop.simps) (auto simp: Let_def intro!: bal_seq bal)
    qed (use less in \<open>simp add: readi_loop.simps\<close>)
  qed
  then show "lg_outstanding s = k \<Longrightarrow> bal k (readi rw devs ip off n s)"
    unfolding readi_def Let_def by (auto simp: dev_bal intro!: bal_seq split: option.splits)
qed

lemma writei_bal [bal]: "lg_outstanding s = k \<Longrightarrow> bal k (writei rw devs ip src off n s)"
proof -
  have "bal k (writei_loop rw ip src off n s)" if "lg_outstanding s = k" for src off n s
    using that
  proof (induction "unat n" arbitrary: src off n s rule: less_induct)
    case less
    show ?case
    proof (cases "n = 0")
      case False
      then have "unat (n - chunk off n) < unat n" by (rule chunk_less)
      then show ?thesis using less by (subst writei_loop.simps) (auto simp: Let_def intro!: bal_seq bal)
    qed (use less in \<open>simp add: writei_loop.simps\<close>)
  qed
  then show "lg_outstanding s = k \<Longrightarrow> bal k (writei rw devs ip src off n s)"
    unfolding writei_def Let_def by (auto simp: dev_bal intro!: bal_seq bal split: option.splits)
qed

lemma read_dirent_bal [bal]: "lg_outstanding s = k \<Longrightarrow> bal k (read_dirent rw devs msg ip off s)"
  unfolding read_dirent_def by (auto intro!: bal_seq bal)

lemma dirlookup_bal [bal]: "lg_outstanding s = k \<Longrightarrow> bal k (dirlookup rw devs dp name s)"
proof -
  have "bal k (dirlookup_loop rw devs dp name offs s)" if "lg_outstanding s = k" for offs s
    using that
  proof (induction offs arbitrary: s)
    case (Cons off offs)
    show ?case using Cons by (auto intro!: bal_seq bal split: option.splits)
  qed simp
  then show "lg_outstanding s = k \<Longrightarrow> bal k (dirlookup rw devs dp name s)" by (simp add: dirlookup_def)
qed

lemma empty_dirent_bal [bal]: "lg_outstanding s = k \<Longrightarrow> bal k (empty_dirent rw devs dp e offs s)"
proof (induction offs arbitrary: s)
  case (Cons off offs)
  show ?case using Cons by (auto intro!: bal_seq bal)
qed simp

lemma dirlink_bal [bal]: "lg_outstanding s = k \<Longrightarrow> bal k (dirlink rw devs dp name inum s)"
  unfolding dirlink_def by (auto simp: Let_def intro!: bal_seq bal split: option.splits)

lemma namex_bal [bal]: "lg_outstanding s = k \<Longrightarrow> bal k (namex rw devs path parent name s)"
proof -
  have "bal k (namex_loop rw devs parent path name ip s)" if "lg_outstanding s = k" for parent path name ip s
    using that
  proof (induction "length path" arbitrary: parent path name ip s rule: less_induct)
    case less
    show ?case
    proof (cases "skipelem path name")
      case None
      then show ?thesis using less.prems by (subst namex_loop.simps) (auto intro!: bal_seq bal)
    next
      case (Some r)
      obtain path' name' where r: "r = (path', name')" by (cases r)
      have "length path' < length path" using skipelem_shorter Some r by simp
      then have ih: "lg_outstanding t = lg_outstanding s \<Longrightarrow> bal (lg_outstanding s) (namex_loop rw devs pt path' name' ip' t)" for pt ip' t
        using less.hyps less.prems by blast
      show ?thesis using Some r less.prems by (subst namex_loop.simps) (auto intro!: bal_seq bal ih split: option.splits)
    qed
  qed
  then show "lg_outstanding s = k \<Longrightarrow> bal k (namex rw devs path parent name s)"
    unfolding namex_def by (auto intro!: bal_seq bal)
qed

lemma namei_bal [bal]: "lg_outstanding s = k \<Longrightarrow> bal k (namei rw devs path s)"
  unfolding namei_def by (auto intro!: bal_seq bal)

lemma nameiparent_bal [bal]: "lg_outstanding s = k \<Longrightarrow> bal k (nameiparent rw devs path name s)"
  unfolding nameiparent_def by (rule namex_bal)

section \<open>Files\<close>

lemma fupd_out [simp]: "lg_outstanding (fupd f g s) = lg_outstanding s"
  by (simp add: fupd_def)

lemma filealloc_bal [bal]: "lg_outstanding s = k \<Longrightarrow> bal k (filealloc s)"
  by (auto simp: filealloc_def split: option.splits)

lemma filedup_bal [bal]: "lg_outstanding s = k \<Longrightarrow> bal k (filedup f s)"
  by (simp add: filedup_def)

lemma pipe_out:
  "lg_outstanding s = k \<Longrightarrow> bal k (po_read po q n s)" "lg_outstanding s = k \<Longrightarrow> bal k (po_write po q bs n s)"
  "lg_outstanding s = k \<Longrightarrow> bal k (po_close po q w s)"
  using pipe_bal by blast+

lemma fileclose_section_bal [bal]: "lg_outstanding s = k \<Longrightarrow> bal k (fileclose_section f s)" for s :: "'z sys_st_scheme"
  by (simp add: fileclose_section_def Let_def)

lemma bal_end_last: "lg_outstanding s = k + 1 \<Longrightarrow> bal k (end_op rw s)"
proof -
  assume "lg_outstanding s = k + 1"
  then have "bal k (kthen (end_op rw) (kret ()) s)" by (intro bal_end) simp
  then show ?thesis by (cases "end_op rw s") (simp_all add: kthen_def kbind_def)
qed

lemma fileclose_bal [bal]: "lg_outstanding s = k \<Longrightarrow> bal k (fileclose rw po f s)"
  unfolding fileclose_def
  by (auto intro!: bal_begin bal_end_last bal_seq bal pipe_out split: option.splits file_type.splits)

lemma filestat_bal [bal]: "lg_outstanding s = k \<Longrightarrow> bal k (filestat rw f s)"
  unfolding filestat_def Let_def by (auto intro!: bal_seq bal)

lemma advance_bal [bal]: "lg_outstanding s = k \<Longrightarrow> bal k (advance f r s)"
  by (simp add: advance_def)

lemma fileread_bal [bal]: "lg_outstanding s = k \<Longrightarrow> bal k (fileread rw devs po f n s)"
  unfolding fileread_def Let_def by (auto intro!: bal_seq bal pipe_out split: file_type.splits)

lemma write_transaction_bal [bal]: "lg_outstanding s = k \<Longrightarrow> bal k (write_transaction rw devs f src n s)"
  unfolding write_transaction_def Let_def by (auto intro!: bal_begin bal_end bal_seq bal)

lemma filewrite_bal [bal]: "lg_outstanding s = k \<Longrightarrow> bal k (filewrite rw devs po f src n s)"
proof -
  have "bal k (filewrite_loop rw devs f src i n s)" if "lg_outstanding s = k" for i s
    using that
  proof (induction "nat (n - i)" arbitrary: i s rule: less_induct)
    case less
    show ?case
    proof (cases "i < n")
      case True
      then have "nat (n - (i + min (n - i) 1536)) < nat (n - i)" by simp
      then show ?thesis using less True by (subst filewrite_loop.simps) (auto simp: Let_def intro!: bal_seq bal)
    qed (use less in \<open>simp add: filewrite_loop.simps\<close>)
  qed
  then show "lg_outstanding s = k \<Longrightarrow> bal k (filewrite rw devs po f src n s)"
    unfolding filewrite_def Let_def by (auto intro!: bal_seq pipe_out split: file_type.splits)
qed

section \<open>System calls\<close>

lemma store_bytes_bal [bal]: "lg_outstanding s = k \<Longrightarrow> bal k (store_bytes a bs s)" for s :: "'z sys_st_scheme"
  by (simp add: store_bytes_def)

lemma store_stat_bal [bal]: "lg_outstanding s = k \<Longrightarrow> bal k (store_stat a st s)" for s :: "'z sys_st_scheme"
  unfolding store_stat_def by (auto intro!: bal_seq bal)

lemma set_fd_out [simp]: "lg_outstanding (set_fd fd f s) = lg_outstanding s" for s :: "'z sys_st_scheme"
  by (simp add: set_fd_def)

lemma fdalloc_bal [bal]: "lg_outstanding s = k \<Longrightarrow> bal k (fdalloc f s)" for s :: "'z sys_st_scheme"
  by (auto simp: fdalloc_def split: option.splits)

lemma set_nlink_bal [bal]: "lg_outstanding s = k \<Longrightarrow> bal k (set_nlink rw ip f s)"
  unfolding set_nlink_def by (auto intro!: bal_seq bal)

lemma bad_bal: "lg_outstanding s = k + 1 \<Longrightarrow> bal k (link_bad rw ip s)" "lg_outstanding s = k + 1 \<Longrightarrow> bal k (unlink_bad rw dp s)"
  unfolding link_bad_def unlink_bad_def by (auto intro!: bal_end bal_seq bal)

lemma sys_link_bal: "lg_outstanding s = k \<Longrightarrow> bal k (sys_link rw devs g s)"
  unfolding sys_link_def by (auto intro!: bal_begin bal_end bad_bal bal_seq bal split: option.splits prod.splits)

lemma isdirempty_bal [bal]: "lg_outstanding s = k \<Longrightarrow> bal k (isdirempty rw devs dp s)"
proof -
  have "bal k (isdirempty_loop rw devs dp offs s)" if "lg_outstanding s = k" for offs s
    using that
  proof (induction offs arbitrary: s)
    case (Cons off offs)
    show ?case using Cons by (auto intro!: bal_seq bal)
  qed simp
  then show "lg_outstanding s = k \<Longrightarrow> bal k (isdirempty rw devs dp s)" by (simp add: isdirempty_def)
qed

lemma sys_unlink_bal: "lg_outstanding s = k \<Longrightarrow> bal k (sys_unlink rw devs g s)"
  unfolding sys_unlink_def by (auto intro!: bal_begin bal_end bad_bal bal_seq bal split: option.splits prod.splits)

lemma create_bal [bal]: "lg_outstanding s = k \<Longrightarrow> bal k (create rw devs g path ty major minor s)"
  unfolding create_def by (auto intro!: bal_seq bal split: option.splits prod.splits)

lemma open_inode_fd_bal: "lg_outstanding s = k + 1 \<Longrightarrow> bal k (open_inode_fd rw po ip omode s)"
  unfolding open_inode_fd_def by (auto intro!: bal_end bal_seq bal split: option.splits)

lemma sys_open_bal: "lg_outstanding s = k \<Longrightarrow> bal k (sys_open rw devs po g s)"
  unfolding sys_open_def by (auto intro!: bal_begin bal_end open_inode_fd_bal bal_seq bal split: option.splits)

lemma made_bal: "lg_outstanding s = k + 1 \<Longrightarrow> bal k (made rw r s)"
  unfolding made_def by (auto intro!: bal_end bal_seq bal split: option.splits)

lemma sys_mkdir_bal: "lg_outstanding s = k \<Longrightarrow> bal k (sys_mkdir rw devs g s)"
  unfolding sys_mkdir_def by (auto intro!: bal_begin made_bal bal_seq bal split: option.splits)

lemma sys_mknod_bal: "lg_outstanding s = k \<Longrightarrow> bal k (sys_mknod rw devs g s)"
  unfolding sys_mknod_def by (auto intro!: bal_begin made_bal bal_seq bal split: option.splits)

lemma sys_chdir_bal: "lg_outstanding s = k \<Longrightarrow> bal k (sys_chdir rw devs s)"
  unfolding sys_chdir_def by (auto intro!: bal_begin bal_end bal_seq bal split: option.splits)

lemma fd_calls_bal:
  "lg_outstanding s = k \<Longrightarrow> bal k (sys_dup s)" "lg_outstanding s = k \<Longrightarrow> bal k (sys_read rw devs po s)"
  "lg_outstanding s = k \<Longrightarrow> bal k (sys_write rw devs po s)" "lg_outstanding s = k \<Longrightarrow> bal k (sys_close rw po s)"
  "lg_outstanding s = k \<Longrightarrow> bal k (sys_fstat rw s)"
  for s :: "'z sys_st_scheme"
  unfolding sys_dup_def sys_read_def sys_write_def sys_close_def sys_fstat_def
  by (auto intro!: bal_seq bal split: option.splits prod.splits)

end

text \<open>A kernel in which no device and no pipe has been set up.\<close>

definition no_devs :: "int \<Rightarrow> 'z devsw" where
  "no_devs = (\<lambda>_. \<lparr>dv_read = None, dv_write = None\<rparr>)"

definition no_pipes :: "'z pipe_ops" where
  "no_pipes = \<lparr>po_read = (\<lambda>_ _ _. Fault), po_write = (\<lambda>_ _ _ _. Fault), po_close = (\<lambda>_ _ _. Fault)\<rparr>"

interpretation ide_quiet: quiet iderw no_devs no_pipes
  by unfold_locales (simp_all add: iderw_bal no_devs_def no_pipes_def)

interpretation mem_quiet: quiet mem_iderw no_devs no_pipes
  by unfold_locales (simp_all add: mem_iderw_bal no_devs_def no_pipes_def)

section \<open>Properties\<close>

definition quiet_devs :: "'z sys_devs \<Rightarrow> bool" where
  "quiet_devs devs \<longleftrightarrow>
     (\<forall>m f ip n s. dv_read (devs m) = Some f \<longrightarrow> bal (lg_outstanding s) (f ip n s)) \<and>
     (\<forall>m g ip bs n s. dv_write (devs m) = Some g \<longrightarrow> bal (lg_outstanding s) (g ip bs n s))"

definition quiet_pipes :: "'z sys_st_ext pipe_ops \<Rightarrow> bool" where
  "quiet_pipes po \<longleftrightarrow> (\<forall>q n s. bal (lg_outstanding s) (po_read po q n s)) \<and>
     (\<forall>q bs n s. bal (lg_outstanding s) (po_write po q bs n s)) \<and> (\<forall>q w s. bal (lg_outstanding s) (po_close po q w s))"

text \<open>C18: every system call on files ends the transactions it begins. Whatever its arguments, and on every path
  through it, failing ones included, a call that returns leaves as many operations under way in the log as there were
  before; so a call can neither keep the log from committing nor end the operation of another process. The
  devices and pipes below must leave that number alone.\<close>

theorem syscalls_end_transactions:
  assumes "quiet_devs devs" and "quiet_pipes po"
    and "r \<in> {sys_link iderw devs g, sys_unlink iderw devs g, sys_open iderw devs po g, sys_mkdir iderw devs g,
      sys_mknod iderw devs g, sys_chdir iderw devs, sys_dup, sys_read iderw devs po, sys_write iderw devs po,
      sys_close iderw po, sys_fstat iderw}"
    and "r s = Ok v t"
  shows "lg_outstanding t = lg_outstanding s"
proof -
  have q: "quiet iderw devs po"
    using assms(1,2) by unfold_locales (auto simp: iderw_bal quiet_devs_def quiet_pipes_def)
  have "bal (lg_outstanding s) (r s)"
    using assms(3) quiet.sys_link_bal [OF q refl] quiet.sys_unlink_bal [OF q refl] quiet.sys_open_bal [OF q refl]
      quiet.sys_mkdir_bal [OF q refl] quiet.sys_mknod_bal [OF q refl] quiet.sys_chdir_bal [OF q refl]
      quiet.fd_calls_bal [OF q refl] by blast
  then show ?thesis using assms(4) by simp
qed

text \<open>A call with a bad path, when nothing is under way.\<close>

definition ex_call :: "sys_st \<Rightarrow> sys_st" where
  "ex_call s = s\<lparr>lg_committing := False, lg_n := 0, lg_outstanding := 0, u_sz := 0\<rparr>"

lemma ex_call_mkdir:
  "sys_mkdir iderw no_devs g (ex_call s) = Ok (-1) ((ex_call s)\<lparr>lg_committing := False\<rparr>)"
  by (simp add: sys_mkdir_def ex_call_def kthen_def kbind_def begin_op_def LOGSIZE_def MAXOPBLOCKS_def argstr_def argint_def
      fetchint_def made_def end_op_def commit_def Let_def)

theorem syscalls_end_transactions_witness:
  "\<exists>(s :: sys_st) t. sys_mkdir iderw no_devs [] s = Ok (-1) t \<and> lg_outstanding s = 0 \<and> lg_outstanding t = 0"
proof -
  fix s :: sys_st
  have "quiet_devs no_devs" "quiet_pipes no_pipes" by (simp_all add: quiet_devs_def quiet_pipes_def no_devs_def no_pipes_def)
  then have "lg_outstanding ((ex_call s)\<lparr>lg_committing := False\<rparr>) = lg_outstanding (ex_call s)"
    by (rule syscalls_end_transactions [where r = "sys_mkdir iderw no_devs []" and g = "[]" and v = "-1"])
      (rule insertI1 insertI2 ex_call_mkdir)+
  then show ?thesis using ex_call_mkdir [of "[]" s] by (intro exI [of _ "ex_call s"] exI conjI) (auto simp: ex_call_def)
qed

lemma no_wrap: "a < sz \<Longrightarrow> sz \<le> 0x80000000 \<Longrightarrow> n < 0x80000000 \<Longrightarrow> unat ((a :: uint) + of_nat n) = unat a + n"
proof -
  assume a: "a < sz" "sz \<le> 0x80000000" and n: "n < 0x80000000"
  have "unat a < 0x80000000" using a by (simp add: word_less_nat_alt word_le_nat_alt)
  then have "unat a + n < 2 ^ 32" using n by simp
  moreover have "unat (of_nat n :: uint) = n" using n by (subst unat_of_nat) simp
  ultimately show ?thesis by (simp add: unat_word_ariths)
qed

lemma argptr_Some:
  "argptr n len s = Some p \<longleftrightarrow> argint n s = Some p \<and> 0 \<le> len \<and> p < u_sz s \<and> p + of_int len \<le> u_sz s"
  by (auto simp: argptr_def not_less not_le split: option.splits)

text \<open>C19: the arguments of a system call are checked before they are used. With a process of at most KERNBASE bytes, argint
  reads four bytes inside the process; argptr accepts exactly the pointers whose whole block lies inside it, without
  being fooled by sums that wrap around; and argstr returns the characters up to a NUL that lies inside it.\<close>

theorem arguments_in_bounds:
  assumes "u_sz s \<le> 0x80000000" and "len < 2 ^ 31"
  shows "(argint n s \<noteq> None \<longrightarrow> unat (u_esp s + 4 + 4 * of_nat n) + 4 \<le> unat (u_sz s)) \<and>
    (argptr n len s = Some p \<longleftrightarrow> argint n s = Some p \<and> 0 \<le> len \<and> unat p < unat (u_sz s) \<and> unat p + nat len \<le> unat (u_sz s)) \<and>
    (argstr n s = Some x \<longrightarrow> (\<exists>a. argint n s = Some a \<and> unat a + length x < unat (u_sz s) \<and> u_mem s (a + of_nat (length x)) = 0 \<and>
       (\<forall>k<length x. u_mem s (a + of_nat k) \<noteq> 0 \<and> x ! k = char_of (unat (u_mem s (a + of_nat k))))))"
proof (intro conjI impI)
  let ?a = "u_esp s + 4 + 4 * of_nat n"
  assume "argint n s \<noteq> None"
  then have a: "?a < u_sz s" "\<not> ?a + 4 > u_sz s" by (auto simp: argint_def fetchint_def split: if_splits)
  have "unat (?a + 4) = unat ?a + 4" using no_wrap [OF a(1) assms(1), of 4] by simp
  then show "unat ?a + 4 \<le> unat (u_sz s)" using a(2) by (simp add: word_less_nat_alt)
next
  have w: "p + of_int len \<le> u_sz s \<longleftrightarrow> unat p + nat len \<le> unat (u_sz s)" if "p < u_sz s" "0 \<le> len"
    using no_wrap [OF that(1) assms(1), of "nat len"] that(2) assms(2) by (simp add: word_le_nat_alt)
  show "argptr n len s = Some p \<longleftrightarrow>
      argint n s = Some p \<and> 0 \<le> len \<and> unat p < unat (u_sz s) \<and> unat p + nat len \<le> unat (u_sz s)"
    unfolding argptr_Some word_less_nat_alt [symmetric] using w by blast
next
  assume "argstr n s = Some x"
  then obtain a k where a: "argint n s = Some a" "a < u_sz s" "find (\<lambda>k. u_mem s (a + of_nat k) = 0) [0..<unat (u_sz s) - unat a] = Some k"
      "x = map (\<lambda>b. char_of (unat b)) (bytes_at (u_mem s) a k)"
    by (auto simp: argstr_def fetchstr_def split: option.splits if_splits)
  have k: "k < unat (u_sz s) - unat a" "u_mem s (a + of_nat k) = 0" "\<forall>j<k. u_mem s (a + of_nat j) \<noteq> 0"
    using a(3) by (auto simp: find_Some_iff)
  then show "\<exists>a. argint n s = Some a \<and> unat a + length x < unat (u_sz s) \<and> u_mem s (a + of_nat (length x)) = 0 \<and>
       (\<forall>k<length x. u_mem s (a + of_nat k) \<noteq> 0 \<and> x ! k = char_of (unat (u_mem s (a + of_nat k))))"
    using a(1,4) by (intro exI [of _ a]) (simp add: bytes_at_def)
qed

text \<open>A process of 64 bytes whose first argument is the pointer 4.\<close>

definition ex_args :: "sys_st \<Rightarrow> sys_st" where
  "ex_args s = s\<lparr>u_sz := 64, u_esp := 0, u_mem := (\<lambda>a. if a = 4 then 4 else 0)\<rparr>"

lemma ex_args_argint: "argint 0 (ex_args s) = Some 4"
  by (simp add: argint_def fetchint_def ex_args_def bytes_at_def get32_def upt_rec)

theorem arguments_in_bounds_witness:
  "\<exists>s :: sys_st. argptr 0 16 s = Some 4 \<and> argptr 0 (2 ^ 31 - 1) s \<noteq> Some 4"
proof -
  have sz: "u_sz (ex_args s) \<le> 0x80000000" for s by (simp add: ex_args_def)
  note b = arguments_in_bounds [OF sz, THEN conjunct2, THEN conjunct1]
  have "argptr 0 16 (ex_args s) = Some 4" for s
    using b [of 16 0 s 4] ex_args_argint [of s] by (simp add: ex_args_def)
  moreover have "argptr 0 (2 ^ 31 - 1) (ex_args s) \<noteq> Some 4" for s
    using b [of "2 ^ 31 - 1" 0 s 4] by (simp add: ex_args_def)
  ultimately show ?thesis by blast
qed

end
