(* ===== verification/Icache.thy ===== *)
theory Icache
  imports Fs "HOL-Library.Multiset"
begin

text \<open>
  The inode cache under its lock: the critical sections of iget, idup and iput of any number of
  processes, in any order, with the multiset of the pointers the processes hold.
\<close>

text \<open>A process gives back only pointers it holds; everything else the kernel does keeps ref, dev and inum.\<close>

inductive icache_run :: "'z fs_st_scheme \<Rightarrow> nat multiset \<Rightarrow> bool" where
  boot: "(\<And>i. i_ref (fs_inode s i) = 0) \<Longrightarrow> icache_run s {#}"
| get: "icache_run s H \<Longrightarrow> iget dev inum s = Ok ip t \<Longrightarrow> icache_run t (add_mset ip H)"
| dup: "icache_run s H \<Longrightarrow> ip \<in># H \<Longrightarrow> idup ip s = Ok jp t \<Longrightarrow> icache_run t (add_mset jp H)"
| put: "icache_run s H \<Longrightarrow> ip \<in># H \<Longrightarrow> drop_ref ip s = Ok () t \<Longrightarrow> icache_run t (H - {#ip#})"
| work: "icache_run s H \<Longrightarrow> (\<And>i. i_ref (fs_inode t i) = i_ref (fs_inode s i) \<and> i_dev (fs_inode t i) = i_dev (fs_inode s i) \<and>
     i_inum (fs_inode t i) = i_inum (fs_inode s i)) \<Longrightarrow> icache_run t H"

definition icache_inv :: "'z fs_st_scheme \<Rightarrow> nat multiset \<Rightarrow> bool" where
  "icache_inv s H \<longleftrightarrow> (\<forall>i. i_ref (fs_inode s i) = int (count H i)) \<and> (\<forall>i. i \<in># H \<longrightarrow> i < NINODE) \<and>
     (\<forall>i j. i \<in># H \<and> j \<in># H \<and> i_dev (fs_inode s i) = i_dev (fs_inode s j) \<and>
        i_inum (fs_inode s i) = i_inum (fs_inode s j) \<longrightarrow> i = j)"

lemma iget_scan_hit:
  "iget_scan ic dev inum is e = Some (True, i) \<Longrightarrow> i \<in> set is \<and> i_ref (ic i) > 0 \<and> i_dev (ic i) = dev \<and> i_inum (ic i) = inum"
  by (induction "is" arbitrary: e) (auto split: if_splits)

lemma iget_scan_miss:
  "iget_scan ic dev inum is e = Some (False, i) \<Longrightarrow>
    (e = Some i \<or> e = None \<and> i \<in> set is \<and> i_ref (ic i) = 0) \<and>
    (\<forall>j\<in>set is. \<not> (i_ref (ic j) > 0 \<and> i_dev (ic j) = dev \<and> i_inum (ic j) = inum))"
proof (induction "is" arbitrary: e)
  case (Cons k ks)
  then show ?case by (force split: if_splits)
qed simp

lemma iget_cases:
  assumes "iget dev inum s = Ok ip t"
  obtains (hit) "ip < NINODE" "i_ref (fs_inode s ip) > 0" "i_dev (fs_inode s ip) = dev" "i_inum (fs_inode s ip) = inum"
      "t = iupd ip (\<lambda>p. p\<lparr>i_ref := i_ref p + 1\<rparr>) s"
    | (miss) "ip < NINODE" "i_ref (fs_inode s ip) = 0"
      "\<forall>j<NINODE. \<not> (i_ref (fs_inode s j) > 0 \<and> i_dev (fs_inode s j) = dev \<and> i_inum (fs_inode s j) = inum)"
      "t = iupd ip (\<lambda>p. p\<lparr>i_dev := dev, i_inum := inum, i_ref := 1, i_valid := False\<rparr>) s"
proof -
  let ?r = "iget_scan (fs_inode s) dev inum [0..<NINODE] None"
  have "?r \<noteq> None" using assms unfolding iget_def by (cases ?r) auto
  then obtain b i where r: "?r = Some (b, i)" by (cases ?r) auto
  have i: "i = ip" using assms unfolding iget_def r by (cases b) simp_all
  show ?thesis
  proof (cases b)
    case True
    have r': "?r = Some (True, ip)" using True unfolding r i by simp
    note h = iget_scan_hit [OF r']
    show ?thesis
    proof (rule hit)
      show "t = iupd ip (\<lambda>p. p\<lparr>i_ref := i_ref p + 1\<rparr>) s" using assms unfolding iget_def r' by simp
    qed (use h in auto)
  next
    case False
    have r': "?r = Some (False, ip)" using False unfolding r i by simp
    note m = iget_scan_miss [OF r']
    show ?thesis
    proof (rule miss)
      show "t = iupd ip (\<lambda>p. p\<lparr>i_dev := dev, i_inum := inum, i_ref := 1, i_valid := False\<rparr>) s"
        using assms unfolding iget_def r' by simp
      show "ip < NINODE" "i_ref (fs_inode s ip) = 0" using m by auto
      show "\<forall>j<NINODE. \<not> (i_ref (fs_inode s j) > 0 \<and> i_dev (fs_inode s j) = dev \<and> i_inum (fs_inode s j) = inum)"
        using m by simp
    qed
  qed
qed

lemma inode_iupd: "fs_inode (iupd ip f s) = (fs_inode s)(ip := f (fs_inode s ip))"
  by (simp add: iupd_def)

lemma icache_invD:
  assumes "icache_inv s H"
  shows "i_ref (fs_inode s i) = int (count H i)" "i \<in># H \<Longrightarrow> i < NINODE"
    "i \<in># H \<Longrightarrow> j \<in># H \<Longrightarrow> i_dev (fs_inode s i) = i_dev (fs_inode s j) \<Longrightarrow> i_inum (fs_inode s i) = i_inum (fs_inode s j) \<Longrightarrow> i = j"
  using assms unfolding icache_inv_def by blast+

lemma icache_invI:
  assumes "\<And>i. i_ref (fs_inode s i) = int (count H i)" and "\<And>i. i \<in># H \<Longrightarrow> i < NINODE"
    and "\<And>i j. i \<in># H \<Longrightarrow> j \<in># H \<Longrightarrow> i_dev (fs_inode s i) = i_dev (fs_inode s j) \<Longrightarrow>
      i_inum (fs_inode s i) = i_inum (fs_inode s j) \<Longrightarrow> i = j"
  shows "icache_inv s H"
  using assms unfolding icache_inv_def by blast

text \<open>One more or one fewer pointer to an entry in use.\<close>

lemma icache_inv_ref:
  assumes inv: "icache_inv s H" and G: "set_mset G \<subseteq> set_mset H" "\<And>i. int (count G i) = int (count H i) + (if i = ip then d else 0)"
  shows "icache_inv (iupd ip (\<lambda>p. p\<lparr>i_ref := i_ref p + d\<rparr>) s) G"
proof (rule icache_invI)
  note D = icache_invD [OF inv]
  show "i_ref (fs_inode (iupd ip (\<lambda>p. p\<lparr>i_ref := i_ref p + d\<rparr>) s) i) = int (count G i)" for i
    using G(2) [of i] D(1) [of i] by (auto simp: inode_iupd)
  show "i < NINODE" if "i \<in># G" for i using D(2) G(1) that by blast
  show "i = j" if "i \<in># G" "j \<in># G"
    "i_dev (fs_inode (iupd ip (\<lambda>p. p\<lparr>i_ref := i_ref p + d\<rparr>) s) i) = i_dev (fs_inode (iupd ip (\<lambda>p. p\<lparr>i_ref := i_ref p + d\<rparr>) s) j)"
    "i_inum (fs_inode (iupd ip (\<lambda>p. p\<lparr>i_ref := i_ref p + d\<rparr>) s) i) = i_inum (fs_inode (iupd ip (\<lambda>p. p\<lparr>i_ref := i_ref p + d\<rparr>) s) j)" for i j
  proof (rule D(3))
    show "i \<in># H" "j \<in># H" using that G(1) by auto
    show "i_dev (fs_inode s i) = i_dev (fs_inode s j)" "i_inum (fs_inode s i) = i_inum (fs_inode s j)"
      using that(3,4) by (simp_all add: inode_iupd split: if_splits)
  qed
qed

lemma iget_inv:
  assumes inv: "icache_inv s H" and g: "iget dev inum s = Ok ip t"
  shows "icache_inv t (add_mset ip H)"
  using g
proof (cases rule: iget_cases)
  case hit
  have "ip \<in># H" using icache_invD(1) [OF inv, of ip] hit(2) by simp
  then show ?thesis unfolding hit(5) by (intro icache_inv_ref [OF inv]) auto
next
  case miss
  note D = icache_invD [OF inv]
  have nip: "ip \<notin># H" using D(1) [of ip] miss(2) by (simp add: not_in_iff)
  have nm: "\<not> (i_dev (fs_inode s j) = dev \<and> i_inum (fs_inode s j) = inum)" if "j \<in># H" for j
  proof -
    have "i_ref (fs_inode s j) > 0" using D(1) [of j] that by simp
    then show ?thesis using miss(3) D(2) [OF that] by blast
  qed
  have ft: "fs_inode t i = (if i = ip then (fs_inode s ip)\<lparr>i_dev := dev, i_inum := inum, i_ref := 1, i_valid := False\<rparr> else fs_inode s i)" for i
    unfolding miss(4) inode_iupd by simp
  show ?thesis
  proof (rule icache_invI)
    show "i_ref (fs_inode t i) = int (count (add_mset ip H) i)" for i
      using D(1) [of i] nip by (auto simp: ft not_in_iff)
    show "i < NINODE" if "i \<in># add_mset ip H" for i using that miss(1) D(2) by auto
    show "i = j" if ij: "i \<in># add_mset ip H" "j \<in># add_mset ip H" "i_dev (fs_inode t i) = i_dev (fs_inode t j)"
      "i_inum (fs_inode t i) = i_inum (fs_inode t j)" for i j
    proof (cases "i = ip"; cases "j = ip")
      assume "i = ip" "j \<noteq> ip"
      then have "j \<in># H" "i_dev (fs_inode s j) = dev" "i_inum (fs_inode s j) = inum" using ij by (simp_all add: ft)
      then show ?thesis using nm by blast
    next
      assume "i \<noteq> ip" "j = ip"
      then have "i \<in># H" "i_dev (fs_inode s i) = dev" "i_inum (fs_inode s i) = inum" using ij by (simp_all add: ft)
      then show ?thesis using nm by blast
    next
      assume "i \<noteq> ip" "j \<noteq> ip"
      then show ?thesis using ij D(3) [of i j] by (simp add: ft)
    qed simp
  qed
qed

lemma icache_run_inv: "icache_run s H \<Longrightarrow> icache_inv s H"
proof (induction rule: icache_run.induct)
  case (boot s)
  then show ?case by (intro icache_invI) simp_all
next
  case (get s H dev inum ip t)
  then show ?case using iget_inv by blast
next
  case (dup s H ip jp t)
  have t: "jp = ip" "t = iupd ip (\<lambda>p. p\<lparr>i_ref := i_ref p + 1\<rparr>) s"
    using dup.hyps(3) by (auto simp: idup_def kthen_def kbind_def)
  show ?case unfolding t using dup.hyps(2) by (intro icache_inv_ref [OF dup.IH]) auto
next
  case (put s H ip t)
  have t: "t = iupd ip (\<lambda>p. p\<lparr>i_ref := i_ref p + - 1\<rparr>) s" using put.hyps(3) by (simp add: drop_ref_def)
  have c: "count H ip > 0" using put.hyps(2) by simp
  show ?case unfolding t
  proof (rule icache_inv_ref [OF put.IH])
    show "set_mset (H - {#ip#}) \<subseteq> set_mset H" by (meson in_diffD subsetI)
    show "int (count (H - {#ip#}) i) = int (count H i) + (if i = ip then - 1 else 0)" for i
      using c by (simp add: of_nat_diff)
  qed
next
  case (work s H t)
  then show ?case unfolding icache_inv_def by simp
qed

definition empty_cache :: fs_st where
  "empty_cache = \<lparr>d_buf = (\<lambda>_. buf0), d_next = (\<lambda>_. 0), d_prev = (\<lambda>_. 0), d_disk = ex_zero, d_trace = [],
     d_queue = [], d_cmd = None, d_havedisk1 = True, d_memsize = 1000, d_pid = 1, lg_start = 2,
     lg_size = 30, lg_outstanding = 1, lg_committing = False, lg_dev = 1, lg_n = 0, lg_block = replicate 30 0,
     fs_sb = superblock_of (replicate BSIZE 0),
     fs_inode = (\<lambda>_. \<lparr>i_dev = 0, i_inum = 0, i_ref = 0, i_lock = \<lparr>sl_locked = False, sl_name = [], sl_pid = 0\<rparr>, i_valid = False,
       i_type = 0, i_major = 0, i_minor = 0, i_nlink = 0, i_size = 0, i_addrs = []\<rparr>), fs_cwd = 0\<rparr>"

definition one_inode :: fs_st where
  "one_inode = iupd 0 (\<lambda>p. p\<lparr>i_dev := 1, i_inum := 1, i_ref := 1, i_valid := False\<rparr>) empty_cache"

lemma iget_scan_empty: "(\<And>i. i_ref (ic i) = 0) \<Longrightarrow> iget_scan ic dev inum is (Some k) = Some (False, k)"
  by (induction "is") auto

lemma upt_NINODE: "[0..<NINODE] = 0 # [1..<NINODE]"
  by (simp add: NINODE_def upt_conv_Cons)

lemma empty_get: "iget 1 1 empty_cache = Ok 0 one_inode"
proof -
  have "i_ref (fs_inode empty_cache i) = 0" for i by (simp add: empty_cache_def)
  then show ?thesis by (simp add: iget_def upt_NINODE iget_scan_empty one_inode_def)
qed

lemma one_inode_get: "iget 1 1 one_inode = Ok 0 (iupd 0 (\<lambda>p. p\<lparr>i_ref := i_ref p + 1\<rparr>) one_inode)"
  by (simp add: iget_def upt_NINODE one_inode_def inode_iupd)

text \<open>C15: reference counting in the inode cache: in every interleaving of iget, idup and iput the count of
  an entry is the number of pointers to it that processes hold, and no inode has two entries. iget
  returns an entry of the inode it was asked for, and never touches the identity of an entry that
  is in use.\<close>

theorem icache_counts:
  assumes "icache_run s H"
  shows "(\<forall>i. i_ref (fs_inode s i) = int (count H i)) \<and>
    (\<forall>i j. i \<in># H \<and> j \<in># H \<and> i_dev (fs_inode s i) = i_dev (fs_inode s j) \<and>
       i_inum (fs_inode s i) = i_inum (fs_inode s j) \<longrightarrow> i = j) \<and>
    (\<forall>dev inum ip t. iget dev inum s = Ok ip t \<longrightarrow> i_dev (fs_inode t ip) = dev \<and> i_inum (fs_inode t ip) = inum \<and>
       (\<forall>i. i \<in># H \<longrightarrow> i_dev (fs_inode t i) = i_dev (fs_inode s i) \<and> i_inum (fs_inode t i) = i_inum (fs_inode s i)))"
proof (intro conjI)
  note inv = icache_run_inv [OF assms]
  note D = icache_invD [OF inv]
  show "\<forall>i. i_ref (fs_inode s i) = int (count H i)" using D(1) by blast
  show "\<forall>i j. i \<in># H \<and> j \<in># H \<and> i_dev (fs_inode s i) = i_dev (fs_inode s j) \<and>
       i_inum (fs_inode s i) = i_inum (fs_inode s j) \<longrightarrow> i = j" using D(3) by blast
  show "\<forall>dev inum ip t. iget dev inum s = Ok ip t \<longrightarrow> i_dev (fs_inode t ip) = dev \<and> i_inum (fs_inode t ip) = inum \<and>
       (\<forall>i. i \<in># H \<longrightarrow> i_dev (fs_inode t i) = i_dev (fs_inode s i) \<and> i_inum (fs_inode t i) = i_inum (fs_inode s i))"
  proof (intro allI impI)
    fix dev inum ip t assume "iget dev inum s = Ok ip t"
    then show "i_dev (fs_inode t ip) = dev \<and> i_inum (fs_inode t ip) = inum \<and>
       (\<forall>i. i \<in># H \<longrightarrow> i_dev (fs_inode t i) = i_dev (fs_inode s i) \<and> i_inum (fs_inode t i) = i_inum (fs_inode s i))"
    proof (cases rule: iget_cases)
      case hit
      then show ?thesis unfolding hit(5) inode_iupd by simp
    next
      case miss
      then have "ip \<notin># H" using D(1) [of ip] by (simp add: not_in_iff)
      then show ?thesis unfolding miss(4) inode_iupd by auto
    qed
  qed
qed

theorem icache_counts_witness:
  "\<exists>t :: fs_st. icache_run t {#0, 0#} \<and> i_ref (fs_inode t 0) = 2 \<and> i_ref (fs_inode t 1) = 0"
proof -
  let ?t = "iupd 0 (\<lambda>p. p\<lparr>i_ref := i_ref p + 1\<rparr>) one_inode"
  have "icache_run empty_cache {#}" by (rule boot) (simp add: empty_cache_def)
  from get [OF get [OF this empty_get] one_inode_get] have r: "icache_run ?t {#0, 0#}" .
  then show ?thesis using icache_counts [OF r] by (intro exI [of _ ?t]) auto
qed

end
