(* ===== verification/Cabs.thy ===== *)
theory Cabs
  imports Prelude
begin

text \<open>
  src/ass4/Q3/main.c: cabs, passengers and payment servers. Every passenger is a thread, and so is
  every server; the step relation interleaves their reads and writes of the shared arrays, a round of
  the search loops and the section under a mutex being one step. sleep only delays a thread
  (\<open>sleep(0.5)\<close> is \<open>sleep(0)\<close>), and what is printed is left out.
\<close>

section \<open>Shared data\<close>

datatype ride = WaitState | OnRidePremier | OnRidePoolFull | OnRidePoolHalf
datatype ride_type = Premier | Pool

record cab =
  cab_lock :: bool
  ride_status :: ride

record payment =
  pay_cab :: nat
  reduce_status_to :: ride
  payment_pending :: bool

definition init_cab :: cab where
  "init_cab = \<lparr>cab_lock = False, ride_status = WaitState\<rparr>"

definition init_payment :: payment where
  "init_payment = \<lparr>pay_cab = 0, reduce_status_to = WaitState, payment_pending = False\<rparr>"

text \<open>passenger_init: the type of the ride and how long the passenger waits.\<close>

definition type_of :: "nat \<Rightarrow> ride_type" where
  "type_of passenger = (if passenger mod 2 = 0 then Premier else Pool)"

definition wait_time :: nat where "wait_time = 20"

section \<open>Finding a cab\<close>

type_synonym cabs = "nat \<Rightarrow> cab"

definition free_with :: "ride \<Rightarrow> cabs \<Rightarrow> nat \<Rightarrow> bool" where
  "free_with st c i \<longleftrightarrow> \<not> cab_lock (c i) \<and> ride_status (c i) = st"

definition book :: "nat \<Rightarrow> ride \<Rightarrow> cabs \<Rightarrow> cabs" where
  "book i st c = c(i := \<lparr>cab_lock = True, ride_status = st\<rparr>)"

text \<open>The two loops of a round of the pool search; the second runs even when the first found a cab.\<close>

definition join_pool :: "nat \<Rightarrow> cabs \<Rightarrow> nat option \<Rightarrow> cabs \<times> nat option" where
  "join_pool n c found =
     (case find (free_with OnRidePoolHalf c) [0..<n] of
        Some i \<Rightarrow> (book i OnRidePoolFull c, Some i) | None \<Rightarrow> (c, found))"

definition open_pool :: "nat \<Rightarrow> cabs \<Rightarrow> nat option \<Rightarrow> cabs \<times> nat option" where
  "open_pool n c found =
     (case find (free_with WaitState c) [0..<n] of
        Some i \<Rightarrow> (book i OnRidePoolHalf c, Some i) | None \<Rightarrow> (c, found))"

definition pool_round :: "nat \<Rightarrow> cabs \<Rightarrow> cabs \<times> nat option" where
  "pool_round n c = (case join_pool n c None of (c', found) \<Rightarrow> open_pool n c' found)"

text \<open>One round of the premier search looks at one cab.\<close>

definition premier_round :: "nat \<Rightarrow> cabs \<Rightarrow> cabs \<times> nat option" where
  "premier_round i c = (if free_with WaitState c i then (book i OnRidePremier c, Some i) else (c, None))"

section \<open>Threads\<close>

text \<open>
  A passenger: before the mutex of take_cab; in the search, with the time left and the cab to look at;
  with a booked cab that is still locked; on the ride; at the payment counter with the status it read;
  waiting for the payment in a slot; gone without a ride; gone after one.
\<close>

datatype passenger =
  Arrived | Searching nat nat | Booked nat | Riding nat | AtCounter nat ride | Paying nat | GaveUp | Left

text \<open>\<open>ct_serving\<close> is the slot of the server that holds the servers' mutex, between its two writes.\<close>

record city =
  ct_cab :: cabs
  ct_mutex :: "nat option"
  ct_passenger :: "nat \<Rightarrow> passenger"
  ct_pay :: "nat \<Rightarrow> payment"
  ct_slot :: nat
  ct_serving :: "nat option"
  ct_left :: int

definition init_city :: "nat \<Rightarrow> city" where
  "init_city m = \<lparr>ct_cab = \<lambda>_. init_cab, ct_mutex = None, ct_passenger = \<lambda>_. Arrived, ct_pay = \<lambda>_. init_payment,
     ct_slot = 0, ct_serving = None, ct_left = int m\<rparr>"

definition go :: "nat \<Rightarrow> passenger \<Rightarrow> city \<Rightarrow> city" where
  "go p ph s = s\<lparr>ct_passenger := (ct_passenger s)(p := ph)\<rparr>"

text \<open>A round of the search with \<open>w\<close> rounds left, at cab \<open>i\<close>; a passenger with a cab unlocks the mutex.\<close>

definition search_round :: "nat \<Rightarrow> nat \<Rightarrow> nat \<Rightarrow> nat \<Rightarrow> city \<Rightarrow> city" where
  "search_round n p w i s =
     (case type_of p of
        Pool \<Rightarrow> (case pool_round n (ct_cab s) of
            (c, Some k) \<Rightarrow> go p (Booked k) (s\<lparr>ct_cab := c, ct_mutex := None\<rparr>)
          | (c, None) \<Rightarrow> go p (Searching (w - 1) i) (s\<lparr>ct_cab := c\<rparr>))
      | Premier \<Rightarrow> (case premier_round i (ct_cab s) of
            (c, Some k) \<Rightarrow> go p (Booked k) (s\<lparr>ct_cab := c, ct_mutex := None\<rparr>)
          | (c, None) \<Rightarrow> go p (Searching (w - 1) (Suc i mod n)) (s\<lparr>ct_cab := c\<rparr>)))"

text \<open>What do_payment asks the server to do with the status of the cab; otherwise the field keeps its old value.\<close>

fun reduced :: "ride \<Rightarrow> ride \<Rightarrow> ride" where
  "reduced OnRidePoolFull old = OnRidePoolHalf"
| "reduced OnRidePoolHalf old = WaitState"
| "reduced OnRidePremier old = WaitState"
| "reduced WaitState old = old"

definition do_payment :: "nat \<Rightarrow> ride \<Rightarrow> city \<Rightarrow> city" where
  "do_payment c st s =
     s\<lparr>ct_pay := (ct_pay s)(ct_slot s := \<lparr>pay_cab = c, reduce_status_to = reduced st (reduce_status_to (ct_pay s (ct_slot s))),
         payment_pending = True\<rparr>),
       ct_slot := ct_slot s + 1\<rparr>"

definition set_status :: "nat \<Rightarrow> ride \<Rightarrow> city \<Rightarrow> city" where
  "set_status c st s = s\<lparr>ct_cab := (ct_cab s)(c := (ct_cab s c)\<lparr>ride_status := st\<rparr>)\<rparr>"

definition unlock_cab :: "nat \<Rightarrow> city \<Rightarrow> city" where
  "unlock_cab c s = s\<lparr>ct_cab := (ct_cab s)(c := (ct_cab s c)\<lparr>cab_lock := False\<rparr>)\<rparr>"

inductive city_step :: "nat \<Rightarrow> nat \<Rightarrow> city \<Rightarrow> city \<Rightarrow> bool" for n m :: nat where
  enter: "p < m \<Longrightarrow> ct_passenger s p = Arrived \<Longrightarrow> ct_mutex s = None \<Longrightarrow>
     city_step n m s (go p (Searching wait_time 0) (s\<lparr>ct_mutex := Some p\<rparr>))"
| search: "ct_passenger s p = Searching w i \<Longrightarrow> w > 0 \<Longrightarrow> city_step n m s (search_round n p w i s)"
| give_up: "ct_passenger s p = Searching 0 i \<Longrightarrow>
     city_step n m s (go p GaveUp (s\<lparr>ct_mutex := None, ct_left := ct_left s - 1\<rparr>))"
| start: "ct_passenger s p = Booked c \<Longrightarrow> city_step n m s (go p (Riding c) (unlock_cab c s))"
| arrive: "ct_passenger s p = Riding c \<Longrightarrow> city_step n m s (go p (AtCounter c (ride_status (ct_cab s c))) s)"
| pay: "ct_passenger s p = AtCounter c st \<Longrightarrow> city_step n m s (go p (Paying (ct_slot s)) (do_payment c st s))"
| serve: "ct_left s > 0 \<Longrightarrow> ct_serving s = None \<Longrightarrow> payment_pending (ct_pay s k) \<Longrightarrow>
     city_step n m s ((set_status (pay_cab (ct_pay s k)) (reduce_status_to (ct_pay s k)) s)\<lparr>ct_serving := Some k\<rparr>)"
| served: "ct_serving s = Some k \<Longrightarrow>
     city_step n m s (s\<lparr>ct_serving := None, ct_pay := (ct_pay s)(k := (ct_pay s k)\<lparr>payment_pending := False\<rparr>), ct_left := ct_left s - 1\<rparr>)"
| leave: "ct_passenger s p = Paying k \<Longrightarrow> \<not> payment_pending (ct_pay s k) \<Longrightarrow> city_step n m s (go p Left s)"

inductive city_run :: "nat \<Rightarrow> nat \<Rightarrow> city \<Rightarrow> bool" for n m :: nat where
  city_start: "city_run n m (init_city m)"
| city_next: "city_run n m s \<Longrightarrow> city_step n m s t \<Longrightarrow> city_run n m t"

section \<open>Booking is exclusive\<close>

definition city_inv :: "nat \<Rightarrow> city \<Rightarrow> bool" where
  "city_inv m s \<longleftrightarrow>
     (\<forall>p w i. ct_passenger s p = Searching w i \<longrightarrow> ct_mutex s = Some p \<and> w \<le> wait_time) \<and>
     (\<forall>p c. ct_passenger s p = Booked c \<longrightarrow> cab_lock (ct_cab s c)) \<and>
     (\<forall>p q c. ct_passenger s p = Booked c \<and> ct_passenger s q = Booked c \<longrightarrow> p = q) \<and>
     (\<forall>p k. ct_passenger s p = Paying k \<longrightarrow> k < ct_slot s) \<and>
     (\<forall>p q k. ct_passenger s p = Paying k \<and> ct_passenger s q = Paying k \<longrightarrow> p = q)"

lemma book_simps [simp]:
  "cab_lock (book i st c j) = (j = i \<or> cab_lock (c j))" "ride_status (book i st c j) = (if j = i then st else ride_status (c j))"
  by (auto simp: book_def)

lemma find_free: "find (free_with st c) is = Some i \<Longrightarrow> \<not> cab_lock (c i)"
  using find_SomeD [of "free_with st c" "is" i] by (simp add: free_with_def)

text \<open>A round locks the cab it reports, which was unlocked, and unlocks none.\<close>

lemma pool_round_locks:
  assumes "pool_round n c = (c', f)"
  shows "cab_lock (c j) \<Longrightarrow> cab_lock (c' j)" and "f = Some k \<Longrightarrow> cab_lock (c' k) \<and> \<not> cab_lock (c k)"
  using assms by (auto simp: pool_round_def join_pool_def open_pool_def split: option.splits dest!: find_free)

lemma premier_round_locks:
  assumes "premier_round i c = (c', f)"
  shows "cab_lock (c j) \<Longrightarrow> cab_lock (c' j)" and "f = Some k \<Longrightarrow> cab_lock (c' k) \<and> \<not> cab_lock (c k)"
  using assms by (auto simp: premier_round_def free_with_def split: if_splits)

lemma search_round_cases:
  assumes "search_round n p w i s = t"
  obtains (found) c k where "t = go p (Booked k) (s\<lparr>ct_cab := c, ct_mutex := None\<rparr>)" "cab_lock (c k)" "\<not> cab_lock (ct_cab s k)"
      "\<And>j. cab_lock (ct_cab s j) \<Longrightarrow> cab_lock (c j)"
    | (again) c j where "t = go p (Searching (w - 1) j) (s\<lparr>ct_cab := c\<rparr>)" "\<And>j. cab_lock (ct_cab s j) \<Longrightarrow> cab_lock (c j)"
proof (cases "type_of p")
  case Premier
  obtain c f where r: "premier_round i (ct_cab s) = (c, f)" by fastforce
  note l = premier_round_locks [OF r]
  show ?thesis
  proof (cases f)
    case None
    then show ?thesis using again [of "Suc i mod n" c] assms r l(1) Premier by (simp add: search_round_def)
  next
    case (Some k)
    then show ?thesis using found [of k c] assms r l Premier by (simp add: search_round_def)
  qed
next
  case Pool
  obtain c f where r: "pool_round n (ct_cab s) = (c, f)" by fastforce
  note l = pool_round_locks [OF r]
  show ?thesis
  proof (cases f)
    case None
    then show ?thesis using again [of i c] assms r l(1) Pool by (simp add: search_round_def)
  next
    case (Some k)
    then show ?thesis using found [of k c] assms r l Pool by (simp add: search_round_def)
  qed
qed

lemma go_simps [simp]:
  "ct_passenger (go p ph s) = (ct_passenger s)(p := ph)" "ct_cab (go p ph s) = ct_cab s" "ct_mutex (go p ph s) = ct_mutex s"
  "ct_pay (go p ph s) = ct_pay s" "ct_slot (go p ph s) = ct_slot s" "ct_serving (go p ph s) = ct_serving s" "ct_left (go p ph s) = ct_left s"
  by (simp_all add: go_def)

lemma city_step_inv:
  assumes "city_step n m s t" and inv: "city_inv m s"
  shows "city_inv m t"
  using assms(1)
proof (cases rule: city_step.cases)
  case (enter p)
  then show ?thesis using inv unfolding city_inv_def by (auto split: if_splits)
next
  case (search p w i)
  have w: "w \<le> wait_time" "ct_mutex s = Some p" using inv search(2) unfolding city_inv_def by blast+
  show ?thesis
  proof (rule search_round_cases [OF search(1) [symmetric]])
    fix c k assume t: "t = go p (Booked k) (s\<lparr>ct_cab := c, ct_mutex := None\<rparr>)" "cab_lock (c k)" "\<not> cab_lock (ct_cab s k)"
      "\<And>j. cab_lock (ct_cab s j) \<Longrightarrow> cab_lock (c j)"
    show ?thesis using inv t(2-4) w unfolding t(1) city_inv_def by (auto split: if_splits)
  next
    fix c j assume t: "t = go p (Searching (w - 1) j) (s\<lparr>ct_cab := c\<rparr>)" "\<And>j. cab_lock (ct_cab s j) \<Longrightarrow> cab_lock (c j)"
    show ?thesis using inv t(2) w unfolding t(1) city_inv_def by (auto split: if_splits)
  qed
next
  case (give_up p i)
  have only: "ct_passenger s q \<noteq> Searching w j" if "q \<noteq> p" for q w j
    using inv give_up(2) that unfolding city_inv_def by (metis option.inject)
  show ?thesis using inv give_up(1) unfolding city_inv_def by (auto simp: only split: if_splits)
next
  case (start p c)
  then show ?thesis using inv unfolding city_inv_def by (auto simp: unlock_cab_def split: if_splits)
next
  case (arrive p c)
  then show ?thesis using inv unfolding city_inv_def by (auto split: if_splits)
next
  case (pay p c st)
  then show ?thesis using inv unfolding city_inv_def by (fastforce simp: do_payment_def split: if_splits)
next
  case (serve k)
  then show ?thesis using inv unfolding city_inv_def by (auto simp: set_status_def split: if_splits)
next
  case (served k)
  then show ?thesis using inv unfolding city_inv_def by (auto split: if_splits)
next
  case (leave p k)
  then show ?thesis using inv unfolding city_inv_def by (auto split: if_splits)
qed

lemma city_run_inv: "city_run n m s \<Longrightarrow> city_inv m s"
proof (induction rule: city_run.induct)
  case city_start
  then show ?case by (simp add: city_inv_def init_city_def)
next
  case (city_next s t)
  then show ?case using city_step_inv by blast
qed


section \<open>Cabs that are lost\<close>

lemma lost_step:
  assumes "city_step n m s t" and l: "cab_lock (ct_cab s c)" "\<forall>p. ct_passenger s p \<noteq> Booked c"
  shows "cab_lock (ct_cab t c) \<and> (\<forall>p. ct_passenger t p \<noteq> Booked c)"
  using assms(1)
proof (cases rule: city_step.cases)
  case (search p w i)
  show ?thesis by (rule search_round_cases [OF search(1) [symmetric]]) (use l in auto)
qed (use l in \<open>auto simp: unlock_cab_def do_payment_def set_status_def\<close>)

text \<open>A cab that is locked while no passenger is about to unlock it is never free again, whatever
  the passengers and the servers do: no later passenger can find it.\<close>

lemma lost_cab_stays_lost:
  assumes "(city_step n m)\<^sup>*\<^sup>* s t" "cab_lock (ct_cab s c)" "\<forall>p. ct_passenger s p \<noteq> Booked c"
  shows "\<not> free_with st (ct_cab t) c \<and> (\<forall>p. ct_passenger t p \<noteq> Booked c)"
proof -
  have "cab_lock (ct_cab t c) \<and> (\<forall>p. ct_passenger t p \<noteq> Booked c)"
    using assms by (induction rule: rtranclp_induct) (auto dest: lost_step)
  then show ?thesis by (simp add: free_with_def)
qed

section \<open>A premier passenger who shares\<close>

lemmas city_eval = init_city_def init_cab_def init_payment_def search_round_def type_of_def wait_time_def
  pool_round_def join_pool_def open_pool_def premier_round_def free_with_def book_def go_def
  unlock_cab_def do_payment_def set_status_def upt_rec

text \<open>
  The payment server writes the status the rider read when he arrived, whatever has happened to the
  cab since: a rider leaves the pool, another joins before the payment is served, the cab is put back in
  the wait state with the second rider inside, and a premier passenger books it.\<close>

lemma shared_run:
  "\<exists>s. city_run 1 4 s \<and> ct_passenger s 0 = Riding 0 \<and> ct_passenger s 3 = Riding 0"
proof -
  let ?s1 = "go 1 (Searching wait_time 0) ((init_city 4)\<lparr>ct_mutex := Some 1\<rparr>)"
  let ?s2 = "search_round 1 1 20 0 ?s1"
  let ?s3 = "go 1 (Riding 0) (unlock_cab 0 ?s2)"
  let ?s4 = "go 1 (AtCounter 0 OnRidePoolHalf) ?s3"
  let ?s5 = "go 1 (Paying 0) (do_payment 0 OnRidePoolHalf ?s4)"
  let ?s6 = "go 3 (Searching wait_time 0) (?s5\<lparr>ct_mutex := Some 3\<rparr>)"
  let ?s7 = "search_round 1 3 20 0 ?s6"
  let ?s8 = "go 3 (Riding 0) (unlock_cab 0 ?s7)"
  let ?s9 = "(set_status 0 WaitState ?s8)\<lparr>ct_serving := Some 0\<rparr>"
  let ?s10 = "go 0 (Searching wait_time 0) (?s9\<lparr>ct_mutex := Some 0\<rparr>)"
  let ?s11 = "search_round 1 0 20 0 ?s10"
  let ?s12 = "go 0 (Riding 0) (unlock_cab 0 ?s11)"
  have "city_run 1 4 ?s1" by (rule city_next [OF city_start enter]) (simp_all add: city_eval)
  then have "city_run 1 4 ?s2" by (rule city_next [OF _ search]) (simp_all add: city_eval)
  then have "city_run 1 4 ?s3" by (rule city_next [OF _ start]) (simp add: city_eval)
  then have "city_run 1 4 ?s4" using city_next [OF _ arrive [of ?s3 1 0 1 4]] by (simp add: city_eval)
  then have "city_run 1 4 ?s5" using city_next [OF _ pay [of ?s4 1 0 OnRidePoolHalf 1 4]] by (simp add: city_eval)
  then have "city_run 1 4 ?s6" by (rule city_next [OF _ enter]) (simp_all add: city_eval)
  then have "city_run 1 4 ?s7" by (rule city_next [OF _ search]) (simp_all add: city_eval)
  then have "city_run 1 4 ?s8" by (rule city_next [OF _ start]) (simp add: city_eval)
  then have "city_run 1 4 ?s9" using city_next [OF _ serve [of ?s8 0 1 4]] by (simp add: city_eval)
  then have "city_run 1 4 ?s10" by (rule city_next [OF _ enter]) (simp_all add: city_eval)
  then have "city_run 1 4 ?s11" by (rule city_next [OF _ search]) (simp_all add: city_eval)
  then have "city_run 1 4 ?s12" by (rule city_next [OF _ start]) (simp add: city_eval)
  moreover have "ct_passenger ?s12 0 = Riding 0" "ct_passenger ?s12 3 = Riding 0" by (simp_all add: city_eval)
  ultimately show ?thesis by blast
qed

text \<open>With one cab, a premier passenger can end up riding with a pool passenger in it.\<close>

lemma premier_shares_with_pool:
  "type_of 0 = Premier \<and> type_of 3 = Pool \<and>
   (\<exists>s. city_run 1 4 s \<and> ct_passenger s 0 = Riding 0 \<and> ct_passenger s 3 = Riding 0)"
  using shared_run by (simp add: type_of_def)

text \<open>The first rides of the pool, with one cab and with two.\<close>

lemma first_rider:
  "city_run (Suc n) 4 (go 1 (Searching wait_time 0) ((init_city 4)\<lparr>ct_mutex := Some 1\<rparr>))"
  "city_run (Suc n) 4 (search_round (Suc n) 1 20 0 (go 1 (Searching wait_time 0) ((init_city 4)\<lparr>ct_mutex := Some 1\<rparr>)))"
proof -
  show "city_run (Suc n) 4 (go 1 (Searching wait_time 0) ((init_city 4)\<lparr>ct_mutex := Some 1\<rparr>))"
    by (rule city_next [OF city_start enter]) (simp_all add: init_city_def)
  then show "city_run (Suc n) 4 (search_round (Suc n) 1 20 0 (go 1 (Searching wait_time 0) ((init_city 4)\<lparr>ct_mutex := Some 1\<rparr>)))"
    by (rule city_next [OF _ search]) (simp_all add: wait_time_def)
qed


lemma lost_cab_stays_lost_witness:
  "\<exists>s. city_run 2 4 s \<and> ct_passenger s 1 = Riding 0 \<and> ct_passenger s 3 = Booked 1 \<and>
     \<not> (\<exists>t st. (city_step 2 4)\<^sup>*\<^sup>* s t \<and> free_with st (ct_cab t) 0)"
proof -
  let ?s2 = "search_round 2 1 20 0 (go 1 (Searching wait_time 0) ((init_city 4)\<lparr>ct_mutex := Some 1\<rparr>))"
  let ?s3 = "go 1 (Riding 0) (unlock_cab 0 ?s2)"
  let ?s4 = "go 3 (Searching wait_time 0) (?s3\<lparr>ct_mutex := Some 3\<rparr>)"
  let ?s = "search_round 2 3 20 0 ?s4"
  have "city_run 2 4 ?s2" using first_rider(2) [of 1] by (simp add: numeral_2_eq_2)
  then have "city_run 2 4 ?s3" by (rule city_next [OF _ start]) (simp add: city_eval)
  then have "city_run 2 4 ?s4" by (rule city_next [OF _ enter]) (simp_all add: city_eval)
  then have "city_run 2 4 ?s" by (rule city_next [OF _ search]) (simp_all add: city_eval)
  moreover have at: "ct_passenger ?s 1 = Riding 0" "ct_passenger ?s 3 = Booked 1" "cab_lock (ct_cab ?s 0)"
    "\<forall>p. ct_passenger ?s p \<noteq> Booked 0" by (simp_all add: city_eval)
  moreover have "\<not> (\<exists>t st. (city_step 2 4)\<^sup>*\<^sup>* ?s t \<and> free_with st (ct_cab t) 0)"
    using lost_cab_stays_lost [OF _ at(3,4)] by blast
  ultimately show ?thesis by blast
qed

end
