(* ===== verification/Kitchen.thy ===== *)
theory Kitchen
  imports Prelude
begin

text \<open>
  src/ass4/Q2/main.c: chefs, serving tables (containers) and students, each a thread. The step relation
  interleaves them: a chef starts, starts to cook, puts the vessels out or goes on; a table starts, takes
  a mutex, looks at one chef, takes a vessel, puts out its slots, or goes on; a student takes the mutex,
  looks at one table, or leaves. Printing and sleep are left out; the values of \<open>rand\<close> are arguments of
  the steps that draw them.
\<close>

section \<open>Shared data\<close>

definition get_random_number_between :: "nat \<Rightarrow> int \<Rightarrow> int \<Rightarrow> int" where
  "get_random_number_between rnd a b = (if b = a then a else int rnd mod \<bar>b - a\<bar> + a)"

record chef =
  ch_r :: int
  ch_p :: int
  ch_cooking :: bool
  ch_lock :: bool

record container =
  co_lock :: bool
  co_load :: bool
  students_to_feed :: int

datatype chef_pc = ChefStart | ChefLoop | Making int int | ServeBiryani | ChefGone
datatype container_pc =
  ContainerStart | ContainerLoop | WantBiryani | Fetching nat | Loading nat | Serving int | ReadyToServe int | ContainerGone
datatype student_pc = StudentStart | FetchSlot nat | InSlot nat | StudentGone

text \<open>The globals, with the places of the threads. All but the counters start as zeros.\<close>

record kitchen =
  to_serve :: int
  to_feed :: int
  k_chef :: "nat \<Rightarrow> chef"
  k_container :: "nat \<Rightarrow> container"
  mutex_chef_container :: "nat option"
  mutex_student_container :: "nat option"
  pc_chef :: "nat \<Rightarrow> chef_pc"
  pc_container :: "nat \<Rightarrow> container_pc"
  pc_student :: "nat \<Rightarrow> student_pc"

definition init_kitchen :: "nat \<Rightarrow> kitchen" where
  "init_kitchen k = \<lparr>to_serve = int k, to_feed = int k,
     k_chef = \<lambda>_. \<lparr>ch_r = 0, ch_p = 0, ch_cooking = False, ch_lock = False\<rparr>,
     k_container = \<lambda>_. \<lparr>co_lock = False, co_load = False, students_to_feed = 0\<rparr>,
     mutex_chef_container = None, mutex_student_container = None,
     pc_chef = \<lambda>_. ChefStart, pc_container = \<lambda>_. ContainerStart, pc_student = \<lambda>_. StudentStart\<rparr>"

section \<open>Chefs\<close>

definition set_chef :: "nat \<Rightarrow> chef \<Rightarrow> chef_pc \<Rightarrow> kitchen \<Rightarrow> kitchen" where
  "set_chef i c pc s = s\<lparr>k_chef := (k_chef s)(i := c), pc_chef := (pc_chef s)(i := pc)\<rparr>"

definition start_cooking :: "nat \<Rightarrow> kitchen \<Rightarrow> kitchen" where
  "start_cooking i = set_chef i \<lparr>ch_r = 0, ch_p = 0, ch_cooking = True, ch_lock = False\<rparr> ChefLoop"

text \<open>make_biryani draws the number of vessels and their size, and after cooking puts them out.\<close>

definition make_biryani :: "nat \<Rightarrow> nat \<Rightarrow> nat \<Rightarrow> kitchen \<Rightarrow> kitchen" where
  "make_biryani r1 r2 i s =
     set_chef i ((k_chef s i)\<lparr>ch_cooking := True, ch_lock := True\<rparr>)
       (Making (get_random_number_between r1 1 10) (get_random_number_between r2 2 (min 10 (to_serve s)))) s"

definition biryani_ready :: "int \<Rightarrow> int \<Rightarrow> nat \<Rightarrow> kitchen \<Rightarrow> kitchen" where
  "biryani_ready r p i s =
     (set_chef i \<lparr>ch_r = r, ch_p = p, ch_cooking = False, ch_lock = False\<rparr> ServeBiryani s)\<lparr>to_serve := to_serve s - r * p\<rparr>"

definition serve_biryani :: "nat \<Rightarrow> kitchen \<Rightarrow> kitchen" where
  "serve_biryani i s = s\<lparr>pc_chef := (pc_chef s)(i := if to_serve s \<le> 0 then ChefGone else ChefLoop)\<rparr>"

section \<open>Serving tables\<close>

definition goto :: "nat \<Rightarrow> container_pc \<Rightarrow> kitchen \<Rightarrow> kitchen" where
  "goto i pc s = s\<lparr>pc_container := (pc_container s)(i := pc)\<rparr>"

definition start_fetching :: "nat \<Rightarrow> kitchen \<Rightarrow> kitchen" where
  "start_fetching i s = goto i ContainerLoop
     (s\<lparr>k_container := (k_container s)(i := \<lparr>co_lock = False, co_load = True, students_to_feed = 0\<rparr>)\<rparr>)"

text \<open>The start of get_biryani_from_handler, under the mutex, which pthread_exit does not release.\<close>

definition enter_handler :: "nat \<Rightarrow> kitchen \<Rightarrow> kitchen" where
  "enter_handler i s = goto i (if to_feed s \<le> 0 then ContainerGone else Fetching 0) (s\<lparr>mutex_chef_container := Some i\<rparr>)"

text \<open>A round of its search, at chef \<open>j\<close> of \<open>m\<close>.\<close>

definition find_chef :: "nat \<Rightarrow> nat \<Rightarrow> nat \<Rightarrow> kitchen \<Rightarrow> kitchen" where
  "find_chef m i j s =
     (if to_feed s \<le> 0 then goto i ContainerGone s
      else if \<not> ch_cooking (k_chef s j) \<and> \<not> ch_lock (k_chef s j)
      then goto i (Loading j) (s\<lparr>k_chef := (k_chef s)(j := (k_chef s j)\<lparr>ch_lock := True\<rparr>), mutex_chef_container := None\<rparr>)
      else goto i (Fetching (Suc j mod m)) s)"

text \<open>Its end: one vessel of the chef, who cooks again after the last.\<close>

definition take_vessel :: "nat \<Rightarrow> nat \<Rightarrow> kitchen \<Rightarrow> kitchen" where
  "take_vessel i j s =
     (let c = k_chef s j; r = ch_r c - 1
      in goto i (Serving (ch_p c))
           (s\<lparr>k_chef := (k_chef s)(j := c\<lparr>ch_r := r, ch_cooking := r \<le> 0 \<or> ch_cooking c, ch_lock := False\<rparr>)\<rparr>))"

definition serve_slots :: "nat \<Rightarrow> nat \<Rightarrow> int \<Rightarrow> kitchen \<Rightarrow> kitchen" where
  "serve_slots rnd i q s =
     (let num = min (min (get_random_number_between rnd 1 10) (to_feed s)) q
      in goto i (ReadyToServe (q - num))
           (s\<lparr>k_container := (k_container s)(i := \<lparr>co_lock = False, co_load = False, students_to_feed = num\<rparr>)\<rparr>))"

text \<open>init_all_containers numbers the table at index \<open>i\<close> with \<open>i + 1\<close>, and ready_to_serve uses the number as an index.\<close>

definition container_number :: "nat \<Rightarrow> nat" where
  "container_number i = i + 1"

section \<open>Students\<close>

definition take_slot :: "nat \<Rightarrow> nat \<Rightarrow> kitchen \<Rightarrow> kitchen" where
  "take_slot p i s =
     (let f = students_to_feed (k_container s i) - 1
      in s\<lparr>to_feed := to_feed s - 1,
           k_container := (k_container s)(i := \<lparr>co_lock = False, co_load = f \<le> 0, students_to_feed = f\<rparr>),
           mutex_student_container := None, pc_student := (pc_student s)(p := InSlot i)\<rparr>)"

text \<open>A round of go_fetch_slot, at table \<open>i\<close> of \<open>n\<close>.\<close>

definition go_fetch_slot :: "nat \<Rightarrow> nat \<Rightarrow> nat \<Rightarrow> kitchen \<Rightarrow> kitchen" where
  "go_fetch_slot n p i s =
     (if \<not> co_load (k_container s i) \<and> \<not> co_lock (k_container s i) then take_slot p i s
      else s\<lparr>pc_student := (pc_student s)(p := FetchSlot (Suc i mod n))\<rparr>)"

section \<open>Steps\<close>

inductive kitchen_step :: "nat \<Rightarrow> nat \<Rightarrow> nat \<Rightarrow> kitchen \<Rightarrow> kitchen \<Rightarrow> bool" for n m k :: nat where
  chef_start: "i < m \<Longrightarrow> pc_chef s i = ChefStart \<Longrightarrow> kitchen_step n m k s (start_cooking i s)"
| chef_make: "pc_chef s i = ChefLoop \<Longrightarrow> to_serve s > 0 \<Longrightarrow> kitchen_step n m k s (make_biryani r1 r2 i s)"
| chef_leave: "pc_chef s i = ChefLoop \<Longrightarrow> \<not> to_serve s > 0 \<Longrightarrow>
     kitchen_step n m k s (s\<lparr>pc_chef := (pc_chef s)(i := ChefGone)\<rparr>)"
| chef_ready: "pc_chef s i = Making r p \<Longrightarrow> kitchen_step n m k s (biryani_ready r p i s)"
| chef_serve: "pc_chef s i = ServeBiryani \<Longrightarrow> ch_cooking (k_chef s i) \<Longrightarrow> kitchen_step n m k s (serve_biryani i s)"
| container_start: "i < n \<Longrightarrow> pc_container s i = ContainerStart \<Longrightarrow> kitchen_step n m k s (start_fetching i s)"
| container_loop: "pc_container s i = ContainerLoop \<Longrightarrow>
     kitchen_step n m k s (goto i (if to_feed s > 0 then WantBiryani else ContainerGone) s)"
| container_enter: "pc_container s i = WantBiryani \<Longrightarrow> mutex_chef_container s = None \<Longrightarrow>
     kitchen_step n m k s (enter_handler i s)"
| container_find: "pc_container s i = Fetching j \<Longrightarrow> kitchen_step n m k s (find_chef m i j s)"
| container_take: "pc_container s i = Loading j \<Longrightarrow> kitchen_step n m k s (take_vessel i j s)"
| container_serve: "pc_container s i = Serving q \<Longrightarrow> q > 0 \<and> to_feed s > 0 \<Longrightarrow>
     kitchen_step n m k s (serve_slots rnd i q s)"
| container_again: "pc_container s i = Serving q \<Longrightarrow> \<not> (q > 0 \<and> to_feed s > 0) \<Longrightarrow>
     kitchen_step n m k s (goto i ContainerLoop s)"
| container_ready: "pc_container s i = ReadyToServe q \<Longrightarrow> co_load (k_container s (container_number i)) \<Longrightarrow>
     kitchen_step n m k s (goto i (Serving q) s)"
| student_start: "p < k \<Longrightarrow> pc_student s p = StudentStart \<Longrightarrow> mutex_student_container s = None \<Longrightarrow>
     kitchen_step n m k s (s\<lparr>mutex_student_container := Some p, pc_student := (pc_student s)(p := FetchSlot 0)\<rparr>)"
| student_fetch: "pc_student s p = FetchSlot i \<Longrightarrow> kitchen_step n m k s (go_fetch_slot n p i s)"
| student_leave: "pc_student s p = InSlot i \<Longrightarrow>
     kitchen_step n m k s (s\<lparr>pc_student := (pc_student s)(p := StudentGone)\<rparr>)"

inductive kitchen_run :: "nat \<Rightarrow> nat \<Rightarrow> nat \<Rightarrow> kitchen \<Rightarrow> bool" for n m k :: nat where
  kitchen_start: "kitchen_run n m k (init_kitchen k)"
| kitchen_next: "kitchen_run n m k s \<Longrightarrow> kitchen_step n m k s t \<Longrightarrow> kitchen_run n m k t"

section \<open>The last table\<close>

text \<open>Nothing touches the entry of the array behind the last table.\<close>

definition beyond :: "nat \<Rightarrow> kitchen \<Rightarrow> bool" where
  "beyond n s \<longleftrightarrow>
     (\<forall>i\<ge>n. \<not> co_load (k_container s i) \<and> pc_container s i = ContainerStart) \<and>
     (\<forall>p i. pc_student s p = FetchSlot i \<longrightarrow> i < n)"

lemmas chef_acts = start_cooking_def make_biryani_def biryani_ready_def serve_biryani_def set_chef_def

lemmas container_acts = goto_def start_fetching_def enter_handler_def find_chef_def take_vessel_def serve_slots_def Let_def

lemmas student_acts = go_fetch_slot_def take_slot_def Let_def

lemma beyond_step:
  assumes "kitchen_step n m k s t" "beyond n s" "n > 0"
  shows "beyond n t"
  using assms(1)
proof (cases rule: kitchen_step.cases)
  case (student_fetch p i)
  then have "n \<le> j \<Longrightarrow> j \<noteq> i" for j using assms(2) unfolding beyond_def by fastforce
  moreover have "Suc i mod n < n" using assms(3) by simp
  ultimately show ?thesis using assms(2) unfolding student_fetch(1) beyond_def student_acts by simp
qed (use assms(2,3) in \<open>auto simp: beyond_def chef_acts container_acts student_acts split: if_splits\<close>)

lemma beyond_run: "kitchen_run n m k s \<Longrightarrow> n > 0 \<Longrightarrow> beyond n s"
proof (induction rule: kitchen_run.induct)
  case kitchen_start
  then show ?case by (simp add: beyond_def init_kitchen_def)
next
  case (kitchen_next s t)
  then show ?case using beyond_step by blast
qed

text \<open>The last table waits in ready_to_serve for the load of a table that is not there.\<close>

lemma last_waits_step:
  assumes "kitchen_step n m k s t" "beyond n s" "i = n - 1" "n > 0" "pc_container s i = ReadyToServe q"
  shows "pc_container t i = ReadyToServe q"
  using assms by (cases rule: kitchen_step.cases)
    (auto simp: beyond_def chef_acts container_acts student_acts container_number_def split: if_splits)

lemma last_container_waits:
  assumes "(kitchen_step n m k)\<^sup>*\<^sup>* s t" "kitchen_run n m k s" "n > 0" "pc_container s (n - 1) = ReadyToServe q"
  shows "pc_container t (n - 1) = ReadyToServe q"
proof -
  have "kitchen_run n m k t \<and> pc_container t (n - 1) = ReadyToServe q"
    using assms(1)
  proof (induction rule: rtranclp_induct)
    case base
    then show ?case using assms by simp
  next
    case (step t u)
    then show ?case using last_waits_step [OF step(2) beyond_run refl assms(3)] kitchen_next assms(3) by blast
  qed
  then show ?thesis by simp
qed

section \<open>A single table\<close>

text \<open>One student may take a slot before the table has started; after that the table feeds one batch.\<close>

definition one_batch :: "nat \<Rightarrow> kitchen \<Rightarrow> bool" where
  "one_batch k s \<longleftrightarrow>
     (case pc_container s 0 of
        ContainerStart \<Rightarrow> (if co_load (k_container s 0) then to_feed s = int k - 1
           else students_to_feed (k_container s 0) = 0 \<and> to_feed s = int k)
      | ReadyToServe q \<Rightarrow> (if co_load (k_container s 0) then to_feed s \<ge> int k - 10
           else students_to_feed (k_container s 0) \<in> {1..9} \<and> to_feed s \<ge> int k - 10 + students_to_feed (k_container s 0))
      | _ \<Rightarrow> co_load (k_container s 0) \<and> to_feed s \<ge> int k - 1)"

lemma batch_bounds:
  assumes "q > 0" "f > 0"
  shows "min (min (get_random_number_between rnd 1 10) f) q \<in> {1..9}"
proof -
  have "int rnd mod 9 \<in> {0..8}" by auto
  then have "get_random_number_between rnd 1 10 \<in> {1..9}" by (simp add: get_random_number_between_def)
  then show ?thesis using assms by auto
qed

lemma serve_slots_batch:
  assumes "q > 0 \<and> to_feed s > 0"
  obtains num where "num \<in> {1..9}" "serve_slots rnd i q s = goto i (ReadyToServe (q - num))
    (s\<lparr>k_container := (k_container s)(i := \<lparr>co_lock = False, co_load = False, students_to_feed = num\<rparr>)\<rparr>)"
  using batch_bounds assms unfolding serve_slots_def Let_def by blast

text \<open>Only the steps of the table and of the students at it matter.\<close>

lemma one_batch_cong:
  "one_batch k s \<Longrightarrow> pc_container t 0 = pc_container s 0 \<Longrightarrow> k_container t 0 = k_container s 0 \<Longrightarrow> to_feed t = to_feed s \<Longrightarrow>
   one_batch k t"
  by (simp only: one_batch_def)

lemma one_batch_step:
  assumes st: "kitchen_step 1 m k s t" and b: "beyond 1 s" and o: "one_batch k s"
  shows "one_batch k t"
proof -
  have zero: "i = 0" if "pc_container s i \<noteq> ContainerStart" for i
    using that b by (cases "i = 0") (auto simp: beyond_def)
  show ?thesis
    using st
  proof (cases rule: kitchen_step.cases)
    case (container_start i)
    then show ?thesis using o by (auto simp: one_batch_def start_fetching_def goto_def split: if_splits)
  next
    case (container_loop i)
    then show ?thesis using o zero [of i] by (simp add: one_batch_def goto_def)
  next
    case (container_enter i)
    then show ?thesis using o zero [of i] by (simp add: one_batch_def goto_def enter_handler_def)
  next
    case (container_find i j)
    then show ?thesis using o zero [of i] by (simp add: one_batch_def goto_def find_chef_def)
  next
    case (container_take i j)
    then show ?thesis using o zero [of i] by (simp add: one_batch_def goto_def take_vessel_def Let_def)
  next
    case (container_serve i q rnd)
    have i: "i = 0" using zero container_serve(2) by simp
    obtain num where "num \<in> {1..9}" "t = goto 0 (ReadyToServe (q - num))
        (s\<lparr>k_container := (k_container s)(0 := \<lparr>co_lock = False, co_load = False, students_to_feed = num\<rparr>)\<rparr>)"
      using serve_slots_batch [OF container_serve(3), of rnd i] container_serve(1) i by metis
    then show ?thesis using o container_serve(2) unfolding i one_batch_def goto_def by simp
  next
    case (container_again i q)
    then show ?thesis using o zero [of i] by (simp add: one_batch_def goto_def)
  next
    case (container_ready i q)
    have "\<not> co_load (k_container s 1)" using b by (simp add: beyond_def)
    then show ?thesis using container_ready zero [of i] by (simp add: container_number_def)
  next
    case (student_fetch p i)
    have i: "i = 0" using b student_fetch(2) unfolding beyond_def by fastforce
    show ?thesis
    proof (cases "co_load (k_container s 0) \<or> co_lock (k_container s 0)")
      case True
      then show ?thesis using student_fetch(1) i by (intro one_batch_cong [OF o]) (auto simp: go_fetch_slot_def)
    next
      case False
      then show ?thesis using o unfolding student_fetch(1) i
        by (cases "pc_container s 0") (auto simp: one_batch_def student_acts)
    qed
  qed (rule one_batch_cong [OF o]; simp add: chef_acts)+
qed

lemma one_batch_run: "kitchen_run 1 m k s \<Longrightarrow> one_batch k s"
proof (induction rule: kitchen_run.induct)
  case kitchen_start
  then show ?case by (simp add: one_batch_def init_kitchen_def)
next
  case (kitchen_next s t)
  then show ?case using one_batch_step [OF _ beyond_run] by (metis zero_less_one)
qed

text \<open>C40: with one table at most ten students are ever fed, however many chefs cook and however the
  threads interleave: from the eleventh on they wait for a slot for ever.\<close>

lemma one_table_feeds_ten:
  assumes "kitchen_run 1 m k s"
  shows "to_feed s \<ge> int k - 10"
  using one_batch_run [OF assms] by (auto simp: one_batch_def split: container_pc.splits if_splits)

lemma one_table_feeds_ten_witness:
  "\<exists>s. kitchen_run 1 2 30 s \<and> pc_student s 0 = InSlot 0 \<and> to_feed s = 29 \<and> to_feed s \<ge> 20"
proof -
  let ?s1 = "(init_kitchen 30)\<lparr>mutex_student_container := Some 0, pc_student := (pc_student (init_kitchen 30))(0 := FetchSlot 0)\<rparr>"
  have "kitchen_run 1 2 30 ?s1"
    by (rule kitchen_next [OF kitchen_start]) (rule student_start; simp add: init_kitchen_def)
  then have r: "kitchen_run 1 2 30 (go_fetch_slot 1 0 0 ?s1)" by (rule kitchen_next [OF _ student_fetch]) simp
  have "pc_student (go_fetch_slot 1 0 0 ?s1) 0 = InSlot 0" "to_feed (go_fetch_slot 1 0 0 ?s1) = 29"
    by (simp_all add: student_acts init_kitchen_def)
  then show ?thesis using r one_table_feeds_ten [OF r] by (intro exI [of _ "go_fetch_slot 1 0 0 ?s1"]) simp
qed

end
