(* ===== verification/Spec2Isabelle.thy ===== *)
theory Spec2Isabelle
  imports ProcProps BlockProps QuickSort Grep Sh VmSpace Pipe FileWrite SysProps Icache Cabs Kitchen
begin

text \<open>
  Verification of the operating-systems coursework repository: the xv6 kernel and its user
  programs as extended in src/ass5/final_repo (waitx, getpinfo, process accounting), and the three
  concurrent programs of src/ass4 (a quicksort with processes and threads, a kitchen, a cab service).

  \<^bold>\<open>Conventions\<close> (Prelude). Machine integers are words of their width (\<open>uint\<close>, \<open>ushort\<close>, \<open>uchar\<close>), except
  int fields that are only counted, which are \<open>int\<close>. A kernel routine maps a state to an outcome:
  \<open>Ok\<close> with a result and the new state, \<open>Panic\<close> with the message of panic, \<open>Hang\<close> for a wait nobody ends and
  \<open>Fault\<close> for an access outside an object; \<open>kbind\<close> and \<open>kthen\<close> compose routines. A pointer into an array of
  structs is its index, and a pointer that may be null an option. A routine that holds a spin lock from its
  first to its last access is one step; a routine that sleeps is cut at the sleep. State is extended in
  layers by record extension: \<open>dsk\<close> (buffers, driver, disks), \<open>log_st\<close> over it, \<open>fs_st\<close> over that, \<open>ft_st\<close> and \<open>sys_st\<close> last.

  \<^bold>\<open>Block layer.\<close> Buf holds buf.h and sleeplock.c; Ide the two drivers ide.c and memide.c; Bio bio.c with its
  ring of prev and next links; Log log.c. The locale \<open>block_device\<close> (Buf) is the interface the cache uses:
  iderw with the conditions under which it succeeds; \<open>log_device\<close> (Log) and \<open>fs_device\<close> (FsView) extend it, and
  each is interpreted on both drivers. Bio proves that the ring stays a ring of all buffers and that a
  buffer read through the cache holds the block; BlockProps that the cache is an LRU list that never evicts
  pinned blocks and that ide.c serves interleaved requests in order. LogCrash gives the order in which blocks reach
  the disk (\<open>d_trace\<close>) and takes every prefix of it as a crash, then any number of recoveries cut off in
  the same way, then one that completes: the transaction is there as a whole or not at all.

  \<^bold>\<open>File system.\<close> Fs has fs.c from bzero to nameiparent, with the drivers in devsw as arguments.
  FsView describes what a process sees inside a transaction, blocks \<open>D\<close> and a list of logged blocks
  (\<open>log_view\<close>), and specifies the allocator in these terms; FsFile relates an inode to its blocks
  (\<open>ptr\<close>, \<open>own\<close>, \<open>file_ok\<close>) through bmap; FsIO gives readi, writei and iupdate as reads and updates of
  the bytes of a file; FsProps holds the properties on the IDE disk and a small file system on which they are
  evaluated; FsDir reads directories as lists of entries for dirlookup and dirlink. Icache interleaves the
  critical sections of the inode cache. File has file.c, whose state extends \<open>fs_st\<close> by the table of open files;
  FileWrite, with the locale \<open>file_device\<close>, follows filewrite through begin_op, ilock, writei, iunlock and end_op
  from a system at rest to a system at rest, so that its property spans file.c, fs.c, log.c, bio.c and ide.c.

  \<^bold>\<open>System calls.\<close> Syscall has syscall.c and sysfile.c over a last layer of state, \<open>sys_st\<close>: the memory, saved registers
  and descriptors of the running process. SysProps shows that the checks of argint, argptr and argstr keep the
  kernel inside the memory of the process, and, in the locale \<open>quiet\<close> for drivers, devices and pipes that leave the
  count of operations alone (interpreted on both drivers), that every call ends the transactions it begins.

  \<^bold>\<open>Processes.\<close> Spinlock has spinlock.c, once as routines and once as a step relation in which every access
  of every CPU is a step. Proc has proc.c: one definition per critical section of ptable.lock. ProcSteps
  is the transition system of any number of CPUs, timer ticks and system calls over these sections, with
  its invariants; ProcTimes its runs from boot and the accounting; ProcProps the properties and a concrete
  run. Pipe does the same for pipe.c, whose two counters wrap around.

  \<^bold>\<open>Memory.\<close> Kalloc has kalloc.c with the free list threaded through the free pages, Vm vm.c with page tables
  as words in those pages. VmProps specifies walkpgdir, mappages, deallocuvm and freevm; VmSpace setupkvm,
  allocuvm and copyuvm: no page is lost or shared, also when memory runs out half way.

  \<^bold>\<open>User programs.\<close> Strings has string.c, ulib.c and printf.c; Sh the shell with its parser on pointers into the
  line and runcmd as the programs it starts and the descriptors they get; Grep grep.c, wc.c and cat.c for reads
  of any sizes. QuickSort (src/ass4/Q1) turns the three sorts into trees of memory accesses, runs them in
  any interleaving, and shows that disjoint footprints make every interleaving agree. Kitchen (src/ass4/Q2)
  and Cabs (src/ass4/Q3) are step relations of the threads, with what their shared flags do and do not ensure.

  \<^bold>\<open>Fuel and bounds.\<close> The searches along the ring of bio.c have fuel \<open>NBUF\<close>, the number of buffers, which is
  the length of the ring by its invariant. The loops of vm.c over pages have fuel for the \<open>2 ^ 20\<close> pages of an address
  space, more than any of them visits; running out is \<open>Hang\<close>, and the properties show that it does not
  happen. The other loops recurse on a list of indexes or have a termination proof: the parser and namex on what
  is left of the input, readi, writei and filewrite on the bytes left, freerange on the addresses
  left.

  \<^bold>\<open>Not modelled.\<close> What is machine code or talks to devices: bootmain.c, main.c, mp.c, lapic.c, ioapic.c,
  picirq.c, kbd.c, uart.c, console.c, x86.h, seginit and switchkvm of vm.c, ideinit, and trap.c beyond the timer
  tick. sysproc.c, which passes arguments on to the routines of proc.c, save sys_sleep's test, and exec.c; the table of
  syscall and the routines pipealloc and exec are arguments in Syscall.
  mkfs.c, which runs on the host, the allocator umalloc.c, the tests usertests.c, stressfs.c and
  forktest.c, and the small commands around single system calls. Printing is left out except in printf.c, and
  so is debugging output (procdump, cprintf). fork and pthread_create do not fail in QuickSort, and malloc does not in Sh.
\<close>

end
